(* ===== verification/Prelude.thy ===== *)
theory Prelude
  imports Main "HOL-Library.Word"
begin

text \<open>
  Shared vocabulary of the development.  The Rust code is compiled in release mode
  (\<^verbatim>\<open>MODE := release\<close> in os/Makefile), so \<open>u32\<close>/\<open>u64\<close> arithmetic wraps (words of
  HOL-Library.Word) while \<open>assert!\<close>, slice indexing, \<open>unwrap\<close> and \<open>panic!\<close> stop the kernel.
  A computation that may stop is a value of type \<open>res\<close>; a computation that also reads and
  writes state is a command \<open>('s, 'a) cmd\<close>.  The theory gives the sequencing combinators, a
  total-correctness judgement \<open>runs\<close> with its rules (collection \<open>runs_rules\<close>), and the facts
  on lists and words that the component theories share.
\<close>

section \<open>Machine types\<close>

type_synonym u8 = "8 word"
type_synonym u32 = "32 word"
type_synonym u64 = "64 word"
type_synonym usize = nat
type_synonym bytes = "8 word list"

text \<open>\<open>usize\<close> is 64 bits wide.  Most \<open>usize\<close> values are counts and indices that cannot leave
  the range and are plain \<open>nat\<close>; where the source adds or subtracts without a guard the
  wrap-around of the release build is written out with these two functions.\<close>

definition USIZE_LIMIT :: nat where
  "USIZE_LIMIT = 2 ^ 64"

definition usize_add :: "usize \<Rightarrow> usize \<Rightarrow> usize" where
  "usize_add a b = (a + b) mod USIZE_LIMIT"

definition usize_sub :: "usize \<Rightarrow> usize \<Rightarrow> usize" where
  "usize_sub a b = (a + USIZE_LIMIT - b) mod USIZE_LIMIT"

section \<open>Panics\<close>

text \<open>The ways a computation stops short.  \<open>Undefined_behaviour\<close> marks what Rust leaves undefined,
  \<open>Deadlock\<close> a lock taken twice; \<open>Data_abort\<close> is an access to an unmapped or read-only address, for which the
  trap handler kills the running task.\<close>

datatype panic =
    Assert_failed
  | Index_out_of_range
  | Unwrap_none
  | Explicit_panic
  | Undefined_behaviour
  | Deadlock
  | Device_error
  | Data_abort

datatype 'a res = Ok 'a | Panic panic

fun bind_res :: "'a res \<Rightarrow> ('a \<Rightarrow> 'b res) \<Rightarrow> 'b res" where
  "bind_res (Ok x) f = f x"
| "bind_res (Panic p) f = Panic p"

definition assert_res :: "bool \<Rightarrow> unit res" where
  "assert_res b = (if b then Ok () else Panic Assert_failed)"

definition unwrap :: "'a option \<Rightarrow> 'a res" where
  "unwrap x = (case x of Some a \<Rightarrow> Ok a | None \<Rightarrow> Panic Unwrap_none)"

definition index_res :: "'a list \<Rightarrow> nat \<Rightarrow> 'a res" where
  "index_res xs i = (if i < length xs then Ok (xs ! i) else Panic Index_out_of_range)"

definition update_res :: "'a list \<Rightarrow> nat \<Rightarrow> 'a \<Rightarrow> 'a list res" where
  "update_res xs i x = (if i < length xs then Ok (xs[i := x]) else Panic Index_out_of_range)"

text \<open>\<open>&xs[lo..hi]\<close> and \<open>xs[lo..hi].copy_from_slice(ys)\<close>.\<close>

definition slice_res :: "'a list \<Rightarrow> nat \<Rightarrow> nat \<Rightarrow> 'a list res" where
  "slice_res xs lo hi =
     (if lo \<le> hi \<and> hi \<le> length xs then Ok (take (hi - lo) (drop lo xs))
      else Panic Index_out_of_range)"

definition overwrite :: "'a list \<Rightarrow> nat \<Rightarrow> 'a list \<Rightarrow> 'a list" where
  "overwrite xs lo ys = take lo xs @ ys @ drop (lo + length ys) xs"

definition copy_slice_res :: "'a list \<Rightarrow> nat \<Rightarrow> nat \<Rightarrow> 'a list \<Rightarrow> 'a list res" where
  "copy_slice_res xs lo hi ys =
     (if lo \<le> hi \<and> hi \<le> length xs then
        (if length ys = hi - lo then Ok (overwrite xs lo ys) else Panic Explicit_panic)
      else Panic Index_out_of_range)"

section \<open>Commands\<close>

type_synonym ('s, 'a) cmd = "'s \<Rightarrow> ('a \<times> 's) res"

definition ret :: "'a \<Rightarrow> ('s, 'a) cmd" where
  "ret a = (\<lambda>s. Ok (a, s))"

definition bind :: "('s, 'a) cmd \<Rightarrow> ('a \<Rightarrow> ('s, 'b) cmd) \<Rightarrow> ('s, 'b) cmd" where
  "bind m f = (\<lambda>s. case m s of Ok (a, s') \<Rightarrow> f a s' | Panic p \<Rightarrow> Panic p)"

definition fail :: "panic \<Rightarrow> ('s, 'a) cmd" where
  "fail p = (\<lambda>s. Panic p)"

definition lift :: "'a res \<Rightarrow> ('s, 'a) cmd" where
  "lift r = (\<lambda>s. case r of Ok a \<Rightarrow> Ok (a, s) | Panic p \<Rightarrow> Panic p)"

definition assert_cmd :: "bool \<Rightarrow> ('s, unit) cmd" where
  "assert_cmd b = (if b then ret () else fail Assert_failed)"

fun for_each :: "'x list \<Rightarrow> ('x \<Rightarrow> ('s, unit) cmd) \<Rightarrow> ('s, unit) cmd" where
  "for_each [] body = ret ()"
| "for_each (x # xs) body = bind (body x) (\<lambda>_. for_each xs body)"

text \<open>Index of the first element with a property: \<open>iter().enumerate().find(..)\<close>.\<close>

fun find_index :: "('a \<Rightarrow> bool) \<Rightarrow> 'a list \<Rightarrow> nat option" where
  "find_index P [] = None"
| "find_index P (x # xs) = (if P x then Some 0 else map_option Suc (find_index P xs))"

text \<open>Total correctness of a command from one state: it does not stop and its result
  satisfies the postcondition.\<close>

definition runs :: "('s, 'a) cmd \<Rightarrow> 's \<Rightarrow> ('a \<Rightarrow> 's \<Rightarrow> bool) \<Rightarrow> bool" where
  "runs m s Q = (case m s of Ok (a, s') \<Rightarrow> Q a s' | Panic p \<Rightarrow> False)"

named_theorems runs_rules
named_theorems cmd_defs

section \<open>Facts on commands\<close>

lemma usize_add_small [simp]: "a + b < USIZE_LIMIT \<Longrightarrow> usize_add a b = a + b"
  by (simp add: usize_add_def)

lemma usize_sub_le [simp]: "b \<le> a \<Longrightarrow> a < USIZE_LIMIT \<Longrightarrow> usize_sub a b = a - b"
  by (simp add: usize_sub_def flip: Nat.add_diff_assoc2)

declare bind_def [cmd_defs] ret_def [cmd_defs] fail_def [cmd_defs] lift_def [cmd_defs]
  assert_cmd_def [cmd_defs]

lemma bind_res_eq_Ok: "bind_res m f = Ok y \<longleftrightarrow> (\<exists>x. m = Ok x \<and> f x = Ok y)"
  by (cases m) auto

lemma bind_ret [simp]: "bind (ret a) f = f a"
  by (simp add: bind_def ret_def)

lemma ret_bind [simp]: "bind m ret = m"
  by (rule ext) (simp add: bind_def ret_def split: res.splits prod.splits)

lemma bind_assoc: "bind (bind m f) g = bind m (\<lambda>a. bind (f a) g)"
  by (rule ext) (simp add: bind_def split: res.splits prod.splits)

lemma runs_iff: "runs m s Q \<longleftrightarrow> (\<exists>a s'. m s = Ok (a, s') \<and> Q a s')"
  by (auto simp: runs_def split: res.splits prod.splits)

lemma runs_ret [runs_rules, simp]: "runs (ret a) s Q \<longleftrightarrow> Q a s"
  by (simp add: runs_def ret_def)

lemma runs_fail [simp]: "\<not> runs (fail p) s Q"
  by (simp add: runs_def fail_def)

lemma runs_bind: "runs (bind m f) s Q \<longleftrightarrow> runs m s (\<lambda>a s'. runs (f a) s' Q)"
  by (simp add: runs_def bind_def split: res.splits prod.splits)

lemma runs_lift: "runs (lift r) s Q \<longleftrightarrow> (\<exists>a. r = Ok a \<and> Q a s)"
  by (cases r) (auto simp: runs_def lift_def)

lemma runs_assert: "runs (assert_cmd b) s Q \<longleftrightarrow> b \<and> Q () s"
  by (simp add: assert_cmd_def)

lemma runs_mono: "runs m s Q \<Longrightarrow> (\<And>a s'. Q a s' \<Longrightarrow> R a s') \<Longrightarrow> runs m s R"
  by (auto simp: runs_iff)

lemma bind_cong [fundef_cong]:
  "m = m' \<Longrightarrow> (\<And>a s s'. m' s = Ok (a, s') \<Longrightarrow> f a s' = f' a s') \<Longrightarrow> bind m f = bind m' f'"
  by (rule ext) (simp add: bind_def split: res.splits prod.splits)

lemma lift_Ok [simp]: "lift (Ok a) = ret a"
  by (simp add: lift_def ret_def)

lemma lift_Panic [simp]: "lift (Panic p) = fail p"
  by (simp add: lift_def fail_def)

lemma assert_cmd_True [simp]: "assert_cmd True = ret ()"
  by (simp add: assert_cmd_def)

section \<open>Facts on lists\<close>

lemma length_overwrite [simp]: "lo + length ys \<le> length xs \<Longrightarrow> length (overwrite xs lo ys) = length xs"
  by (simp add: overwrite_def)

lemma nth_overwrite:
  "lo + length ys \<le> length xs \<Longrightarrow> i < length xs \<Longrightarrow>
   overwrite xs lo ys ! i = (if lo \<le> i \<and> i < lo + length ys then ys ! (i - lo) else xs ! i)"
  by (cases "i < lo"; cases "i < lo + length ys")
    (simp_all add: overwrite_def nth_append less_diff_conv2 not_less)

lemma overwrite_Nil [simp]: "overwrite xs lo [] = xs"
  by (simp add: overwrite_def)

lemma overwrite_whole: "length ys = length xs \<Longrightarrow> overwrite xs 0 ys = ys"
  by (simp add: overwrite_def)

lemma find_index_None: "find_index P xs = None \<longleftrightarrow> (\<forall>x\<in>set xs. \<not> P x)"
  by (induction xs) auto

lemma find_index_SomeD:
  "find_index P xs = Some i \<Longrightarrow> i < length xs \<and> P (xs ! i) \<and> (\<forall>j<i. \<not> P (xs ! j))"
proof (induction xs arbitrary: i)
  case Nil
  then show ?case by simp
next
  case (Cons x xs)
  show ?case
  proof (cases "P x")
    case True
    with Cons.prems show ?thesis by simp
  next
    case False
    with Cons.prems obtain k where k: "find_index P xs = Some k" "i = Suc k" by auto
    from Cons.IH [OF k(1)] False show ?thesis by (simp add: k(2) All_less_Suc2)
  qed
qed

lemma find_index_Some:
  "find_index P xs = Some i \<longleftrightarrow> i < length xs \<and> P (xs ! i) \<and> (\<forall>j<i. \<not> P (xs ! j))"
  (is "?L \<longleftrightarrow> ?R")
proof
  show "?L \<Longrightarrow> ?R" by (rule find_index_SomeD)
next
  assume R: ?R
  then have "find_index P xs \<noteq> None" by (metis find_index_None nth_mem)
  then obtain k where k: "find_index P xs = Some k" by auto
  note D = find_index_SomeD [OF this]
  from R D have "\<not> k < i" and "\<not> i < k" by metis+
  then have "k = i" by simp
  with k show ?L by simp
qed

lemma find_index_less: "find_index P xs = Some i \<Longrightarrow> i < length xs"
  by (simp add: find_index_Some)

end
