(* ===== verification/Bytes.thy ===== *)
theory Bytes
  imports Prelude
begin

text \<open>
  Little-endian byte layouts.  easy-fs and the page-table code cast raw bytes to
  \<open>u32\<close>/\<open>u64\<close> values and \<open>repr(C)\<close> structs (\<open>BlockCache::get_ref\<close>,
  \<open>BlockCache::get_mut\<close> in src/easy-fs/src/block_cache.rs, \<open>table_of\<close> in
  src/os/src/mm/page_table.rs).  On AArch64 those casts read little-endian bytes; the
  functions below write the casts out, and the lemmas are the round trips that every struct
  layout of the development uses.
\<close>

section \<open>Words as bytes\<close>

unbundle bit_operations_syntax

fun le_bytes :: "nat \<Rightarrow> 'a::len word \<Rightarrow> bytes" where
  "le_bytes 0 w = []"
| "le_bytes (Suc n) w = ucast w # le_bytes n (drop_bit 8 w)"

fun le_word :: "bytes \<Rightarrow> 'a::len word" where
  "le_word [] = 0"
| "le_word (b # bs) = ucast b OR push_bit 8 (le_word bs)"

definition u32_bytes :: "u32 \<Rightarrow> bytes" where
  "u32_bytes w = le_bytes 4 w"

definition u64_bytes :: "u64 \<Rightarrow> bytes" where
  "u64_bytes w = le_bytes 8 w"

text \<open>An array of \<open>n\<close>-byte elements: the elements' bytes one after the other.\<close>

fun chunks :: "nat \<Rightarrow> nat \<Rightarrow> 'b list \<Rightarrow> 'b list list" where
  "chunks n 0 bs = []"
| "chunks n (Suc k) bs = take n bs # chunks n k (drop n bs)"

definition u32s_bytes :: "u32 list \<Rightarrow> bytes" where
  "u32s_bytes ws = concat (map u32_bytes ws)"

definition bytes_u32s :: "nat \<Rightarrow> bytes \<Rightarrow> u32 list" where
  "bytes_u32s k bs = map le_word (chunks 4 k bs)"

definition u64s_bytes :: "u64 list \<Rightarrow> bytes" where
  "u64s_bytes ws = concat (map u64_bytes ws)"

definition bytes_u64s :: "nat \<Rightarrow> bytes \<Rightarrow> u64 list" where
  "bytes_u64s k bs = map le_word (chunks 8 k bs)"

section \<open>Round trips\<close>

lemma le_word_zero [simp]: "le_word (replicate n 0) = (0 :: 'a::len word)"
  by (induction n) simp_all

lemma length_le_bytes [simp]: "length (le_bytes n w) = n"
  by (induction n arbitrary: w) auto

lemma le_word_low:
  "i < 8 \<Longrightarrow> bit (le_word (b # bs) :: 'a::len word) i \<longleftrightarrow> i < LENGTH('a) \<and> bit b i"
  by (simp add: bit_or_iff bit_ucast_iff bit_push_bit_iff)

lemma le_word_high:
  "bit (le_word (b # bs) :: 'a::len word) (8 + i) \<longleftrightarrow>
     8 + i < LENGTH('a) \<and> bit (le_word bs :: 'a word) i"
  using bit_imp_le_length[of b "8+i"] by (auto simp add: bit_or_iff bit_ucast_iff bit_push_bit_iff)

lemma bit_le_word:
  "bit (le_word bs :: 'a::len word) i \<longleftrightarrow>
     i < LENGTH('a) \<and> i < 8 * length bs \<and> bit (bs ! (i div 8)) (i mod 8)"
proof (induction bs arbitrary: i)
  case Nil
  show ?case by simp
next
  case (Cons b bs)
  show ?case
  proof (cases "i < 8")
    case True
    then show ?thesis
      by (simp add: le_word_low del: le_word.simps)
  next
    case False
    then obtain k where k: "i = 8 + k" using le_Suc_ex not_less by blast
    have "(8 + k) div 8 = Suc (k div 8)" and "(8 + k) mod 8 = k mod 8" by simp_all
    then show ?thesis
      by (auto simp: k le_word_high Cons.IH simp del: le_word.simps)
  qed
qed

lemma nth_le_bytes: "i < n \<Longrightarrow> le_bytes n w ! i = ucast (drop_bit (8 * i) w)"
proof (induction n arbitrary: w i)
  case 0
  then show ?case by simp
next
  case (Suc n)
  then show ?case
    by (cases i) (simp_all add: algebra_simps)
qed

lemma le_word_le_bytes:
  assumes "LENGTH('a) \<le> 8 * n"
  shows "le_word (le_bytes n (w :: 'a::len word)) = w"
proof (rule bit_word_eqI)
  fix i
  assume i: "i < LENGTH('a)"
  with assms have "i div 8 < n" by (simp add: less_mult_imp_div_less mult.commute)
  then show "bit (le_word (le_bytes n w) :: 'a word) i = bit w i"
    using i assms by (simp add: bit_le_word nth_le_bytes bit_ucast_iff bit_drop_bit_eq)
qed

lemma le_bytes_le_word:
  assumes "8 * length bs \<le> LENGTH('a)"
  shows "le_bytes (length bs) (le_word bs :: 'a::len word) = bs"
proof (rule nth_equalityI)
  show "length (le_bytes (length bs) (le_word bs :: 'a word)) = length bs" by simp
next
  fix i
  assume "i < length (le_bytes (length bs) (le_word bs :: 'a word))"
  then have i: "i < length bs" by simp
  show "le_bytes (length bs) (le_word bs :: 'a word) ! i = bs ! i"
  proof (rule bit_word_eqI)
    fix j
    assume j: "j < LENGTH(8)"
    then have "8 * i + j < 8 * length bs" using i by simp
    then show "bit (le_bytes (length bs) (le_word bs :: 'a word) ! i) j = bit (bs ! i) j"
      using i j assms by (simp add: nth_le_bytes bit_ucast_iff bit_drop_bit_eq bit_le_word)
  qed
qed

lemma length_u32_bytes [simp]: "length (u32_bytes w) = 4"
  by (simp add: u32_bytes_def)

lemma length_u64_bytes [simp]: "length (u64_bytes w) = 8"
  by (simp add: u64_bytes_def)

lemma le_word_u32_bytes [simp]: "le_word (u32_bytes w) = w"
  by (simp add: u32_bytes_def le_word_le_bytes)

lemma le_word_u64_bytes [simp]: "le_word (u64_bytes w) = w"
  by (simp add: u64_bytes_def le_word_le_bytes)

lemma u32_bytes_le_word: "length bs = 4 \<Longrightarrow> u32_bytes (le_word bs) = bs"
  using le_bytes_le_word [of bs, where 'a = 32] by (simp add: u32_bytes_def)

lemma u64_bytes_le_word: "length bs = 8 \<Longrightarrow> u64_bytes (le_word bs) = bs"
  using le_bytes_le_word [of bs, where 'a = 64] by (simp add: u64_bytes_def)

section \<open>Arrays\<close>

lemma length_chunks [simp]: "length (chunks n k bs) = k"
  by (induction k arbitrary: bs) auto

lemma chunks_concat:
  "(\<forall>x\<in>set xs. length x = n) \<Longrightarrow> length xs = k \<Longrightarrow> chunks n k (concat xs @ rest) = xs"
proof (induction xs arbitrary: k)
  case Nil
  then show ?case by simp
next
  case (Cons x xs)
  then show ?case by (cases k) auto
qed

lemma concat_chunks: "length bs = n * k \<Longrightarrow> concat (chunks n k bs) = bs"
proof (induction k arbitrary: bs)
  case 0
  then show ?case by simp
next
  case (Suc k)
  then show ?case by simp
qed

lemma nth_chunks: "i < k \<Longrightarrow> chunks n k bs ! i = take n (drop (n * i) bs)"
proof (induction k arbitrary: bs i)
  case 0
  then show ?case by simp
next
  case (Suc k)
  then show ?case by (cases i) (simp_all add: algebra_simps)
qed

lemma length_chunk: "x \<in> set (chunks n k bs) \<Longrightarrow> length bs = n * k \<Longrightarrow> length x = n"
  by (induction k arbitrary: bs) auto

lemma length_u32s_bytes [simp]: "length (u32s_bytes ws) = 4 * length ws"
  by (induction ws) (simp_all add: u32s_bytes_def)

lemma length_u64s_bytes [simp]: "length (u64s_bytes ws) = 8 * length ws"
  by (induction ws) (simp_all add: u64s_bytes_def)

lemma length_bytes_u32s [simp]: "length (bytes_u32s k bs) = k"
  by (simp add: bytes_u32s_def)

lemma length_bytes_u64s [simp]: "length (bytes_u64s k bs) = k"
  by (simp add: bytes_u64s_def)

lemma bytes_u32s_u32s_bytes:
  "length ws = k \<Longrightarrow> bytes_u32s k (u32s_bytes ws @ rest) = ws"
  by (simp add: bytes_u32s_def u32s_bytes_def chunks_concat o_def)

lemma bytes_u64s_u64s_bytes:
  "length ws = k \<Longrightarrow> bytes_u64s k (u64s_bytes ws @ rest) = ws"
  by (simp add: bytes_u64s_def u64s_bytes_def chunks_concat o_def)

lemma u32s_bytes_bytes_u32s: "length bs = 4 * k \<Longrightarrow> u32s_bytes (bytes_u32s k bs) = bs"
  by (simp add: bytes_u32s_def u32s_bytes_def o_def u32_bytes_le_word length_chunk concat_chunks
      cong: map_cong)

lemma u64s_bytes_bytes_u64s: "length bs = 8 * k \<Longrightarrow> u64s_bytes (bytes_u64s k bs) = bs"
  by (simp add: bytes_u64s_def u64s_bytes_def o_def u64_bytes_le_word length_chunk concat_chunks
      cong: map_cong)

lemmas bytes_roundtrips =
  bytes_u32s_u32s_bytes [where rest = "[]", simplified]
  bytes_u64s_u64s_bytes [where rest = "[]", simplified]
  u32s_bytes_bytes_u32s u64s_bytes_bytes_u64s

end
