(* ===== verification/Allocator.thy ===== *)
theory Allocator
  imports Prelude
begin

text \<open>
  \<open>FreeListAllocator\<close> of src/os/src/utils/allocator.rs, the allocator behind the physical
  frame allocator.  The \<open>Vec\<close> \<open>free_list\<close> is a list whose last element is its top.  The
  locale \<open>id_allocator\<close> is the contract its clients use: the live values, the pool they come
  from, and what \<open>alloc\<close> and \<open>dealloc\<close> do to them.
\<close>

section \<open>Model\<close>

record FreeListAllocator =
  range_start :: usize
  range_end :: usize
  next_available :: usize
  free_list :: "usize list"

definition fla_empty :: FreeListAllocator where
  "fla_empty = \<lparr>range_start = 0, range_end = 0, next_available = 0, free_list = []\<rparr>"

definition fla_init :: "FreeListAllocator \<Rightarrow> usize \<Rightarrow> usize \<Rightarrow> FreeListAllocator" where
  "fla_init a lo hi = a\<lparr>next_available := lo, range_start := lo, range_end := hi\<rparr>"

definition fla_available_space :: "FreeListAllocator \<Rightarrow> usize" where
  "fla_available_space a =
     usize_sub (usize_add (length (free_list a)) (range_end a)) (next_available a)"

definition fla_alloc :: "FreeListAllocator \<Rightarrow> usize option \<times> FreeListAllocator" where
  "fla_alloc a =
     (if free_list a \<noteq> [] then
        (Some (last (free_list a)), a\<lparr>free_list := butlast (free_list a)\<rparr>)
      else if next_available a \<ge> range_end a then (None, a)
      else (Some (next_available a), a\<lparr>next_available := next_available a + 1\<rparr>))"

definition fla_dealloc :: "FreeListAllocator \<Rightarrow> usize \<Rightarrow> FreeListAllocator res" where
  "fla_dealloc a value =
     (if \<not> value \<ge> range_start a then Panic Assert_failed
      else if \<not> value < next_available a then Panic Assert_failed
      else if value \<in> set (free_list a) then Panic Assert_failed
      else Ok (a\<lparr>free_list := free_list a @ [value]\<rparr>))"

text \<open>What the allocator promises is stated over these: the values handed out and not given
  back, the values it may hand out, and the representation invariant.\<close>

definition fla_live :: "FreeListAllocator \<Rightarrow> usize set" where
  "fla_live a = {range_start a..<next_available a} - set (free_list a)"

definition fla_pool :: "FreeListAllocator \<Rightarrow> usize set" where
  "fla_pool a = {range_start a..<range_end a}"

definition fla_ok :: "FreeListAllocator \<Rightarrow> bool" where
  "fla_ok a \<longleftrightarrow>
     range_start a \<le> next_available a \<and> next_available a \<le> range_end a \<and>
     distinct (free_list a) \<and> set (free_list a) \<subseteq> {range_start a..<next_available a}"

text \<open>The histories of an allocator initialised with \<open>lo..hi\<close>: \<open>fla_history lo hi L a\<close> says
  that some sequence of \<open>alloc\<close> and \<open>dealloc\<close> calls leads to \<open>a\<close>, and that \<open>L\<close> holds the
  values returned by \<open>alloc\<close> and not passed back to \<open>dealloc\<close> since.  \<open>L\<close> is read off the
  calls alone, not off the allocator's fields.\<close>

inductive fla_history :: "usize \<Rightarrow> usize \<Rightarrow> usize set \<Rightarrow> FreeListAllocator \<Rightarrow> bool"
  for lo hi where
  hist_init: "fla_history lo hi {} (fla_init fla_empty lo hi)"
| hist_alloc: "fla_history lo hi L a \<Longrightarrow> fla_alloc a = (Some v, a') \<Longrightarrow>
    fla_history lo hi (insert v L) a'"
| hist_dealloc: "fla_history lo hi L a \<Longrightarrow> fla_dealloc a v = Ok a' \<Longrightarrow>
    fla_history lo hi (L - {v}) a'"

section \<open>The contract of an allocator\<close>

locale id_allocator =
  fixes alloc :: "'s \<Rightarrow> nat option \<times> 's"
    and dealloc :: "'s \<Rightarrow> nat \<Rightarrow> 's res"
    and live :: "'s \<Rightarrow> nat set"
    and pool :: "'s \<Rightarrow> nat set"
    and ok :: "'s \<Rightarrow> bool"
  assumes finite_pool: "finite (pool s)"
    and live_pool: "ok s \<Longrightarrow> live s \<subseteq> pool s"
    and alloc_Some: "ok s \<Longrightarrow> alloc s = (Some v, s') \<Longrightarrow>
      v \<in> pool s \<and> v \<notin> live s \<and> live s' = insert v (live s) \<and> pool s' = pool s \<and> ok s'"
    and alloc_None: "ok s \<Longrightarrow> alloc s = (None, s') \<Longrightarrow> s' = s \<and> live s = pool s"
    and dealloc_live: "ok s \<Longrightarrow> v \<in> live s \<Longrightarrow>
      \<exists>s'. dealloc s v = Ok s' \<and> live s' = live s - {v} \<and> pool s' = pool s \<and> ok s'"
    and dealloc_dead: "ok s \<Longrightarrow> v \<notin> live s \<Longrightarrow> dealloc s v = Panic Assert_failed"
begin

lemma alloc_succeeds:
  assumes "ok s" and "card (live s) < card (pool s)"
  obtains v s' where "alloc s = (Some v, s')"
proof -
  obtain r s' where r: "alloc s = (r, s')" by (cases "alloc s")
  have "r \<noteq> None"
  proof
    assume "r = None"
    with r have "alloc s = (None, s')" by simp
    with alloc_None [OF assms(1)] assms(2) show False by simp
  qed
  with r that show thesis by auto
qed

lemma dealloc_alloc:
  assumes "ok s" and "alloc s = (Some v, s')"
  shows "\<exists>s''. dealloc s' v = Ok s'' \<and> ok s'' \<and> live s'' = live s \<and> pool s'' = pool s"
proof -
  from alloc_Some [OF assms] have "ok s'" "v \<in> live s'" "live s' = insert v (live s)"
    "v \<notin> live s" "pool s' = pool s" by auto
  with dealloc_live [of s' v] show ?thesis by auto
qed

lemma double_free:
  assumes "ok s" and "dealloc s v = Ok s'"
  shows "dealloc s' v = Panic Assert_failed"
proof -
  have "v \<in> live s"
    using assms dealloc_dead by fastforce
  from dealloc_live [OF assms(1) this] assms(2) have "ok s'" "v \<notin> live s'" by auto
  then show ?thesis by (rule dealloc_dead)
qed

end

section \<open>The free-list allocator keeps the contract\<close>

lemma fla_ok_init: "lo \<le> hi \<Longrightarrow> fla_ok (fla_init fla_empty lo hi)"
  by (simp add: fla_ok_def fla_init_def fla_empty_def)

lemma fla_live_init: "fla_live (fla_init fla_empty lo hi) = {}"
  by (simp add: fla_live_def fla_init_def fla_empty_def)

lemma fla_pool_init [simp]: "fla_pool (fla_init a lo hi) = {lo..<hi}"
  by (simp add: fla_pool_def fla_init_def)

lemma set_butlast_distinct: "distinct xs \<Longrightarrow> xs \<noteq> [] \<Longrightarrow> set (butlast xs) = set xs - {last xs}"
  by (cases xs rule: rev_cases) auto

lemma fla_alloc_Some:
  assumes "fla_ok a" and "fla_alloc a = (Some v, a')"
  shows "v \<in> fla_pool a \<and> v \<notin> fla_live a \<and> fla_live a' = insert v (fla_live a) \<and>
    fla_pool a' = fla_pool a \<and> fla_ok a'"
proof (cases "free_list a = []")
  case True
  with assms show ?thesis
    by (auto simp: fla_alloc_def fla_ok_def fla_live_def fla_pool_def split: if_splits)
next
  case False
  with assms have v: "v = last (free_list a)" and a': "a' = a\<lparr>free_list := butlast (free_list a)\<rparr>"
    by (auto simp: fla_alloc_def)
  have "v \<in> set (free_list a)" using False v by simp
  moreover have "set (butlast (free_list a)) = set (free_list a) - {v}"
    using assms(1) False v by (simp add: set_butlast_distinct fla_ok_def)
  ultimately show ?thesis
    using assms(1) unfolding a' fla_ok_def fla_live_def fla_pool_def
    by (auto simp: distinct_butlast)
qed

lemma fla_dealloc_live:
  assumes "fla_ok a" and "v \<in> fla_live a"
  shows "\<exists>a'. fla_dealloc a v = Ok a' \<and> fla_live a' = fla_live a - {v} \<and>
    fla_pool a' = fla_pool a \<and> fla_ok a'"
  using assms by (auto simp: fla_dealloc_def fla_ok_def fla_live_def fla_pool_def)

interpretation fla: id_allocator fla_alloc fla_dealloc fla_live fla_pool fla_ok
proof unfold_locales
  fix s :: FreeListAllocator
  show "finite (fla_pool s)" by (simp add: fla_pool_def)
next
  fix s
  assume "fla_ok s"
  then show "fla_live s \<subseteq> fla_pool s" by (auto simp: fla_ok_def fla_live_def fla_pool_def)
next
  fix s v s'
  assume "fla_ok s" and "fla_alloc s = (Some v, s')"
  then show "v \<in> fla_pool s \<and> v \<notin> fla_live s \<and> fla_live s' = insert v (fla_live s) \<and>
    fla_pool s' = fla_pool s \<and> fla_ok s'" by (rule fla_alloc_Some)
next
  fix s s'
  assume "fla_ok s" and "fla_alloc s = (None, s')"
  then show "s' = s \<and> fla_live s = fla_pool s"
    by (auto simp: fla_alloc_def fla_ok_def fla_live_def fla_pool_def split: if_splits)
next
  fix s v
  assume "fla_ok s" and "v \<in> fla_live s"
  then show "\<exists>s'. fla_dealloc s v = Ok s' \<and> fla_live s' = fla_live s - {v} \<and>
    fla_pool s' = fla_pool s \<and> fla_ok s'" by (rule fla_dealloc_live)
next
  fix s v
  assume "fla_ok s" and "v \<notin> fla_live s"
  then show "fla_dealloc s v = Panic Assert_failed"
    by (auto simp: fla_dealloc_def fla_ok_def fla_live_def)
qed

lemma fla_available_space_card:
  assumes "fla_ok a" and "length (free_list a) + range_end a < USIZE_LIMIT"
  shows "fla_available_space a = card (fla_pool a) - card (fla_live a)"
proof -
  have "card (fla_live a) = (next_available a - range_start a) - length (free_list a)"
    using assms(1) by (simp add: fla_live_def fla_ok_def card_Diff_subset distinct_card)
  moreover have "length (free_list a) \<le> next_available a - range_start a"
    using assms(1) card_mono [of "{range_start a..<next_available a}" "set (free_list a)"]
    by (simp add: fla_ok_def distinct_card)
  moreover have "range_start a \<le> next_available a" "next_available a \<le> range_end a"
    using assms(1) by (simp_all add: fla_ok_def)
  ultimately show ?thesis
    using assms(2) by (simp add: fla_available_space_def fla_pool_def)
qed

lemma fla_history_live:
  assumes "fla_history lo hi L a" and "lo \<le> hi"
  shows "fla_ok a \<and> fla_live a = L \<and> fla_pool a = {lo..<hi}"
  using assms
proof (induction rule: fla_history.induct)
  case hist_init
  then show ?case by (simp add: fla_ok_init fla_live_init)
next
  case (hist_alloc L a v a')
  then show ?case using fla.alloc_Some [of a v a'] by simp
next
  case (hist_dealloc L a v a')
  then have ok: "fla_ok a" and v: "v \<in> fla_live a"
    using fla.dealloc_dead [of a v] by (simp, force)
  from fla.dealloc_live [OF ok v] hist_dealloc show ?case by simp
qed

text \<open>C16. Over every history of calls on an allocator initialised with \<open>lo..hi\<close>: \<open>alloc\<close>
  returns a value of the range that is not live, it returns \<open>None\<close> exactly when every value of
  the range is live (no value is lost), and \<open>dealloc\<close> accepts exactly the live values and stops
  on any other (double free, never allocated, out of range).\<close>

theorem fla_history_correct:
  assumes "fla_history lo hi L a" and "lo \<le> hi"
  shows "(\<forall>v a'. fla_alloc a = (Some v, a') \<longrightarrow> v \<in> {lo..<hi} - L) \<and>
         (fst (fla_alloc a) = None \<longleftrightarrow> L = {lo..<hi}) \<and>
         (\<forall>v. (\<exists>a'. fla_dealloc a v = Ok a') \<longleftrightarrow> v \<in> L) \<and>
         (\<forall>v. v \<notin> L \<longrightarrow> fla_dealloc a v = Panic Assert_failed)"
proof -
  from fla_history_live [OF assms] have ok: "fla_ok a" and L: "fla_live a = L"
    and pool: "fla_pool a = {lo..<hi}" by auto
  have some: "v \<in> {lo..<hi} - L" if "fla_alloc a = (Some v, a')" for v a'
    using fla.alloc_Some [OF ok that] L pool by auto
  have "fst (fla_alloc a) = None \<longleftrightarrow> L = {lo..<hi}"
  proof
    assume "fst (fla_alloc a) = None"
    then have "fla_alloc a = (None, snd (fla_alloc a))" by (cases "fla_alloc a") simp
    with fla.alloc_None [OF ok] show "L = {lo..<hi}" using L pool by simp
  next
    assume full: "L = {lo..<hi}"
    show "fst (fla_alloc a) = None"
    proof (cases "fla_alloc a")
      case (Pair r a')
      with some full show ?thesis by (cases r) auto
    qed
  qed
  moreover have "fla_dealloc a v = Panic Assert_failed" if "v \<notin> L" for v
    using fla.dealloc_dead [OF ok] that L by simp
  moreover have "\<exists>a'. fla_dealloc a v = Ok a'" if "v \<in> L" for v
    using fla.dealloc_live [OF ok] that L by blast
  ultimately show ?thesis using some by (metis res.distinct(1))
qed

theorem fla_history_correct_witness:
  "\<exists>a. fla_history 5 7 {5} a \<and> fst (fla_alloc a) = Some 6 \<and> fst (fla_alloc a) \<noteq> None \<and>
     fla_dealloc a 6 = Panic Assert_failed"
proof -
  define a where "a = snd (fla_alloc (fla_init fla_empty 5 7))"
  have "fla_history 5 7 {5} a"
    using hist_alloc [OF hist_init, of 5 7 5 a] by (simp add: a_def fla_alloc_def fla_init_def fla_empty_def)
  from fla_history_correct [OF this] this show ?thesis
    by (intro exI [of _ a]) (simp add: a_def fla_alloc_def fla_init_def fla_empty_def)
qed

end
