(* ===== verification/BlockCache.thy ===== *)
theory BlockCache
  imports Bytes
begin

text \<open>
  The block cache of easy-fs (src/easy-fs/src/block_cache.rs) over a block device
  (src/easy-fs/src/block_dev.rs).  A trait object \<open>dyn BlockDevice\<close> is a record of its two
  methods, an argument of every definition, as the Rust code passes
  \<open>Arc<dyn BlockDevice>\<close> around.  The global \<open>BLOCK_CACHE_MANAGER\<close> and the device are the
  state \<open>'d world\<close>.  Every use in easy-fs has the form
  \<open>get_block_cache(id, dev).lock().read(off, f)\<close> or \<open>..modify(off, f)\<close>: the temporaries, an
  \<open>Arc\<close> and a mutex guard, live while the closure \<open>f\<close> runs, and \<open>f\<close> may access other blocks.
  \<open>cache_read\<close> and \<open>cache_modify\<close> are those two forms; a nested access to a block whose mutex
  is held spins for ever and is \<open>Panic Deadlock\<close>.

  The locale \<open>block_device\<close> states what the cache relies on of a device.  The lemmas show that
  the cache is transparent: each operation acts on the logical contents \<open>view\<close> of the blocks,
  whatever is cached, evicted or written back, and \<open>block_cache_sync_all\<close> makes the device
  equal to the view.  The judgement \<open>hoare\<close> states an operation's effect on the view, and its
  rules are how the file-system layers above use the cache.
\<close>

section \<open>Model\<close>

abbreviation BLOCK_SZ :: nat where
  "BLOCK_SZ \<equiv> 512"

abbreviation BLOCK_CACHE_SIZE :: nat where
  "BLOCK_CACHE_SIZE \<equiv> 16"

record 'd BlockDevice =
  read_block :: "'d \<Rightarrow> usize \<Rightarrow> bytes \<Rightarrow> bytes res"
  write_block :: "'d \<Rightarrow> usize \<Rightarrow> bytes \<Rightarrow> 'd res"

record BlockCache =
  cache :: bytes
  block_id :: usize
  modified :: bool

text \<open>\<open>Arc<Mutex<BlockCache>>\<close>: the shared cell with its reference count and its mutex.\<close>

record arc_cache =
  inner :: BlockCache
  strong_count :: nat
  locked :: bool

record 'd world =
  queue :: "(usize \<times> arc_cache) list"
  disk :: 'd

text \<open>A \<open>repr(C)\<close> type \<open>T\<close> seen through a reference into the cached bytes: its size, how its
  fields are read (\<open>None\<close>: the bytes are not a value of \<open>T\<close>, which is undefined behaviour) and
  how a changed value is laid out over the old bytes (padding keeps its old bytes).\<close>

record 't layout =
  size_of :: nat
  from_bytes :: "bytes \<Rightarrow> 't option"
  to_bytes :: "'t \<Rightarrow> bytes \<Rightarrow> bytes"

definition block_cache_new :: "'d BlockDevice \<Rightarrow> usize \<Rightarrow> 'd \<Rightarrow> BlockCache res" where
  "block_cache_new dev bid d =
     bind_res (read_block dev d bid (replicate BLOCK_SZ 0))
       (\<lambda>c. Ok \<lparr>cache = c, block_id = bid, modified = False\<rparr>)"

definition get_ref :: "'t layout \<Rightarrow> usize \<Rightarrow> BlockCache \<Rightarrow> 't res" where
  "get_ref lay off bc =
     (if \<not> off + size_of lay \<le> BLOCK_SZ then Panic Assert_failed
      else if \<not> off < length (cache bc) then Panic Index_out_of_range
      else case from_bytes lay (take (size_of lay) (drop off (cache bc))) of
        None \<Rightarrow> Panic Undefined_behaviour
      | Some t \<Rightarrow> Ok t)"

definition get_mut :: "'t layout \<Rightarrow> usize \<Rightarrow> BlockCache \<Rightarrow> ('t \<times> BlockCache) res" where
  "get_mut lay off bc =
     (if \<not> off + size_of lay \<le> BLOCK_SZ then Panic Assert_failed
      else if \<not> off < length (cache bc) then Panic Index_out_of_range
      else case from_bytes lay (take (size_of lay) (drop off (cache bc))) of
        None \<Rightarrow> Panic Undefined_behaviour
      | Some t \<Rightarrow> Ok (t, bc\<lparr>modified := True\<rparr>))"

text \<open>The bytes after the reference returned by \<open>get_mut\<close> has been used to store \<open>t\<close>.\<close>

definition store_mut :: "'t layout \<Rightarrow> usize \<Rightarrow> 't \<Rightarrow> BlockCache \<Rightarrow> BlockCache" where
  "store_mut lay off t bc =
     bc\<lparr>cache := overwrite (cache bc) off (to_bytes lay t (take (size_of lay) (drop off (cache bc))))\<rparr>"

definition block_cache_sync :: "'d BlockDevice \<Rightarrow> BlockCache \<Rightarrow> 'd \<Rightarrow> (BlockCache \<times> 'd) res" where
  "block_cache_sync dev bc d =
     (if modified bc then
        bind_res (write_block dev d (block_id bc) (cache bc)) (\<lambda>d'. Ok (bc\<lparr>modified := False\<rparr>, d'))
      else Ok (bc, d))"

definition block_cache_drop :: "'d BlockDevice \<Rightarrow> BlockCache \<Rightarrow> 'd \<Rightarrow> 'd res" where
  "block_cache_drop dev bc d = bind_res (block_cache_sync dev bc d) (\<lambda>(_, d'). Ok d')"

definition manager_new :: "'d \<Rightarrow> 'd world" where
  "manager_new d = \<lparr>queue = [], disk = d\<rparr>"

definition set_entry :: "usize \<Rightarrow> arc_cache \<Rightarrow> 'd world \<Rightarrow> 'd world" where
  "set_entry bid e w = w\<lparr>queue := map (\<lambda>p. if fst p = bid then (bid, e) else p) (queue w)\<rparr>"

definition evict :: "'d BlockDevice \<Rightarrow> 'd world \<Rightarrow> 'd world res" where
  "evict dev w =
     (if length (queue w) = BLOCK_CACHE_SIZE then
        (case find_index (\<lambda>p. strong_count (snd p) = 1) (queue w) of
          Some idx \<Rightarrow>
            bind_res (block_cache_drop dev (inner (snd (queue w ! idx))) (disk w))
              (\<lambda>d'. Ok \<lparr>queue = take idx (queue w) @ drop (Suc idx) (queue w), disk = d'\<rparr>)
        | None \<Rightarrow> Panic Explicit_panic)
      else Ok w)"

definition get_block_cache :: "'d BlockDevice \<Rightarrow> usize \<Rightarrow> ('d world, usize) cmd" where
  "get_block_cache dev bid w =
     (case map_of (queue w) bid of
        Some e \<Rightarrow> Ok (bid, set_entry bid (e\<lparr>strong_count := strong_count e + 1\<rparr>) w)
      | None \<Rightarrow>
          bind_res (evict dev w) (\<lambda>w1.
            bind_res (block_cache_new dev bid (disk w1)) (\<lambda>bc.
              Ok (bid, w1\<lparr>queue := queue w1 @ [(bid, \<lparr>inner = bc, strong_count = 2, locked = False\<rparr>)]\<rparr>))))"

text \<open>The handle returned by \<open>get_block_cache\<close> is the key of its entry, which cannot be evicted
  while the handle lives.\<close>

definition arc_lock :: "usize \<Rightarrow> ('d world, unit) cmd" where
  "arc_lock h w =
     (case map_of (queue w) h of
        None \<Rightarrow> Panic Undefined_behaviour
      | Some e \<Rightarrow> if locked e then Panic Deadlock else Ok ((), set_entry h (e\<lparr>locked := True\<rparr>) w))"

definition arc_release :: "usize \<Rightarrow> ('d world, unit) cmd" where
  "arc_release h w =
     (case map_of (queue w) h of
        None \<Rightarrow> Panic Undefined_behaviour
      | Some e \<Rightarrow> Ok ((), set_entry h (e\<lparr>locked := False, strong_count := strong_count e - 1\<rparr>) w))"

definition arc_read :: "usize \<Rightarrow> 't layout \<Rightarrow> usize \<Rightarrow> ('d world, 't) cmd" where
  "arc_read h lay off w =
     (case map_of (queue w) h of
        None \<Rightarrow> Panic Undefined_behaviour
      | Some e \<Rightarrow> bind_res (get_ref lay off (inner e)) (\<lambda>t. Ok (t, w)))"

definition arc_read_mut :: "usize \<Rightarrow> 't layout \<Rightarrow> usize \<Rightarrow> ('d world, 't) cmd" where
  "arc_read_mut h lay off w =
     (case map_of (queue w) h of
        None \<Rightarrow> Panic Undefined_behaviour
      | Some e \<Rightarrow> bind_res (get_mut lay off (inner e)) (\<lambda>(t, bc). Ok (t, set_entry h (e\<lparr>inner := bc\<rparr>) w)))"

definition arc_store :: "usize \<Rightarrow> 't layout \<Rightarrow> usize \<Rightarrow> 't \<Rightarrow> ('d world, unit) cmd" where
  "arc_store h lay off t w =
     (case map_of (queue w) h of
        None \<Rightarrow> Panic Undefined_behaviour
      | Some e \<Rightarrow> Ok ((), set_entry h (e\<lparr>inner := store_mut lay off t (inner e)\<rparr>) w))"

definition cache_read ::
    "'d BlockDevice \<Rightarrow> usize \<Rightarrow> usize \<Rightarrow> 't layout \<Rightarrow> ('t \<Rightarrow> ('d world, 'v) cmd) \<Rightarrow> ('d world, 'v) cmd" where
  "cache_read dev bid off lay f =
     bind (get_block_cache dev bid) (\<lambda>h.
     bind (arc_lock h) (\<lambda>_.
     bind (arc_read h lay off) (\<lambda>t.
     bind (f t) (\<lambda>v.
     bind (arc_release h) (\<lambda>_. ret v)))))"

definition cache_modify ::
    "'d BlockDevice \<Rightarrow> usize \<Rightarrow> usize \<Rightarrow> 't layout \<Rightarrow> ('t \<Rightarrow> ('d world, 'v \<times> 't) cmd) \<Rightarrow> ('d world, 'v) cmd" where
  "cache_modify dev bid off lay f =
     bind (get_block_cache dev bid) (\<lambda>h.
     bind (arc_lock h) (\<lambda>_.
     bind (arc_read_mut h lay off) (\<lambda>t.
     bind (f t) (\<lambda>(v, t').
     bind (arc_store h lay off t') (\<lambda>_.
     bind (arc_release h) (\<lambda>_. ret v))))))"

fun sync_entries :: "'d BlockDevice \<Rightarrow> (usize \<times> arc_cache) list \<Rightarrow> 'd \<Rightarrow>
    ((usize \<times> arc_cache) list \<times> 'd) res" where
  "sync_entries dev [] d = Ok ([], d)"
| "sync_entries dev ((k, e) # q) d =
     (if locked e then Panic Deadlock
      else bind_res (block_cache_sync dev (inner e) d) (\<lambda>(bc, d1).
           bind_res (sync_entries dev q d1) (\<lambda>(q', d2). Ok ((k, e\<lparr>inner := bc\<rparr>) # q', d2))))"

definition block_cache_sync_all :: "'d BlockDevice \<Rightarrow> ('d world, unit) cmd" where
  "block_cache_sync_all dev w =
     bind_res (sync_entries dev (queue w) (disk w)) (\<lambda>(q, d). Ok ((), w\<lparr>queue := q, disk := d\<rparr>))"

text \<open>The device of the packer, \<open>BlockFile\<close> of src/easy-fs-fuse/src/main.rs: a host file, its
  position set by \<open>seek\<close>.  \<open>File::read\<close> fills the buffer from the bytes after the position and
  returns how many there were; \<open>File::write\<close> writes the whole buffer, extending the file.\<close>

definition file_read :: "bytes \<Rightarrow> nat \<Rightarrow> bytes \<Rightarrow> bytes \<times> nat" where
  "file_read f pos buf = (let got = take (length buf) (drop pos f) in (overwrite buf 0 got, length got))"

definition file_write :: "bytes \<Rightarrow> nat \<Rightarrow> bytes \<Rightarrow> bytes \<times> nat" where
  "file_write f pos buf = (overwrite (f @ replicate (pos - length f) 0) pos buf, length buf)"

definition BlockFile :: "bytes BlockDevice" where
  "BlockFile = \<lparr>
     read_block = (\<lambda>f bid buf.
       let (buf', n) = file_read f (bid * BLOCK_SZ mod USIZE_LIMIT) buf
       in if n = BLOCK_SZ then Ok buf' else Panic Assert_failed),
     write_block = (\<lambda>f bid buf.
       let (f', n) = file_write f (bid * BLOCK_SZ mod USIZE_LIMIT) buf
       in if n = BLOCK_SZ then Ok f' else Panic Assert_failed)\<rparr>"

definition blockfile_ok :: "nat \<Rightarrow> bytes \<Rightarrow> bool" where
  "blockfile_ok nblk f \<longleftrightarrow> length f = nblk * BLOCK_SZ \<and> length f \<le> USIZE_LIMIT"

definition blockfile_content :: "bytes \<Rightarrow> usize \<Rightarrow> bytes" where
  "blockfile_content f bid = take BLOCK_SZ (drop (bid * BLOCK_SZ) f)"

section \<open>Logical contents\<close>

text \<open>The contents of block \<open>id\<close> as the file system sees it: the cached bytes if the block is
  cached, the device's otherwise.  \<open>pins\<close> are the blocks whose mutex is held by an enclosing
  closure.\<close>

definition view :: "nat \<Rightarrow> ('d \<Rightarrow> usize \<Rightarrow> bytes) \<Rightarrow> 'd world \<Rightarrow> usize \<Rightarrow> bytes" where
  "view nblk content w bid =
     (if bid < nblk then
        (case map_of (queue w) bid of Some e \<Rightarrow> cache (inner e) | None \<Rightarrow> content (disk w) bid)
      else [])"

definition pins :: "'d world \<Rightarrow> usize set" where
  "pins w = {bid. \<exists>e. map_of (queue w) bid = Some e \<and> locked e}"

definition entry_ok :: "nat \<Rightarrow> (usize \<Rightarrow> bytes) \<Rightarrow> usize \<Rightarrow> arc_cache \<Rightarrow> bool" where
  "entry_ok nblk c bid e \<longleftrightarrow>
     bid < nblk \<and> block_id (inner e) = bid \<and> length (cache (inner e)) = BLOCK_SZ \<and>
     (\<not> modified (inner e) \<longrightarrow> cache (inner e) = c bid) \<and>
     strong_count e = (if locked e then 2 else 1)"

definition cache_ok :: "nat \<Rightarrow> ('d \<Rightarrow> bool) \<Rightarrow> ('d \<Rightarrow> usize \<Rightarrow> bytes) \<Rightarrow> 'd world \<Rightarrow> bool" where
  "cache_ok nblk dok content w \<longleftrightarrow>
     dok (disk w) \<and> distinct (map fst (queue w)) \<and> length (queue w) \<le> BLOCK_CACHE_SIZE \<and>
     (\<forall>bid e. map_of (queue w) bid = Some e \<longrightarrow> entry_ok nblk (content (disk w)) bid e)"

text \<open>\<open>hoare V P m Q\<close>: from every cache state with logical contents \<open>V\<close> and held blocks \<open>P\<close>
  the command \<open>m\<close> returns, keeps the invariant, the held blocks and their entries, and its
  result and the new logical contents satisfy \<open>Q\<close>.\<close>

definition hoare :: "nat \<Rightarrow> ('d \<Rightarrow> bool) \<Rightarrow> ('d \<Rightarrow> usize \<Rightarrow> bytes) \<Rightarrow> (usize \<Rightarrow> bytes) \<Rightarrow> usize set \<Rightarrow>
    ('d world, 'a) cmd \<Rightarrow> ('a \<Rightarrow> (usize \<Rightarrow> bytes) \<Rightarrow> bool) \<Rightarrow> bool" where
  "hoare nblk dok content V P m Q \<longleftrightarrow>
     (\<forall>w. cache_ok nblk dok content w \<longrightarrow> view nblk content w = V \<longrightarrow> pins w = P \<longrightarrow>
        runs m w (\<lambda>a w'. cache_ok nblk dok content w' \<and> pins w' = P \<and>
          (\<forall>bid\<in>P. map_of (queue w') bid = map_of (queue w) bid) \<and> Q a (view nblk content w')))"

text \<open>\<open>stops V P m p\<close>: from every such state \<open>m\<close> stops with \<open>p\<close>.\<close>

definition stops :: "nat \<Rightarrow> ('d \<Rightarrow> bool) \<Rightarrow> ('d \<Rightarrow> usize \<Rightarrow> bytes) \<Rightarrow> (usize \<Rightarrow> bytes) \<Rightarrow> usize set \<Rightarrow>
    ('d world, 'a) cmd \<Rightarrow> panic \<Rightarrow> bool" where
  "stops nblk dok content V P m p \<longleftrightarrow>
     (\<forall>w. cache_ok nblk dok content w \<longrightarrow> view nblk content w = V \<longrightarrow> pins w = P \<longrightarrow> m w = Panic p)"

text \<open>A sequence of accesses by a client, through the cache (\<open>run_ops\<close>) and on a plain array of
  blocks (\<open>ref_ops\<close>).\<close>

datatype cache_op =
    ReadOp usize usize nat
  | WriteOp usize usize bytes
  | SyncOp

definition bytes_layout :: "nat \<Rightarrow> bytes layout" where
  "bytes_layout n = \<lparr>size_of = n, from_bytes = Some, to_bytes = (\<lambda>t _. t)\<rparr>"

fun run_op :: "'d BlockDevice \<Rightarrow> cache_op \<Rightarrow> ('d world, bytes) cmd" where
  "run_op dev (ReadOp bid off n) = cache_read dev bid off (bytes_layout n) ret"
| "run_op dev (WriteOp bid off bs) = cache_modify dev bid off (bytes_layout (length bs)) (\<lambda>_. ret ([], bs))"
| "run_op dev SyncOp = bind (block_cache_sync_all dev) (\<lambda>_. ret [])"

fun run_ops :: "'d BlockDevice \<Rightarrow> cache_op list \<Rightarrow> ('d world, bytes list) cmd" where
  "run_ops dev [] = ret []"
| "run_ops dev (op # ops) = bind (run_op dev op) (\<lambda>r. bind (run_ops dev ops) (\<lambda>rs. ret (r # rs)))"

fun ref_op :: "cache_op \<Rightarrow> (usize \<Rightarrow> bytes) \<Rightarrow> bytes \<times> (usize \<Rightarrow> bytes)" where
  "ref_op (ReadOp bid off n) V = (take n (drop off (V bid)), V)"
| "ref_op (WriteOp bid off bs) V = ([], V(bid := overwrite (V bid) off bs))"
| "ref_op SyncOp V = ([], V)"

fun ref_ops :: "cache_op list \<Rightarrow> (usize \<Rightarrow> bytes) \<Rightarrow> bytes list \<times> (usize \<Rightarrow> bytes)" where
  "ref_ops [] V = ([], V)"
| "ref_ops (op # ops) V =
     (let (r, V1) = ref_op op V; (rs, V2) = ref_ops ops V1 in (r # rs, V2))"

fun op_valid :: "nat \<Rightarrow> cache_op \<Rightarrow> bool" where
  "op_valid nblk (ReadOp bid off n) = (bid < nblk \<and> off < BLOCK_SZ \<and> off + n \<le> BLOCK_SZ)"
| "op_valid nblk (WriteOp bid off bs) = (bid < nblk \<and> off < BLOCK_SZ \<and> off + length bs \<le> BLOCK_SZ)"
| "op_valid nblk SyncOp = True"

text \<open>The state \<open>w'\<close> in which a block has been obtained from the manager and its mutex locked.\<close>

definition acquired :: "nat \<Rightarrow> ('d \<Rightarrow> bool) \<Rightarrow> ('d \<Rightarrow> usize \<Rightarrow> bytes) \<Rightarrow> 'd world \<Rightarrow> usize \<Rightarrow> 'd world \<Rightarrow> bool" where
  "acquired nblk dok content w bid w' \<longleftrightarrow>
     cache_ok nblk dok content w' \<and> view nblk content w' = view nblk content w \<and>
     pins w' = insert bid (pins w) \<and> (\<exists>e. map_of (queue w') bid = Some e \<and> locked e) \<and>
     (\<forall>b\<in>pins w. map_of (queue w') b = map_of (queue w) b)"

locale block_device =
  fixes dev :: "'d BlockDevice"
    and nblk :: nat
    and dok :: "'d \<Rightarrow> bool"
    and content :: "'d \<Rightarrow> usize \<Rightarrow> bytes"
  assumes read_ok: "dok d \<Longrightarrow> bid < nblk \<Longrightarrow> length buf = BLOCK_SZ \<Longrightarrow>
      read_block dev d bid buf = Ok (content d bid)"
    and write_ok: "dok d \<Longrightarrow> bid < nblk \<Longrightarrow> length buf = BLOCK_SZ \<Longrightarrow>
      \<exists>d'. write_block dev d bid buf = Ok d' \<and> dok d' \<and>
        (\<forall>j<nblk. content d' j = (if j = bid then buf else content d j))"
    and length_content: "dok d \<Longrightarrow> bid < nblk \<Longrightarrow> length (content d bid) = BLOCK_SZ"

section \<open>Entries of the queue\<close>

lemma map_of_map_entry:
  "map_of (map (\<lambda>p. if fst p = k then (k, e) else p) q) =
     (if k \<in> fst ` set q then (map_of q)(k \<mapsto> e) else map_of q)"
  by (induction q) (auto simp: fun_eq_iff)

lemma map_of_Some_key: "map_of q k = Some v \<Longrightarrow> k \<in> fst ` set q"
  by (metis domI dom_map_of_conv_image_fst)

lemma map_of_set_entry:
  "map_of (queue w) bid = Some e0 \<Longrightarrow> map_of (queue (set_entry bid e w)) = (map_of (queue w))(bid \<mapsto> e)"
  by (simp add: set_entry_def map_of_map_entry map_of_Some_key)

lemma keys_set_entry [simp]: "map fst (queue (set_entry bid e w)) = map fst (queue w)"
  by (simp add: set_entry_def)

lemma disk_set_entry [simp]: "disk (set_entry bid e w) = disk w"
  by (simp add: set_entry_def)

lemma length_set_entry [simp]: "length (queue (set_entry bid e w)) = length (queue w)"
  by (simp add: set_entry_def)

lemma distinct_remove_nth: "distinct xs \<Longrightarrow> distinct (take i xs @ drop (Suc i) xs)"
  by (auto dest: set_take_disj_set_drop_if_distinct [of xs i "Suc i"])

lemma map_of_remove_nth:
  assumes "distinct (map fst q)" and "i < length q"
  shows "map_of (take i q @ drop (Suc i) q) = (map_of q)(fst (q ! i) := None)"
proof -
  have q: "q = take i q @ q ! i # drop (Suc i) q"
    using assms(2) by (rule id_take_nth_drop)
  have "map_of q = map_of (drop (Suc i) q) ++ [fst (q ! i) \<mapsto> snd (q ! i)] ++ map_of (take i q)"
    by (subst q) (simp add: map_add_def fun_eq_iff split: option.splits)
  moreover from assms(1) have "distinct (map fst (take i q @ q ! i # drop (Suc i) q))"
    by (subst (asm) q)
  then have "map_of (take i q) (fst (q ! i)) = None" "map_of (drop (Suc i) q) (fst (q ! i)) = None"
    by (auto simp: map_of_eq_None_iff)
  ultimately show ?thesis
    by (auto simp: fun_eq_iff map_add_def split: option.splits)
qed

lemma map_of_nth:
  "distinct (map fst q) \<Longrightarrow> i < length q \<Longrightarrow> map_of q (fst (q ! i)) = Some (snd (q ! i))"
  by (simp add: map_of_is_SomeI)

lemma map_of_snoc: "map_of (q @ [(k, e)]) = (map_of [(k, e)]) ++ map_of q"
  by simp

lemma view_eqI:
  assumes "\<And>bid. bid < nblk \<Longrightarrow>
    (case map_of (queue w') bid of Some e \<Rightarrow> cache (inner e) | None \<Rightarrow> content (disk w') bid) =
    (case map_of (queue w) bid of Some e \<Rightarrow> cache (inner e) | None \<Rightarrow> content (disk w) bid)"
  shows "view nblk content w' = view nblk content w"
  using assms by (auto simp: view_def fun_eq_iff)

context block_device
begin

abbreviation ok where "ok \<equiv> cache_ok nblk dok content"
abbreviation vw where "vw \<equiv> view nblk content"
abbreviation hr where "hr \<equiv> hoare nblk dok content"
abbreviation acq where "acq \<equiv> acquired nblk dok content"

lemma entry_in_range: "ok w \<Longrightarrow> map_of (queue w) bid = Some e \<Longrightarrow> bid < nblk"
  by (auto simp: cache_ok_def entry_ok_def)

lemma view_cached: "ok w \<Longrightarrow> map_of (queue w) bid = Some e \<Longrightarrow> vw w bid = cache (inner e)"
  by (simp add: view_def entry_in_range)

lemma length_view: "ok w \<Longrightarrow> bid < nblk \<Longrightarrow> length (vw w bid) = BLOCK_SZ"
  by (auto simp: view_def cache_ok_def entry_ok_def length_content split: option.splits)

lemma ok_set_entry:
  assumes "ok w" and "map_of (queue w) bid = Some e0" and "entry_ok nblk (content (disk w)) bid e"
  shows "ok (set_entry bid e w)"
  using assms by (auto simp: cache_ok_def map_of_set_entry)

lemma view_set_entry:
  assumes "ok w" and "map_of (queue w) bid = Some e0"
  shows "vw (set_entry bid e w) = (vw w)(bid := cache (inner e))"
  using entry_in_range [OF assms] assms(2)
  by (auto simp: view_def fun_eq_iff map_of_set_entry split: option.splits)

lemma pins_set_entry:
  assumes "map_of (queue w) bid = Some e0"
  shows "pins (set_entry bid e w) = (if locked e then insert bid (pins w) else pins w - {bid})"
  using assms by (auto simp: pins_def map_of_set_entry split: if_splits)

lemma finite_pins: "finite (pins w)"
proof (rule finite_subset)
  show "pins w \<subseteq> fst ` set (queue w)" by (auto simp: pins_def dest: map_of_Some_key)
qed simp

lemma unlocked_entry_exists:
  assumes "ok w" and "length (queue w) = BLOCK_CACHE_SIZE" and "card (pins w) < BLOCK_CACHE_SIZE"
  shows "\<exists>p\<in>set (queue w). strong_count (snd p) = 1"
proof (rule ccontr)
  assume none: "\<not> ?thesis"
  have dist: "distinct (map fst (queue w))" using assms(1) by (simp add: cache_ok_def)
  have "fst p \<in> pins w" if p: "p \<in> set (queue w)" for p
  proof -
    from p dist have m: "map_of (queue w) (fst p) = Some (snd p)" by (simp add: map_of_is_SomeI)
    with assms(1) have "entry_ok nblk (content (disk w)) (fst p) (snd p)"
      by (simp add: cache_ok_def)
    with none p have "locked (snd p)" by (auto simp: entry_ok_def split: if_splits)
    with m show ?thesis by (auto simp: pins_def)
  qed
  then have "set (map fst (queue w)) \<subseteq> pins w" by auto
  then have "card (set (map fst (queue w))) \<le> card (pins w)"
    by (rule card_mono [OF finite_pins])
  with distinct_card [OF dist] assms(2,3) show False by simp
qed

lemma block_cache_drop_ok:
  assumes "dok d" and "entry_ok nblk (content d) bid e"
  shows "\<exists>d'. block_cache_drop dev (inner e) d = Ok d' \<and> dok d' \<and>
    (\<forall>j<nblk. content d' j = (if j = bid then cache (inner e) else content d j))"
proof (cases "modified (inner e)")
  case True
  with assms write_ok [of d bid "cache (inner e)"] show ?thesis
    by (auto simp: block_cache_drop_def block_cache_sync_def entry_ok_def)
next
  case False
  with assms show ?thesis
    by (auto simp: block_cache_drop_def block_cache_sync_def entry_ok_def)
qed

lemma entry_ok_cong:
  "(\<forall>j<nblk. j \<noteq> k \<longrightarrow> c' j = c j) \<Longrightarrow> entry_ok nblk c bid e \<Longrightarrow> bid \<noteq> k \<Longrightarrow> entry_ok nblk c' bid e"
  by (simp add: entry_ok_def)

lemma evict_ok:
  assumes "ok w" and "card (pins w) < BLOCK_CACHE_SIZE"
  shows "\<exists>w'. evict dev w = Ok w' \<and> ok w' \<and> vw w' = vw w \<and> pins w' = pins w \<and>
    length (queue w') < BLOCK_CACHE_SIZE \<and> dom (map_of (queue w')) \<subseteq> dom (map_of (queue w)) \<and>
    (\<forall>b\<in>pins w. map_of (queue w') b = map_of (queue w) b)"
proof (cases "length (queue w) = BLOCK_CACHE_SIZE")
  case False
  with assms show ?thesis by (auto simp: evict_def cache_ok_def)
next
  case True
  let ?P = "\<lambda>p. strong_count (snd p) = 1"
  from unlocked_entry_exists [OF assms(1) True assms(2)] have "find_index ?P (queue w) \<noteq> None"
    by (auto simp: find_index_None)
  then obtain i where i: "find_index ?P (queue w) = Some i" by auto
  then have il: "i < length (queue w)" and sc: "strong_count (snd (queue w ! i)) = 1"
    by (auto dest: find_index_SomeD)
  obtain k e where ke: "queue w ! i = (k, e)" by fastforce
  have dist: "distinct (map fst (queue w))" and dk: "dok (disk w)"
    using assms(1) by (auto simp: cache_ok_def)
  have mk: "map_of (queue w) k = Some e" using map_of_nth [OF dist il] ke by simp
  then have eok: "entry_ok nblk (content (disk w)) k e" using assms(1) by (simp add: cache_ok_def)
  with sc ke have nl: "\<not> locked e" by (auto simp: entry_ok_def split: if_splits)
  from block_cache_drop_ok [OF dk eok] obtain d' where
    d': "block_cache_drop dev (inner e) (disk w) = Ok d'" "dok d'"
      "\<forall>j<nblk. content d' j = (if j = k then cache (inner e) else content (disk w) j)" by auto
  define w' where "w' = \<lparr>queue = take i (queue w) @ drop (Suc i) (queue w), disk = d'\<rparr>"
  have mo: "map_of (queue w') = (map_of (queue w))(k := None)"
    using map_of_remove_nth [OF dist il] ke by (simp add: w'_def)
  have dw: "disk w' = d'" by (simp add: w'_def)
  have ev: "evict dev w = Ok w'"
    using True i ke d'(1) by (simp add: evict_def w'_def)
  have "distinct (map fst (queue w'))"
    using distinct_remove_nth [OF dist, of i] by (simp add: w'_def take_map drop_map)
  moreover have "entry_ok nblk (content (disk w')) bid e1" if "map_of (queue w') bid = Some e1" for bid e1
  proof -
    from that mo have bk: "bid \<noteq> k" and "map_of (queue w) bid = Some e1" by (auto split: if_splits)
    with assms(1) have old: "entry_ok nblk (content (disk w)) bid e1" by (simp add: cache_ok_def)
    from d'(3) have "\<forall>j<nblk. j \<noteq> k \<longrightarrow> content (disk w') j = content (disk w) j" by (simp add: w'_def)
    then show ?thesis using old bk by (rule entry_ok_cong)
  qed
  moreover have "length (queue w') < BLOCK_CACHE_SIZE" using True il by (simp add: w'_def)
  ultimately have "ok w'" using d'(2) by (simp add: cache_ok_def w'_def)
  moreover have "vw w' = vw w"
    using mk d'(3) dw by (intro view_eqI, unfold mo) (auto split: option.splits)
  moreover have "pins w' = pins w" using mk nl by (auto simp: pins_def mo)
  moreover have "dom (map_of (queue w')) \<subseteq> dom (map_of (queue w))" by (auto simp: mo)
  moreover have "\<forall>b\<in>pins w. map_of (queue w') b = map_of (queue w) b"
    using mk nl by (auto simp: pins_def mo)
  ultimately show ?thesis using ev \<open>length (queue w') < BLOCK_CACHE_SIZE\<close> by blast
qed

lemma acquire_hit:
  assumes "ok w" and "bid \<notin> pins w" and e: "map_of (queue w) bid = Some e"
  shows "\<exists>w'. bind (get_block_cache dev bid) arc_lock w = Ok ((), w') \<and> acq w bid w'"
proof -
  from e assms(2) have nl: "\<not> locked e" by (auto simp: pins_def)
  define e1 where "e1 = e\<lparr>strong_count := strong_count e + 1\<rparr>"
  define e2 where "e2 = e1\<lparr>locked := True\<rparr>"
  have inner2: "inner e2 = inner e" "locked e2" and l1: "\<not> locked e1"
    using nl by (simp_all add: e2_def e1_def)
  have eok: "entry_ok nblk (content (disk w)) bid e" using assms(1) e by (simp add: cache_ok_def)
  then have "entry_ok nblk (content (disk w)) bid e2"
    using nl by (simp add: entry_ok_def e2_def e1_def)
  then have "ok (set_entry bid e2 w)" by (rule ok_set_entry [OF assms(1) e])
  moreover have "vw (set_entry bid e2 w) = vw w"
    using view_cached [OF assms(1) e] by (simp add: view_set_entry [OF assms(1) e] inner2 fun_upd_idem)
  moreover have "pins (set_entry bid e2 w) = insert bid (pins w)"
    by (simp add: pins_set_entry [OF e] inner2)
  moreover have "map_of (queue (set_entry bid e2 w)) bid = Some e2" by (simp add: map_of_set_entry [OF e])
  moreover have "\<forall>b\<in>pins w. map_of (queue (set_entry bid e2 w)) b = map_of (queue w) b"
    using assms(2) by (auto simp: map_of_set_entry [OF e])
  ultimately have ac: "acq w bid (set_entry bid e2 w)" using inner2 by (simp add: acquired_def)
  have "set_entry bid e2 (set_entry bid e1 w) = set_entry bid e2 w"
    by (simp add: set_entry_def o_def if_distrib cong: if_cong)
  moreover have "get_block_cache dev bid w = Ok (bid, set_entry bid e1 w)"
    using e by (simp add: get_block_cache_def e1_def)
  moreover have "arc_lock bid (set_entry bid e1 w) = Ok ((), set_entry bid e2 (set_entry bid e1 w))"
    using l1 by (simp add: arc_lock_def map_of_set_entry [OF e] e2_def)
  ultimately have "bind (get_block_cache dev bid) arc_lock w = Ok ((), set_entry bid e2 w)"
    by (simp add: bind_def)
  with ac show ?thesis by blast
qed

lemma push_entry:
  assumes "ok w" and fresh: "map_of (queue w) bid = None" and "length (queue w) < BLOCK_CACHE_SIZE"
    and "entry_ok nblk (content (disk w)) bid e" and "cache (inner e) = content (disk w) bid" and "locked e"
  shows "acq w bid (w\<lparr>queue := queue w @ [(bid, e)]\<rparr>)"
proof -
  let ?w = "w\<lparr>queue := queue w @ [(bid, e)]\<rparr>"
  have mo: "map_of (queue ?w) = (map_of (queue w))(bid \<mapsto> e)"
    using fresh by (auto simp: fun_eq_iff map_add_def split: option.splits)
  have "distinct (map fst (queue ?w))"
    using assms(1) fresh by (simp add: cache_ok_def map_of_eq_None_iff)
  moreover have "entry_ok nblk (content (disk w)) b a" if "map_of (queue ?w) b = Some a" for b a
    using that assms(1,4) unfolding mo by (auto simp: cache_ok_def split: if_splits)
  ultimately have "ok ?w" using assms(1,3) by (simp add: cache_ok_def)
  moreover have "vw ?w = vw w"
    using fresh assms(5) by (intro view_eqI, unfold mo) (simp split: option.splits)
  moreover have "pins ?w = insert bid (pins w)"
    using fresh assms(6) unfolding pins_def mo by auto
  moreover have "\<forall>b\<in>pins w. map_of (queue ?w) b = map_of (queue w) b"
    unfolding mo using fresh by (auto simp: pins_def)
  ultimately show ?thesis unfolding acquired_def using mo assms(6) by simp
qed

lemma acquire_miss:
  assumes "ok w" and "bid < nblk" and "card (pins w) < BLOCK_CACHE_SIZE" and none: "map_of (queue w) bid = None"
  shows "\<exists>w'. bind (get_block_cache dev bid) arc_lock w = Ok ((), w') \<and> acq w bid w'"
proof -
  from evict_ok [OF assms(1,3)] obtain w1 where w1: "evict dev w = Ok w1" "ok w1" "vw w1 = vw w"
    "pins w1 = pins w" "length (queue w1) < BLOCK_CACHE_SIZE"
    "dom (map_of (queue w1)) \<subseteq> dom (map_of (queue w))"
    "\<forall>b\<in>pins w. map_of (queue w1) b = map_of (queue w) b" by auto
  have fresh: "map_of (queue w1) bid = None" using w1(6) none by auto
  define bc where "bc = \<lparr>cache = content (disk w1) bid, block_id = bid, modified = False\<rparr>"
  define e1 where "e1 = \<lparr>inner = bc, strong_count = 2, locked = False\<rparr>"
  define e2 where "e2 = e1\<lparr>locked := True\<rparr>"
  have dk: "dok (disk w1)" using w1(2) by (simp add: cache_ok_def)
  have "bid \<notin> fst ` set (queue w1)" using fresh by (simp add: map_of_eq_None_iff)
  then have same: "map (\<lambda>p. if fst p = bid then (bid, e2) else p) (queue w1) = queue w1"
    by (intro map_idI) auto
  have "acq w1 bid (w1\<lparr>queue := queue w1 @ [(bid, e2)]\<rparr>)"
    using w1(2) fresh w1(5) dk assms(2)
    by (intro push_entry) (simp_all add: entry_ok_def e2_def e1_def bc_def length_content)
  then have "acq w bid (w1\<lparr>queue := queue w1 @ [(bid, e2)]\<rparr>)"
    using w1(7) by (simp add: acquired_def w1(3,4))
  moreover have "get_block_cache dev bid w = Ok (bid, w1\<lparr>queue := queue w1 @ [(bid, e1)]\<rparr>)"
    using none w1(1) read_ok [OF dk assms(2)]
    by (simp add: get_block_cache_def block_cache_new_def e1_def bc_def)
  moreover have "arc_lock bid (w1\<lparr>queue := queue w1 @ [(bid, e1)]\<rparr>) =
      Ok ((), w1\<lparr>queue := queue w1 @ [(bid, e2)]\<rparr>)"
    using fresh same by (simp add: arc_lock_def set_entry_def map_add_def e2_def [symmetric]) (simp add: e1_def)
  ultimately show ?thesis by (simp add: bind_def)
qed

lemma acquire_ok:
  assumes "ok w" and "bid < nblk" and "bid \<notin> pins w" and "card (pins w) < BLOCK_CACHE_SIZE"
  shows "\<exists>w'. bind (get_block_cache dev bid) arc_lock w = Ok ((), w') \<and> acq w bid w'"
proof (cases "map_of (queue w) bid")
  case None
  then show ?thesis by (rule acquire_miss [OF assms(1,2,4)])
next
  case (Some e)
  then show ?thesis by (rule acquire_hit [OF assms(1,3)])
qed

lemma release_ok:
  assumes "ok w" and "map_of (queue w) bid = Some e" and "locked e"
  shows "\<exists>w'. arc_release bid w = Ok ((), w') \<and> ok w' \<and> vw w' = vw w \<and> pins w' = pins w - {bid} \<and>
    (\<forall>b. b \<noteq> bid \<longrightarrow> map_of (queue w') b = map_of (queue w) b)"
proof -
  define e1 where "e1 = e\<lparr>locked := False, strong_count := strong_count e - 1\<rparr>"
  have "entry_ok nblk (content (disk w)) bid e1"
    using assms by (simp add: cache_ok_def entry_ok_def e1_def)
  then have "ok (set_entry bid e1 w)" by (rule ok_set_entry [OF assms(1,2)])
  moreover have "vw (set_entry bid e1 w) = vw w"
    using view_cached [OF assms(1,2)]
    by (simp add: view_set_entry [OF assms(1,2)] e1_def fun_upd_idem)
  moreover have "pins (set_entry bid e1 w) = pins w - {bid}"
    by (simp add: pins_set_entry [OF assms(2)] e1_def)
  moreover have "arc_release bid w = Ok ((), set_entry bid e1 w)"
    using assms(2) by (simp add: arc_release_def e1_def)
  moreover have "\<forall>b. b \<noteq> bid \<longrightarrow> map_of (queue (set_entry bid e1 w)) b = map_of (queue w) b"
    by (simp add: map_of_set_entry [OF assms(2)])
  ultimately show ?thesis by blast
qed

lemma change_inner:
  assumes "ok w" and e: "map_of (queue w) bid = Some e"
    and "block_id bc = bid" and "length (cache bc) = BLOCK_SZ"
    and "modified bc \<or> cache bc = cache (inner e) \<and> \<not> modified (inner e)"
  shows "ok (set_entry bid (e\<lparr>inner := bc\<rparr>) w)"
    and "vw (set_entry bid (e\<lparr>inner := bc\<rparr>) w) = (vw w)(bid := cache bc)"
    and "pins (set_entry bid (e\<lparr>inner := bc\<rparr>) w) = pins w"
proof -
  have eok: "entry_ok nblk (content (disk w)) bid e" using assms(1) e by (simp add: cache_ok_def)
  then show "ok (set_entry bid (e\<lparr>inner := bc\<rparr>) w)"
    using assms(3-5) by (intro ok_set_entry [OF assms(1) e]) (auto simp: entry_ok_def)
  show "vw (set_entry bid (e\<lparr>inner := bc\<rparr>) w) = (vw w)(bid := cache bc)"
    by (simp add: view_set_entry [OF assms(1) e])
  show "pins (set_entry bid (e\<lparr>inner := bc\<rparr>) w) = pins w"
    using e by (subst pins_set_entry [OF e]) (auto simp: pins_def)
qed

lemma runs_acquire:
  assumes "ok w" and "bid < nblk" and "bid \<notin> pins w" and "card (pins w) < BLOCK_CACHE_SIZE"
    and K: "\<And>w'. acq w bid w' \<Longrightarrow> runs (K bid) w' Q"
  shows "runs (bind (get_block_cache dev bid) (\<lambda>h. bind (arc_lock h) (\<lambda>_. K h))) w Q"
proof -
  from acquire_ok [OF assms(1-4)] obtain w' where
    w': "runs (bind (get_block_cache dev bid) arc_lock) w (\<lambda>_ w2. w2 = w')" "acq w bid w'"
    by (auto simp: runs_iff)
  have handle: "h = bid" if "get_block_cache dev bid w = Ok (h, w1)" for h w1
    using that by (auto simp: get_block_cache_def bind_res_eq_Ok split: option.splits)
  from w'(1) have "runs (get_block_cache dev bid) w (\<lambda>h w1. h = bid \<and> runs (arc_lock bid) w1 (\<lambda>_ w2. w2 = w'))"
    unfolding runs_bind by (auto simp: runs_iff dest: handle)
  then show ?thesis
    using K [OF w'(2)] unfolding runs_bind by (auto simp: runs_iff)
qed

lemma hoareI:
  assumes "\<And>w. ok w \<Longrightarrow> vw w = V \<Longrightarrow> pins w = P \<Longrightarrow>
    runs m w (\<lambda>a w'. ok w' \<and> pins w' = P \<and> (\<forall>b\<in>P. map_of (queue w') b = map_of (queue w) b) \<and> Q a (vw w'))"
  shows "hr V P m Q"
  using assms by (simp add: hoare_def)

lemma hoareD:
  assumes "hr V P m Q" and "ok w" and "vw w = V" and "pins w = P"
  shows "runs m w (\<lambda>a w'. ok w' \<and> pins w' = P \<and> (\<forall>b\<in>P. map_of (queue w') b = map_of (queue w) b) \<and> Q a (vw w'))"
  using assms by (simp add: hoare_def)

lemma hoare_ret [simp]: "Q a V \<Longrightarrow> hr V P (ret a) Q"
  by (rule hoareI) simp

lemma hoare_bind:
  assumes m: "hr V P m R" and f: "\<And>a V'. R a V' \<Longrightarrow> hr V' P (f a) Q"
  shows "hr V P (bind m f) Q"
proof (rule hoareI)
  fix w assume w: "ok w" "vw w = V" "pins w = P"
  show "runs (bind m f) w (\<lambda>a w'. ok w' \<and> pins w' = P \<and>
      (\<forall>b\<in>P. map_of (queue w') b = map_of (queue w) b) \<and> Q a (vw w'))"
    unfolding runs_bind
  proof (rule runs_mono [OF hoareD [OF m w]])
    fix a w1
    assume w1: "ok w1 \<and> pins w1 = P \<and> (\<forall>b\<in>P. map_of (queue w1) b = map_of (queue w) b) \<and> R a (vw w1)"
    from w1 have "hr (vw w1) P (f a) Q" by (intro f) simp
    from runs_mono [OF hoareD [OF this]] w1
    show "runs (f a) w1 (\<lambda>a w'. ok w' \<and> pins w' = P \<and>
        (\<forall>b\<in>P. map_of (queue w') b = map_of (queue w) b) \<and> Q a (vw w'))" by force
  qed
qed

lemma hoare_conseq: "hr V P m R \<Longrightarrow> (\<And>a V'. R a V' \<Longrightarrow> Q a V') \<Longrightarrow> hr V P m Q"
  unfolding hoare_def by (blast intro: runs_mono)

lemma hoare_frame:
  assumes "hr V P m Q"
  shows "hr V P m (\<lambda>a V'. Q a V' \<and> (\<forall>b\<in>P. V' b = V b))"
proof (rule hoareI)
  fix w assume w: "ok w" "vw w = V" "pins w = P"
  show "runs m w (\<lambda>a w'. ok w' \<and> pins w' = P \<and> (\<forall>b\<in>P. map_of (queue w') b = map_of (queue w) b) \<and>
      Q a (vw w') \<and> (\<forall>b\<in>P. vw w' b = V b))"
  proof (rule runs_mono [OF hoareD [OF assms w]])
    fix a w'
    assume w': "ok w' \<and> pins w' = P \<and> (\<forall>b\<in>P. map_of (queue w') b = map_of (queue w) b) \<and> Q a (vw w')"
    have "vw w' b = V b" if "b \<in> P" for b
    proof -
      from that w(3) obtain e where e: "map_of (queue w) b = Some e" by (auto simp: pins_def)
      with w' that have "map_of (queue w') b = Some e" by simp
      with e w' w(1,2) show ?thesis using view_cached by metis
    qed
    with w' show "ok w' \<and> pins w' = P \<and> (\<forall>b\<in>P. map_of (queue w') b = map_of (queue w) b) \<and>
      Q a (vw w') \<and> (\<forall>b\<in>P. vw w' b = V b)" by blast
  qed
qed

lemma hoare_len:
  assumes "\<forall>b<nblk. length (V b) = BLOCK_SZ \<Longrightarrow> hr V P m Q"
  shows "hr V P m Q"
  using assms length_view unfolding hoare_def by blast

lemma hoare_lift: "r = Ok a \<Longrightarrow> Q a V \<Longrightarrow> hr V P (lift r) Q"
  by simp

lemma hoare_assert: "b \<Longrightarrow> Q () V \<Longrightarrow> hr V P (assert_cmd b) Q"
  by simp

lemma runs_release:
  assumes "ok w" and "bid \<in> pins w"
  shows "runs (bind (arc_release bid) (\<lambda>_. ret v)) w (\<lambda>a w'. a = v \<and> ok w' \<and> vw w' = vw w \<and>
    pins w' = pins w - {bid} \<and> (\<forall>b. b \<noteq> bid \<longrightarrow> map_of (queue w') b = map_of (queue w) b))"
proof -
  from assms(2) obtain e where "map_of (queue w) bid = Some e" "locked e" by (auto simp: pins_def)
  from release_ok [OF assms(1) this] show ?thesis by (auto simp: runs_def bind_def ret_def)
qed

lemma cached_length: "ok w \<Longrightarrow> map_of (queue w) bid = Some e \<Longrightarrow> length (cache (inner e)) = BLOCK_SZ"
  by (auto simp: cache_ok_def entry_ok_def)

lemma hoare_cache_read:
  assumes "bid < nblk" and "bid \<notin> P" and "card P < BLOCK_CACHE_SIZE"
    and fits: "off + size_of lay \<le> BLOCK_SZ \<and> off < BLOCK_SZ"
    and t: "from_bytes lay (take (size_of lay) (drop off (V bid))) = Some t"
    and f: "hr V (insert bid P) (f t) Q"
  shows "hr V P (cache_read dev bid off lay f) Q"
  unfolding cache_read_def
proof (intro hoareI runs_acquire)
  fix w w1 assume w: "ok w" "vw w = V" "pins w = P" and ac: "acq w bid w1"
  let ?post = "\<lambda>a w'. ok w' \<and> pins w' = P \<and> (\<forall>b\<in>P. map_of (queue w') b = map_of (queue w) b) \<and> Q a (vw w')"
  from ac obtain e where e: "map_of (queue w1) bid = Some e" by (auto simp: acquired_def)
  have w1: "ok w1" "vw w1 = V" "pins w1 = insert bid P"
    "\<forall>b\<in>P. map_of (queue w1) b = map_of (queue w) b" using ac w by (simp_all add: acquired_def)
  have rd: "arc_read bid lay off w1 = Ok (t, w1)"
    using e fits t view_cached [OF w1(1) e] w1(2) cached_length [OF w1(1) e] by (simp add: arc_read_def get_ref_def)
  have "runs (f t) w1 (\<lambda>v w2. runs (bind (arc_release bid) (\<lambda>_. ret v)) w2 ?post)"
  proof (rule runs_mono [OF hoareD [OF f w1(1-3)]])
    fix v w2
    assume w2: "ok w2 \<and> pins w2 = insert bid P \<and>
      (\<forall>b\<in>insert bid P. map_of (queue w2) b = map_of (queue w1) b) \<and> Q v (vw w2)"
    then have "ok w2" "bid \<in> pins w2" by auto
    from runs_mono [OF runs_release [OF this]]
    show "runs (bind (arc_release bid) (\<lambda>_. ret v)) w2 ?post"
      by (rule runs_mono) (use w1(4) w2 assms(2) in auto)
  qed
  with rd show "runs (bind (arc_read bid lay off) (\<lambda>t. bind (f t) (\<lambda>v. bind (arc_release bid) (\<lambda>_. ret v)))) w1 ?post"
    by (subst runs_bind) (simp add: runs_def [of "arc_read bid lay off"] runs_bind [of "f t"])
qed (use assms in auto)

lemma read_mut_ok:
  assumes "ok w" and e: "map_of (queue w) bid = Some e"
    and "off + size_of lay \<le> BLOCK_SZ \<and> off < BLOCK_SZ"
    and "from_bytes lay (take (size_of lay) (drop off (vw w bid))) = Some t"
  shows "\<exists>w'. arc_read_mut bid lay off w = Ok (t, w') \<and> ok w' \<and> vw w' = vw w \<and> pins w' = pins w \<and>
    map_of (queue w') = (map_of (queue w))(bid \<mapsto> e\<lparr>inner := (inner e)\<lparr>modified := True\<rparr>\<rparr>)"
proof -
  define bc where "bc = (inner e)\<lparr>modified := True\<rparr>"
  have eok: "block_id bc = bid" "length (cache bc) = BLOCK_SZ"
    "modified bc \<or> cache bc = cache (inner e) \<and> \<not> modified (inner e)"
    using assms(1) e by (auto simp: cache_ok_def entry_ok_def bc_def)
  note ch = change_inner [OF assms(1) e eok]
  have "vw w bid = cache bc" using view_cached [OF assms(1) e] by (simp add: bc_def)
  then have "vw (set_entry bid (e\<lparr>inner := bc\<rparr>) w) = vw w" using ch(2) by (simp add: fun_upd_idem)
  moreover have "arc_read_mut bid lay off w = Ok (t, set_entry bid (e\<lparr>inner := bc\<rparr>) w)"
    using assms(3,4) e view_cached [OF assms(1) e] cached_length [OF assms(1) e] by (simp add: arc_read_mut_def get_mut_def bc_def)
  ultimately show ?thesis using ch(1,3) map_of_set_entry [OF e] by (simp add: bc_def)
qed

lemma store_ok:
  assumes "ok w" and e: "map_of (queue w) bid = Some e" and "modified (inner e)"
    and off: "off + size_of lay \<le> BLOCK_SZ"
    and len: "length (to_bytes lay t (take (size_of lay) (drop off (vw w bid)))) = size_of lay"
  shows "\<exists>w'. arc_store bid lay off t w = Ok ((), w') \<and> ok w' \<and> pins w' = pins w \<and>
    vw w' = (vw w)(bid := overwrite (vw w bid) off (to_bytes lay t (take (size_of lay) (drop off (vw w bid))))) \<and>
    (\<forall>b. b \<noteq> bid \<longrightarrow> map_of (queue w') b = map_of (queue w) b)"
proof -
  define bc where "bc = store_mut lay off t (inner e)"
  have v: "vw w bid = cache (inner e)" using view_cached [OF assms(1) e] .
  have l: "length (cache (inner e)) = BLOCK_SZ" and "block_id (inner e) = bid"
    using assms(1) e by (auto simp: cache_ok_def entry_ok_def)
  then have eok: "block_id bc = bid" "length (cache bc) = BLOCK_SZ"
    "modified bc \<or> cache bc = cache (inner e) \<and> \<not> modified (inner e)"
    using assms(3) off len by (auto simp: bc_def store_mut_def v)
  have "arc_store bid lay off t w = Ok ((), set_entry bid (e\<lparr>inner := bc\<rparr>) w)"
    using e by (simp add: arc_store_def bc_def)
  then show ?thesis
    using change_inner [OF assms(1) e eok] v map_of_set_entry [OF e]
    by (simp add: bc_def store_mut_def)
qed

lemma runs_store_release:
  assumes "ok w" and e: "map_of (queue w) bid = Some e" and "modified (inner e)" and "locked e"
    and off: "off + size_of lay \<le> BLOCK_SZ"
    and len: "length (to_bytes lay t (take (size_of lay) (drop off (vw w bid)))) = size_of lay"
  shows "runs (bind (arc_store bid lay off t) (\<lambda>_. bind (arc_release bid) (\<lambda>_. ret v))) w
    (\<lambda>a w'. a = v \<and> ok w' \<and> pins w' = pins w - {bid} \<and>
       vw w' = (vw w)(bid := overwrite (vw w bid) off (to_bytes lay t (take (size_of lay) (drop off (vw w bid))))) \<and>
       (\<forall>b. b \<noteq> bid \<longrightarrow> map_of (queue w') b = map_of (queue w) b))"
proof -
  from store_ok [OF assms(1-3) off len] obtain w1 where w1: "arc_store bid lay off t w = Ok ((), w1)"
    "ok w1" "pins w1 = pins w"
    "vw w1 = (vw w)(bid := overwrite (vw w bid) off (to_bytes lay t (take (size_of lay) (drop off (vw w bid)))))"
    "\<forall>b. b \<noteq> bid \<longrightarrow> map_of (queue w1) b = map_of (queue w) b" by blast
  have "bid \<in> pins w1" using e assms(4) w1(3) by (auto simp: pins_def)
  from runs_release [OF w1(2) this, of v] w1 show ?thesis
    by (subst runs_bind) (auto simp: runs_def [of "arc_store bid lay off t"] elim!: runs_mono)
qed

lemma hoare_cache_modify:
  assumes "bid < nblk" and "bid \<notin> P" and "card P < BLOCK_CACHE_SIZE"
    and fits: "off + size_of lay \<le> BLOCK_SZ \<and> off < BLOCK_SZ"
    and t: "from_bytes lay (take (size_of lay) (drop off (V bid))) = Some t"
    and f: "hr V (insert bid P) (f t) (\<lambda>(v, t') V'.
       length (to_bytes lay t' (take (size_of lay) (drop off (V bid)))) = size_of lay \<and>
       Q v (V'(bid := overwrite (V bid) off (to_bytes lay t' (take (size_of lay) (drop off (V bid)))))))"
  shows "hr V P (cache_modify dev bid off lay f) Q"
  unfolding cache_modify_def
proof (intro hoareI runs_acquire)
  fix w w1 assume w: "ok w" "vw w = V" "pins w = P" and ac: "acq w bid w1"
  let ?post = "\<lambda>a w'. ok w' \<and> pins w' = P \<and> (\<forall>b\<in>P. map_of (queue w') b = map_of (queue w) b) \<and> Q a (vw w')"
  from ac obtain e where e: "map_of (queue w1) bid = Some e" "locked e" by (auto simp: acquired_def)
  define em where "em = e\<lparr>inner := (inner e)\<lparr>modified := True\<rparr>\<rparr>"
  have w1: "ok w1" "vw w1 = V" "pins w1 = insert bid P"
    "\<forall>b\<in>P. map_of (queue w1) b = map_of (queue w) b" using ac w by (simp_all add: acquired_def)
  from read_mut_ok [OF w1(1) e(1) fits] t w1(2) obtain wm where
    wm: "arc_read_mut bid lay off w1 = Ok (t, wm)" "ok wm" "vw wm = V" "pins wm = insert bid P"
      "map_of (queue wm) = (map_of (queue w1))(bid \<mapsto> em)" using w1(3) by (auto simp: em_def)
  have "runs (f t) wm (\<lambda>(v, t') w2. runs (bind (arc_store bid lay off t') (\<lambda>_. bind (arc_release bid) (\<lambda>_. ret v))) w2 ?post)"
  proof (rule runs_mono [OF hoareD [OF hoare_frame [OF f] wm(2-4)]])
    fix vt w2
    assume w2: "ok w2 \<and> pins w2 = insert bid P \<and>
      (\<forall>b\<in>insert bid P. map_of (queue w2) b = map_of (queue wm) b) \<and>
      (case vt of (v, t') \<Rightarrow> \<lambda>V'.
         length (to_bytes lay t' (take (size_of lay) (drop off (V bid)))) = size_of lay \<and>
         Q v (V'(bid := overwrite (V bid) off (to_bytes lay t' (take (size_of lay) (drop off (V bid))))))) (vw w2) \<and>
      (\<forall>b\<in>insert bid P. vw w2 b = V b)"
    obtain v t' where vt: "vt = (v, t')" by fastforce
    have m2: "map_of (queue w2) bid = Some em" "modified (inner em)" "locked em"
      using w2 wm(5) e(2) by (simp_all add: em_def)
    have "runs (bind (arc_store bid lay off t') (\<lambda>_. bind (arc_release bid) (\<lambda>_. ret v))) w2 ?post"
      by (rule runs_mono [OF runs_store_release [OF _ m2 conjunct1 [OF fits]]]) (use w1(4) w2 wm(5) assms(2) vt in auto)
    then show "(case vt of (v, t') \<Rightarrow> \<lambda>w2. runs (bind (arc_store bid lay off t')
        (\<lambda>_. bind (arc_release bid) (\<lambda>_. ret v))) w2 ?post) w2" by (simp add: vt)
  qed
  with wm(1) show "runs (bind (arc_read_mut bid lay off) (\<lambda>t. bind (f t) (\<lambda>(v, t').
      bind (arc_store bid lay off t') (\<lambda>_. bind (arc_release bid) (\<lambda>_. ret v))))) w1 ?post"
    by (subst runs_bind) (simp add: runs_def [of "arc_read_mut bid lay off"] runs_bind [of "f t"] split_def)
qed (use assms in auto)

lemma acquire_handle:
  assumes "ok w" and "bid < nblk" and "bid \<notin> pins w" and "card (pins w) < BLOCK_CACHE_SIZE"
  shows "\<exists>w1 w2. get_block_cache dev bid w = Ok (bid, w1) \<and> arc_lock bid w1 = Ok ((), w2) \<and> acq w bid w2"
proof -
  have "runs (bind (get_block_cache dev bid) (\<lambda>h. bind (arc_lock h) (\<lambda>_. ret h))) w (\<lambda>h w2. h = bid \<and> acq w bid w2)"
    by (rule runs_acquire [OF assms]) simp
  then show ?thesis
    by (auto simp: runs_def bind_def ret_def split: res.splits prod.splits)
qed

lemma stops_bind:
  assumes "hr V P m R" and "\<And>a V'. R a V' \<Longrightarrow> stops nblk dok content V' P (f a) p"
  shows "stops nblk dok content V P (bind m f) p"
  unfolding stops_def
proof (intro allI impI)
  fix w assume "ok w" "vw w = V" "pins w = P"
  from hoareD [OF assms(1) this] obtain a w' where
    "m w = Ok (a, w')" "ok w'" "pins w' = P" "R a (vw w')" by (auto simp: runs_iff)
  with assms(2) [of a "vw w'"] show "bind m f w = Panic p" by (simp add: stops_def bind_def)
qed

lemma stops_cache_modify:
  assumes "bid < nblk" and "bid \<notin> P" and "card P < BLOCK_CACHE_SIZE"
    and fits: "off + size_of lay \<le> BLOCK_SZ \<and> off < BLOCK_SZ"
    and t: "from_bytes lay (take (size_of lay) (drop off (V bid))) = Some t"
    and f: "stops nblk dok content V (insert bid P) (f t) p"
  shows "stops nblk dok content V P (cache_modify dev bid off lay f) p"
  unfolding stops_def
proof (intro allI impI)
  fix w assume w: "ok w" "vw w = V" "pins w = P"
  from acquire_handle [OF w(1) assms(1)] w assms(2,3) obtain w1 w2 where
    w2: "get_block_cache dev bid w = Ok (bid, w1)" "arc_lock bid w1 = Ok ((), w2)" "acq w bid w2" by auto
  from w2(3) obtain e where e: "map_of (queue w2) bid = Some e" by (auto simp: acquired_def)
  from w2(3) w have v2: "ok w2" "vw w2 = V" "pins w2 = insert bid P" by (simp_all add: acquired_def)
  from read_mut_ok [OF v2(1) e fits] t v2 obtain wm where
    "arc_read_mut bid lay off w2 = Ok (t, wm)" "ok wm" "vw wm = V" "pins wm = insert bid P" by auto
  moreover from this f have "f t wm = Panic p" by (simp add: stops_def)
  ultimately show "cache_modify dev bid off lay f w = Panic p"
    using w2 by (simp add: cache_modify_def bind_def)
qed

lemma block_cache_sync_ok:
  assumes "dok d" and "entry_ok nblk (content d) bid e"
  shows "\<exists>d'. block_cache_sync dev (inner e) d = Ok ((inner e)\<lparr>modified := False\<rparr>, d') \<and> dok d' \<and>
    (\<forall>j<nblk. content d' j = (if j = bid then cache (inner e) else content d j))"
proof (cases "modified (inner e)")
  case True
  with assms write_ok [of d bid "cache (inner e)"] show ?thesis
    by (auto simp: block_cache_sync_def entry_ok_def)
next
  case False
  then have "(inner e)\<lparr>modified := False\<rparr> = inner e" by simp
  with False assms show ?thesis by (auto simp: block_cache_sync_def entry_ok_def)
qed

lemma sync_entries_ok:
  assumes "dok d" and "distinct (map fst q)"
    and "\<forall>(k, e)\<in>set q. entry_ok nblk (content d) k e \<and> \<not> locked e"
  shows "\<exists>d'. sync_entries dev q d =
      Ok (map (\<lambda>(k, e). (k, e\<lparr>inner := (inner e)\<lparr>modified := False\<rparr>\<rparr>)) q, d') \<and> dok d' \<and>
    (\<forall>j<nblk. content d' j = (case map_of q j of Some e \<Rightarrow> cache (inner e) | None \<Rightarrow> content d j))"
  using assms
proof (induction q arbitrary: d)
  case Nil
  then show ?case by simp
next
  case (Cons p q)
  obtain k e where p: "p = (k, e)" by fastforce
  from Cons.prems p have eok: "entry_ok nblk (content d) k e" and nl: "\<not> locked e" by auto
  from block_cache_sync_ok [OF Cons.prems(1) eok] obtain d1 where
    d1: "block_cache_sync dev (inner e) d = Ok ((inner e)\<lparr>modified := False\<rparr>, d1)" "dok d1"
      "\<forall>j<nblk. content d1 j = (if j = k then cache (inner e) else content d j)" by blast
  have k: "map_of q k = None" using Cons.prems(2) p by (simp add: map_of_eq_None_iff)
  have "entry_ok nblk (content d1) k' e' \<and> \<not> locked e'" if q: "(k', e') \<in> set q" for k' e'
  proof -
    have "k' \<noteq> k" using Cons.prems(2) p q by force
    moreover have "entry_ok nblk (content d) k' e' \<and> \<not> locked e'" using Cons.prems(3) q by auto
    moreover have "\<forall>j<nblk. j \<noteq> k \<longrightarrow> content d1 j = content d j" using d1(3) by simp
    ultimately show ?thesis using entry_ok_cong by blast
  qed
  with Cons.IH [OF d1(2)] Cons.prems(2) obtain d2 where
    d2: "sync_entries dev q d1 = Ok (map (\<lambda>(k, e). (k, e\<lparr>inner := (inner e)\<lparr>modified := False\<rparr>\<rparr>)) q, d2)"
      "dok d2" "\<forall>j<nblk. content d2 j = (case map_of q j of Some e \<Rightarrow> cache (inner e) | None \<Rightarrow> content d1 j)"
    by (auto simp: p)
  have "content d2 j = (case map_of (p # q) j of Some e \<Rightarrow> cache (inner e) | None \<Rightarrow> content d j)" if "j < nblk" for j
    using that d1(3) d2(3) k by (simp add: p split: option.splits)
  with p nl d1(1) d2(1,2) show ?case by simp
qed

lemma map_of_map_snd: "map_of (map (\<lambda>(k, e). (k, f e)) q) = map_option f \<circ> map_of q"
  by (induction q) (auto simp: fun_eq_iff)

lemma sync_all_ok:
  assumes "ok w" and "pins w = {}"
  shows "\<exists>w'. block_cache_sync_all dev w = Ok ((), w') \<and> ok w' \<and> vw w' = vw w \<and> pins w' = {} \<and>
    (\<forall>bid<nblk. content (disk w') bid = vw w bid)"
proof -
  have dist: "distinct (map fst (queue w))" and dk: "dok (disk w)" using assms(1) by (simp_all add: cache_ok_def)
  have eok: "entry_ok nblk (content (disk w)) k e \<and> \<not> locked e" if "(k, e) \<in> set (queue w)" for k e
    using assms that dist by (auto simp: cache_ok_def pins_def)
  from sync_entries_ok [OF dk dist] eok obtain d' where
    d': "sync_entries dev (queue w) (disk w) =
        Ok (map (\<lambda>(k, e). (k, e\<lparr>inner := (inner e)\<lparr>modified := False\<rparr>\<rparr>)) (queue w), d')" "dok d'"
      "\<forall>j<nblk. content d' j = (case map_of (queue w) j of Some e \<Rightarrow> cache (inner e) | None \<Rightarrow> content (disk w) j)"
    by blast
  define w' where "w' = w\<lparr>queue := map (\<lambda>(k, e). (k, e\<lparr>inner := (inner e)\<lparr>modified := False\<rparr>\<rparr>)) (queue w), disk := d'\<rparr>"
  have mo: "map_of (queue w') = map_option (\<lambda>e. e\<lparr>inner := (inner e)\<lparr>modified := False\<rparr>\<rparr>) \<circ> map_of (queue w)"
    by (simp add: w'_def map_of_map_snd)
  have dw: "disk w' = d'" and len: "length (queue w') = length (queue w)"
    and keys: "map fst (queue w') = map fst (queue w)"
    by (simp_all add: w'_def split_def o_def)
  have view: "\<forall>j<nblk. content d' j = vw w j" using d'(3) by (simp add: view_def)
  have "entry_ok nblk (content d') bid (e\<lparr>inner := (inner e)\<lparr>modified := False\<rparr>\<rparr>)"
    if e: "map_of (queue w) bid = Some e" for bid e
    using eok [OF map_of_SomeD [OF e]] d'(3) e by (auto simp: entry_ok_def)
  then have "ok w'" using assms(1) d'(2) unfolding cache_ok_def mo dw len keys by auto
  moreover have "vw w' = vw w"
    using d'(3) by (intro view_eqI, unfold mo dw) (auto split: option.splits)
  moreover have "pins w' = {}" using assms(2) by (auto simp: pins_def mo)
  moreover have "block_cache_sync_all dev w = Ok ((), w')" using d'(1) by (simp add: block_cache_sync_all_def w'_def)
  ultimately show ?thesis using view dw by auto
qed

lemma hoare_sync_all: "hr V {} (block_cache_sync_all dev) (\<lambda>_ V'. V' = V)"
  by (rule hoareI) (use sync_all_ok in \<open>fastforce simp: runs_iff\<close>)

lemma run_op_ok:
  assumes "op_valid nblk op"
  shows "hr V {} (run_op dev op) (\<lambda>r V'. (r, V') = ref_op op V)"
proof (cases op)
  case (ReadOp bid off n)
  with assms show ?thesis
    by (auto intro!: hoare_cache_read simp: bytes_layout_def)
next
  case (WriteOp bid off bs)
  with assms show ?thesis
    by (auto intro!: hoare_cache_modify simp: bytes_layout_def)
next
  case SyncOp
  then show ?thesis by (auto intro!: hoare_bind [OF hoare_sync_all])
qed

lemma run_ops_ok:
  "list_all (op_valid nblk) ops \<Longrightarrow> hr V {} (run_ops dev ops) (\<lambda>r V'. (r, V') = ref_ops ops V)"
proof (induction ops arbitrary: V)
  case Nil
  then show ?case by simp
next
  case (Cons op ops)
  then show ?case
    by (auto simp: split_def prod_eq_iff Let_def
        intro!: hoare_bind [OF run_op_ok] hoare_bind [OF Cons.IH])
qed

lemma cache_ok_manager_new:
  "dok d \<Longrightarrow> ok (manager_new d) \<and> pins (manager_new d) = {} \<and>
   vw (manager_new d) = (\<lambda>bid. if bid < nblk then content d bid else [])"
  by (auto simp: cache_ok_def manager_new_def pins_def view_def)

lemma run_ops_sync:
  assumes "dok d" and "list_all (op_valid nblk) ops"
  shows "\<exists>rs w. run_ops dev (ops @ [SyncOp]) (manager_new d) = Ok (rs @ [[]], w) \<and>
    length (queue w) \<le> BLOCK_CACHE_SIZE \<and> dok (disk w) \<and>
    (let (rs', V) = ref_ops ops (\<lambda>bid. if bid < nblk then content d bid else [])
     in rs = rs' \<and> (\<forall>bid<nblk. content (disk w) bid = V bid))"
proof -
  note new = cache_ok_manager_new [OF assms(1)]
  have app: "run_ops dev (ops @ [SyncOp]) =
      bind (run_ops dev ops) (\<lambda>rs. bind (block_cache_sync_all dev) (\<lambda>_. ret (rs @ [[]])))" for ops
    by (induction ops) (simp_all add: bind_assoc)
  obtain rs' V where ref: "ref_ops ops (vw (manager_new d)) = (rs', V)" by fastforce
  from hoareD [OF run_ops_ok [OF assms(2)]] new ref obtain w1 where
    w1: "run_ops dev ops (manager_new d) = Ok (rs', w1)" "ok w1" "pins w1 = {}" "vw w1 = V"
    by (force simp: runs_iff)
  from sync_all_ok [OF w1(2,3)] obtain w where w: "block_cache_sync_all dev w1 = Ok ((), w)" "ok w"
    "\<forall>bid<nblk. content (disk w) bid = vw w1 bid" by blast
  have "run_ops dev (ops @ [SyncOp]) (manager_new d) = Ok (rs' @ [[]], w)"
    using w1(1) w(1) by (simp add: app bind_def ret_def)
  with w w1(4) ref new show ?thesis by (auto simp: cache_ok_def)
qed

end

section \<open>The packer's block file is a block device\<close>

lemma blockfile_pos:
  assumes "blockfile_ok nblk f" and "bid < nblk"
  shows "bid * BLOCK_SZ mod USIZE_LIMIT = bid * BLOCK_SZ" and "bid * BLOCK_SZ + BLOCK_SZ \<le> length f"
proof -
  from assms(2) have "Suc bid * BLOCK_SZ \<le> nblk * BLOCK_SZ" by (intro mult_le_mono1) simp
  then show "bid * BLOCK_SZ + BLOCK_SZ \<le> length f" using assms(1) by (simp add: blockfile_ok_def)
  then show "bid * BLOCK_SZ mod USIZE_LIMIT = bid * BLOCK_SZ"
    using assms(1) by (simp add: blockfile_ok_def)
qed

lemma length_blockfile_content:
  "blockfile_ok nblk f \<Longrightarrow> bid < nblk \<Longrightarrow> length (blockfile_content f bid) = BLOCK_SZ"
  using blockfile_pos(2) [of nblk f bid] by (simp add: blockfile_content_def)

lemma blockfile_read:
  assumes "blockfile_ok nblk f" and "bid < nblk" and "length buf = BLOCK_SZ"
  shows "read_block BlockFile f bid buf = Ok (blockfile_content f bid)"
  using blockfile_pos [OF assms(1,2)] assms(3)
  by (auto simp: BlockFile_def file_read_def overwrite_whole blockfile_content_def min_def)

lemma overwrite_window:
  assumes "lo + length ys \<le> length xs"
  shows "take (length ys) (drop lo (overwrite xs lo ys)) = ys"
    and "hi \<le> lo \<Longrightarrow> hi = k + n \<Longrightarrow> take n (drop k (overwrite xs lo ys)) = take n (drop k xs)"
    and "lo + length ys \<le> k \<Longrightarrow> drop k (overwrite xs lo ys) = drop k xs"
  using assms by (simp_all add: overwrite_def min_def take_drop add.commute)

lemma blockfile_write:
  assumes "blockfile_ok nblk f" and "bid < nblk" and "length buf = BLOCK_SZ"
  shows "\<exists>f'. write_block BlockFile f bid buf = Ok f' \<and> blockfile_ok nblk f' \<and>
    (\<forall>j<nblk. blockfile_content f' j = (if j = bid then buf else blockfile_content f j))"
proof -
  let ?f = "overwrite f (bid * BLOCK_SZ) buf"
  note pos = blockfile_pos [OF assms(1,2)]
  have "write_block BlockFile f bid buf = Ok ?f"
    using pos assms(3) by (simp add: BlockFile_def file_write_def)
  moreover have "blockfile_ok nblk ?f" using assms pos(2) by (simp add: blockfile_ok_def)
  moreover have "blockfile_content ?f j = (if j = bid then buf else blockfile_content f j)" for j
  proof (rule linorder_cases [of j bid])
    assume "j = bid"
    then show ?thesis using overwrite_window(1) [of "bid * BLOCK_SZ" buf f] pos(2) assms(3)
      by (simp add: blockfile_content_def)
  next
    assume "j < bid"
    then have "j * BLOCK_SZ + BLOCK_SZ \<le> bid * BLOCK_SZ"
      using mult_le_mono1 [of "Suc j" bid BLOCK_SZ] by simp
    with \<open>j < bid\<close> show ?thesis using overwrite_window(2) [of "bid * BLOCK_SZ" buf f] pos(2) assms(3)
      by (simp add: blockfile_content_def)
  next
    assume "bid < j"
    then have "bid * BLOCK_SZ + BLOCK_SZ \<le> j * BLOCK_SZ"
      using mult_le_mono1 [of "Suc bid" j BLOCK_SZ] by simp
    with \<open>bid < j\<close> show ?thesis using overwrite_window(3) [of "bid * BLOCK_SZ" buf f] pos(2) assms(3)
      by (simp add: blockfile_content_def)
  qed
  ultimately show ?thesis by blast
qed

interpretation bf: block_device BlockFile nblk "blockfile_ok nblk" blockfile_content for nblk
  by unfold_locales (simp_all add: blockfile_read blockfile_write length_blockfile_content)

abbreviation bf_ok :: "nat \<Rightarrow> bytes world \<Rightarrow> bool" where
  "bf_ok nblk \<equiv> cache_ok nblk (blockfile_ok nblk) blockfile_content"

abbreviation bf_view :: "nat \<Rightarrow> bytes world \<Rightarrow> usize \<Rightarrow> bytes" where
  "bf_view nblk \<equiv> view nblk blockfile_content"

text \<open>A zeroed device of \<open>n\<close> blocks.\<close>

definition blank :: "nat \<Rightarrow> bytes world" where
  "blank n = manager_new (replicate (n * BLOCK_SZ) 0)"

lemma blank_ok: "n * BLOCK_SZ \<le> USIZE_LIMIT \<Longrightarrow> bf_ok n (blank n) \<and> pins (blank n) = {}"
  using bf.cache_ok_manager_new [of n "replicate (n * BLOCK_SZ) 0"] by (simp add: blank_def blockfile_ok_def)

section \<open>Properties\<close>

text \<open>C7. The block cache is transparent: any sequence of in-range reads, modifications and
  write-backs issued through the 16-entry cache over a block file, followed by
  \<open>block_cache_sync_all\<close>, runs to completion, returns to every read exactly the bytes a plain array
  of blocks would, never holds more than 16 blocks, and leaves the device with exactly the plain
  array's final contents, however blocks were evicted and reloaded in between.\<close>

theorem cache_transparent:
  assumes "blockfile_ok nblk f" and "list_all (op_valid nblk) ops"
  shows "\<exists>rs w. run_ops BlockFile (ops @ [SyncOp]) (manager_new f) = Ok (rs @ [[]], w) \<and>
    length (queue w) \<le> BLOCK_CACHE_SIZE \<and> blockfile_ok nblk (disk w) \<and>
    (let (rs', V) = ref_ops ops (\<lambda>bid. if bid < nblk then blockfile_content f bid else [])
     in rs = rs' \<and> (\<forall>bid<nblk. blockfile_content (disk w) bid = V bid))"
  using assms by (rule bf.run_ops_sync)

lemma cache_transparent_witness:
  "\<exists>rs w. run_ops BlockFile ([WriteOp 1 3 [7, 8], ReadOp 1 2 3] @ [SyncOp]) (manager_new (replicate 1024 0)) = Ok (rs @ [[]], w) \<and>
    length (queue w) \<le> BLOCK_CACHE_SIZE \<and> blockfile_ok 2 (disk w) \<and>
    (let (rs', V) = ref_ops [WriteOp 1 3 [7, 8], ReadOp 1 2 3]
        (\<lambda>bid. if bid < 2 then blockfile_content (replicate 1024 0) bid else [])
     in rs = rs' \<and> (\<forall>bid<2. blockfile_content (disk w) bid = V bid))"
  by (rule cache_transparent) (simp_all add: blockfile_ok_def USIZE_LIMIT_def)

end
