(* ===== verification/Bitmap.thy ===== *)
theory Bitmap
  imports BlockCache
begin

text \<open>
  The on-disk bitmaps of easy-fs (src/easy-fs/src/bitmap.rs), through the block cache.  A bitmap
  is the set of its allocated bits (\<open>bm_test\<close>); \<open>bitmap_alloc\<close> returns the least free bit and sets
  it alone, or \<open>None\<close> when there is none, and \<open>bitmap_dealloc\<close> clears one bit, stopping at the
  assertion when the bit is already clear.
\<close>

section \<open>Model\<close>

abbreviation BLOCK_BITS :: nat where
  "BLOCK_BITS \<equiv> 4096"

record Bitmap =
  start_block_id :: usize
  bm_blocks :: usize

definition BitmapBlock :: "u64 list layout" where
  "BitmapBlock = \<lparr>size_of = 512, from_bytes = (\<lambda>bs. Some (bytes_u64s 64 bs)), to_bytes = (\<lambda>ws _. u64s_bytes ws)\<rparr>"

definition decomposition :: "usize \<Rightarrow> usize \<times> usize \<times> usize" where
  "decomposition n = (n div BLOCK_BITS, n mod BLOCK_BITS div 64, n mod BLOCK_BITS mod 64)"

definition bitmap_new :: "usize \<Rightarrow> usize \<Rightarrow> Bitmap" where
  "bitmap_new start n = \<lparr>start_block_id = start, bm_blocks = n\<rparr>"

text \<open>\<open>u64::trailing_ones\<close>.\<close>

definition trailing_ones :: "u64 \<Rightarrow> nat" where
  "trailing_ones w = length (takeWhile (bit w) [0..<64])"

definition alloc_in_block :: "usize \<Rightarrow> u64 list \<Rightarrow> usize option \<times> u64 list" where
  "alloc_in_block blk bitmap_block =
     (case find_index (\<lambda>bits64. bits64 \<noteq> - 1) bitmap_block of
        Some bits64_pos \<Rightarrow>
          let inner_pos = trailing_ones (bitmap_block ! bits64_pos)
          in (Some ((blk * BLOCK_BITS + bits64_pos * 64 + inner_pos) mod USIZE_LIMIT),
              bitmap_block[bits64_pos := bitmap_block ! bits64_pos OR push_bit inner_pos 1])
      | None \<Rightarrow> (None, bitmap_block))"

fun alloc_loop :: "'d BlockDevice \<Rightarrow> Bitmap \<Rightarrow> usize list \<Rightarrow> ('d world, usize option) cmd" where
  "alloc_loop dev bm [] = ret None"
| "alloc_loop dev bm (blk # ids) =
     bind (cache_modify dev (usize_add blk (start_block_id bm)) 0 BitmapBlock
             (\<lambda>bitmap_block. ret (alloc_in_block blk bitmap_block)))
       (\<lambda>pos. if pos \<noteq> None then ret pos else alloc_loop dev bm ids)"

definition bitmap_alloc :: "'d BlockDevice \<Rightarrow> Bitmap \<Rightarrow> ('d world, usize option) cmd" where
  "bitmap_alloc dev bm = alloc_loop dev bm [0..<bm_blocks bm]"

definition bitmap_dealloc :: "'d BlockDevice \<Rightarrow> Bitmap \<Rightarrow> usize \<Rightarrow> ('d world, unit) cmd" where
  "bitmap_dealloc dev bm n =
     (case decomposition n of (block_pos, bits64_pos, inner_pos) \<Rightarrow>
        cache_modify dev (usize_add block_pos (start_block_id bm)) 0 BitmapBlock
          (\<lambda>bitmap_block.
             bind (lift (index_res bitmap_block bits64_pos)) (\<lambda>w.
             bind (assert_cmd (w AND push_bit inner_pos 1 > 0)) (\<lambda>_.
             ret ((), bitmap_block[bits64_pos := w - push_bit inner_pos 1])))))"

definition bitmap_maximum :: "Bitmap \<Rightarrow> usize" where
  "bitmap_maximum bm = bm_blocks bm * BLOCK_BITS"

section \<open>Abstraction\<close>

definition bit_at :: "u64 list \<Rightarrow> nat \<Rightarrow> bool" where
  "bit_at ws i = bit (ws ! (i div 64)) (i mod 64)"

definition bm_test :: "(usize \<Rightarrow> bytes) \<Rightarrow> Bitmap \<Rightarrow> nat \<Rightarrow> bool" where
  "bm_test V bm i = bit_at (bytes_u64s 64 (V (i div BLOCK_BITS + start_block_id bm))) (i mod BLOCK_BITS)"

definition bm_range :: "Bitmap \<Rightarrow> usize set" where
  "bm_range bm = {start_block_id bm ..< start_block_id bm + bm_blocks bm}"

text \<open>A bitmap that fits a device of \<open>nblk\<close> blocks, none of its blocks being held.\<close>

definition bm_fits :: "nat \<Rightarrow> usize set \<Rightarrow> Bitmap \<Rightarrow> bool" where
  "bm_fits nblk P bm \<longleftrightarrow> start_block_id bm + bm_blocks bm \<le> nblk \<and> nblk * BLOCK_BITS \<le> USIZE_LIMIT \<and>
     bm_range bm \<inter> P = {} \<and> card P < BLOCK_CACHE_SIZE"

text \<open>The postcondition of an allocation that has scanned the blocks from \<open>k\<close> on.\<close>

definition bm_alloc_post :: "Bitmap \<Rightarrow> (usize \<Rightarrow> bytes) \<Rightarrow> nat \<Rightarrow> usize option \<Rightarrow> (usize \<Rightarrow> bytes) \<Rightarrow> bool" where
  "bm_alloc_post bm V k r V' \<longleftrightarrow>
     (\<forall>b. b \<notin> bm_range bm \<longrightarrow> V' b = V b) \<and>
     (case r of
        None \<Rightarrow> V' = V \<and> (\<forall>i. k * BLOCK_BITS \<le> i \<and> i < bitmap_maximum bm \<longrightarrow> bm_test V bm i)
      | Some n \<Rightarrow> k * BLOCK_BITS \<le> n \<and> n < bitmap_maximum bm \<and> \<not> bm_test V bm n \<and>
          (\<forall>i. k * BLOCK_BITS \<le> i \<and> i < n \<longrightarrow> bm_test V bm i) \<and>
          (\<forall>i. bm_test V' bm i \<longleftrightarrow> i = n \<or> bm_test V bm i))"

section \<open>One word\<close>

lemma trailing_ones_correct:
  assumes "w \<noteq> - 1"
  shows "trailing_ones w < 64" and "\<not> bit w (trailing_ones w)" and "j < trailing_ones w \<Longrightarrow> bit w j"
proof -
  have "\<exists>i<64. \<not> bit w i"
  proof (rule ccontr)
    assume "\<not> ?thesis"
    then have "w = - 1" by (intro bit_word_eqI) simp
    with assms show False by simp
  qed
  then have *: "length (takeWhile (bit w) [0..<64]) < length [0..<(64::nat)]"
    by (metis length_takeWhile_le le_neq_implies_less takeWhile_eq_all_conv length_upt
        takeWhile_eq_take take_all_iff atLeastLessThan_iff set_upt le0)
  then show "trailing_ones w < 64" by (simp add: trailing_ones_def)
  show "\<not> bit w (trailing_ones w)" using nth_length_takeWhile [OF *] * by (simp add: trailing_ones_def)
  assume "j < trailing_ones w"
  with takeWhile_nth [of j "bit w" "[0..<64]"] nth_mem [of j "takeWhile (bit w) [0..<64]"] *
  show "bit w j" by (auto simp: trailing_ones_def dest: set_takeWhileD)
qed

lemma bit_set_bit: "n < 64 \<Longrightarrow> bit (w OR push_bit n 1 :: u64) j \<longleftrightarrow> bit w j \<or> j = n"
  by (auto simp: bit_or_iff bit_exp_iff)

lemma clear_bit_minus:
  assumes "bit (w :: u64) n"
  shows "w - push_bit n 1 = unset_bit n w"
proof -
  have n: "n < 64" using bit_imp_le_length [OF assms] by simp
  have "unset_bit n w + push_bit n 1 = unset_bit n w OR push_bit n 1"
    by (rule disjunctive_add) (auto simp: bit_unset_bit_iff bit_exp_iff)
  also have "\<dots> = w"
    using assms n by (intro bit_word_eqI) (auto simp: bit_or_iff bit_unset_bit_iff bit_exp_iff)
  finally show ?thesis by (simp add: algebra_simps)
qed

lemma test_bit_pos: "n < 64 \<Longrightarrow> (w :: u64) AND push_bit n 1 > 0 \<longleftrightarrow> bit w n"
  by (simp add: word_gt_0 bit_iff_and_push_bit_not_eq_0)

section \<open>One block\<close>

lemma bit_at_None:
  assumes "length ws = 64"
  shows "find_index (\<lambda>w. w \<noteq> - 1) ws = None \<longleftrightarrow> (\<forall>i<BLOCK_BITS. bit_at ws i)"
proof
  assume "find_index (\<lambda>w. w \<noteq> - 1) ws = None"
  then have one: "\<forall>w\<in>set ws. w = - 1" by (simp add: find_index_None)
  have "ws ! (i div 64) = - 1" if "i < BLOCK_BITS" for i
    using that assms one by (simp add: less_mult_imp_div_less)
  then show "\<forall>i<BLOCK_BITS. bit_at ws i" by (simp add: bit_at_def)
next
  assume all: "\<forall>i<BLOCK_BITS. bit_at ws i"
  have "ws ! k = - 1" if "k < 64" for k
  proof (rule bit_word_eqI)
    fix n assume "n < LENGTH(64)"
    with that have "k * 64 + n < BLOCK_BITS" "(k * 64 + n) div 64 = k" "(k * 64 + n) mod 64 = n" by auto
    with all \<open>n < LENGTH(64)\<close> show "bit (ws ! k) n = bit (- 1 :: u64) n" by (auto simp: bit_at_def)
  qed
  then show "find_index (\<lambda>w. w \<noteq> - 1) ws = None" using assms by (auto simp: find_index_None in_set_conv_nth)
qed

lemma alloc_in_block_Some:
  assumes "length ws = 64" and "find_index (\<lambda>w. w \<noteq> - 1) ws = Some p" and "q = trailing_ones (ws ! p)"
  shows "p * 64 + q < BLOCK_BITS" and "\<not> bit_at ws (p * 64 + q)" and "j < p * 64 + q \<Longrightarrow> bit_at ws j"
    and "bit_at (ws[p := ws ! p OR push_bit q 1]) j \<longleftrightarrow> j = p * 64 + q \<or> bit_at ws j"
proof -
  from find_index_SomeD [OF assms(2)] assms(1) have p: "p < 64" "ws ! p \<noteq> - 1" "\<forall>k<p. ws ! k = - 1" by auto
  note q = trailing_ones_correct [OF p(2), folded assms(3)]
  show "p * 64 + q < BLOCK_BITS" using p(1) q(1) by simp
  show "\<not> bit_at ws (p * 64 + q)" using q(1,2) by (simp add: bit_at_def)
  show "bit_at ws j" if "j < p * 64 + q"
  proof (cases "j div 64 = p")
    case True
    with that have "j mod 64 < q" by (metis add_less_cancel_left div_mult_mod_eq)
    with q(3) True show ?thesis by (simp add: bit_at_def)
  next
    case False
    have "j div 64 < Suc p" using that q(1) by (simp add: less_mult_imp_div_less)
    with False p(3) show ?thesis by (simp add: bit_at_def)
  qed
  have "j = p * 64 + q \<longleftrightarrow> j div 64 = p \<and> j mod 64 = q" using q(1) by auto
  then show "bit_at (ws[p := ws ! p OR push_bit q 1]) j \<longleftrightarrow> j = p * 64 + q \<or> bit_at ws j"
    using bit_set_bit [OF q(1), of "ws ! p" "j mod 64"] p(1) assms(1)
    by (auto simp: bit_at_def nth_list_update)
qed

lemma bit_at_clear:
  assumes "bit_at ws n" and "n < BLOCK_BITS" and "length ws = 64"
  shows "bit_at (ws[n div 64 := ws ! (n div 64) - push_bit (n mod 64) 1]) j \<longleftrightarrow> j \<noteq> n \<and> bit_at ws j"
proof -
  have "n div 64 < 64" using assms(2) by (simp add: less_mult_imp_div_less)
  moreover have "j = n \<longleftrightarrow> j div 64 = n div 64 \<and> j mod 64 = n mod 64" by (metis div_mult_mod_eq)
  ultimately show ?thesis
    using assms clear_bit_minus [of "ws ! (n div 64)" "n mod 64"]
    by (auto simp: bit_at_def nth_list_update bit_unset_bit_iff)
qed

section \<open>The bitmap\<close>

lemma BitmapBlock_access:
  "size_of BitmapBlock = 512" "from_bytes BitmapBlock bs = Some (bytes_u64s 64 bs)"
  "to_bytes BitmapBlock ws old = u64s_bytes ws"
  by (simp_all add: BitmapBlock_def)

lemma bm_test_upd:
  assumes "length ws = 64" and "length (V (start_block_id bm + b)) = BLOCK_SZ"
  shows "bm_test (V(start_block_id bm + b := overwrite (V (start_block_id bm + b)) 0 (u64s_bytes ws))) bm j \<longleftrightarrow>
    (if j div BLOCK_BITS = b then bit_at ws (j mod BLOCK_BITS) else bm_test V bm j)"
  using assms by (auto simp: bm_test_def overwrite_whole bytes_roundtrips add.commute)

lemma div_block: "i div BLOCK_BITS = b \<longleftrightarrow> b * BLOCK_BITS \<le> i \<and> i < Suc b * BLOCK_BITS"
  by auto

lemma alloc_in_block_full:
  assumes "alloc_in_block b (bytes_u64s 64 (V (start_block_id bm + b))) = (None, ws)"
  shows "ws = bytes_u64s 64 (V (start_block_id bm + b))"
    and "b * BLOCK_BITS \<le> i \<Longrightarrow> i < Suc b * BLOCK_BITS \<Longrightarrow> bm_test V bm i"
proof -
  have none: "find_index (\<lambda>w. w \<noteq> - 1) (bytes_u64s 64 (V (start_block_id bm + b))) = None"
    using assms by (auto simp: alloc_in_block_def Let_def split: option.splits)
  then show "ws = bytes_u64s 64 (V (start_block_id bm + b))" using assms by (simp add: alloc_in_block_def)
  assume "b * BLOCK_BITS \<le> i" "i < Suc b * BLOCK_BITS"
  then have "i div BLOCK_BITS = b" by (simp add: div_block)
  with none show "bm_test V bm i" by (simp add: bm_test_def bit_at_None add.commute)
qed

lemma alloc_in_block_hit:
  assumes "alloc_in_block b (bytes_u64s 64 (V (start_block_id bm + b))) = (Some n, ws)"
    and "b < bm_blocks bm" and "bitmap_maximum bm \<le> USIZE_LIMIT"
    and len: "length (V (start_block_id bm + b)) = BLOCK_SZ"
  shows "bm_alloc_post bm V b (Some n)
    (V(start_block_id bm + b := overwrite (V (start_block_id bm + b)) 0 (u64s_bytes ws)))"
proof -
  let ?ws = "bytes_u64s 64 (V (start_block_id bm + b))"
  from assms(1) obtain p where p: "find_index (\<lambda>w. w \<noteq> - 1) ?ws = Some p"
    by (auto simp: alloc_in_block_def Let_def split: option.splits)
  define q where "q = trailing_ones (?ws ! p)"
  note pq = alloc_in_block_Some [OF length_bytes_u64s p q_def]
  have mx: "Suc b * BLOCK_BITS \<le> bitmap_maximum bm"
    unfolding bitmap_maximum_def using assms(2) by (intro mult_le_mono1) simp
  then have "b * BLOCK_BITS + (p * 64 + q) < USIZE_LIMIT" using pq(1) assms(3) by simp
  then have n: "n = b * BLOCK_BITS + (p * 64 + q)" and ws: "ws = ?ws[p := ?ws ! p OR push_bit q 1]"
    using assms(1) p by (auto simp: alloc_in_block_def q_def add.assoc Let_def)
  have nd: "n div BLOCK_BITS = b" "n mod BLOCK_BITS = p * 64 + q" using n pq(1) by simp_all
  have lw: "length ws = 64" using ws by simp
  have low: "bm_test V bm i" if "b * BLOCK_BITS \<le> i" "i < n" for i
  proof -
    have "i div BLOCK_BITS = b" unfolding div_block using that n pq(1) by simp
    then have "bm_test V bm i = bit_at ?ws (i mod BLOCK_BITS)" by (simp add: bm_test_def add.commute)
    moreover have "i mod BLOCK_BITS < p * 64 + q"
      using that(2) n \<open>i div BLOCK_BITS = b\<close> by (metis add_less_cancel_left div_mult_mod_eq)
    ultimately show ?thesis using pq(3) by simp
  qed
  have "i = n \<longleftrightarrow> i div BLOCK_BITS = b \<and> i mod BLOCK_BITS = p * 64 + q" for i
    using nd n by (metis div_mult_mod_eq)
  then have "bm_test (V(start_block_id bm + b := overwrite (V (start_block_id bm + b)) 0 (u64s_bytes ws))) bm i \<longleftrightarrow>
      i = n \<or> bm_test V bm i" for i
    unfolding bm_test_upd [of ws V bm b, OF lw len] unfolding ws pq(4) by (simp add: bm_test_def add.commute)
  then show ?thesis
    using nd pq(1,2) mx n low assms(2) by (auto simp: bm_alloc_post_def bm_range_def bm_test_def add.commute)
qed

lemma bm_alloc_post_step:
  assumes "bm_alloc_post bm V (Suc b) r V'"
    and "\<forall>i. b * BLOCK_BITS \<le> i \<and> i < Suc b * BLOCK_BITS \<longrightarrow> bm_test V bm i"
  shows "bm_alloc_post bm V b r V'"
proof -
  have le: "b * BLOCK_BITS \<le> Suc b * BLOCK_BITS" by simp
  have low: "bm_test V bm i" if "\<not> Suc b * BLOCK_BITS \<le> i" "b * BLOCK_BITS \<le> i" for i
    using that assms(2) by (simp del: mult_Suc)
  show ?thesis
  proof (cases r)
    case None
    with assms(1) low show ?thesis by (simp add: bm_alloc_post_def del: mult_Suc) blast
  next
    case (Some n)
    with assms(1) have "\<forall>i. Suc b * BLOCK_BITS \<le> i \<and> i < n \<longrightarrow> bm_test V bm i" "Suc b * BLOCK_BITS \<le> n"
      by (simp_all add: bm_alloc_post_def del: mult_Suc)
    with low have "\<forall>i. b * BLOCK_BITS \<le> i \<and> i < n \<longrightarrow> bm_test V bm i" by blast
    with assms(1) Some le_trans [OF le] show ?thesis by (simp add: bm_alloc_post_def del: mult_Suc)
  qed
qed

context block_device
begin

lemma alloc_loop_ok:
  assumes "bm_fits nblk P bm" and "ids = [k..<bm_blocks bm]"
  shows "hr V P (alloc_loop dev bm ids) (bm_alloc_post bm V k)"
  using assms(2)
proof (induction ids arbitrary: k)
  case Nil
  then have "bm_blocks bm * BLOCK_BITS \<le> k * BLOCK_BITS" by (intro mult_le_mono1) (metis upt_eq_Nil_conv le0 le_eq_less_or_eq)
  then show ?case by (auto intro!: hoare_ret simp: bm_alloc_post_def bitmap_maximum_def)
next
  case (Cons b ids)
  have k: "b = k" "k < bm_blocks bm" "ids = [Suc k..<bm_blocks bm]"
    using Cons.prems [symmetric] by (auto simp: upt_eq_Cons_conv)
  let ?b = "start_block_id bm + k"
  have fits: "?b < nblk" "?b \<notin> P" "card P < BLOCK_CACHE_SIZE" "?b < USIZE_LIMIT" "bitmap_maximum bm \<le> USIZE_LIMIT"
    using assms(1) k(2) by (auto simp: bm_fits_def bm_range_def bitmap_maximum_def disjoint_iff)
  have ad: "usize_add k (start_block_id bm) = ?b" using fits(4) by (simp add: add.commute)
  show ?case
  proof (rule hoare_len)
    assume "\<forall>b<nblk. length (V b) = BLOCK_SZ"
    then have len: "length (V ?b) = BLOCK_SZ" using fits(1) by simp
    obtain r ws where aib: "alloc_in_block k (bytes_u64s 64 (V ?b)) = (r, ws)" by fastforce
    have lw: "length ws = 64"
      using aib by (auto simp: alloc_in_block_def Let_def split: option.splits)
    have m: "hr V P (cache_modify dev ?b 0 BitmapBlock (\<lambda>bb. ret (alloc_in_block k bb)))
        (\<lambda>r' V'. r' = r \<and> V' = V(?b := overwrite (V ?b) 0 (u64s_bytes ws)))"
      by (rule hoare_cache_modify [OF fits(1-3), where t = "bytes_u64s 64 (V ?b)"]) (simp_all add: BitmapBlock_access len aib lw)
    show "hr V P (alloc_loop dev bm (b # ids)) (bm_alloc_post bm V k)"
    proof (cases r)
      case None
      note full = alloc_in_block_full [of k V bm, OF aib [unfolded None]]
      have same: "V(?b := overwrite (V ?b) 0 (u64s_bytes ws)) = V"
        using len full(1) by (simp add: overwrite_whole bytes_roundtrips)
      have "hr V P (alloc_loop dev bm ids) (bm_alloc_post bm V k)"
        by (rule hoare_conseq [OF Cons.IH [OF k(3)]], erule bm_alloc_post_step) (use full(2) in blast)
      then show ?thesis unfolding alloc_loop.simps k(1) ad
        by (intro hoare_bind [OF m]) (simp add: None same)
    next
      case (Some n)
      show ?thesis unfolding alloc_loop.simps k(1) ad
        by (rule hoare_bind [OF m]) (use alloc_in_block_hit [of k V bm, OF aib [unfolded Some] k(2) fits(5) len] Some in auto)
    qed
  qed
qed

lemma bitmap_alloc_ok:
  "bm_fits nblk P bm \<Longrightarrow> hr V P (bitmap_alloc dev bm) (bm_alloc_post bm V 0)"
  unfolding bitmap_alloc_def by (rule alloc_loop_ok) simp_all

lemma bitmap_dealloc_fits:
  assumes "bm_fits nblk P bm" and "n < bitmap_maximum bm"
  shows "start_block_id bm + n div BLOCK_BITS < nblk" "start_block_id bm + n div BLOCK_BITS \<notin> P"
    "card P < BLOCK_CACHE_SIZE" "start_block_id bm + n div BLOCK_BITS \<in> bm_range bm"
    "usize_add (n div BLOCK_BITS) (start_block_id bm) = start_block_id bm + n div BLOCK_BITS"
proof -
  have "n div BLOCK_BITS < bm_blocks bm" using assms(2) by (simp add: bitmap_maximum_def less_mult_imp_div_less)
  then show "start_block_id bm + n div BLOCK_BITS < nblk" "start_block_id bm + n div BLOCK_BITS \<notin> P"
    "card P < BLOCK_CACHE_SIZE" "start_block_id bm + n div BLOCK_BITS \<in> bm_range bm"
    "usize_add (n div BLOCK_BITS) (start_block_id bm) = start_block_id bm + n div BLOCK_BITS"
    using assms(1) by (auto simp: bm_fits_def bm_range_def disjoint_iff add.commute)
qed

lemma bitmap_dealloc_ok:
  assumes "bm_fits nblk P bm" and "n < bitmap_maximum bm" and "bm_test V bm n"
  shows "hr V P (bitmap_dealloc dev bm n)
    (\<lambda>_ V'. (\<forall>b. b \<notin> bm_range bm \<longrightarrow> V' b = V b) \<and> (\<forall>i. bm_test V' bm i \<longleftrightarrow> i \<noteq> n \<and> bm_test V bm i))"
proof (rule hoare_len)
  let ?b = "start_block_id bm + n div BLOCK_BITS"
  let ?ws = "bytes_u64s 64 (V ?b)" and ?n = "n mod BLOCK_BITS"
  note fits = bitmap_dealloc_fits [OF assms(1,2)]
  assume "\<forall>b<nblk. length (V b) = BLOCK_SZ"
  then have len: "length (V ?b) = BLOCK_SZ" using fits(1) by simp
  have t: "bit_at ?ws ?n" using assms(3) by (simp add: bm_test_def add.commute)
  define ws where "ws = ?ws[?n div 64 := ?ws ! (?n div 64) - push_bit (?n mod 64) 1]"
  have lw: "length ws = 64" by (simp add: ws_def)
  have i64: "?n div 64 < 64" by (simp add: less_mult_imp_div_less)
  have eq: "i = n \<longleftrightarrow> i div BLOCK_BITS = n div BLOCK_BITS \<and> i mod BLOCK_BITS = ?n" for i
    by (metis div_mult_mod_eq)
  have "bm_test (V(?b := overwrite (V ?b) 0 (u64s_bytes ws))) bm i \<longleftrightarrow> i \<noteq> n \<and> bm_test V bm i" for i
    unfolding bm_test_upd [of ws V bm "n div BLOCK_BITS", OF lw len]
    using bit_at_clear [OF t, of "i mod BLOCK_BITS", folded ws_def]
    by (auto simp: eq bm_test_def add.commute)
  moreover have "?ws ! (?n div 64) AND push_bit (?n mod 64) 1 > 0"
    using t by (simp add: bit_at_def test_bit_pos del: push_bit_of_1)
  then have "bind (lift (index_res ?ws (?n div 64))) (\<lambda>w. bind (assert_cmd (w AND push_bit (?n mod 64) 1 > 0))
      (\<lambda>_. ret ((), ?ws[?n div 64 := w - push_bit (?n mod 64) 1]))) = (ret ((), ws) :: ('d world, unit \<times> u64 list) cmd)"
    using i64 by (simp add: index_res_def ws_def del: push_bit_of_1)
  ultimately show "hr V P (bitmap_dealloc dev bm n)
    (\<lambda>_ V'. (\<forall>b. b \<notin> bm_range bm \<longrightarrow> V' b = V b) \<and> (\<forall>i. bm_test V' bm i \<longleftrightarrow> i \<noteq> n \<and> bm_test V bm i))"
    unfolding bitmap_dealloc_def decomposition_def prod.case fits(5)
    using fits(4) len lw
    by (intro hoare_cache_modify [OF fits(1-3), where t = ?ws]) (simp_all add: BitmapBlock_access del: push_bit_of_1)
qed

lemma bitmap_dealloc_stops:
  assumes "bm_fits nblk P bm" and "n < bitmap_maximum bm" and "\<not> bm_test V bm n"
  shows "stops nblk dok content V P (bitmap_dealloc dev bm n) Assert_failed"
proof -
  let ?b = "start_block_id bm + n div BLOCK_BITS"
  note fits = bitmap_dealloc_fits [OF assms(1,2)]
  have i64: "n mod BLOCK_BITS div 64 < 64" by (simp add: less_mult_imp_div_less)
  let ?ws = "bytes_u64s 64 (take BLOCK_SZ (V ?b))"
  have clear: "\<not> ?ws ! (n mod BLOCK_BITS div 64) AND push_bit (n mod BLOCK_BITS mod 64) 1 > 0"
    if "length (V ?b) = BLOCK_SZ"
    using assms(3) that by (simp add: bm_test_def bit_at_def add.commute test_bit_pos del: push_bit_of_1)
  have "bind (lift (index_res ?ws (n mod BLOCK_BITS div 64))) (\<lambda>w. bind (assert_cmd (w AND push_bit (n mod BLOCK_BITS mod 64) 1 > 0))
      (f w)) w' = Panic Assert_failed" if "ok w'" "vw w' = V" for f :: "u64 \<Rightarrow> unit \<Rightarrow> ('d world, unit \<times> u64 list) cmd" and w'
    using clear length_view [OF that(1) fits(1)] that(2) i64
    by (simp add: index_res_def assert_cmd_def bind_def fail_def ret_def del: push_bit_of_1)
  then show ?thesis
    unfolding bitmap_dealloc_def decomposition_def prod.case fits(5)
    by (intro stops_cache_modify [OF fits(1-3), where t = ?ws])
      (simp_all add: BitmapBlock_access stops_def del: push_bit_of_1)
qed

end

section \<open>Properties\<close>

text \<open>C26. \<open>Bitmap::alloc\<close> returns, and it returns the least clear bit of the bitmap, having set that
  bit and no other and changed no block outside the bitmap; it returns \<open>None\<close>, changing nothing,
  exactly when all the bits are set.\<close>

theorem bitmap_alloc_correct:
  assumes "bm_fits nblk P bm"
    and "cache_ok nblk (blockfile_ok nblk) blockfile_content w" and "pins w = P"
  shows "runs (bitmap_alloc BlockFile bm) w (\<lambda>r w'.
    let V = view nblk blockfile_content w; V' = view nblk blockfile_content w' in
    (\<forall>b. b \<notin> bm_range bm \<longrightarrow> V' b = V b) \<and>
    (case r of
       None \<Rightarrow> V' = V \<and> (\<forall>i<bitmap_maximum bm. bm_test V bm i)
     | Some n \<Rightarrow> n < bitmap_maximum bm \<and> \<not> bm_test V bm n \<and> (\<forall>i<n. bm_test V bm i) \<and>
         (\<forall>i. bm_test V' bm i \<longleftrightarrow> i = n \<or> bm_test V bm i)))"
  using bf.hoareD [OF bf.bitmap_alloc_ok [OF assms(1)] assms(2) refl assms(3)]
  by (rule runs_mono) (auto simp: bm_alloc_post_def Let_def split: option.splits)

lemma bitmap_alloc_correct_witness:
  "runs (bitmap_alloc BlockFile (bitmap_new 1 1)) (manager_new (replicate 1024 0)) (\<lambda>r w'.
    let V = view 2 blockfile_content (manager_new (replicate 1024 0)); V' = view 2 blockfile_content w' in
    (\<forall>b. b \<notin> bm_range (bitmap_new 1 1) \<longrightarrow> V' b = V b) \<and>
    (case r of
       None \<Rightarrow> V' = V \<and> (\<forall>i<bitmap_maximum (bitmap_new 1 1). bm_test V (bitmap_new 1 1) i)
     | Some n \<Rightarrow> n < bitmap_maximum (bitmap_new 1 1) \<and> \<not> bm_test V (bitmap_new 1 1) n \<and>
         (\<forall>i<n. bm_test V (bitmap_new 1 1) i) \<and>
         (\<forall>i. bm_test V' (bitmap_new 1 1) i \<longleftrightarrow> i = n \<or> bm_test V (bitmap_new 1 1) i)))"
  by (rule bitmap_alloc_correct [where P = "{}"])
    (simp_all add: bm_fits_def bitmap_new_def bf.cache_ok_manager_new blockfile_ok_def USIZE_LIMIT_def)

text \<open>C32. \<open>Bitmap::dealloc\<close> of a set bit clears exactly that bit; of a clear bit (a double free) it
  stops at its assertion.\<close>

theorem bitmap_dealloc_correct:
  assumes "bm_fits nblk P bm" and "n < bitmap_maximum bm"
    and "cache_ok nblk (blockfile_ok nblk) blockfile_content w" and "pins w = P"
  shows "if bm_test (view nblk blockfile_content w) bm n
    then runs (bitmap_dealloc BlockFile bm n) w (\<lambda>_ w'.
      (\<forall>b. b \<notin> bm_range bm \<longrightarrow> view nblk blockfile_content w' b = view nblk blockfile_content w b) \<and>
      (\<forall>i. bm_test (view nblk blockfile_content w') bm i \<longleftrightarrow>
         i \<noteq> n \<and> bm_test (view nblk blockfile_content w) bm i))
    else bitmap_dealloc BlockFile bm n w = Panic Assert_failed"
proof (cases "bm_test (view nblk blockfile_content w) bm n")
  case True
  from bf.hoareD [OF bf.bitmap_dealloc_ok [OF assms(1,2) True] assms(3) refl assms(4)]
  have "runs (bitmap_dealloc BlockFile bm n) w (\<lambda>_ w'.
      (\<forall>b. b \<notin> bm_range bm \<longrightarrow> view nblk blockfile_content w' b = view nblk blockfile_content w b) \<and>
      (\<forall>i. bm_test (view nblk blockfile_content w') bm i \<longleftrightarrow>
         i \<noteq> n \<and> bm_test (view nblk blockfile_content w) bm i))" by (rule runs_mono) simp
  with True show ?thesis by simp
next
  case False
  with bf.bitmap_dealloc_stops [OF assms(1,2) False] assms(3,4) show ?thesis by (simp add: stops_def)
qed

lemma bitmap_dealloc_correct_witness:
  "if bm_test (view 2 blockfile_content (manager_new (replicate 1024 255))) (bitmap_new 1 1) 70
    then runs (bitmap_dealloc BlockFile (bitmap_new 1 1) 70) (manager_new (replicate 1024 255)) (\<lambda>_ w'.
      (\<forall>b. b \<notin> bm_range (bitmap_new 1 1) \<longrightarrow>
         view 2 blockfile_content w' b = view 2 blockfile_content (manager_new (replicate 1024 255)) b) \<and>
      (\<forall>i. bm_test (view 2 blockfile_content w') (bitmap_new 1 1) i \<longleftrightarrow>
         i \<noteq> 70 \<and> bm_test (view 2 blockfile_content (manager_new (replicate 1024 255))) (bitmap_new 1 1) i))
    else bitmap_dealloc BlockFile (bitmap_new 1 1) 70 (manager_new (replicate 1024 255)) = Panic Assert_failed"
  by (rule bitmap_dealloc_correct [where P = "{}"])
    (simp_all add: bm_fits_def bitmap_new_def bitmap_maximum_def bf.cache_ok_manager_new blockfile_ok_def USIZE_LIMIT_def)

end
