(* ===== verification/Layout.thy ===== *)
theory Layout
  imports Bitmap
begin

text \<open>
  The on-disk structures of easy-fs (src/easy-fs/src/layout.rs): the super block, the disk inode,
  the indirect and data blocks and the directory entry, with their \<open>repr(C)\<close> byte layouts.  The
  enum \<open>DiskInodeType\<close> occupies one byte (0 or 1); the three bytes after it are padding and keep
  their values when an inode is stored.  The lemmas give the layouts' round trips, the block counts
  as exact arithmetic, and the round trip of a directory entry's name.
\<close>

section \<open>Model\<close>

abbreviation EFS_MAGIC :: u32 where "EFS_MAGIC \<equiv> 0x3b800001"
abbreviation INODE_DIRECT_COUNT :: nat where "INODE_DIRECT_COUNT \<equiv> 28"
abbreviation NAME_LENGTH_LIMIT :: nat where "NAME_LENGTH_LIMIT \<equiv> 27"
abbreviation INODE_INDIRECT1_COUNT :: nat where "INODE_INDIRECT1_COUNT \<equiv> 128"
abbreviation INODE_INDIRECT2_COUNT :: nat where "INODE_INDIRECT2_COUNT \<equiv> 16384"
abbreviation INDIRECT1_BOUND :: nat where "INDIRECT1_BOUND \<equiv> 156"
abbreviation INDIRECT2_BOUND :: nat where "INDIRECT2_BOUND \<equiv> 16540"
abbreviation DIRENT_SZ :: nat where "DIRENT_SZ \<equiv> 32"

record SuperBlock =
  magic :: u32
  sb_total_blocks :: u32
  inode_bitmap_blocks :: u32
  inode_area_blocks :: u32
  data_bitmap_blocks :: u32
  data_area_blocks :: u32

definition superblock_initialize :: "SuperBlock \<Rightarrow> u32 \<Rightarrow> u32 \<Rightarrow> u32 \<Rightarrow> u32 \<Rightarrow> u32 \<Rightarrow> SuperBlock" where
  "superblock_initialize sb tb ibb iab dbb dab =
     \<lparr>magic = EFS_MAGIC, sb_total_blocks = tb, inode_bitmap_blocks = ibb, inode_area_blocks = iab,
      data_bitmap_blocks = dbb, data_area_blocks = dab\<rparr>"

definition superblock_is_valid :: "SuperBlock \<Rightarrow> bool" where
  "superblock_is_valid sb \<longleftrightarrow> magic sb = EFS_MAGIC"

definition superblock_words :: "SuperBlock \<Rightarrow> u32 list" where
  "superblock_words sb = [magic sb, sb_total_blocks sb, inode_bitmap_blocks sb, inode_area_blocks sb,
     data_bitmap_blocks sb, data_area_blocks sb]"

definition SuperBlock_layout :: "SuperBlock layout" where
  "SuperBlock_layout = \<lparr>size_of = 24,
     from_bytes = (\<lambda>bs. case bytes_u32s 6 bs of
        [m, tb, ibb, iab, dbb, dab] \<Rightarrow> Some \<lparr>magic = m, sb_total_blocks = tb, inode_bitmap_blocks = ibb,
          inode_area_blocks = iab, data_bitmap_blocks = dbb, data_area_blocks = dab\<rparr>
      | _ \<Rightarrow> None),
     to_bytes = (\<lambda>sb _. u32s_bytes (superblock_words sb))\<rparr>"

datatype DiskInodeType = File | Directory

definition IndirectBlock :: "u32 list layout" where
  "IndirectBlock = \<lparr>size_of = 512, from_bytes = (\<lambda>bs. Some (bytes_u32s 128 bs)), to_bytes = (\<lambda>ws _. u32s_bytes ws)\<rparr>"

definition DataBlock :: "bytes layout" where
  "DataBlock = bytes_layout BLOCK_SZ"

record DiskInode =
  di_size :: u32
  direct :: "u32 list"
  indirect1 :: u32
  indirect2 :: u32
  di_type :: DiskInodeType

fun inode_type_of_byte :: "u8 \<Rightarrow> DiskInodeType option" where
  "inode_type_of_byte b = (if b = 0 then Some File else if b = 1 then Some Directory else None)"

fun byte_of_inode_type :: "DiskInodeType \<Rightarrow> u8" where
  "byte_of_inode_type File = 0"
| "byte_of_inode_type Directory = 1"

definition DiskInode_layout :: "DiskInode layout" where
  "DiskInode_layout = \<lparr>size_of = 128,
     from_bytes = (\<lambda>bs. case inode_type_of_byte (bs ! 124) of
        None \<Rightarrow> None
      | Some ty \<Rightarrow> Some \<lparr>di_size = le_word (take 4 bs), direct = bytes_u32s 28 (take 112 (drop 4 bs)),
          indirect1 = le_word (take 4 (drop 116 bs)), indirect2 = le_word (take 4 (drop 120 bs)), di_type = ty\<rparr>),
     to_bytes = (\<lambda>di old. u32_bytes (di_size di) @ u32s_bytes (direct di) @ u32_bytes (indirect1 di) @
        u32_bytes (indirect2 di) @ [byte_of_inode_type (di_type di)] @ drop 125 old)\<rparr>"

definition inode_initialize :: "DiskInode \<Rightarrow> DiskInodeType \<Rightarrow> DiskInode" where
  "inode_initialize di ty = di\<lparr>di_size := 0, direct := map (\<lambda>_. 0) (direct di), indirect1 := 0,
     indirect2 := 0, di_type := ty\<rparr>"

definition is_dir :: "DiskInode \<Rightarrow> bool" where
  "is_dir di \<longleftrightarrow> di_type di = Directory"

definition is_file :: "DiskInode \<Rightarrow> bool" where
  "is_file di \<longleftrightarrow> di_type di = File"

definition data_blocks_for :: "u32 \<Rightarrow> u32" where
  "data_blocks_for sz = (sz + 512 - 1) div 512"

definition data_blocks :: "DiskInode \<Rightarrow> u32" where
  "data_blocks di = data_blocks_for (di_size di)"

definition total_blocks :: "u32 \<Rightarrow> u32" where
  "total_blocks sz =
     (let n = unat (data_blocks_for sz);
          total = n;
          total = (if n > INODE_DIRECT_COUNT then total + 1 else total);
          total = (if n > INDIRECT1_BOUND
                   then total + 1 + (n - INDIRECT1_BOUND + INODE_INDIRECT1_COUNT - 1) div INODE_INDIRECT1_COUNT
                   else total)
      in of_nat total)"

definition blocks_num_needed :: "DiskInode \<Rightarrow> u32 \<Rightarrow> u32 res" where
  "blocks_num_needed di new_size =
     (if \<not> new_size \<ge> di_size di then Panic Assert_failed
      else Ok (total_blocks new_size - total_blocks (di_size di)))"

record DirEntry =
  de_name :: bytes
  de_inode_number :: u32

definition dirent_empty :: DirEntry where
  "dirent_empty = \<lparr>de_name = replicate (NAME_LENGTH_LIMIT + 1) 0, de_inode_number = 0\<rparr>"

text \<open>A \<open>&str\<close> is its UTF-8 bytes.\<close>

definition dirent_new :: "bytes \<Rightarrow> u32 \<Rightarrow> DirEntry res" where
  "dirent_new nm ino =
     bind_res (copy_slice_res (replicate (NAME_LENGTH_LIMIT + 1) 0) 0 (length nm) nm)
       (\<lambda>bs. Ok \<lparr>de_name = bs, de_inode_number = ino\<rparr>)"

definition dirent_as_bytes :: "DirEntry \<Rightarrow> bytes" where
  "dirent_as_bytes de = de_name de @ u32_bytes (de_inode_number de)"

text \<open>The entry whose 32 bytes have been overwritten through \<open>as_bytes_mut\<close>.\<close>

definition dirent_of_bytes :: "bytes \<Rightarrow> DirEntry" where
  "dirent_of_bytes bs = \<lparr>de_name = take 28 bs, de_inode_number = le_word (take 4 (drop 28 bs))\<rparr>"

text \<open>\<open>core::str::from_utf8(..)\<close> succeeds on exactly the well-formed UTF-8 byte sequences.\<close>

definition utf8_cont :: "u8 \<Rightarrow> bool" where
  "utf8_cont b \<longleftrightarrow> 0x80 \<le> b \<and> b \<le> 0xBF"

fun utf8_valid :: "bytes \<Rightarrow> bool" where
  "utf8_valid [] = True"
| "utf8_valid (b0 # rest) =
     (if b0 < 0x80 then utf8_valid rest
      else if 0xC2 \<le> b0 \<and> b0 \<le> 0xDF then
        (case rest of b1 # r \<Rightarrow> utf8_cont b1 \<and> utf8_valid r | _ \<Rightarrow> False)
      else if 0xE0 \<le> b0 \<and> b0 \<le> 0xEF then
        (case rest of b1 # b2 # r \<Rightarrow> utf8_cont b1 \<and> utf8_cont b2 \<and>
             (b0 = 0xE0 \<longrightarrow> 0xA0 \<le> b1) \<and> (b0 = 0xED \<longrightarrow> b1 \<le> 0x9F) \<and> utf8_valid r
         | _ \<Rightarrow> False)
      else if 0xF0 \<le> b0 \<and> b0 \<le> 0xF4 then
        (case rest of b1 # b2 # b3 # r \<Rightarrow> utf8_cont b1 \<and> utf8_cont b2 \<and> utf8_cont b3 \<and>
             (b0 = 0xF0 \<longrightarrow> 0x90 \<le> b1) \<and> (b0 = 0xF4 \<longrightarrow> b1 \<le> 0x8F) \<and> utf8_valid r
         | _ \<Rightarrow> False)
      else False)"

definition dirent_name :: "DirEntry \<Rightarrow> bytes res" where
  "dirent_name de =
     (case find_index (\<lambda>b. b = 0) (de_name de) of
        None \<Rightarrow> Panic Index_out_of_range
      | Some len \<Rightarrow> if utf8_valid (take len (de_name de)) then Ok (take len (de_name de)) else Panic Unwrap_none)"

text \<open>The block counts as exact arithmetic: data blocks of \<open>n\<close> bytes, and all the blocks of a file
  with \<open>n\<close> data blocks.\<close>

definition nblocks :: "nat \<Rightarrow> nat" where
  "nblocks n = (n + 511) div 512"

definition tblocks :: "nat \<Rightarrow> nat" where
  "tblocks n = n + (if n > INODE_DIRECT_COUNT then 1 else 0) +
     (if n > INDIRECT1_BOUND then 1 + (n - INDIRECT1_BOUND + 127) div 128 else 0)"

section \<open>Layouts\<close>

lemma SuperBlock_access [simp]:
  "size_of SuperBlock_layout = 24" "length (to_bytes SuperBlock_layout sb old) = 24"
  "from_bytes SuperBlock_layout (to_bytes SuperBlock_layout sb old) = Some sb"
  by (simp_all add: SuperBlock_layout_def superblock_words_def bytes_roundtrips)

lemma bytes_u32s_6: "\<exists>a b c d e f. bytes_u32s 6 bs = [a, b, c, d, e, f]"
  by (simp add: bytes_u32s_def eval_nat_numeral)

lemma SuperBlock_from: "\<exists>sb. from_bytes SuperBlock_layout bs = Some sb"
  using bytes_u32s_6 [of bs] by (auto simp: SuperBlock_layout_def)

lemma IndirectBlock_access [simp]:
  "size_of IndirectBlock = 512" "from_bytes IndirectBlock bs = Some (bytes_u32s 128 bs)"
  "to_bytes IndirectBlock ws old = u32s_bytes ws"
  by (simp_all add: IndirectBlock_def)

lemma DataBlock_access [simp]:
  "size_of DataBlock = 512" "from_bytes DataBlock bs = Some bs" "to_bytes DataBlock t old = t"
  by (simp_all add: DataBlock_def bytes_layout_def)

lemma inode_type_roundtrip [simp]: "inode_type_of_byte (byte_of_inode_type ty) = Some ty"
  by (cases ty) auto

lemma DiskInode_size_of [simp]: "size_of DiskInode_layout = 128"
  by (simp add: DiskInode_layout_def)

lemma length_to_bytes_DiskInode [simp]:
  "length (direct di) = 28 \<Longrightarrow> length old = 128 \<Longrightarrow> length (to_bytes DiskInode_layout di old) = 128"
  by (simp add: DiskInode_layout_def)

lemma DiskInode_roundtrip:
  assumes "length (direct di) = 28"
  shows "from_bytes DiskInode_layout (to_bytes DiskInode_layout di old) = Some di"
  using assms by (cases di; cases "di_type di") (simp_all add: DiskInode_layout_def nth_append bytes_roundtrips)

lemma DiskInode_from_direct:
  "from_bytes DiskInode_layout bs = Some di \<Longrightarrow> length (direct di) = 28"
  by (auto simp: DiskInode_layout_def split: option.splits)

section \<open>Block counts\<close>

lemma data_blocks_for_exact:
  assumes "unat sz + 511 < 2 ^ 32"
  shows "unat (data_blocks_for sz) = nblocks (unat sz)"
proof -
  have "unat (511 + sz) = 511 + unat sz"
    using assms by (subst unat_add_lem [THEN iffD1]) simp_all
  moreover have "data_blocks_for sz = (511 + sz) div 512" by (simp add: data_blocks_for_def)
  ultimately show ?thesis by (simp add: nblocks_def unat_div add.commute [of 511 "unat sz"])
qed

lemma nblocks_bound: "n \<le> 2 ^ 32 \<Longrightarrow> nblocks n \<le> 8388608"
  by (simp add: nblocks_def)

lemma tblocks_bound: "n \<le> 8388608 \<Longrightarrow> tblocks n < 2 ^ 32"
  by (auto simp: tblocks_def)

lemma tblocks_mono: "m \<le> n \<Longrightarrow> tblocks m \<le> tblocks n"
  unfolding tblocks_def by (intro add_mono) (auto intro!: div_le_mono)

lemma nblocks_mono: "m \<le> n \<Longrightarrow> nblocks m \<le> nblocks n"
  by (simp add: nblocks_def div_le_mono)

lemma total_blocks_exact:
  assumes "unat sz + 511 < 2 ^ 32"
  shows "unat (total_blocks sz) = tblocks (nblocks (unat sz))"
proof -
  have "total_blocks sz = of_nat (tblocks (nblocks (unat sz)))"
    unfolding total_blocks_def Let_def data_blocks_for_exact [OF assms] tblocks_def
    by (simp add: algebra_simps)
  moreover have "tblocks (nblocks (unat sz)) < 2 ^ 32"
    using assms by (intro tblocks_bound nblocks_bound) simp
  ultimately show ?thesis by (simp add: unat_of_nat)
qed

section \<open>Directory entries\<close>

lemma find_index_append_zero:
  "(\<forall>b\<in>set nm. b \<noteq> 0) \<Longrightarrow> find_index (\<lambda>b. b = 0) (nm @ 0 # rest) = Some (length nm)"
  by (induction nm) auto

lemma dirent_name_new:
  assumes "length nm \<le> NAME_LENGTH_LIMIT" and "\<forall>b\<in>set nm. b \<noteq> 0" and "utf8_valid nm"
  shows "\<exists>de. dirent_new nm ino = Ok de \<and> dirent_name de = Ok nm \<and> de_inode_number de = ino \<and>
    length (dirent_as_bytes de) = DIRENT_SZ \<and> dirent_of_bytes (dirent_as_bytes de) = de"
proof -
  let ?de = "\<lparr>de_name = nm @ replicate (28 - length nm) 0, de_inode_number = ino\<rparr>"
  have rep: "replicate (28 - length nm) (0 :: u8) = 0 # replicate (27 - length nm) 0"
    using Suc_diff_le [OF assms(1)] by (simp flip: replicate_Suc)
  have "dirent_new nm ino = Ok ?de"
    using assms(1) by (simp add: dirent_new_def copy_slice_res_def overwrite_def drop_replicate del: replicate.simps)
  moreover have "dirent_name ?de = Ok nm"
    using assms(2,3) rep find_index_append_zero [OF assms(2), of "replicate (27 - length nm) 0"]
    by (simp add: dirent_name_def)
  ultimately show ?thesis
    using assms(1) by (simp add: dirent_as_bytes_def dirent_of_bytes_def)
qed

end
