(* ===== verification/DiskInodes.thy ===== *)
theory DiskInodes
  imports Layout "HOL-Library.Multiset"
begin

text \<open>
  The operations of \<open>DiskInode\<close> that go through the block cache (src/easy-fs/src/layout.rs):
  \<open>get_block_id\<close>, \<open>increase_size\<close>, \<open>clear_size\<close>, \<open>read_at\<close> and \<open>write_at\<close>.  \<open>&mut self\<close> is a value
  passed in and returned.  The loop counters are natural numbers: they start at block counts and are
  bounded by them, so the \<open>u32\<close> and \<open>usize\<close> arithmetic on them does not wrap.  The iterator
  \<open>new_blocks\<close> is the list of the blocks it still holds.

  An inode denotes the list of its data blocks (\<open>gbid\<close>, through the indirect blocks), its metadata
  blocks (\<open>metas\<close>) and its contents (\<open>inode_content\<close>).  The lemmas show that every operation acts on
  these as its specification says: the lookup agrees with \<open>gbid\<close>, growing keeps the old blocks and
  uses exactly the new ones, clearing returns exactly the blocks the inode owned, and reading and
  writing are slices and updates of the contents.
\<close>

section \<open>Model\<close>

definition get_block_id :: "'d BlockDevice \<Rightarrow> DiskInode \<Rightarrow> u32 \<Rightarrow> ('d world, u32) cmd" where
  "get_block_id dev di idx =
     (let inner_id = unat idx in
      if inner_id < INODE_DIRECT_COUNT then lift (index_res (direct di) inner_id)
      else if inner_id < INDIRECT1_BOUND then
        cache_read dev (unat (indirect1 di)) 0 IndirectBlock
          (\<lambda>indirect_block. lift (index_res indirect_block (inner_id - INODE_DIRECT_COUNT)))
      else
        let last = inner_id - INDIRECT1_BOUND in
        bind (cache_read dev (unat (indirect2 di)) 0 IndirectBlock
               (\<lambda>i2. lift (index_res i2 (last div INODE_INDIRECT1_COUNT)))) (\<lambda>i1.
        cache_read dev (unat i1) 0 IndirectBlock
          (\<lambda>i1. lift (index_res i1 (last mod INODE_INDIRECT1_COUNT)))))"

fun next_block :: "u32 list \<Rightarrow> (u32 \<times> u32 list) res" where
  "next_block [] = Panic Unwrap_none"
| "next_block (b # bs) = Ok (b, bs)"

text \<open>\<open>while current_blocks < tot { slots[current_blocks] = new_blocks.next().unwrap(); .. }\<close>\<close>

fun fill_slots :: "nat \<Rightarrow> nat \<Rightarrow> u32 list \<Rightarrow> u32 list \<Rightarrow> (u32 list \<times> u32 list \<times> nat) res" where
  "fill_slots cur tot slots [] = (if cur < tot then Panic Unwrap_none else Ok (slots, [], cur))"
| "fill_slots cur tot slots (b # bs) =
     (if cur < tot then bind_res (update_res slots cur b) (\<lambda>slots'. fill_slots (cur + 1) tot slots' bs)
      else Ok (slots, b # bs, cur))"

text \<open>The loop that fills the second level from \<open>(a0, b0)\<close> to \<open>(a1, b1)\<close>.\<close>

function fill_indirect2 :: "'d BlockDevice \<Rightarrow> nat \<Rightarrow> nat \<Rightarrow> nat \<Rightarrow> nat \<Rightarrow> u32 list \<Rightarrow> u32 list \<Rightarrow>
    ('d world, u32 list) cmd" where
  "fill_indirect2 dev a0 b0 a1 b1 i2 new_blocks =
     (if a0 < a1 \<or> (a0 = a1 \<and> b0 < b1) then
        case (if b0 = 0
              then bind_res (next_block new_blocks) (\<lambda>(b, nb). bind_res (update_res i2 a0 b) (\<lambda>i2'. Ok (i2', nb)))
              else Ok (i2, new_blocks)) of
          Panic p \<Rightarrow> fail p
        | Ok (i2', nb) \<Rightarrow>
            bind (lift (index_res i2' a0)) (\<lambda>sub.
            case nb of
              [] \<Rightarrow> cache_modify dev (unat sub) 0 IndirectBlock (\<lambda>_. fail Unwrap_none)
            | b # nb' \<Rightarrow>
                bind (cache_modify dev (unat sub) 0 IndirectBlock
                        (\<lambda>i1. bind (lift (update_res i1 b0 b)) (\<lambda>i1'. ret ((), i1')))) (\<lambda>_.
                if b0 + 1 = INODE_INDIRECT1_COUNT
                then fill_indirect2 dev (a0 + 1) 0 a1 b1 i2' nb'
                else fill_indirect2 dev a0 (b0 + 1) a1 b1 i2' nb'))
      else ret i2)"
  by pat_completeness auto
termination
proof (relation "measure (\<lambda>(_, _, _, _, _, _, new_blocks). length new_blocks)", goal_cases)
  case 1
  show ?case by simp
next
  case (2 dev a0 b0 a1 b1 i2 new_blocks x2 i2' nb)
  then show ?case by (cases new_blocks) (auto simp: bind_res_eq_Ok split: if_splits)
next
  case (3 dev a0 b0 a1 b1 i2 new_blocks x2 i2' nb)
  then show ?case by (cases new_blocks) (auto simp: bind_res_eq_Ok split: if_splits)
qed

declare fill_indirect2.simps [simp del]

text \<open>\<open>increase_size\<close>, its part from ``alloc indirect2'' on first, then from ``alloc indirect1'' on.\<close>

definition grow_indirect2 :: "'d BlockDevice \<Rightarrow> DiskInode \<Rightarrow> nat \<Rightarrow> nat \<Rightarrow> u32 list \<Rightarrow> ('d world, DiskInode) cmd" where
  "grow_indirect2 dev di cur tot nb =
     (if tot > INODE_INDIRECT1_COUNT then
        bind (if cur = INODE_INDIRECT1_COUNT
              then bind (lift (next_block nb)) (\<lambda>(b, nb). ret (di\<lparr>indirect2 := b\<rparr>, nb))
              else ret (di, nb)) (\<lambda>(di, nb).
        let cur = cur - INODE_INDIRECT1_COUNT; tot = tot - INODE_INDIRECT1_COUNT in
        bind (cache_modify dev (unat (indirect2 di)) 0 IndirectBlock (\<lambda>i2.
                bind (fill_indirect2 dev (cur div INODE_INDIRECT1_COUNT) (cur mod INODE_INDIRECT1_COUNT)
                        (tot div INODE_INDIRECT1_COUNT) (tot mod INODE_INDIRECT1_COUNT) i2 nb) (\<lambda>i2.
                ret ((), i2)))) (\<lambda>_. ret di))
      else ret di)"

definition grow_indirect1 :: "'d BlockDevice \<Rightarrow> DiskInode \<Rightarrow> nat \<Rightarrow> nat \<Rightarrow> u32 list \<Rightarrow> ('d world, DiskInode) cmd" where
  "grow_indirect1 dev di cur tot nb =
     (if tot > INODE_DIRECT_COUNT then
        bind (if cur = INODE_DIRECT_COUNT
              then bind (lift (next_block nb)) (\<lambda>(b, nb). ret (di\<lparr>indirect1 := b\<rparr>, nb))
              else ret (di, nb)) (\<lambda>(di, nb).
        let cur = cur - INODE_DIRECT_COUNT; tot = tot - INODE_DIRECT_COUNT in
        bind (cache_modify dev (unat (indirect1 di)) 0 IndirectBlock (\<lambda>i1.
                bind (lift (fill_slots cur (min tot INODE_INDIRECT1_COUNT) i1 nb)) (\<lambda>(i1, nb, cur).
                ret ((nb, cur), i1)))) (\<lambda>(nb, cur).
        grow_indirect2 dev di cur tot nb))
      else ret di)"

definition increase_size :: "'d BlockDevice \<Rightarrow> DiskInode \<Rightarrow> u32 \<Rightarrow> u32 list \<Rightarrow> ('d world, DiskInode) cmd" where
  "increase_size dev di new_size new_blocks =
     (let cur = unat (data_blocks di); di = di\<lparr>di_size := new_size\<rparr>; tot = unat (data_blocks di) in
      bind (lift (fill_slots cur (min tot INODE_DIRECT_COUNT) (direct di) new_blocks)) (\<lambda>(dir, nb, cur).
      grow_indirect1 dev (di\<lparr>direct := dir\<rparr>) cur tot nb))"

text \<open>The loops of \<open>clear_size\<close>: \<open>v.push(slots[i])\<close>, with or without clearing the slot.\<close>

fun drain_slots :: "nat list \<Rightarrow> u32 list \<Rightarrow> u32 list \<Rightarrow> (u32 list \<times> u32 list) res" where
  "drain_slots [] slots v = Ok (slots, v)"
| "drain_slots (i # is) slots v =
     bind_res (index_res slots i) (\<lambda>b. bind_res (update_res slots i 0) (\<lambda>slots'. drain_slots is slots' (v @ [b])))"

fun push_slots :: "nat list \<Rightarrow> u32 list \<Rightarrow> u32 list \<Rightarrow> u32 list res" where
  "push_slots [] slots v = Ok v"
| "push_slots (i # is) slots v = bind_res (index_res slots i) (\<lambda>b. push_slots is slots (v @ [b]))"

fun push_subs :: "'d BlockDevice \<Rightarrow> u32 list \<Rightarrow> u32 list \<Rightarrow> ('d world, u32 list) cmd" where
  "push_subs dev [] v = ret v"
| "push_subs dev (e # es) v =
     bind (cache_modify dev (unat e) 0 IndirectBlock (\<lambda>i1. ret (v @ [e] @ i1, i1))) (push_subs dev es)"

definition clear_size :: "'d BlockDevice \<Rightarrow> DiskInode \<Rightarrow> ('d world, u32 list \<times> DiskInode) cmd" where
  "clear_size dev di =
     (let n = unat (data_blocks di); di = di\<lparr>di_size := 0\<rparr> in
      bind (lift (drain_slots [0..<min n INODE_DIRECT_COUNT] (direct di) [])) (\<lambda>(dir, v).
      let di = di\<lparr>direct := dir\<rparr> in
      if n > INODE_DIRECT_COUNT then
        let v = v @ [indirect1 di]; n = n - INODE_DIRECT_COUNT in
        bind (cache_modify dev (unat (indirect1 di)) 0 IndirectBlock (\<lambda>i1.
                bind (lift (push_slots [0..<min n INODE_INDIRECT1_COUNT] i1 v)) (\<lambda>v. ret (v, i1)))) (\<lambda>v.
        let di = di\<lparr>indirect1 := 0\<rparr> in
        if n > INODE_INDIRECT1_COUNT then
          let v = v @ [indirect2 di]; n = n - INODE_INDIRECT1_COUNT in
          bind (assert_cmd (n \<le> INODE_INDIRECT2_COUNT)) (\<lambda>_.
          let a1 = n div INODE_INDIRECT1_COUNT; b1 = n mod INODE_INDIRECT1_COUNT in
          bind (cache_modify dev (unat (indirect2 di)) 0 IndirectBlock (\<lambda>i2.
                  bind (push_subs dev (take a1 i2) v) (\<lambda>v.
                  if b1 > 0 then
                    bind (lift (index_res i2 a1)) (\<lambda>e.
                    bind (cache_modify dev (unat e) 0 IndirectBlock (\<lambda>i1. ret (v @ [e] @ take b1 i1, i1))) (\<lambda>v.
                    ret (v, i2)))
                  else ret (v, i2)))) (\<lambda>v.
          ret (v, di\<lparr>indirect2 := 0\<rparr>)))
        else ret (v, di))
      else ret (v, di)))"

function read_loop :: "'d BlockDevice \<Rightarrow> DiskInode \<Rightarrow> nat \<Rightarrow> nat \<Rightarrow> nat \<Rightarrow> bytes \<Rightarrow> nat \<Rightarrow>
    ('d world, nat \<times> bytes) cmd" where
  "read_loop dev di start start_block fin buf read_size =
     (let end_current_block = min ((start div BLOCK_SZ + 1) * BLOCK_SZ) fin;
          block_read_size = end_current_block - start in
      bind (lift (slice_res buf read_size (read_size + block_read_size))) (\<lambda>_.
      bind (get_block_id dev di (of_nat start_block)) (\<lambda>bid.
      bind (cache_read dev (unat bid) 0 DataBlock (\<lambda>data_block.
              bind (lift (slice_res data_block (start mod BLOCK_SZ) (start mod BLOCK_SZ + block_read_size))) (\<lambda>src.
              lift (copy_slice_res buf read_size (read_size + block_read_size) src)))) (\<lambda>buf.
      if end_current_block = fin then ret (read_size + block_read_size, buf)
      else read_loop dev di end_current_block (start_block + 1) fin buf (read_size + block_read_size)))))"
  by pat_completeness auto
termination
  by (relation "measure (\<lambda>(_, _, start, _, fin, _, _). fin - start)")
    (auto simp: min_def dividend_less_times_div split: if_splits)

definition read_at :: "'d BlockDevice \<Rightarrow> DiskInode \<Rightarrow> usize \<Rightarrow> bytes \<Rightarrow> ('d world, nat \<times> bytes) cmd" where
  "read_at dev di offset buf =
     (let fin = min (usize_add offset (length buf)) (unat (di_size di)) in
      if offset \<ge> fin then ret (0, buf)
      else read_loop dev di offset (offset div BLOCK_SZ) fin buf 0)"

function write_loop :: "'d BlockDevice \<Rightarrow> DiskInode \<Rightarrow> nat \<Rightarrow> nat \<Rightarrow> nat \<Rightarrow> bytes \<Rightarrow> nat \<Rightarrow>
    ('d world, nat) cmd" where
  "write_loop dev di start start_block fin buf write_size =
     (let end_current_block = min ((start div BLOCK_SZ + 1) * BLOCK_SZ) fin;
          block_write_size = end_current_block - start in
      bind (get_block_id dev di (of_nat start_block)) (\<lambda>bid.
      bind (cache_modify dev (unat bid) 0 DataBlock (\<lambda>data_block.
              bind (lift (slice_res buf write_size (write_size + block_write_size))) (\<lambda>src.
              bind (lift (copy_slice_res data_block (start mod BLOCK_SZ) (start mod BLOCK_SZ + block_write_size) src))
                (\<lambda>data_block. ret ((), data_block))))) (\<lambda>_.
      if end_current_block = fin then ret (write_size + block_write_size)
      else write_loop dev di end_current_block (start_block + 1) fin buf (write_size + block_write_size))))"
  by pat_completeness auto
termination
  by (relation "measure (\<lambda>(_, _, start, _, fin, _, _). fin - start)")
    (auto simp: min_def dividend_less_times_div split: if_splits)

declare read_loop.simps [simp del] write_loop.simps [simp del]

definition write_at :: "'d BlockDevice \<Rightarrow> DiskInode \<Rightarrow> usize \<Rightarrow> bytes \<Rightarrow> ('d world, nat) cmd" where
  "write_at dev di offset buf =
     (let fin = min (usize_add offset (length buf)) (unat (di_size di)) in
      bind (assert_cmd (offset \<le> fin)) (\<lambda>_.
      write_loop dev di offset (offset div BLOCK_SZ) fin buf 0))"

section \<open>What an inode denotes\<close>

text \<open>The entries of an indirect block, the \<open>i\<close>-th data block of an inode, the entry \<open>i\<close> of the
  second level, the metadata blocks and all the blocks of an inode with \<open>n\<close> data blocks.\<close>

definition ind :: "(usize \<Rightarrow> bytes) \<Rightarrow> u32 \<Rightarrow> u32 list" where
  "ind V b = bytes_u32s 128 (V (unat b))"

definition ind2 :: "(usize \<Rightarrow> bytes) \<Rightarrow> u32 list \<Rightarrow> nat \<Rightarrow> u32" where
  "ind2 V i2 i = ind V (i2 ! (i div 128)) ! (i mod 128)"

definition gbid :: "(usize \<Rightarrow> bytes) \<Rightarrow> DiskInode \<Rightarrow> nat \<Rightarrow> u32" where
  "gbid V di i =
     (if i < INODE_DIRECT_COUNT then direct di ! i
      else if i < INDIRECT1_BOUND then ind V (indirect1 di) ! (i - INODE_DIRECT_COUNT)
      else ind2 V (ind V (indirect2 di)) (i - INDIRECT1_BOUND))"

definition subs :: "nat \<Rightarrow> nat" where
  "subs n = (n + 127) div 128"

definition metas :: "(usize \<Rightarrow> bytes) \<Rightarrow> DiskInode \<Rightarrow> nat \<Rightarrow> u32 list" where
  "metas V di n =
     (if n > INODE_DIRECT_COUNT then [indirect1 di] else []) @
     (if n > INDIRECT1_BOUND then indirect2 di # take (subs (n - INDIRECT1_BOUND)) (ind V (indirect2 di)) else [])"

definition datas :: "(usize \<Rightarrow> bytes) \<Rightarrow> DiskInode \<Rightarrow> nat \<Rightarrow> u32 list" where
  "datas V di n = map (gbid V di) [0..<n]"

definition inode_nblocks :: "DiskInode \<Rightarrow> nat" where
  "inode_nblocks di = nblocks (unat (di_size di))"

definition inode_blocks :: "(usize \<Rightarrow> bytes) \<Rightarrow> DiskInode \<Rightarrow> u32 list" where
  "inode_blocks V di = datas V di (inode_nblocks di) @ metas V di (inode_nblocks di)"

text \<open>A well-formed inode: within the maximal size, its blocks distinct, on the device and outside
  the reserved set \<open>R\<close>.\<close>

definition inode_ok :: "nat \<Rightarrow> usize set \<Rightarrow> (usize \<Rightarrow> bytes) \<Rightarrow> DiskInode \<Rightarrow> bool" where
  "inode_ok nblk R V di \<longleftrightarrow> length (direct di) = INODE_DIRECT_COUNT \<and> inode_nblocks di \<le> INDIRECT2_BOUND \<and>
     distinct (inode_blocks V di) \<and> (\<forall>b\<in>set (inode_blocks V di). unat b < nblk \<and> unat b \<notin> R)"

definition inode_content :: "(usize \<Rightarrow> bytes) \<Rightarrow> DiskInode \<Rightarrow> bytes" where
  "inode_content V di = take (unat (di_size di)) (concat (map (\<lambda>b. V (unat b)) (datas V di (inode_nblocks di))))"

text \<open>The second level grown from \<open>c\<close> to \<open>T\<close> entries with the blocks \<open>nb\<close>: some of them are the new
  entries \<open>ds2\<close>, the others the new sub-blocks \<open>ms2\<close>.\<close>

definition grown2 :: "(usize \<Rightarrow> bytes) \<Rightarrow> u32 list \<Rightarrow> nat \<Rightarrow> nat \<Rightarrow> u32 list \<Rightarrow> u32 list \<Rightarrow> (usize \<Rightarrow> bytes) \<Rightarrow> bool" where
  "grown2 V i2 c T nb i2' V' \<longleftrightarrow> length i2' = 128 \<and> (\<exists>ds2 ms2. mset nb = mset ds2 + mset ms2 \<and>
     map (ind2 V' i2') [0..<T] = map (ind2 V i2) [0..<c] @ ds2 \<and>
     take (subs T) i2' = take (subs c) i2 @ ms2 \<and>
     (\<forall>b. b \<notin> unat ` set (take (subs T) i2') \<longrightarrow> V' b = V b))"

text \<open>An inode grown from \<open>c\<close> to \<open>n\<close> data blocks with the blocks \<open>nb\<close>: the old data and metadata
  blocks stay, the new ones are \<open>nb\<close>, and only metadata blocks are written.\<close>

definition grown :: "(usize \<Rightarrow> bytes) \<Rightarrow> DiskInode \<Rightarrow> nat \<Rightarrow> nat \<Rightarrow> u32 list \<Rightarrow> DiskInode \<Rightarrow> (usize \<Rightarrow> bytes) \<Rightarrow> bool" where
  "grown V di c n nb di' V' \<longleftrightarrow> length (direct di') = INODE_DIRECT_COUNT \<and> (\<exists>ds ms. mset nb = mset ds + mset ms \<and>
     datas V' di' n = datas V di c @ ds \<and> metas V' di' n = metas V di c @ ms \<and>
     (\<forall>b. b \<notin> unat ` set (metas V' di' n) \<longrightarrow> V' b = V b))"

section \<open>Indirect blocks\<close>

lemma unat_image_iff [simp]: "unat b \<in> unat ` S \<longleftrightarrow> b \<in> S"
  by (metis imageE imageI word_unat_eq_iff)

lemma length_ind [simp]: "length (ind V b) = 128"
  by (simp add: ind_def)

lemma ind_upd: "length t = 128 \<Longrightarrow> ind (V(unat b := u32s_bytes t)) c = (if c = b then t else ind V c)"
  by (simp add: ind_def bytes_roundtrips word_unat_eq_iff)

lemma ind_cong: "V (unat b) = V' (unat b) \<Longrightarrow> ind V b = ind V' b"
  by (simp add: ind_def)

lemma ind_same: "length (V (unat b)) = BLOCK_SZ \<Longrightarrow> V(unat b := u32s_bytes (ind V b)) = V"
  by (simp add: ind_def bytes_roundtrips)

lemma fill_slots_ok:
  assumes "tot - cur \<le> length nb" and "tot \<le> length slots"
  shows "fill_slots cur tot slots nb =
    Ok (overwrite slots cur (take (tot - cur) nb), drop (tot - cur) nb, max cur tot)"
  using assms
proof (induction nb arbitrary: cur slots)
  case Nil
  then show ?case by simp
next
  case (Cons b nb)
  show ?case
  proof (cases "cur < tot")
    case True
    then have "fill_slots cur tot slots (b # nb) = fill_slots (cur + 1) tot (slots[cur := b]) nb"
      using Cons.prems(2) by (simp add: update_res_def)
    also have "\<dots> = Ok (overwrite (slots[cur := b]) (cur + 1) (take (tot - (cur + 1)) nb), drop (tot - (cur + 1)) nb, max (cur + 1) tot)"
      using Cons.prems True by (intro Cons.IH) simp_all
    moreover have "tot - cur = Suc (tot - (cur + 1))" using True by simp
    moreover have "overwrite (slots[cur := b]) (cur + 1) (take (tot - (cur + 1)) nb) =
        overwrite slots cur (b # take (tot - (cur + 1)) nb)"
      using True Cons.prems(2) by (simp add: overwrite_def take_Suc_conv_app_nth)
    ultimately show ?thesis using True by simp
  next
    case False
    then show ?thesis by simp
  qed
qed

lemma subs_div: "subs c = c div 128 + (if c mod 128 = 0 then 0 else 1)"
proof -
  have "c + 127 = (c mod 128 + 127) + c div 128 * 128" by simp
  then have "subs c = c div 128 + (c mod 128 + 127) div 128"
    unfolding subs_def by (metis div_mult_self1 add.commute zero_neq_numeral)
  moreover have "(c mod 128 + 127) div 128 = (if c mod 128 = 0 then 0 else 1)"
    using le_div_geq [of 128 "c mod 128 + 127"] by auto
  ultimately show ?thesis by simp
qed

lemma subs_Suc: "subs (Suc c) = (if c mod 128 = 0 then Suc (subs c) else subs c)"
  by (simp add: subs_div div_Suc mod_Suc)

lemma subs_mono: "c \<le> d \<Longrightarrow> subs c \<le> subs d"
  unfolding subs_def by (intro div_le_mono) simp

lemma subs_less: "i < c \<Longrightarrow> i div 128 < subs c"
proof -
  assume "i < c"
  then have "subs c = Suc ((c - 1) div 128)" by (simp add: subs_def flip: div_add_self2)
  moreover have "i div 128 \<le> (c - 1) div 128" using \<open>i < c\<close> by (intro div_le_mono) simp
  ultimately show ?thesis by simp
qed

text \<open>One iteration of the second-level loop: entry \<open>c\<close> is added, in a fresh sub-block \<open>x\<close> when it is
  the first of its sub-block.\<close>

lemma ind2_step:
  assumes len: "length i2 = 128" and c: "c < 16384"
    and i2': "i2' = (if c mod 128 = 0 then i2[c div 128 := x] else i2)"
    and fresh: "c mod 128 = 0 \<longrightarrow> x \<notin> set (take (subs c) i2)"
    and dist: "distinct (take (subs c) i2)"
    and sub: "sub = i2' ! (c div 128)" and V': "V' = V(unat sub := u32s_bytes ((ind V sub)[c mod 128 := y]))"
  shows "map (ind2 V' i2') [0..<Suc c] = map (ind2 V i2) [0..<c] @ [y]"
    and "take (subs (Suc c)) i2' = take (subs c) i2 @ (if c mod 128 = 0 then [x] else [])"
proof -
  have cd: "c div 128 < 128" using c by (simp add: less_mult_imp_div_less)
  show "take (subs (Suc c)) i2' = take (subs c) i2 @ (if c mod 128 = 0 then [x] else [])"
    using cd len subs_div [of c] by (cases "c mod 128 = 0") (simp_all add: subs_Suc i2' take_Suc_conv_app_nth)
  have y: "ind2 V' i2' c = y"
    by (simp add: ind2_def V' ind_upd sub [symmetric])
  have "ind2 V' i2' i = ind2 V i2 i" if i: "i < c" for i
  proof -
    have il: "i div 128 < subs c" "i div 128 < 128" "subs c \<le> 128"
      using subs_less [OF i] i c by (simp_all add: less_mult_imp_div_less subs_def)
    have inm: "i2 ! (i div 128) \<in> set (take (subs c) i2)"
      using il len by (auto simp: in_set_conv_nth)
    show ?thesis
    proof (cases "c mod 128 = 0")
      case True
      then have ne: "i div 128 \<noteq> c div 128" using subs_less [OF i] by (simp add: subs_div)
      then have "i2' ! (i div 128) = i2 ! (i div 128)" using True by (simp add: i2')
      moreover have "sub = x" using True cd len by (simp add: sub i2')
      ultimately show ?thesis using inm fresh True by (auto simp: ind2_def V' ind_upd)
    next
      case False
      then have i2e: "i2' = i2" by (simp add: i2')
      have cl: "c div 128 < subs c" using False by (simp add: subs_div)
      show ?thesis
      proof (cases "i div 128 = c div 128")
        case True
        then have "i mod 128 \<noteq> c mod 128" using i by (metis div_mult_mod_eq less_irrefl)
        with True show ?thesis by (simp add: ind2_def V' ind_upd sub i2e)
      next
        case ne: False
        have "take (subs c) i2 ! (i div 128) \<noteq> take (subs c) i2 ! (c div 128)"
          using dist il cl ne len cd by (subst nth_eq_iff_index_eq) auto
        then show ?thesis using il cl by (simp add: ind2_def V' ind_upd sub i2e)
      qed
    qed
  qed
  then show "map (ind2 V' i2') [0..<Suc c] = map (ind2 V i2) [0..<c] @ [y]" using y by simp
qed

section \<open>Growing\<close>

lemma grownI:
  assumes "length (direct di') = INODE_DIRECT_COUNT" and "mset nb = mset ds + mset ms"
    and "datas V' di' n = datas V di c @ ds" and "metas V' di' n = metas V di c @ ms"
    and "\<And>b. b \<notin> unat ` set (metas V' di' n) \<Longrightarrow> V' b = V b"
  shows "grown V di c n nb di' V'"
  using assms by (auto simp: grown_def)

lemma grown_trans:
  assumes "grown V di c m nb1 di1 V1" and "grown V1 di1 m n nb2 di2 V2"
  shows "grown V di c n (nb1 @ nb2) di2 V2"
proof -
  from assms(1) obtain ds1 ms1 where 1: "mset nb1 = mset ds1 + mset ms1" "datas V1 di1 m = datas V di c @ ds1"
    "metas V1 di1 m = metas V di c @ ms1" "\<forall>b. b \<notin> unat ` set (metas V1 di1 m) \<longrightarrow> V1 b = V b" by (auto simp: grown_def)
  from assms(2) obtain ds2 ms2 where 2: "length (direct di2) = INODE_DIRECT_COUNT"
    "mset nb2 = mset ds2 + mset ms2" "datas V2 di2 n = datas V1 di1 m @ ds2"
    "metas V2 di2 n = metas V1 di1 m @ ms2" "\<forall>b. b \<notin> unat ` set (metas V2 di2 n) \<longrightarrow> V2 b = V1 b" by (auto simp: grown_def)
  from 1 2 show ?thesis by (intro grownI [where ds = "ds1 @ ds2" and ms = "ms1 @ ms2"]) auto
qed

lemma grown_refl: "length (direct di) = INODE_DIRECT_COUNT \<Longrightarrow> grown V di c c [] di V"
  by (simp add: grown_def)

lemma map_upt_append_eqI:
  assumes "c \<le> n" and "length ds = n - c" and "\<And>i. i < c \<Longrightarrow> f i = g i" and "\<And>i. i < n - c \<Longrightarrow> f (c + i) = ds ! i"
  shows "map f [0..<n] = map g [0..<c] @ ds"
proof (rule nth_equalityI)
  fix i assume "i < length (map f [0..<n])"
  then show "map f [0..<n] ! i = (map g [0..<c] @ ds) ! i"
    using assms(3) [of i] assms(4) [of "i - c"] assms(1) by (cases "i < c") (simp_all add: nth_append)
qed (use assms in auto)

lemma grown_direct:
  assumes "length (direct di) = INODE_DIRECT_COUNT" and "c \<le> m" "m \<le> INODE_DIRECT_COUNT" and "length nb = m - c"
  shows "grown V di c m nb (di\<lparr>di_size := sz, direct := overwrite (direct di) c nb\<rparr>) V"
  by (rule grownI [where ds = nb and ms = "[]"], unfold datas_def, rule_tac [3] map_upt_append_eqI)
    (use assms in \<open>auto simp: gbid_def metas_def nth_overwrite\<close>)

lemma grown_indirect1:
  assumes "length (direct di) = INODE_DIRECT_COUNT" and "INODE_DIRECT_COUNT \<le> c" "c < m" "m \<le> INDIRECT1_BOUND"
    and "length nb = m - c" and x: "INODE_DIRECT_COUNT < c \<Longrightarrow> x = indirect1 di"
  shows "grown V di c m ((if c = INODE_DIRECT_COUNT then [x] else []) @ nb) (di\<lparr>indirect1 := x\<rparr>)
    (V(unat x := u32s_bytes (overwrite (ind V x) (c - INODE_DIRECT_COUNT) nb)))"
proof -
  have "length (overwrite (ind V x) (c - INODE_DIRECT_COUNT) nb) = 128" using assms by simp
  note u = ind_upd [OF this]
  show ?thesis
    by (rule grownI [where ds = nb and ms = "if c = INODE_DIRECT_COUNT then [x] else []"],
        unfold datas_def, rule_tac [3] map_upt_append_eqI)
      (use assms u in \<open>auto simp: gbid_def metas_def nth_overwrite\<close>)
qed

lemma grown_indirect2:
  assumes "length (direct di) = INODE_DIRECT_COUNT" and "INDIRECT1_BOUND \<le> c" "c < n" "n \<le> INDIRECT2_BOUND"
    and x: "INDIRECT1_BOUND < c \<Longrightarrow> x = indirect2 di"
    and g2: "grown2 V (ind V x) (c - INDIRECT1_BOUND) (n - INDIRECT1_BOUND) nb i2' V1" and pin: "V1 (unat x) = V (unat x)"
    and dist: "distinct (indirect1 di # x # take (subs (c - INDIRECT1_BOUND)) (ind V x) @ nb)"
  shows "grown V di c n ((if c = INDIRECT1_BOUND then [x] else []) @ nb) (di\<lparr>indirect2 := x\<rparr>)
    (V1(unat x := u32s_bytes i2'))"
proof -
  let ?c = "c - INDIRECT1_BOUND" and ?n = "n - INDIRECT1_BOUND" and ?V = "V1(unat x := u32s_bytes i2')"
  let ?di = "di\<lparr>indirect2 := x\<rparr>"
  from g2 obtain ds2 ms2 where g: "length i2' = 128" "mset nb = mset ds2 + mset ms2"
     "map (ind2 V1 i2') [0..<?n] = map (ind2 V (ind V x)) [0..<?c] @ ds2"
     "take (subs ?n) i2' = take (subs ?c) (ind V x) @ ms2"
     "\<forall>b. b \<notin> unat ` set (take (subs ?n) i2') \<longrightarrow> V1 b = V b" by (auto simp: grown2_def)
  have nbs: "set nb = set ds2 \<union> set ms2" using g(2) by (metis set_mset_mset set_mset_union)
  have xs: "x \<notin> set (take (subs ?n) i2')" "indirect1 di \<notin> set (take (subs ?n) i2')" "indirect1 di \<noteq> x"
    using dist nbs g(4) by auto
  have i1: "ind ?V (indirect1 di) = ind V (indirect1 di)"
    using xs g(5) by (auto simp: ind_upd [OF g(1)] intro!: ind_cong)
  have "length (map (ind2 V1 i2') [0..<?n]) = length (map (ind2 V (ind V x)) [0..<?c] @ ds2)"
    by (simp only: g(3))
  then have l: "length ds2 = n - c" using assms(2,3) by simp
  have e2: "ind2 ?V i2' i = ind2 V1 i2' i" if "i < ?n" for i
  proof -
    have "i div 128 < subs ?n" "i div 128 < 128"
      using subs_less [OF that] that assms(4) by (auto simp: less_mult_imp_div_less)
    then have "i2' ! (i div 128) \<in> set (take (subs ?n) i2')" using g(1) by (auto simp: in_set_conv_nth)
    then show ?thesis using xs by (auto simp: ind2_def ind_upd [OF g(1)])
  qed
  have nth: "ind2 V1 i2' i = (map (ind2 V (ind V x)) [0..<?c] @ ds2) ! i" if "i < ?n" for i
    using that by (simp flip: g(3))
  have D: "datas ?V ?di n = datas V di c @ ds2"
    unfolding datas_def
  proof (rule map_upt_append_eqI)
    fix i assume i: "i < c"
    show "gbid ?V ?di i = gbid V di i"
    proof (cases "i < INDIRECT1_BOUND")
      case True
      then show ?thesis by (auto simp: gbid_def i1)
    next
      case False
      then have "INDIRECT1_BOUND < c" using i by simp
      moreover have j: "i - INDIRECT1_BOUND < ?c" "i - INDIRECT1_BOUND < ?n" using False i assms(3) by auto
      ultimately show ?thesis using e2 [OF j(2)] nth [OF j(2)] x False
        by (simp add: gbid_def ind_upd [OF g(1)] nth_append j(1))
    qed
  next
    fix i assume "i < n - c"
    then have j: "?c + i < ?n" "c + i - INDIRECT1_BOUND = ?c + i" using assms(2,3) by auto
    have "gbid ?V ?di (c + i) = ind2 ?V i2' (c + i - INDIRECT1_BOUND)"
      using assms(2) by (simp add: gbid_def ind_upd [OF g(1)])
    also have "\<dots> = ind2 V1 i2' (?c + i)" unfolding j(2) by (rule e2 [OF j(1)])
    also have "\<dots> = ds2 ! i" unfolding nth [OF j(1)] by (simp add: nth_append)
    finally show "gbid ?V ?di (c + i) = ds2 ! i" .
  qed (use assms(3) l in auto)
  have M: "metas ?V ?di n = metas V di c @ (if c = INDIRECT1_BOUND then [x] else []) @ ms2"
    using assms(2,3) x g(4) by (auto simp: metas_def ind_upd [OF g(1)] subs_def)
  have F: "?V b = V b" if "b \<notin> unat ` set (metas ?V ?di n)" for b
  proof -
    have "unat ` set (take (subs ?n) i2') \<subseteq> unat ` set (metas ?V ?di n)" "unat x \<in> unat ` set (metas ?V ?di n)"
      using assms(2,3) by (auto simp: metas_def ind_upd [OF g(1)])
    then have "b \<notin> unat ` set (take (subs ?n) i2')" "b \<noteq> unat x" using that by blast+
    then show ?thesis using g(5) by simp
  qed
  show ?thesis
    by (rule grownI [OF _ _ D M], use assms(1) in simp, use g(2) in simp, rule F)
qed

context block_device
begin

lemma hoare_read_ind:
  assumes "unat b < nblk" and "unat b \<notin> P" and "card P < BLOCK_CACHE_SIZE"
    and "hr V (insert (unat b) P) (f (ind V b)) Q"
  shows "hr V P (cache_read dev (unat b) 0 IndirectBlock f) Q"
  by (rule hoare_len, rule hoare_cache_read [OF assms(1-3), where t = "ind V b"])
    (use assms in \<open>simp_all add: ind_def\<close>)

lemma hoare_modify_ind:
  assumes "unat b < nblk" and "unat b \<notin> P" and "card P < BLOCK_CACHE_SIZE"
    and "hr V (insert (unat b) P) (f (ind V b)) (\<lambda>r V'. length (snd r) = 128 \<and> Q (fst r) (V'(unat b := u32s_bytes (snd r))))"
  shows "hr V P (cache_modify dev (unat b) 0 IndirectBlock f) Q"
proof (rule hoare_len)
  assume "\<forall>b<nblk. length (V b) = BLOCK_SZ"
  then have len: "length (V (unat b)) = BLOCK_SZ" using assms(1) by simp
  show ?thesis
    by (rule hoare_cache_modify [OF assms(1-3), where t = "ind V b"])
      (use assms(4) len in \<open>auto simp: ind_def overwrite_whole split_def elim!: hoare_conseq\<close>)
qed

lemma get_block_id_ok:
  assumes "length (direct di) = INODE_DIRECT_COUNT" and "i < n" and "n \<le> INDIRECT2_BOUND"
    and m: "\<forall>b\<in>set (metas V di n). unat b < nblk \<and> unat b \<notin> P" and "card P < BLOCK_CACHE_SIZE"
  shows "hr V P (get_block_id dev di (of_nat i)) (\<lambda>r V'. r = gbid V di i \<and> V' = V)"
proof -
  have u: "unat (of_nat i :: u32) = i" using assms(2,3) by (simp add: unat_of_nat)
  consider "i < INODE_DIRECT_COUNT" | "INODE_DIRECT_COUNT \<le> i" "i < INDIRECT1_BOUND" | "INDIRECT1_BOUND \<le> i" by linarith
  then show ?thesis
  proof cases
    case 1
    then show ?thesis using assms(1) by (simp add: get_block_id_def u index_res_def gbid_def)
  next
    case 2
    then have "unat (indirect1 di) < nblk" "unat (indirect1 di) \<notin> P" using m assms(2) by (auto simp: metas_def)
    with 2 assms(5) show ?thesis
      by (auto simp: get_block_id_def u gbid_def index_res_def intro!: hoare_read_ind)
  next
    case 3
    define sub where "sub = ind V (indirect2 di) ! ((i - INDIRECT1_BOUND) div 128)"
    have k: "(i - INDIRECT1_BOUND) div 128 < subs (n - INDIRECT1_BOUND)"
      using 3 assms(2) by (simp add: subs_def less_eq_div_iff_mult_less_eq Suc_le_eq [symmetric])
    have k2: "(i - INDIRECT1_BOUND) div 128 < 128" using 3 assms(2,3) by (simp add: less_mult_imp_div_less)
    have "sub \<in> set (take (subs (n - INDIRECT1_BOUND)) (ind V (indirect2 di)))"
      using k k2 by (auto simp: sub_def in_set_conv_nth)
    then have "unat sub < nblk" "unat sub \<notin> P" "unat (indirect2 di) < nblk" "unat (indirect2 di) \<notin> P"
      using m 3 assms(2) by (auto simp: metas_def)
    moreover from 3 have "get_block_id dev di (of_nat i) =
        bind (cache_read dev (unat (indirect2 di)) 0 IndirectBlock (\<lambda>i2. lift (index_res i2 ((i - INDIRECT1_BOUND) div 128))))
          (\<lambda>i1. cache_read dev (unat i1) 0 IndirectBlock (\<lambda>i1. lift (index_res i1 ((i - INDIRECT1_BOUND) mod 128))))"
      by (simp add: get_block_id_def u Let_def)
    ultimately show ?thesis
      using 3 assms(5) k2
      by (auto intro!: hoare_bind [where R = "\<lambda>r V'. r = sub \<and> V' = V"] hoare_read_ind
          simp: index_res_def sub_def gbid_def ind2_def)
  qed
qed

lemma fill_indirect2_step:
  assumes c: "c = a0 * 128 + b0" "b0 < 128" "a0 < a1 \<or> a0 = a1 \<and> b0 < b1" "a0 < 128" "length i2 = 128"
    and nb: "nb = (if b0 = 0 then [x] else []) @ y # nb'"
    and i2': "i2' = (if b0 = 0 then i2[a0 := x] else i2)" and sub: "sub = i2' ! a0"
    and "unat sub < nblk" "unat sub \<notin> P" "card P < BLOCK_CACHE_SIZE"
    and rest: "\<And>V'. V' = V(unat sub := u32s_bytes ((ind V sub)[b0 := y])) \<Longrightarrow>
      hr V' P (if b0 + 1 = 128 then fill_indirect2 dev (a0 + 1) 0 a1 b1 i2' nb'
               else fill_indirect2 dev a0 (b0 + 1) a1 b1 i2' nb') Q"
  shows "hr V P (fill_indirect2 dev a0 b0 a1 b1 i2 nb) Q"
proof -
  have "fill_indirect2 dev a0 b0 a1 b1 i2 nb =
      bind (cache_modify dev (unat sub) 0 IndirectBlock
        (\<lambda>i1. bind (lift (update_res i1 b0 y)) (\<lambda>i1'. ret ((), i1')))) (\<lambda>_.
        if b0 + 1 = 128 then fill_indirect2 dev (a0 + 1) 0 a1 b1 i2' nb'
        else fill_indirect2 dev a0 (b0 + 1) a1 b1 i2' nb')"
    using c by (subst fill_indirect2.simps) (auto simp: nb i2' sub update_res_def index_res_def)
  moreover have "hr V P \<dots> Q"
    by (rule hoare_bind [where R = "\<lambda>_ V'. V' = V(unat sub := u32s_bytes ((ind V sub)[b0 := y]))"])
      (use assms(9-11) c(2) rest in \<open>auto intro!: hoare_modify_ind simp: update_res_def\<close>)
  ultimately show ?thesis by simp
qed

lemma fill_indirect2_ok:
  assumes "length i2 = 128" and "c = a0 * 128 + b0" "b0 < 128" and "T = a1 * 128 + b1" "b1 < 128"
    and "c \<le> T" "T \<le> 16384" and "length nb = (T - c) + (subs T - subs c)"
    and "distinct (take (subs c) i2 @ nb)"
    and "\<forall>b\<in>set (take (subs c) i2 @ nb). unat b < nblk \<and> unat b \<notin> P" and "card P < BLOCK_CACHE_SIZE"
  shows "hr V P (fill_indirect2 dev a0 b0 a1 b1 i2 nb) (grown2 V i2 c T nb)"
  using assms
proof (induction "T - c" arbitrary: a0 b0 c i2 nb V)
  case 0
  then have "c = T" by simp
  then have "a0 = a1 \<and> b0 = b1" using 0 by (metis div_mult_self3 mod_mult_self3 div_less mod_less add_0_right zero_neq_numeral)
  then show ?case using 0 \<open>c = T\<close> by (subst fill_indirect2.simps) (simp add: grown2_def)
next
  case (Suc n)
  then have cT: "c < T" by simp
  have cm: "c mod 128 = b0" "c div 128 = a0" using Suc.prems(2,3) by simp_all
  have a0: "a0 < 128" using cT Suc.prems(7) cm(2) by (auto simp: less_mult_imp_div_less)
  have cond: "a0 < a1 \<or> a0 = a1 \<and> b0 < b1"
  proof -
    have "a0 \<le> T div 128" using cT cm(2) div_le_mono [of c T 128] by simp
    then have "a0 \<le> a1" using Suc.prems(4,5) by simp
    with cT Suc.prems(2,4) show ?thesis by auto
  qed
  have sS: "subs (Suc c) \<le> subs T" using cT by (intro subs_mono) simp
  obtain x y nb' where nb: "nb = (if b0 = 0 then [x] else []) @ y # nb'"
  proof (cases "b0 = 0")
    case True
    then have "length nb \<ge> 2" using Suc.prems(8) cT sS cm(1) by (simp add: subs_Suc)
    then show ?thesis using True that by (cases nb; cases "tl nb") auto
  next
    case False
    then show ?thesis using Suc.prems(8) cT that by (cases nb) auto
  qed
  define i2' where "i2' = (if b0 = 0 then i2[a0 := x] else i2)"
  define sub where "sub = i2' ! a0"
  have subin: "sub \<in> set (take (subs c) i2 @ nb)"
    using Suc.prems(1) a0 subs_div [of c] cm by (auto simp: sub_def i2'_def nb in_set_conv_nth)
  show ?case
  proof (rule fill_indirect2_step [OF Suc.prems(2,3) cond a0 Suc.prems(1) nb i2'_def sub_def])
    show "unat sub < nblk" "unat sub \<notin> P" "card P < BLOCK_CACHE_SIZE" using subin Suc.prems(10,11) by auto
  next
    fix V' assume V': "V' = V(unat sub := u32s_bytes ((ind V sub)[b0 := y]))"
    have step: "map (ind2 V' i2') [0..<Suc c] = map (ind2 V i2) [0..<c] @ [y]"
        "take (subs (Suc c)) i2' = take (subs c) i2 @ (if b0 = 0 then [x] else [])"
      using ind2_step [of i2 c i2' x sub V' V y] Suc.prems(1,7,9) cT
      by (auto simp: cm i2'_def sub_def V' nb)
    let ?a = "if b0 + 1 = 128 then a0 + 1 else a0" and ?b = "if b0 + 1 = 128 then 0 else b0 + 1"
    have "hr V' P (fill_indirect2 dev ?a ?b a1 b1 i2' nb') (grown2 V' i2' (Suc c) T nb')"
    proof (rule Suc.hyps(1))
      show "length nb' = T - Suc c + (subs T - subs (Suc c))"
        using Suc.prems(8) sS cT cm(1) by (auto simp: nb subs_Suc)
      show "distinct (take (subs (Suc c)) i2' @ nb')"
        using Suc.prems(9) unfolding step(2) nb by auto
      show "\<forall>b\<in>set (take (subs (Suc c)) i2' @ nb'). unat b < nblk \<and> unat b \<notin> P"
        using Suc.prems(10) unfolding step(2) nb by auto
    qed (use Suc.prems Suc.hyps(2) cT in \<open>auto simp: i2'_def\<close>)
    moreover have "grown2 V i2 c T nb i3 V3" if "grown2 V' i2' (Suc c) T nb' i3 V3" for i3 V3
    proof -
      from that obtain ds ms where d: "length i3 = 128" "mset nb' = mset ds + mset ms"
        "map (ind2 V3 i3) [0..<T] = map (ind2 V' i2') [0..<Suc c] @ ds"
        "take (subs T) i3 = take (subs (Suc c)) i2' @ ms"
        "\<forall>b. b \<notin> unat ` set (take (subs T) i3) \<longrightarrow> V3 b = V' b" by (auto simp: grown2_def)
      have "sub \<in> set (take (subs (Suc c)) i2')"
        using Suc.prems(1) a0 subs_div [of c] cm by (auto simp: sub_def in_set_conv_nth subs_Suc i2'_def intro!: exI [of _ a0])
      then have "\<forall>b. b \<notin> unat ` set (take (subs T) i3) \<longrightarrow> V3 b = V b" using d(4,5) by (auto simp: V')
      with d step show ?thesis unfolding grown2_def
        by (intro conjI exI [of _ "y # ds"] exI [of _ "(if b0 = 0 then [x] else []) @ ms"]) (simp_all add: nb)
    qed
    ultimately have "hr V' P (fill_indirect2 dev ?a ?b a1 b1 i2' nb') (grown2 V i2 c T nb)"
      by (rule hoare_conseq)
    then show "hr V' P (if b0 + 1 = 128 then fill_indirect2 dev (a0 + 1) 0 a1 b1 i2' nb'
        else fill_indirect2 dev a0 (b0 + 1) a1 b1 i2' nb') (grown2 V i2 c T nb)" by (simp split: if_splits)
  qed
qed

lemma grow_indirect2_ok:
  assumes di: "length (direct di) = INODE_DIRECT_COUNT" and c: "INDIRECT1_BOUND \<le> c" "c < n" "n \<le> INDIRECT2_BOUND"
    and len: "length nb = tblocks n - tblocks c" and dist: "distinct (metas V di c @ nb)"
    and rng: "\<forall>b\<in>set (metas V di c @ nb). unat b < nblk \<and> unat b \<notin> P" and cP: "card P + 1 < BLOCK_CACHE_SIZE"
  shows "hr V P (grow_indirect2 dev di (c - INODE_DIRECT_COUNT) (n - INODE_DIRECT_COUNT) nb)
    (\<lambda>di' V'. grown V di c n nb di' V' \<and> di_size di' = di_size di \<and> di_type di' = di_type di)"
proof -
  let ?c = "c - INDIRECT1_BOUND" and ?n = "n - INDIRECT1_BOUND"
  have sub: "tblocks n - tblocks c = n - c + (if c = INDIRECT1_BOUND then 1 else 0) + (subs ?n - subs ?c)"
    using c subs_mono [of ?c ?n] by (auto simp: tblocks_def subs_def)
  obtain x nb' where nb: "nb = (if c = INDIRECT1_BOUND then [x] else []) @ nb'" and x: "INDIRECT1_BOUND < c \<Longrightarrow> x = indirect2 di"
    using len sub c(1) by (cases nb) (auto split: if_splits)
  have xm: "x \<in> set (metas V di c @ nb)" using c(1) x by (cases "c = INDIRECT1_BOUND") (auto simp: nb metas_def)
  have mets: "set (indirect1 di # x # take (subs ?c) (ind V x) @ nb') \<subseteq> set (metas V di c @ nb)"
    using c(1) x by (cases "c = INDIRECT1_BOUND") (auto simp: nb metas_def subs_def)
  have dist2: "distinct (indirect1 di # x # take (subs ?c) (ind V x) @ nb')"
    using c(1) x dist by (cases "c = INDIRECT1_BOUND") (auto simp: nb metas_def subs_def)
  have xr: "unat x < nblk" "unat x \<notin> P" "card P < BLOCK_CACHE_SIZE" using rng xm cP by auto
  have cI: "card (insert (unat x) P) < BLOCK_CACHE_SIZE" using cP card_insert_le_m1 [of "card P + 1" P "unat x"] by simp
  let ?fill = "fill_indirect2 dev (?c div 128) (?c mod 128) (?n div 128) (?n mod 128)"
  have fill: "hr V (insert (unat x) P) (?fill (ind V x) nb') (grown2 V (ind V x) ?c ?n nb')"
  proof (rule fill_indirect2_ok)
    define K where "K = subs ?n - subs ?c"
    have "?n - ?c = n - c" using c by simp
    moreover have "length nb = n - c + (if c = INDIRECT1_BOUND then 1 else 0) + K" using len sub by (simp only: K_def)
    then have "length nb' = n - c + K" by (cases "c = INDIRECT1_BOUND") (simp_all add: nb)
    ultimately show "length nb' = ?n - ?c + (subs ?n - subs ?c)" by (simp add: K_def)
    show "\<forall>b\<in>set (take (subs ?c) (ind V x) @ nb'). unat b < nblk \<and> unat b \<notin> insert (unat x) P"
      using rng mets dist2 by (auto simp: word_unat_eq_iff [symmetric])
  qed (use c dist2 cI in auto)
  have "hr V P (cache_modify dev (unat x) 0 IndirectBlock (\<lambda>i2. bind (?fill i2 nb') (\<lambda>i2. ret ((), i2))))
      (\<lambda>_ V'. grown V di c n nb (di\<lparr>indirect2 := x\<rparr>) V')"
  proof (rule hoare_modify_ind [OF xr], rule hoare_bind [OF hoare_frame [OF fill]], rule hoare_ret)
    fix a V' assume a: "grown2 V (ind V x) ?c ?n nb' a V' \<and> (\<forall>b\<in>insert (unat x) P. V' b = V b)"
    then have "grown V di c n nb (di\<lparr>indirect2 := x\<rparr>) (V'(unat x := u32s_bytes a))"
      unfolding nb by (intro grown_indirect2 [OF di c x _ _ dist2]) auto
    with a show "length (snd ((), a)) = 128 \<and> grown V di c n nb (di\<lparr>indirect2 := x\<rparr>) (V'(unat x := u32s_bytes (snd ((), a))))"
      by (simp add: grown2_def)
  qed
  then have "hr V P (bind (cache_modify dev (unat x) 0 IndirectBlock (\<lambda>i2. bind (?fill i2 nb') (\<lambda>i2. ret ((), i2))))
      (\<lambda>_. ret (di\<lparr>indirect2 := x\<rparr>)))
      (\<lambda>di' V'. grown V di c n nb di' V' \<and> di_size di' = di_size di \<and> di_type di' = di_type di)"
    by (rule hoare_bind) simp
  moreover have "(if c - INODE_DIRECT_COUNT = INODE_INDIRECT1_COUNT
      then bind (lift (next_block nb)) (\<lambda>(b, nb). ret (di\<lparr>indirect2 := b\<rparr>, nb)) else ret (di, nb)) =
      (ret (di\<lparr>indirect2 := x\<rparr>, nb') :: ('d world, DiskInode \<times> u32 list) cmd)"
    using c(1) x by (auto simp: nb)
  ultimately show ?thesis using c(1,2) by (simp add: grow_indirect2_def Let_def)
qed

end

end
