(* ===== verification/InodeGrow.thy ===== *)
theory InodeGrow
  imports DiskInodes
begin

text \<open>
  Growing a disk inode: the phases of \<open>DiskInode::increase_size\<close> (src/easy-fs/src/layout.rs)
  composed.  From a well-formed inode and enough fresh blocks the call returns, keeps every old data
  and metadata block, uses exactly the given blocks, writes metadata blocks only, and leaves a
  well-formed inode.
\<close>

section \<open>The phases\<close>

lemma nblocks_small: "nblocks s \<le> INDIRECT2_BOUND \<Longrightarrow> s + 511 < 2 ^ 32"
  by (simp add: nblocks_def)

lemma inode_nblocks_eq:
  assumes "inode_nblocks di \<le> INDIRECT2_BOUND"
  shows "unat (data_blocks di) = inode_nblocks di"
  using assms nblocks_small by (simp add: data_blocks_def inode_nblocks_def data_blocks_for_exact)

lemma grown_inode_ok:
  assumes "inode_ok nblk R V di" and "grown V di (inode_nblocks di) (inode_nblocks di') nb di' V'"
    and "inode_nblocks di' \<le> INDIRECT2_BOUND" and "distinct (inode_blocks V di @ nb)"
    and "\<forall>b\<in>set nb. unat b < nblk \<and> unat b \<notin> R"
  shows "inode_ok nblk R V' di'" and "mset (inode_blocks V' di') = mset (inode_blocks V di) + mset nb"
proof -
  from assms(2) show m: "mset (inode_blocks V' di') = mset (inode_blocks V di) + mset nb"
    by (auto simp: grown_def inode_blocks_def)
  then have e: "mset (inode_blocks V' di') = mset (inode_blocks V di @ nb)" by simp
  then have "set (inode_blocks V' di') = set (inode_blocks V di @ nb)" by (rule mset_eq_setD)
  moreover have "distinct (inode_blocks V' di')" using mset_eq_imp_distinct_iff [OF e] assms(4) by simp
  ultimately show "inode_ok nblk R V' di'"
    using assms(1,2,3,5) by (auto simp: inode_ok_def grown_def)
qed

context block_device
begin

lemma grow_indirect2_same:
  assumes di: "length (direct di) = INODE_DIRECT_COUNT" and "n \<le> INDIRECT1_BOUND \<or> c = n" and "c \<le> n"
    and rng: "\<forall>b\<in>set (metas V di n). unat b < nblk \<and> unat b \<notin> P" and cP: "card P < BLOCK_CACHE_SIZE"
  shows "hr V P (grow_indirect2 dev di (c - INODE_DIRECT_COUNT) (n - INODE_DIRECT_COUNT) nb) (\<lambda>di' V'. di' = di \<and> V' = V)"
proof (cases "n \<le> INDIRECT1_BOUND")
  case True
  then have "\<not> INODE_INDIRECT1_COUNT < n - INODE_DIRECT_COUNT" by simp
  then have "grow_indirect2 dev di (c - INODE_DIRECT_COUNT) (n - INODE_DIRECT_COUNT) nb = ret di"
    unfolding grow_indirect2_def by (rule if_not_P)
  then show ?thesis by simp
next
  case False
  with assms(2) have cn: "c = n" by simp
  have x: "unat (indirect2 di) < nblk" "unat (indirect2 di) \<notin> P" using rng False by (auto simp: metas_def)
  have f: "fill_indirect2 dev a b a b i2 nb = ret i2" for a b i2 by (subst fill_indirect2.simps) simp
  have g: "INODE_INDIRECT1_COUNT < n - INODE_DIRECT_COUNT" "n - INODE_DIRECT_COUNT \<noteq> INODE_INDIRECT1_COUNT" using False by simp_all
  have eq: "grow_indirect2 dev di (c - INODE_DIRECT_COUNT) (n - INODE_DIRECT_COUNT) nb =
      bind (cache_modify dev (unat (indirect2 di)) 0 IndirectBlock (\<lambda>i2. ret ((), i2))) (\<lambda>_. ret di)"
    unfolding cn grow_indirect2_def if_P [OF g(1)] if_not_P [OF g(2)] Let_def bind_ret prod.case f ..
  show ?thesis
  proof (rule hoare_len)
    assume "\<forall>b<nblk. length (V b) = BLOCK_SZ"
    then have same: "V(unat (indirect2 di) := u32s_bytes (ind V (indirect2 di))) = V" using x(1) by (simp add: ind_same)
    have "hr V P (cache_modify dev (unat (indirect2 di)) 0 IndirectBlock (\<lambda>i2. ret ((), i2))) (\<lambda>_ V'. V' = V)"
      by (rule hoare_modify_ind [OF x cP]) (simp add: same)
    then show "hr V P (grow_indirect2 dev di (c - INODE_DIRECT_COUNT) (n - INODE_DIRECT_COUNT) nb) (\<lambda>di' V'. di' = di \<and> V' = V)"
      unfolding eq by (rule hoare_bind) simp
  qed
qed

lemma grow2_ok:
  assumes "length (direct di) = INODE_DIRECT_COUNT" and "INDIRECT1_BOUND \<le> c \<or> c = n" "c \<le> n" "n \<le> INDIRECT2_BOUND"
    and "length nb = tblocks n - tblocks c" and "distinct (metas V di c @ nb)"
    and "\<forall>b\<in>set (metas V di c @ nb). unat b < nblk \<and> unat b \<notin> P" and "card P + 1 < BLOCK_CACHE_SIZE"
  shows "hr V P (grow_indirect2 dev di (c - INODE_DIRECT_COUNT) (n - INODE_DIRECT_COUNT) nb)
    (\<lambda>di' V'. grown V di c n nb di' V' \<and> di_size di' = di_size di \<and> di_type di' = di_type di)"
proof (cases "c = n")
  case True
  then have "nb = []" using assms(5) by simp
  with True assms grow_indirect2_same [of di n c V P "[]"] grown_refl [OF assms(1)] show ?thesis
    by (auto elim!: hoare_conseq)
next
  case False
  with assms show ?thesis by (intro grow_indirect2_ok) auto
qed

lemma fill_indirect1_ok:
  assumes "unat x < nblk" "unat x \<notin> P" "card P < BLOCK_CACHE_SIZE" and "INODE_DIRECT_COUNT \<le> c" "c \<le> n"
    and "m = max c (min n INDIRECT1_BOUND)" and "m - c \<le> length nb"
  shows "hr V P (cache_modify dev (unat x) 0 IndirectBlock (\<lambda>i1.
        bind (lift (fill_slots (c - INODE_DIRECT_COUNT) (min (n - INODE_DIRECT_COUNT) INODE_INDIRECT1_COUNT) i1 nb))
          (\<lambda>(i1, nb, cur). ret ((nb, cur), i1))))
    (\<lambda>r V'. r = (drop (m - c) nb, m - INODE_DIRECT_COUNT) \<and>
       V' = (if c < m then V(unat x := u32s_bytes (overwrite (ind V x) (c - INODE_DIRECT_COUNT) (take (m - c) nb))) else V))"
proof (rule hoare_len)
  assume "\<forall>b<nblk. length (V b) = BLOCK_SZ"
  then have len: "length (V (unat x)) = BLOCK_SZ" using assms(1) by simp
  let ?e = "min (n - INODE_DIRECT_COUNT) INODE_INDIRECT1_COUNT"
  have e: "?e - (c - INODE_DIRECT_COUNT) = m - c" "max (c - INODE_DIRECT_COUNT) ?e = m - INODE_DIRECT_COUNT"
    using assms(4-6) by (auto simp: max_def min_def)
  have "fill_slots (c - INODE_DIRECT_COUNT) ?e (ind V x) nb =
      Ok (overwrite (ind V x) (c - INODE_DIRECT_COUNT) (take (m - c) nb), drop (m - c) nb, m - INODE_DIRECT_COUNT)"
    using fill_slots_ok [of ?e "c - INODE_DIRECT_COUNT" nb "ind V x"] assms(7) by (simp add: e)
  moreover have "length (overwrite (ind V x) (c - INODE_DIRECT_COUNT) (take (m - c) nb)) = 128"
    using assms(4-7) by (cases "c < m") (auto simp: max_def min_def split: if_splits)
  ultimately show "hr V P (cache_modify dev (unat x) 0 IndirectBlock (\<lambda>i1.
        bind (lift (fill_slots (c - INODE_DIRECT_COUNT) ?e i1 nb)) (\<lambda>(i1, nb, cur). ret ((nb, cur), i1))))
    (\<lambda>r V'. r = (drop (m - c) nb, m - INODE_DIRECT_COUNT) \<and>
       V' = (if c < m then V(unat x := u32s_bytes (overwrite (ind V x) (c - INODE_DIRECT_COUNT) (take (m - c) nb))) else V))"
    using ind_same [of V x, OF len] by (intro hoare_modify_ind [OF assms(1-3)]) simp
qed

lemma grow_indirect1_ok:
  assumes di: "length (direct di) = INODE_DIRECT_COUNT" and c: "INODE_DIRECT_COUNT \<le> c \<or> c = n" "c \<le> n" "n \<le> INDIRECT2_BOUND"
    and len: "length nb = tblocks n - tblocks c" and dist: "distinct (metas V di c @ nb)"
    and rng: "\<forall>b\<in>set (metas V di c @ nb). unat b < nblk \<and> unat b \<notin> P" and cP: "card P + 1 < BLOCK_CACHE_SIZE"
  shows "hr V P (grow_indirect1 dev di c n nb)
    (\<lambda>di' V'. grown V di c n nb di' V' \<and> di_size di' = di_size di \<and> di_type di' = di_type di)"
proof (cases "INODE_DIRECT_COUNT < n")
  case False
  then have "c = n" using c by auto
  with False len grown_refl [OF di] show ?thesis by (simp add: grow_indirect1_def)
next
  case True
  with c have c28: "INODE_DIRECT_COUNT \<le> c" by auto
  define m where "m = max c (min n INDIRECT1_BOUND)"
  have m: "c \<le> m" "m \<le> n" "INDIRECT1_BOUND \<le> m \<or> m = n" using c by (auto simp: m_def)
  have tb: "tblocks m - tblocks c = (if c = INODE_DIRECT_COUNT then 1 else 0) + (m - c)" "tblocks c \<le> tblocks m" "tblocks m \<le> tblocks n"
  proof -
    show "tblocks c \<le> tblocks m" "tblocks m \<le> tblocks n" using m by (simp_all add: tblocks_mono)
    show "tblocks m - tblocks c = (if c = INODE_DIRECT_COUNT then 1 else 0) + (m - c)"
    proof (cases "c < INDIRECT1_BOUND")
      case c156: True
      then have "m \<le> INDIRECT1_BOUND" "INODE_DIRECT_COUNT < m" using True by (auto simp: m_def)
      then show ?thesis using c28 c156 m(1) by (auto simp: tblocks_def)
    next
      case False
      then have "m = c" by (simp add: m_def)
      then show ?thesis using False by simp
    qed
  qed
  obtain x nb' where nb: "nb = (if c = INODE_DIRECT_COUNT then [x] else []) @ nb'" and x: "INODE_DIRECT_COUNT < c \<Longrightarrow> x = indirect1 di"
    using len tb c28 by (cases nb) (auto split: if_splits)
  have xm: "unat x < nblk" "unat x \<notin> P" "card P < BLOCK_CACHE_SIZE"
    using rng c28 x cP by (cases "c = INODE_DIRECT_COUNT"; auto simp: nb metas_def)+
  define V1 where "V1 = (if c < m then V(unat x := u32s_bytes (overwrite (ind V x) (c - INODE_DIRECT_COUNT) (take (m - c) nb'))) else V)"
  let ?di = "di\<lparr>indirect1 := x\<rparr>"
  have l': "length nb' = (m - c) + (tblocks n - tblocks m)" using len tb by (auto simp: nb split: if_splits)
  have g1: "grown V di c m ((if c = INODE_DIRECT_COUNT then [x] else []) @ take (m - c) nb') ?di V1"
  proof (cases "c < m")
    case True
    then have "m \<le> INDIRECT1_BOUND" by (auto simp: m_def)
    from grown_indirect1 [OF di c28 True this _ x, of "take (m - c) nb'" V] l' True show ?thesis
      by (simp add: V1_def)
  next
    case False
    then have "INODE_DIRECT_COUNT < c" using True c28 m by (auto simp: m_def)
    with False m x di show ?thesis by (simp add: V1_def grown_refl)
  qed
  then obtain ds ms where g: "mset ((if c = INODE_DIRECT_COUNT then [x] else []) @ take (m - c) nb') = mset ds + mset ms"
     "metas V1 ?di m = metas V di c @ ms" by (auto simp: grown_def)
  have "mset nb = mset ((if c = INODE_DIRECT_COUNT then [x] else []) @ take (m - c) nb') + mset (drop (m - c) nb')"
    unfolding nb by (metis append_assoc append_take_drop_id mset_append)
  then have ms: "mset (metas V1 ?di m @ drop (m - c) nb' @ ds) = mset (metas V di c @ nb)" using g by simp
  have d1: "distinct (metas V1 ?di m @ drop (m - c) nb' @ ds)"
    using mset_eq_imp_distinct_iff [OF ms] dist by simp
  have s1: "set (metas V1 ?di m @ drop (m - c) nb' @ ds) = set (metas V di c @ nb)" using mset_eq_setD [OF ms] .
  have mid: "hr V1 P (grow_indirect2 dev ?di (m - INODE_DIRECT_COUNT) (n - INODE_DIRECT_COUNT) (drop (m - c) nb'))
     (\<lambda>di' V'. grown V1 ?di m n (drop (m - c) nb') di' V' \<and> di_size di' = di_size di \<and> di_type di' = di_type di)"
    by (rule hoare_conseq, rule grow2_ok) (use g1 m c(3) l' d1 s1 rng cP in \<open>auto simp: grown_def\<close>)
  have tot: "hr V1 P (grow_indirect2 dev ?di (m - INODE_DIRECT_COUNT) (n - INODE_DIRECT_COUNT) (drop (m - c) nb'))
     (\<lambda>di' V'. grown V di c n nb di' V' \<and> di_size di' = di_size di \<and> di_type di' = di_type di)"
  proof (rule hoare_conseq [OF mid])
    fix di' V'
    assume "grown V1 ?di m n (drop (m - c) nb') di' V' \<and> di_size di' = di_size di \<and> di_type di' = di_type di"
    with grown_trans [OF g1] show "grown V di c n nb di' V' \<and> di_size di' = di_size di \<and> di_type di' = di_type di"
      by (fastforce simp: nb)
  qed
  have "(if c = INODE_DIRECT_COUNT then bind (lift (next_block nb)) (\<lambda>(b, nb). ret (di\<lparr>indirect1 := b\<rparr>, nb)) else ret (di, nb)) =
      (ret (?di, nb') :: ('d world, DiskInode \<times> u32 list) cmd)"
    using c28 x by (auto simp: nb)
  then show ?thesis
    unfolding grow_indirect1_def Let_def
    using True tot l' by (auto intro!: hoare_bind [OF fill_indirect1_ok [OF xm c28 c(2) m_def]] simp flip: V1_def)
qed

lemma increase_size_ok:
  assumes ok: "inode_ok nblk P V di" and sz: "unat (di_size di) \<le> unat ns" and ns: "nblocks (unat ns) \<le> INDIRECT2_BOUND"
    and len: "length nb = tblocks (nblocks (unat ns)) - tblocks (inode_nblocks di)"
    and dist: "distinct (inode_blocks V di @ nb)" and rng: "\<forall>b\<in>set nb. unat b < nblk \<and> unat b \<notin> P"
    and cP: "card P + 1 < BLOCK_CACHE_SIZE"
  shows "hr V P (increase_size dev di ns nb) (\<lambda>di' V'. di_size di' = ns \<and> di_type di' = di_type di \<and>
    grown V di (inode_nblocks di) (nblocks (unat ns)) nb di' V')"
proof -
  let ?c = "inode_nblocks di" and ?n = "nblocks (unat ns)"
  have l28: "length (direct di) = INODE_DIRECT_COUNT" and cb: "?c \<le> INDIRECT2_BOUND" using ok by (auto simp: inode_ok_def)
  have cn: "?c \<le> ?n" using sz by (simp add: inode_nblocks_def nblocks_mono)
  have cur: "unat (data_blocks di) = ?c" using inode_nblocks_eq [OF cb] .
  have tot: "unat (data_blocks (di\<lparr>di_size := ns\<rparr>)) = ?n"
    using inode_nblocks_eq [of "di\<lparr>di_size := ns\<rparr>"] ns by (simp add: inode_nblocks_def)
  define m where "m = max ?c (min ?n INODE_DIRECT_COUNT)"
  define k where "k = m - ?c"
  have m: "?c \<le> m" "m \<le> ?n" "INODE_DIRECT_COUNT \<le> m \<or> m = ?n" "k > 0 \<Longrightarrow> m \<le> INODE_DIRECT_COUNT"
    using cn by (auto simp: m_def k_def)
  have "tblocks m - tblocks ?c = k"
    using m(4) by (cases "k = 0") (auto simp: k_def tblocks_def)
  moreover have "tblocks ?c \<le> tblocks m" "tblocks m \<le> tblocks ?n" using m by (simp_all add: tblocks_mono)
  ultimately have lk: "length nb = k + (tblocks ?n - tblocks m)" using len by simp
  let ?di = "di\<lparr>di_size := ns, direct := overwrite (direct di) ?c (take k nb)\<rparr>"
  have kk: "min ?n INODE_DIRECT_COUNT - ?c = k" "max ?c (min ?n INODE_DIRECT_COUNT) = m" by (auto simp: k_def m_def)
  have fs: "fill_slots ?c (min ?n INODE_DIRECT_COUNT) (direct di) nb = Ok (overwrite (direct di) ?c (take k nb), drop k nb, m)"
    using fill_slots_ok [of "min ?n INODE_DIRECT_COUNT" ?c nb "direct di"] lk l28 by (simp add: kk)
  have g1: "grown V di ?c m (take k nb) ?di V"
  proof (cases "k = 0")
    case True
    then have "m = ?c" using m by (simp add: k_def)
    with True l28 show ?thesis by (auto simp: grown_def datas_def metas_def gbid_def)
  next
    case False
    then show ?thesis using l28 m lk by (intro grown_direct) (auto simp: k_def)
  qed
  then obtain ds ms where g: "mset (take k nb) = mset ds + mset ms" "metas V ?di m = metas V di ?c @ ms"
    and l28': "length (direct ?di) = INODE_DIRECT_COUNT" by (auto simp: grown_def)
  have "mset nb = mset (take k nb) + mset (drop k nb)" by (metis append_take_drop_id mset_append)
  then have e: "mset (metas V ?di m @ drop k nb @ ds) = mset (metas V di ?c @ nb)" using g by simp
  have d1: "distinct (metas V ?di m @ drop k nb @ ds)"
    using mset_eq_imp_distinct_iff [OF e] dist by (simp add: inode_blocks_def)
  have s1: "set (metas V ?di m @ drop k nb @ ds) = set (metas V di ?c @ nb)" using mset_eq_setD [OF e] .
  have r1: "\<forall>b\<in>set (metas V di ?c @ nb). unat b < nblk \<and> unat b \<notin> P" using ok rng by (auto simp: inode_ok_def inode_blocks_def)
  have "hr V P (grow_indirect1 dev ?di m ?n (drop k nb))
      (\<lambda>di' V'. grown V ?di m ?n (drop k nb) di' V' \<and> di_size di' = di_size ?di \<and> di_type di' = di_type ?di)"
    by (rule grow_indirect1_ok [OF l28' m(3,2) ns _ _ _ cP]) (use lk d1 s1 r1 in auto)
  then have "hr V P (grow_indirect1 dev ?di m ?n (drop k nb))
      (\<lambda>di' V'. di_size di' = ns \<and> di_type di' = di_type di \<and> grown V di ?c ?n nb di' V')"
    by (rule hoare_conseq) (use grown_trans [OF g1, of ?n "drop k nb"] in auto)
  then show ?thesis by (simp add: increase_size_def cur tot fs)
qed

end

section \<open>Properties\<close>

text \<open>A file of ten bytes in block 3.\<close>

definition sample_inode :: DiskInode where
  "sample_inode = \<lparr>di_size = 10, direct = 3 # replicate 27 0, indirect1 = 0, indirect2 = 0, di_type = File\<rparr>"

lemma sample_inode_ok: "4 \<le> nblk \<Longrightarrow> inode_ok nblk {} V sample_inode"
  by (simp add: inode_ok_def inode_blocks_def inode_nblocks_def nblocks_def datas_def metas_def gbid_def sample_inode_def)

lemma sample_inode_nblocks: "inode_nblocks sample_inode = 1" "inode_blocks V sample_inode = [3]"
  by (simp_all add: inode_blocks_def inode_nblocks_def nblocks_def datas_def metas_def gbid_def sample_inode_def)

text \<open>C9. \<open>DiskInode::increase_size\<close>, given a well-formed inode and exactly \<open>blocks_num_needed\<close> fresh
  distinct blocks, returns; the inode is again well-formed, its old data blocks are its first data
  blocks still, the blocks it owns are the old ones plus the given ones, and no block is written
  other than its metadata blocks.\<close>

theorem increase_size_correct:
  assumes "bf_ok nblk w" and "inode_ok nblk (pins w) (bf_view nblk w) di"
    and "di_size di \<le> ns" and "nblocks (unat ns) \<le> INDIRECT2_BOUND"
    and "blocks_num_needed di ns = Ok k" and "length nb = unat k"
    and "distinct (inode_blocks (bf_view nblk w) di @ nb)"
    and "\<forall>b\<in>set nb. unat b < nblk \<and> unat b \<notin> pins w" and "card (pins w) + 1 < BLOCK_CACHE_SIZE"
  shows "runs (increase_size BlockFile di ns nb) w (\<lambda>di' w'.
    di_size di' = ns \<and> inode_ok nblk (pins w) (bf_view nblk w') di' \<and>
    take (inode_nblocks di) (datas (bf_view nblk w') di' (inode_nblocks di')) =
      datas (bf_view nblk w) di (inode_nblocks di) \<and>
    mset (inode_blocks (bf_view nblk w') di') = mset (inode_blocks (bf_view nblk w) di) + mset nb \<and>
    (\<forall>b. b \<notin> unat ` set (metas (bf_view nblk w') di' (inode_nblocks di')) \<longrightarrow>
       bf_view nblk w' b = bf_view nblk w b))"
proof -
  have sz: "unat (di_size di) \<le> unat ns" using assms(3) by (simp add: word_le_nat_alt)
  have nbs: "inode_nblocks di \<le> nblocks (unat ns)" using sz by (simp add: inode_nblocks_def nblocks_mono)
  have small: "unat (di_size di) + 511 < 2 ^ 32" "unat ns + 511 < 2 ^ 32"
    using nblocks_small [OF assms(4)] sz by simp_all
  note tb = total_blocks_exact [OF small(1)] total_blocks_exact [OF small(2)]
  have "total_blocks (di_size di) \<le> total_blocks ns"
    using tblocks_mono [OF nbs] by (simp add: word_le_nat_alt tb inode_nblocks_def)
  then have "length nb = tblocks (nblocks (unat ns)) - tblocks (inode_nblocks di)"
    using assms(3,5,6) by (auto simp: blocks_num_needed_def unat_sub tb inode_nblocks_def)
  from bf.hoareD [OF bf.increase_size_ok [OF assms(2) sz assms(4) this assms(7,8,9)] assms(1) refl refl]
  show ?thesis
  proof (rule runs_mono, elim conjE)
    fix di' w' assume s: "di_size di' = ns"
      and g: "grown (bf_view nblk w) di (inode_nblocks di) (nblocks (unat ns)) nb di' (bf_view nblk w')"
    have n': "inode_nblocks di' = nblocks (unat ns)" by (simp add: inode_nblocks_def s)
    note g' = g [folded n']
    from g' have "take (inode_nblocks di) (datas (bf_view nblk w') di' (inode_nblocks di')) =
        datas (bf_view nblk w) di (inode_nblocks di)" by (auto simp: grown_def datas_def)
    moreover from g' have "\<forall>b. b \<notin> unat ` set (metas (bf_view nblk w') di' (inode_nblocks di')) \<longrightarrow>
       bf_view nblk w' b = bf_view nblk w b" by (auto simp: grown_def)
    ultimately show "di_size di' = ns \<and> inode_ok nblk (pins w) (bf_view nblk w') di' \<and>
      take (inode_nblocks di) (datas (bf_view nblk w') di' (inode_nblocks di')) =
        datas (bf_view nblk w) di (inode_nblocks di) \<and>
      mset (inode_blocks (bf_view nblk w') di') = mset (inode_blocks (bf_view nblk w) di) + mset nb \<and>
      (\<forall>b. b \<notin> unat ` set (metas (bf_view nblk w') di' (inode_nblocks di')) \<longrightarrow>
         bf_view nblk w' b = bf_view nblk w b)"
      using s grown_inode_ok [OF assms(2) g' _ assms(7,8)] assms(4) n' by simp
  qed
qed

lemma increase_size_correct_witness:
  "runs (increase_size BlockFile sample_inode 600 [2]) (blank 4) (\<lambda>di' w'.
    di_size di' = 600 \<and> inode_ok 4 (pins (blank 4)) (bf_view 4 w') di' \<and>
    take (inode_nblocks sample_inode) (datas (bf_view 4 w') di' (inode_nblocks di')) =
      datas (bf_view 4 (blank 4)) sample_inode (inode_nblocks sample_inode) \<and>
    mset (inode_blocks (bf_view 4 w') di') = mset (inode_blocks (bf_view 4 (blank 4)) sample_inode) + mset [2] \<and>
    (\<forall>b. b \<notin> unat ` set (metas (bf_view 4 w') di' (inode_nblocks di')) \<longrightarrow>
       bf_view 4 w' b = bf_view 4 (blank 4) b))"
  by (rule increase_size_correct [where k = 1])
    (use blank_ok [of 4] sample_inode_ok [of 4] in \<open>simp_all add: USIZE_LIMIT_def sample_inode_nblocks nblocks_def
      blocks_num_needed_def total_blocks_def data_blocks_for_def sample_inode_def [THEN arg_cong [where f = di_size]]\<close>)

end
