(* ===== verification/InodeData.thy ===== *)
theory InodeData
  imports InodeGrow
begin

text \<open>
  Clearing, reading and writing a disk inode (\<open>clear_size\<close>, \<open>read_at\<close>, \<open>write_at\<close> of
  src/easy-fs/src/layout.rs): \<open>clear_size\<close> returns exactly the blocks the inode owned, and the
  block-wise loops read and write the inode's contents as one byte sequence.
\<close>

text \<open>An inode all of whose data blocks are block-sized in \<open>V\<close>.\<close>

definition blocks_full :: "(usize \<Rightarrow> bytes) \<Rightarrow> DiskInode \<Rightarrow> bool" where
  "blocks_full V di \<longleftrightarrow> (\<forall>b\<in>set (datas V di (inode_nblocks di)). length (V (unat b)) = BLOCK_SZ)"

text \<open>\<open>V'\<close> differs from \<open>V\<close> only in data blocks of the inode, which keeps its blocks.\<close>

definition data_written :: "(usize \<Rightarrow> bytes) \<Rightarrow> DiskInode \<Rightarrow> (usize \<Rightarrow> bytes) \<Rightarrow> bool" where
  "data_written V di V' \<longleftrightarrow>
     datas V' di (inode_nblocks di) = datas V di (inode_nblocks di) \<and>
     metas V' di (inode_nblocks di) = metas V di (inode_nblocks di) \<and>
     (\<forall>b. b \<notin> unat ` set (datas V di (inode_nblocks di)) \<longrightarrow> V' b = V b)"

section \<open>Blocks that are not written\<close>

lemma metas_cong:
  assumes "\<forall>m\<in>set (metas V di n). V' (unat m) = V (unat m)"
  shows "metas V' di n = metas V di n"
proof (cases "n > INDIRECT1_BOUND")
  case True
  then have "ind V' (indirect2 di) = ind V (indirect2 di)" using assms by (intro ind_cong) (auto simp: metas_def)
  then show ?thesis by (simp add: metas_def)
qed (simp add: metas_def)

lemma sub_in_metas:
  assumes "INDIRECT1_BOUND \<le> i" and "i < n" and "n \<le> INDIRECT2_BOUND"
  shows "ind V (indirect2 di) ! ((i - INDIRECT1_BOUND) div 128) \<in> set (metas V di n)"
proof -
  have "(i - INDIRECT1_BOUND) div 128 < subs (n - INDIRECT1_BOUND)" using assms by (intro subs_less) simp
  moreover have "(i - INDIRECT1_BOUND) div 128 < 128" using assms by (simp add: less_mult_imp_div_less)
  ultimately show ?thesis using assms(1,2) by (auto simp: metas_def in_set_conv_nth)
qed

lemma gbid_cong:
  assumes "\<forall>m\<in>set (metas V di n). V' (unat m) = V (unat m)" and "i < n" and "n \<le> INDIRECT2_BOUND"
  shows "gbid V' di i = gbid V di i"
proof -
  consider "i < INODE_DIRECT_COUNT" | "INODE_DIRECT_COUNT \<le> i" "i < INDIRECT1_BOUND" | "INDIRECT1_BOUND \<le> i" by linarith
  then show ?thesis
  proof cases
    case 1
    then show ?thesis by (simp add: gbid_def)
  next
    case 2
    then have "ind V' (indirect1 di) = ind V (indirect1 di)" using assms by (intro ind_cong) (auto simp: metas_def)
    with 2 show ?thesis by (simp add: gbid_def)
  next
    case 3
    have e2: "ind V' (indirect2 di) = ind V (indirect2 di)" using assms 3 by (intro ind_cong) (auto simp: metas_def)
    have "ind V' (ind V (indirect2 di) ! ((i - INDIRECT1_BOUND) div 128)) = ind V (ind V (indirect2 di) ! ((i - INDIRECT1_BOUND) div 128))"
      using assms(1) sub_in_metas [OF 3 assms(2,3)] by (intro ind_cong) auto
    with 3 e2 show ?thesis by (simp add: gbid_def ind2_def)
  qed
qed

lemma datas_cong:
  assumes "\<forall>m\<in>set (metas V di n). V' (unat m) = V (unat m)" and "n \<le> INDIRECT2_BOUND"
  shows "datas V' di n = datas V di n"
  using gbid_cong [OF assms(1) _ assms(2)] by (simp add: datas_def)

section \<open>Clearing\<close>

lemma drain_slots_ok:
  "\<forall>i\<in>set is. i < length slots \<Longrightarrow> distinct is \<Longrightarrow>
   \<exists>slots'. drain_slots is slots v = Ok (slots', v @ map (nth slots) is) \<and> length slots' = length slots"
proof (induction "is" arbitrary: slots v)
  case Nil
  then show ?case by simp
next
  case (Cons i "is")
  then have "map ((!) (slots[i := 0])) is = map ((!) slots) is" by (intro map_cong) (auto simp: nth_list_update)
  with Cons.IH [of "slots[i := 0]" "v @ [slots ! i]"] Cons.prems show ?case
    by (auto simp: index_res_def update_res_def)
qed

lemma push_slots_ok:
  "\<forall>i\<in>set is. i < length slots \<Longrightarrow> push_slots is slots v = Ok (v @ map (nth slots) is)"
  by (induction "is" arbitrary: v) (auto simp: index_res_def)

lemma map_nth_prefix: "k \<le> length xs \<Longrightarrow> map (nth xs) [0..<k] = take k xs"
  by (rule nth_equalityI) auto

lemma map_ind2_full: "a \<le> length i2 \<Longrightarrow> map (ind2 V i2) [0..<a * 128] = concat (map (ind V) (take a i2))"
proof (induction a)
  case 0
  then show ?case by simp
next
  case (Suc a)
  have "[0..<Suc a * 128] = [0..<a * 128] @ map (\<lambda>i. a * 128 + i) [0..<128]"
    by (rule nth_equalityI) (auto simp: nth_append)
  moreover have "map (ind2 V i2 \<circ> (\<lambda>i. a * 128 + i)) [0..<128] = ind V (i2 ! a)"
    by (rule nth_equalityI) (auto simp: ind2_def)
  ultimately have "map (ind2 V i2) [0..<Suc a * 128] = concat (map (ind V) (take a i2)) @ ind V (i2 ! a)"
    using Suc by (simp only: map_append map_map)
  then show ?case using Suc.prems by (simp add: take_Suc_conv_app_nth)
qed

lemma map_ind2_parts:
  assumes "a < length i2 \<or> (b = 0 \<and> a \<le> length i2)" and "b < 128"
  shows "map (ind2 V i2) [0..<a * 128 + b] = concat (map (ind V) (take a i2)) @ take b (ind V (i2 ! a))"
proof -
  have "[0..<a * 128 + b] = [0..<a * 128] @ map (\<lambda>i. a * 128 + i) [0..<b]"
    by (rule nth_equalityI) (auto simp: nth_append)
  moreover have "map (ind2 V i2 \<circ> (\<lambda>i. a * 128 + i)) [0..<b] = take b (ind V (i2 ! a))"
    using assms(2) by (intro nth_equalityI) (auto simp: ind2_def)
  ultimately show ?thesis using assms(1) by (simp only: map_append map_map map_ind2_full) (auto simp: map_ind2_full)
qed

lemma mset_concat_Cons: "mset (concat (map (\<lambda>e. e # f e) es)) = mset es + mset (concat (map f es))"
  by (induction es) simp_all

context block_device
begin

lemma hoare_modify_ind_same:
  assumes "unat b < nblk" and "unat b \<notin> P" and "card P < BLOCK_CACHE_SIZE"
    and "hr V (insert (unat b) P) (f (ind V b)) (\<lambda>r V'. snd r = ind V b \<and> V' = V \<and> Q (fst r))"
  shows "hr V P (cache_modify dev (unat b) 0 IndirectBlock f) (\<lambda>r V'. V' = V \<and> Q r)"
proof (rule hoare_len)
  assume "\<forall>b<nblk. length (V b) = BLOCK_SZ"
  then have "V(unat b := u32s_bytes (ind V b)) = V" using assms(1) by (simp add: ind_same)
  with assms(4) show "hr V P (cache_modify dev (unat b) 0 IndirectBlock f) (\<lambda>r V'. V' = V \<and> Q r)"
    by (intro hoare_modify_ind [OF assms(1-3)]) (auto elim!: hoare_conseq)
qed

lemma push_subs_ok:
  assumes "\<forall>e\<in>set es. unat e < nblk \<and> unat e \<notin> P" and "card P < BLOCK_CACHE_SIZE"
  shows "hr V P (push_subs dev es v) (\<lambda>r V'. V' = V \<and> r = v @ concat (map (\<lambda>e. e # ind V e) es))"
  using assms(1)
proof (induction es arbitrary: v)
  case Nil
  then show ?case by simp
next
  case (Cons e es)
  then have e: "unat e < nblk" "unat e \<notin> P" by auto
  have m: "hr V P (cache_modify dev (unat e) 0 IndirectBlock (\<lambda>i1. ret (v @ [e] @ i1, i1)))
      (\<lambda>r V'. V' = V \<and> r = v @ [e] @ ind V e)"
    by (rule hoare_modify_ind_same [OF e assms(2)]) simp
  have "hr V P (push_subs dev es (v @ [e] @ ind V e)) (\<lambda>r V'. V' = V \<and> r = v @ concat (map (\<lambda>e. e # ind V e) (e # es)))"
    using Cons.IH [of "v @ [e] @ ind V e"] Cons.prems by simp
  then show ?case unfolding push_subs.simps by (intro hoare_bind [OF m]) auto
qed

lemma clear_indirect2_ok:
  assumes "unat i2b < nblk" "unat i2b \<notin> P" "card P + 1 < BLOCK_CACHE_SIZE" and "n \<le> 16384"
    and subs: "\<forall>e\<in>set (take (subs n) (ind V i2b)). unat e < nblk \<and> unat e \<notin> P \<and> e \<noteq> i2b"
  shows "hr V P (cache_modify dev (unat i2b) 0 IndirectBlock (\<lambda>i2.
      bind (push_subs dev (take (n div 128) i2) v) (\<lambda>v.
      if n mod 128 > 0 then
        bind (lift (index_res i2 (n div 128))) (\<lambda>e.
        bind (cache_modify dev (unat e) 0 IndirectBlock (\<lambda>i1. ret (v @ [e] @ take (n mod 128) i1, i1))) (\<lambda>v.
        ret (v, i2)))
      else ret (v, i2))))
    (\<lambda>r V'. V' = V \<and> mset r = mset v + mset (take (subs n) (ind V i2b)) + mset (map (ind2 V (ind V i2b)) [0..<n]))"
proof (rule hoare_modify_ind_same [OF assms(1,2)])
  let ?i2 = "ind V i2b" and ?a = "n div 128" and ?b = "n mod 128" and ?P = "insert (unat i2b) P"
  have cP: "card ?P < BLOCK_CACHE_SIZE" using assms(3) card_insert_le_m1 [of "card P + 1" P "unat i2b"] by simp
  show "card P < BLOCK_CACHE_SIZE" using assms(3) by simp
  have a: "?a \<le> subs n" "?b > 0 \<Longrightarrow> ?a < subs n" "subs n \<le> 128" "?a \<le> 128" "?b > 0 \<Longrightarrow> ?a < 128"
    using assms(4) subs_div [of n] by (auto simp: subs_def)
  have es: "\<forall>e\<in>set (take (subs n) ?i2). unat e < nblk \<and> unat e \<notin> ?P"
    using subs by (auto simp flip: word_unat_eq_iff)
  then have full: "\<forall>e\<in>set (take ?a ?i2). unat e < nblk \<and> unat e \<notin> ?P"
    using set_take_subset_set_take [OF a(1), of ?i2] by blast
  let ?v1 = "v @ concat (map (\<lambda>e. e # ind V e) (take ?a ?i2))"
  have parts: "map (ind2 V ?i2) [0..<n] = concat (map (ind V) (take ?a ?i2)) @ take ?b (ind V (?i2 ! ?a))"
    using map_ind2_parts [of ?a ?i2 ?b V, unfolded div_mult_mod_eq] a(4,5) by (cases "?b = 0") simp_all
  show "hr V ?P (bind (push_subs dev (take ?a ?i2) v) (\<lambda>v.
      if ?b > 0 then bind (lift (index_res ?i2 ?a)) (\<lambda>e.
        bind (cache_modify dev (unat e) 0 IndirectBlock (\<lambda>i1. ret (v @ [e] @ take ?b i1, i1))) (\<lambda>v. ret (v, ?i2)))
      else ret (v, ?i2)))
    (\<lambda>r V'. snd r = ?i2 \<and> V' = V \<and> mset (fst r) = mset v + mset (take (subs n) ?i2) + mset (map (ind2 V ?i2) [0..<n]))"
  proof (rule hoare_bind [OF push_subs_ok [OF full cP]])
    fix r V' assume r: "V' = V \<and> r = ?v1"
    show "hr V' ?P (if ?b > 0 then bind (lift (index_res ?i2 ?a)) (\<lambda>e.
        bind (cache_modify dev (unat e) 0 IndirectBlock (\<lambda>i1. ret (r @ [e] @ take ?b i1, i1))) (\<lambda>v. ret (v, ?i2)))
      else ret (r, ?i2))
     (\<lambda>r V'. snd r = ?i2 \<and> V' = V \<and> mset (fst r) = mset v + mset (take (subs n) ?i2) + mset (map (ind2 V ?i2) [0..<n]))"
    proof (cases "?b = 0")
      case True
      then have "subs n = ?a" by (simp add: subs_div)
      with True r parts show ?thesis by (simp add: mset_concat_Cons)
    next
      case False
      then have sn: "subs n = Suc ?a" by (simp add: subs_div)
      let ?e = "?i2 ! ?a"
      have e: "?e \<in> set (take (subs n) ?i2)" using a(2,5) False by (auto simp: in_set_conv_nth)
      have "hr V ?P (cache_modify dev (unat ?e) 0 IndirectBlock (\<lambda>i1. ret (?v1 @ [?e] @ take ?b i1, i1)))
          (\<lambda>r V'. V' = V \<and> r = ?v1 @ [?e] @ take ?b (ind V ?e))"
        by (rule hoare_modify_ind_same) (use es e cP in auto)
      moreover have "mset (take (subs n) ?i2) = mset (take ?a ?i2) + {#?e#}"
        using sn a(5) False by (simp add: take_Suc_conv_app_nth)
      ultimately show ?thesis
        using False r parts a(5) by (auto simp: index_res_def mset_concat_Cons intro!: hoare_bind)
    qed
  qed
qed

lemma clear_size_ok:
  assumes ok: "inode_ok nblk P V di" and cP: "card P + 1 < BLOCK_CACHE_SIZE"
  shows "hr V P (clear_size dev di) (\<lambda>r V'. V' = V \<and> mset (fst r) = mset (inode_blocks V di) \<and>
    di_size (snd r) = 0 \<and> di_type (snd r) = di_type di \<and> length (direct (snd r)) = INODE_DIRECT_COUNT)"
proof -
  let ?n = "inode_nblocks di"
  have l28: "length (direct di) = INODE_DIRECT_COUNT" and nb: "?n \<le> INDIRECT2_BOUND" using ok by (auto simp: inode_ok_def)
  have n: "unat (data_blocks di) = ?n" using inode_nblocks_eq [OF nb] .
  have rng: "\<forall>b\<in>set (metas V di ?n). unat b < nblk \<and> unat b \<notin> P" and dist: "distinct (metas V di ?n)"
    using ok by (auto simp: inode_ok_def inode_blocks_def)
  obtain dir where dir: "drain_slots [0..<min ?n INODE_DIRECT_COUNT] (direct di) [] =
      Ok (dir, take (min ?n INODE_DIRECT_COUNT) (direct di))" "length dir = INODE_DIRECT_COUNT"
    using drain_slots_ok [of "[0..<min ?n INODE_DIRECT_COUNT]" "direct di" "[]"] l28 by (auto simp: map_nth_prefix)
  let ?v0 = "take (min ?n INODE_DIRECT_COUNT) (direct di)" and ?di = "di\<lparr>di_size := 0, direct := dir\<rparr>"
  have d0: "datas V di (min ?n INODE_DIRECT_COUNT) = ?v0"
    using l28 by (auto simp: datas_def gbid_def map_nth_prefix [symmetric] intro!: map_cong)
  show ?thesis
  proof (cases "?n \<le> INODE_DIRECT_COUNT")
    case True
    then have "inode_blocks V di = ?v0" using d0 by (simp add: inode_blocks_def metas_def min_def)
    with True dir show ?thesis by (simp add: clear_size_def n)
  next
    case n28: False
    let ?i1 = "indirect1 di" and ?k = "min (?n - INODE_DIRECT_COUNT) INODE_INDIRECT1_COUNT"
    let ?v1 = "?v0 @ [?i1] @ take ?k (ind V ?i1)"
    have m28: "min ?n INODE_DIRECT_COUNT = INODE_DIRECT_COUNT" using n28 by simp
    have i1: "unat ?i1 < nblk" "unat ?i1 \<notin> P" "card P < BLOCK_CACHE_SIZE" using rng n28 cP by (auto simp: metas_def)
    have m1: "hr V P (cache_modify dev (unat ?i1) 0 IndirectBlock (\<lambda>i1.
        bind (lift (push_slots [0..<?k] i1 (?v0 @ [?i1]))) (\<lambda>v. ret (v, i1)))) (\<lambda>r V'. V' = V \<and> r = ?v1)"
      by (rule hoare_modify_ind_same [OF i1]) (simp add: push_slots_ok map_nth_prefix)
    show ?thesis
    proof (cases "?n \<le> INDIRECT1_BOUND")
      case True
      have "datas V di ?n = ?v0 @ take ?k (ind V ?i1)"
        using n28 True l28 unfolding datas_def
        by (intro nth_equalityI) (auto simp: gbid_def nth_append min_def)
      then have "mset (inode_blocks V di) = mset ?v1" using n28 True by (simp add: inode_blocks_def metas_def)
      moreover have "?k = ?n - INODE_DIRECT_COUNT" using True by simp
      ultimately show ?thesis using n28 True dir
        by (auto simp: clear_size_def n Let_def intro!: hoare_bind [OF m1 [unfolded m28 \<open>?k = _\<close>]])
    next
      case False
      let ?i2 = "indirect2 di" and ?m = "?n - INDIRECT1_BOUND"
      have i2: "unat ?i2 < nblk" "unat ?i2 \<notin> P" "?m \<le> 16384"
        "\<forall>e\<in>set (take (subs ?m) (ind V ?i2)). unat e < nblk \<and> unat e \<notin> P \<and> e \<noteq> ?i2"
        using rng dist False nb by (auto simp: metas_def)
      have "datas V di ?n = (?v0 @ ind V ?i1) @ map (ind2 V (ind V ?i2)) [0..<?m]"
        using False l28 unfolding datas_def
        by (intro nth_equalityI) (auto simp: gbid_def nth_append min_def)
      then have "mset (inode_blocks V di) = mset (?v1 @ [?i2]) + mset (take (subs ?m) (ind V ?i2)) + mset (map (ind2 V (ind V ?i2)) [0..<?m])"
        using False by (simp add: inode_blocks_def metas_def min_def)
      moreover have "?k = INODE_INDIRECT1_COUNT" using False by simp
      ultimately show ?thesis using False dir i2(3)
        by (auto simp: clear_size_def n Let_def intro!: hoare_bind [OF m1 [unfolded m28 \<open>?k = _\<close>]] hoare_bind [OF clear_indirect2_ok [OF i2(1,2) cP i2(3,4)]])
    qed
  qed
qed

end

section \<open>Contents\<close>

lemma length_concat_blocks: "(\<forall>b\<in>set bs. length (V (unat b)) = BLOCK_SZ) \<Longrightarrow>
    length (concat (map (\<lambda>b. V (unat b)) bs)) = length bs * BLOCK_SZ"
  by (induction bs) simp_all

lemma nth_concat_blocks:
  "(\<forall>b\<in>set bs. length (V (unat b)) = BLOCK_SZ) \<Longrightarrow> i < length bs * BLOCK_SZ \<Longrightarrow>
   concat (map (\<lambda>b. V (unat b)) bs) ! i = V (unat (bs ! (i div BLOCK_SZ))) ! (i mod BLOCK_SZ)"
proof (induction bs arbitrary: i)
  case Nil
  then show ?case by simp
next
  case (Cons b bs)
  show ?case
  proof (cases "i < BLOCK_SZ")
    case True
    then show ?thesis using Cons.prems by (simp add: nth_append)
  next
    case False
    then have "i div BLOCK_SZ = Suc ((i - BLOCK_SZ) div BLOCK_SZ)" "i mod BLOCK_SZ = (i - BLOCK_SZ) mod BLOCK_SZ"
      by (simp_all add: le_div_geq le_mod_geq)
    then show ?thesis using False Cons.IH [of "i - BLOCK_SZ"] Cons.prems by (simp add: nth_append)
  qed
qed

lemma size_le_blocks: "s \<le> nblocks s * BLOCK_SZ"
proof -
  have "s + 511 < (s + 511) div BLOCK_SZ * BLOCK_SZ + BLOCK_SZ" using dividend_less_div_times [of BLOCK_SZ "s + 511"] by simp
  then show ?thesis by (simp add: nblocks_def)
qed

lemma block_in_range: "i < s \<Longrightarrow> i div BLOCK_SZ < nblocks s"
  using size_le_blocks [of s] by (intro less_mult_imp_div_less) simp

lemma length_datas [simp]: "length (datas V di n) = n"
  by (simp add: datas_def)

lemma length_inode_content: "blocks_full V di \<Longrightarrow> length (inode_content V di) = unat (di_size di)"
  using size_le_blocks [of "unat (di_size di)"] length_concat_blocks [of "datas V di (inode_nblocks di)" V]
  by (simp add: inode_content_def blocks_full_def inode_nblocks_def)

lemma inode_blocks_count:
  assumes "inode_ok nblk P V di"
  shows "length (inode_blocks V di) = tblocks (inode_nblocks di)"
  using assms by (auto simp: inode_ok_def inode_blocks_def metas_def tblocks_def subs_def)

lemma length_inode_blocks:
  assumes "inode_ok nblk P V di"
  shows "length (inode_blocks V di) = unat (total_blocks (di_size di))"
proof -
  have "inode_nblocks di \<le> INDIRECT2_BOUND" using assms by (simp add: inode_ok_def)
  then show ?thesis using total_blocks_exact [OF nblocks_small] inode_blocks_count [OF assms] by (simp add: inode_nblocks_def)
qed

lemma nth_inode_content:
  assumes "blocks_full V di" and "i < unat (di_size di)"
  shows "inode_content V di ! i = V (unat (gbid V di (i div BLOCK_SZ))) ! (i mod BLOCK_SZ)"
proof -
  have "i < inode_nblocks di * BLOCK_SZ" using size_le_blocks [of "unat (di_size di)"] assms(2) by (simp add: inode_nblocks_def)
  then show ?thesis
    using assms block_in_range [OF assms(2)] nth_concat_blocks [of "datas V di (inode_nblocks di)" V i]
    by (simp add: inode_content_def blocks_full_def datas_def inode_nblocks_def)
qed

lemma div_mod_within: "start mod BLOCK_SZ + k \<le> BLOCK_SZ \<Longrightarrow> j < k \<Longrightarrow>
    (start + j) div BLOCK_SZ = start div BLOCK_SZ \<and> (start + j) mod BLOCK_SZ = start mod BLOCK_SZ + j"
proof -
  assume "start mod BLOCK_SZ + k \<le> BLOCK_SZ" "j < k"
  then have lt: "start mod BLOCK_SZ + j < BLOCK_SZ" by simp
  have "start + j = start div BLOCK_SZ * BLOCK_SZ + (start mod BLOCK_SZ + j)" by simp
  with lt show ?thesis by (metis div_mult_self3 mod_mult_self3 div_less mod_less add_0_right zero_neq_numeral)
qed

text \<open>The part of \<open>[start, fin)\<close> in the first block.\<close>

lemma chunk_bounds:
  assumes "start < fin" and "ec = min ((start div BLOCK_SZ + 1) * BLOCK_SZ) fin" and "k = ec - start"
  shows "start < ec" "ec \<le> fin" "start mod BLOCK_SZ + k \<le> BLOCK_SZ" "0 < k" "start + k = ec"
    "ec \<noteq> fin \<Longrightarrow> ec div BLOCK_SZ = start div BLOCK_SZ + 1"
proof -
  have st: "start = start div BLOCK_SZ * BLOCK_SZ + start mod BLOCK_SZ" "start mod BLOCK_SZ < BLOCK_SZ" by simp_all
  have le: "ec \<le> start div BLOCK_SZ * BLOCK_SZ + BLOCK_SZ" and "ec \<le> fin" by (simp_all add: assms(2))
  then show "ec \<le> fin" by simp
  show "start < ec" using assms(1) st by (simp add: assms(2))
  then show "start + k = ec" "0 < k" by (simp_all add: assms(3))
  with le st show "start mod BLOCK_SZ + k \<le> BLOCK_SZ" by linarith
  assume "ec \<noteq> fin"
  then have "ec = (start div BLOCK_SZ + 1) * BLOCK_SZ" using assms(2) by (simp add: min_def split: if_splits)
  then show "ec div BLOCK_SZ = start div BLOCK_SZ + 1" by simp
qed

lemma content_slice:
  assumes "blocks_full V di" and "start + k \<le> unat (di_size di)" and "start mod BLOCK_SZ + k \<le> BLOCK_SZ" and "0 < k"
  shows "take k (drop start (inode_content V di)) =
    take k (drop (start mod BLOCK_SZ) (V (unat (gbid V di (start div BLOCK_SZ)))))"
proof -
  have "start div BLOCK_SZ < inode_nblocks di" using block_in_range [of start] assms by (simp add: inode_nblocks_def)
  then have len: "length (V (unat (gbid V di (start div BLOCK_SZ)))) = BLOCK_SZ" using assms(1) by (simp add: blocks_full_def datas_def)
  show ?thesis
  proof (rule nth_equalityI)
  show "length (take k (drop start (inode_content V di))) =
      length (take k (drop (start mod BLOCK_SZ) (V (unat (gbid V di (start div BLOCK_SZ))))))"
    using len assms length_inode_content [OF assms(1)] by simp
next
  fix j assume "j < length (take k (drop start (inode_content V di)))"
  then have "j < k" by simp
  with assms div_mod_within [OF assms(3)] nth_inode_content [OF assms(1), of "start + j"]
  show "take k (drop start (inode_content V di)) ! j =
      take k (drop (start mod BLOCK_SZ) (V (unat (gbid V di (start div BLOCK_SZ))))) ! j"
    using len length_inode_content [OF assms(1)] by (simp add: nth_drop)
  qed
qed

lemma overwrite_append:
  assumes "lo + length xs + length ys \<le> length zs"
  shows "overwrite (overwrite zs lo xs) (lo + length xs) ys = overwrite zs lo (xs @ ys)"
  using assms by (simp add: overwrite_def ac_simps)

context block_device
begin

lemma hoare_blocks_full:
  assumes "inode_ok nblk P V di" and "blocks_full V di \<Longrightarrow> hr V P' m Q"
  shows "hr V P' m Q"
  by (rule hoare_len, rule assms(2)) (use assms(1) in \<open>auto simp: blocks_full_def inode_ok_def inode_blocks_def\<close>)

lemma inode_get_block_id:
  assumes "inode_ok nblk P V di" and "i < inode_nblocks di" and "card P < BLOCK_CACHE_SIZE"
  shows "hr V P (get_block_id dev di (of_nat i)) (\<lambda>r V'. r = gbid V di i \<and> V' = V)"
    and "unat (gbid V di i) < nblk" and "unat (gbid V di i) \<notin> P"
  using assms get_block_id_ok [OF _ assms(2), where V = V and P = P]
  by (auto simp: inode_ok_def inode_blocks_def datas_def)

lemma read_loop_ok:
  assumes ok: "inode_ok nblk P V di" and full: "blocks_full V di" and cP: "card P < BLOCK_CACHE_SIZE"
  shows "start < fin \<Longrightarrow> fin \<le> unat (di_size di) \<Longrightarrow> sb = start div BLOCK_SZ \<Longrightarrow> rs + (fin - start) \<le> length buf \<Longrightarrow>
    hr V P (read_loop dev di start sb fin buf rs)
      (\<lambda>r V'. V' = V \<and> r = (rs + (fin - start), overwrite buf rs (take (fin - start) (drop start (inode_content V di)))))"
proof (induction "fin - start" arbitrary: start sb rs buf rule: less_induct)
  case less
  define ec where "ec = min ((start div BLOCK_SZ + 1) * BLOCK_SZ) fin"
  define k where "k = ec - start"
  let ?b = "gbid V di (start div BLOCK_SZ)"
  let ?src = "take k (drop (start mod BLOCK_SZ) (V (unat ?b)))"
  note ec = chunk_bounds [OF less.prems(1) ec_def k_def]
  have bi: "start div BLOCK_SZ < inode_nblocks di"
    using block_in_range [of start "unat (di_size di)"] less.prems(1,2) by (simp add: inode_nblocks_def)
  note g = inode_get_block_id [OF ok bi cP]
  have lb: "length (V (unat ?b)) = BLOCK_SZ" using full bi by (simp add: blocks_full_def datas_def)
  have src: "?src = take k (drop start (inode_content V di))"
    using content_slice [OF full, of start k] ec less.prems(2) by simp
  have lsrc: "length ?src = k" using lb ec by simp
  have buf: "rs + k \<le> length buf" using less.prems(4) ec by simp
  have rd: "hr V P (cache_read dev (unat ?b) 0 DataBlock (\<lambda>db.
      bind (lift (slice_res db (start mod BLOCK_SZ) (start mod BLOCK_SZ + k))) (\<lambda>src. lift (copy_slice_res buf rs (rs + k) src))))
      (\<lambda>r V'. r = overwrite buf rs ?src \<and> V' = V)"
    by (rule hoare_cache_read [OF g(2,3) cP, where t = "V (unat ?b)"])
      (use lb ec buf lsrc in \<open>simp_all add: slice_res_def copy_slice_res_def\<close>)
  have rest: "hr V P (if ec = fin then ret (rs + k, overwrite buf rs ?src)
      else read_loop dev di ec (sb + 1) fin (overwrite buf rs ?src) (rs + k))
      (\<lambda>r V'. V' = V \<and> r = (rs + (fin - start), overwrite buf rs (take (fin - start) (drop start (inode_content V di)))))"
  proof (cases "ec = fin")
    case True
    then show ?thesis using src by (simp add: k_def)
  next
    case False
    then have "sb + 1 = ec div BLOCK_SZ" using less.prems(3) ec(6) by simp
    moreover have "fin - start = k + (fin - ec)" using ec by simp
    then have "take (fin - start) (drop start (inode_content V di)) = ?src @ take (fin - ec) (drop ec (inode_content V di))"
      unfolding src ec(5) [symmetric] by (simp only: take_add drop_drop add.commute [of k start])
    moreover have "hr V P (read_loop dev di ec (sb + 1) fin (overwrite buf rs ?src) (rs + k))
      (\<lambda>r V'. V' = V \<and> r = (rs + k + (fin - ec), overwrite (overwrite buf rs ?src) (rs + k) (take (fin - ec) (drop ec (inode_content V di)))))"
    proof (rule less.hyps)
      show "fin - ec < fin - start" "ec < fin" "fin \<le> unat (di_size di)" using less.prems(1,2) ec False by linarith+
      show "sb + 1 = ec div BLOCK_SZ" by fact
      show "rs + k + (fin - ec) \<le> length (overwrite buf rs ?src)" using less.prems(4) ec buf lsrc by simp
    qed
    moreover have "overwrite (overwrite buf rs ?src) (rs + k) (take (fin - ec) (drop ec (inode_content V di))) =
        overwrite buf rs (?src @ take (fin - ec) (drop ec (inode_content V di)))"
      using overwrite_append [of rs ?src "take (fin - ec) (drop ec (inode_content V di))" buf]
        less.prems(2,4) ec length_inode_content [OF full] lsrc by simp
    ultimately show ?thesis using False ec by (simp add: k_def)
  qed
  have sl: "slice_res buf rs (rs + k) = Ok (take k (drop rs buf))" using buf by (simp add: slice_res_def)
  have "read_loop dev di start sb fin buf rs =
      bind (get_block_id dev di (of_nat (start div BLOCK_SZ))) (\<lambda>bid.
      bind (cache_read dev (unat bid) 0 DataBlock (\<lambda>db.
        bind (lift (slice_res db (start mod BLOCK_SZ) (start mod BLOCK_SZ + k))) (\<lambda>src. lift (copy_slice_res buf rs (rs + k) src)))) (\<lambda>buf.
      if ec = fin then ret (rs + k, buf) else read_loop dev di ec (sb + 1) fin buf (rs + k)))"
    unfolding less.prems(3)
    by (subst read_loop.simps) (simp only: Let_def ec_def [symmetric] k_def [symmetric] sl lift_Ok bind_ret)
  moreover have "hr V P \<dots> (\<lambda>r V'. V' = V \<and> r = (rs + (fin - start), overwrite buf rs (take (fin - start) (drop start (inode_content V di)))))"
    by (rule hoare_bind [OF g(1)], elim conjE, simp only:, rule hoare_bind [OF rd], elim conjE, simp only:, rule rest)
  ultimately show ?case by simp
qed

lemma read_at_ok:
  assumes ok: "inode_ok nblk P V di" and cP: "card P < BLOCK_CACHE_SIZE" and "offset + length buf < USIZE_LIMIT"
  shows "hr V P (read_at dev di offset buf) (\<lambda>r V'. V' = V \<and>
    (let n = min (length buf) (unat (di_size di) - offset)
     in r = (n, overwrite buf 0 (take n (drop offset (inode_content V di))))))"
proof (rule hoare_blocks_full [OF ok])
  assume full: "blocks_full V di"
  let ?f = "min (offset + length buf) (unat (di_size di))"
  show "hr V P (read_at dev di offset buf) (\<lambda>r V'. V' = V \<and>
    (let n = min (length buf) (unat (di_size di) - offset)
     in r = (n, overwrite buf 0 (take n (drop offset (inode_content V di))))))"
  proof (cases "offset \<ge> ?f")
    case True
    then have "min (length buf) (unat (di_size di) - offset) = 0" by auto
    with True assms(3) show ?thesis by (simp add: read_at_def Let_def)
  next
    case False
    then have n: "?f - offset = min (length buf) (unat (di_size di) - offset)" by auto
    have "hr V P (read_loop dev di offset (offset div BLOCK_SZ) ?f buf 0)
      (\<lambda>r V'. V' = V \<and> r = (0 + (?f - offset), overwrite buf 0 (take (?f - offset) (drop offset (inode_content V di)))))"
      by (rule read_loop_ok [OF ok full cP]) (use False in auto)
    then show ?thesis using False assms(3) by (simp add: read_at_def Let_def n del: min_less_iff_conj)
  qed
qed

end

section \<open>Writing\<close>

lemma write_block_frame:
  assumes ok: "inode_ok nblk P V di" and i: "i < inode_nblocks di" and V': "V' = V(unat (gbid V di i) := x)"
  shows "data_written V di V'"
proof -
  let ?n = "inode_nblocks di"
  have b: "gbid V di i \<in> set (datas V di ?n)" using i by (simp add: datas_def)
  then have m: "\<forall>m\<in>set (metas V di ?n). V' (unat m) = V (unat m)"
    using ok by (auto simp: V' inode_ok_def inode_blocks_def simp flip: word_unat_eq_iff)
  have n: "?n \<le> INDIRECT2_BOUND" using ok by (simp add: inode_ok_def)
  have "\<forall>a. a \<notin> unat ` set (datas V di ?n) \<longrightarrow> V' a = V a" using b by (auto simp: V')
  then show ?thesis using metas_cong [OF m] datas_cong [OF m n] by (simp add: data_written_def)
qed

lemma data_written_ok: "data_written V di V' \<Longrightarrow> inode_ok nblk P V di \<Longrightarrow> inode_ok nblk P V' di"
  by (simp add: data_written_def inode_ok_def inode_blocks_def)

lemma data_written_trans: "data_written V di V' \<Longrightarrow> data_written V' di V'' \<Longrightarrow> data_written V di V''"
  by (simp add: data_written_def)

lemma write_block_content:
  assumes ok: "inode_ok nblk P V di" and full: "blocks_full V di" and sz: "start + length src \<le> unat (di_size di)"
    and fit: "start mod BLOCK_SZ + length src \<le> BLOCK_SZ" and ne: "0 < length src"
    and V': "V' = V(unat (gbid V di (start div BLOCK_SZ)) := overwrite (V (unat (gbid V di (start div BLOCK_SZ)))) (start mod BLOCK_SZ) src)"
  shows "blocks_full V' di" and "inode_content V' di = overwrite (inode_content V di) start src"
proof -
  let ?n = "inode_nblocks di" and ?i = "start div BLOCK_SZ" and ?b = "gbid V di (start div BLOCK_SZ)"
  have "start < unat (di_size di)" using sz ne by linarith
  then have i: "?i < ?n" using block_in_range by (simp add: inode_nblocks_def)
  have lb: "length (V (unat ?b)) = BLOCK_SZ" using full i by (simp add: blocks_full_def datas_def)
  have dw: "data_written V di V'" by (rule write_block_frame [OF ok i V'])
  then show full': "blocks_full V' di"
    using full lb fit by (auto simp: blocks_full_def data_written_def V')
  have g: "gbid V' di j = gbid V di j" if "j < ?n" for j
  proof -
    have "datas V' di ?n ! j = datas V di ?n ! j" using dw by (simp add: data_written_def)
    with that show ?thesis by (simp add: datas_def)
  qed
  have inj: "gbid V di j = ?b \<longleftrightarrow> j = ?i" if "j < ?n" for j
  proof -
    have "distinct (datas V di ?n)" using ok by (simp add: inode_ok_def inode_blocks_def)
    with that i nth_eq_iff_index_eq [of "datas V di ?n" j ?i] show ?thesis by (simp add: datas_def)
  qed
  show "inode_content V' di = overwrite (inode_content V di) start src"
  proof (rule nth_equalityI)
    show "length (inode_content V' di) = length (overwrite (inode_content V di) start src)"
      using sz length_inode_content [OF full] length_inode_content [OF full'] by simp
    fix j assume "j < length (inode_content V' di)"
    then have j: "j < unat (di_size di)" using length_inode_content [OF full'] by simp
    then have jn: "j div BLOCK_SZ < ?n" using block_in_range by (simp add: inode_nblocks_def)
    have lhs: "inode_content V' di ! j = V' (unat (gbid V di (j div BLOCK_SZ))) ! (j mod BLOCK_SZ)"
      using nth_inode_content [OF full' j] g [OF jn] by simp
    have rhs: "overwrite (inode_content V di) start src ! j =
        (if start \<le> j \<and> j < start + length src then src ! (j - start) else V (unat (gbid V di (j div BLOCK_SZ))) ! (j mod BLOCK_SZ))"
      using nth_overwrite [of start src "inode_content V di" j] sz j length_inode_content [OF full] nth_inode_content [OF full j] by simp
    show "inode_content V' di ! j = overwrite (inode_content V di) start src ! j"
    proof (cases "j div BLOCK_SZ = ?i")
      case True
      have "j = ?i * BLOCK_SZ + j mod BLOCK_SZ" "start = ?i * BLOCK_SZ + start mod BLOCK_SZ" using True by (metis div_mult_mod_eq)+
      then have "j - start = j mod BLOCK_SZ - start mod BLOCK_SZ" "start \<le> j \<longleftrightarrow> start mod BLOCK_SZ \<le> j mod BLOCK_SZ"
        "j < start + length src \<longleftrightarrow> j mod BLOCK_SZ < start mod BLOCK_SZ + length src" by linarith+
      then show ?thesis unfolding lhs rhs using True fit lb
        by (simp add: V' nth_overwrite)
    next
      case False
      have "\<not> (start \<le> j \<and> j < start + length src)"
        using False div_mod_within [OF fit, of "j - start"] by (auto simp: less_diff_conv2)
      then show ?thesis unfolding lhs rhs using False inj [OF jn] by (auto simp: V' simp flip: word_unat_eq_iff)
    qed
  qed
qed

context block_device
begin

lemma write_loop_ok:
  assumes cP: "card P < BLOCK_CACHE_SIZE"
  shows "inode_ok nblk P V di \<Longrightarrow> blocks_full V di \<Longrightarrow> start < fin \<Longrightarrow> fin \<le> unat (di_size di) \<Longrightarrow>
    sb = start div BLOCK_SZ \<Longrightarrow> ws + (fin - start) \<le> length buf \<Longrightarrow>
    hr V P (write_loop dev di start sb fin buf ws)
      (\<lambda>r V'. r = ws + (fin - start) \<and> data_written V di V' \<and> blocks_full V' di \<and>
         inode_content V' di = overwrite (inode_content V di) start (take (fin - start) (drop ws buf)))"
proof (induction "fin - start" arbitrary: start sb ws V rule: less_induct)
  case less
  note ok = less.prems(1) and full = less.prems(2)
  define ec where "ec = min ((start div BLOCK_SZ + 1) * BLOCK_SZ) fin"
  define k where "k = ec - start"
  note ec = chunk_bounds [OF less.prems(3) ec_def k_def]
  let ?b = "gbid V di (start div BLOCK_SZ)" and ?src = "take k (drop ws buf)"
  have bi: "start div BLOCK_SZ < inode_nblocks di"
    using block_in_range [of start "unat (di_size di)"] less.prems(3,4) by (simp add: inode_nblocks_def)
  note g = inode_get_block_id [OF ok bi cP]
  have lb: "length (V (unat ?b)) = BLOCK_SZ" using full bi by (simp add: blocks_full_def datas_def)
  have buf: "ws + k \<le> length buf" using less.prems(6) ec by simp
  then have lsrc: "length ?src = k" by simp
  define V1 where "V1 = V(unat ?b := overwrite (V (unat ?b)) (start mod BLOCK_SZ) ?src)"
  have wr: "hr V P (cache_modify dev (unat ?b) 0 DataBlock (\<lambda>db.
      bind (lift (slice_res buf ws (ws + k))) (\<lambda>src.
      bind (lift (copy_slice_res db (start mod BLOCK_SZ) (start mod BLOCK_SZ + k) src)) (\<lambda>db. ret ((), db)))))
      (\<lambda>_ V'. V' = V1)"
    by (rule hoare_cache_modify [OF g(2,3) cP, where t = "V (unat ?b)"])
      (use lb ec buf lsrc in \<open>simp_all add: slice_res_def copy_slice_res_def overwrite_whole V1_def\<close>)
  have V1: "data_written V di V1" by (rule write_block_frame [OF ok bi V1_def])
  have c1: "blocks_full V1 di" "inode_content V1 di = overwrite (inode_content V di) start ?src"
    using write_block_content [OF ok full _ _ _ V1_def] lsrc ec less.prems(4) by simp_all
  let ?post = "\<lambda>r V'. r = ws + (fin - start) \<and> data_written V di V' \<and> blocks_full V' di \<and>
         inode_content V' di = overwrite (inode_content V di) start (take (fin - start) (drop ws buf))"
  have rest: "hr V1 P (if ec = fin then ret (ws + k) else write_loop dev di ec (sb + 1) fin buf (ws + k)) ?post"
  proof (cases "ec = fin")
    case True
    then show ?thesis using V1 c1 by (simp add: k_def)
  next
    case False
    have "hr V1 P (write_loop dev di ec (sb + 1) fin buf (ws + k))
      (\<lambda>r V'. r = ws + k + (fin - ec) \<and> data_written V1 di V' \<and> blocks_full V' di \<and>
         inode_content V' di = overwrite (inode_content V1 di) ec (take (fin - ec) (drop (ws + k) buf)))"
    proof (rule less.hyps)
      show "fin - ec < fin - start" "ec < fin" "fin \<le> unat (di_size di)" using less.prems(3,4) ec False by linarith+
      show "sb + 1 = ec div BLOCK_SZ" using less.prems(5) ec(6) False by simp
      show "ws + k + (fin - ec) \<le> length buf" using less.prems(6) ec by simp
    qed (use V1 c1 ok data_written_ok in auto)
    then show ?thesis unfolding if_not_P [OF False]
    proof (rule hoare_conseq)
      fix r V' assume r: "r = ws + k + (fin - ec) \<and> data_written V1 di V' \<and> blocks_full V' di \<and>
         inode_content V' di = overwrite (inode_content V1 di) ec (take (fin - ec) (drop (ws + k) buf))"
      have fs: "fin - start = k + (fin - ec)" using ec by simp
      then have "take (fin - start) (drop ws buf) = ?src @ take (fin - ec) (drop (ws + k) buf)"
        by (simp only: take_add drop_drop add.commute [of k ws])
      moreover have "overwrite (overwrite (inode_content V di) start ?src) (start + length ?src) (take (fin - ec) (drop (ws + k) buf)) =
          overwrite (inode_content V di) start (?src @ take (fin - ec) (drop (ws + k) buf))"
        by (rule overwrite_append) (use lsrc ec less.prems(4,6) length_inode_content [OF full] in simp)
      ultimately show "?post r V'" using r V1 c1 ec(5) lsrc fs data_written_trans by auto
    qed
  qed
  have "write_loop dev di start sb fin buf ws =
      bind (get_block_id dev di (of_nat (start div BLOCK_SZ))) (\<lambda>bid.
      bind (cache_modify dev (unat bid) 0 DataBlock (\<lambda>db.
        bind (lift (slice_res buf ws (ws + k))) (\<lambda>src.
        bind (lift (copy_slice_res db (start mod BLOCK_SZ) (start mod BLOCK_SZ + k) src)) (\<lambda>db. ret ((), db))))) (\<lambda>_.
      if ec = fin then ret (ws + k) else write_loop dev di ec (sb + 1) fin buf (ws + k)))"
    unfolding less.prems(5)
    by (subst write_loop.simps) (simp only: Let_def ec_def [symmetric] k_def [symmetric])
  moreover have "hr V P \<dots> ?post"
    by (rule hoare_bind [OF g(1)], elim conjE, simp only:, rule hoare_bind [OF wr], simp only:, rule rest)
  ultimately show ?case by simp
qed

lemma write_at_ok:
  assumes ok: "inode_ok nblk P V di" and cP: "card P < BLOCK_CACHE_SIZE" and "offset + length buf < USIZE_LIMIT"
    and "offset < unat (di_size di)" and "buf \<noteq> []"
  shows "hr V P (write_at dev di offset buf) (\<lambda>r V'. r = min (length buf) (unat (di_size di) - offset) \<and>
    data_written V di V' \<and> inode_content V' di = overwrite (inode_content V di) offset (take r buf))"
proof (rule hoare_blocks_full [OF ok])
  assume full: "blocks_full V di"
  let ?f = "min (offset + length buf) (unat (di_size di))"
  have n: "?f - offset = min (length buf) (unat (di_size di) - offset)" using assms(4) by auto
  have lt: "offset < ?f" using assms(4,5) by (simp add: length_greater_0_conv [symmetric] del: length_greater_0_conv)
  have "hr V P (write_loop dev di offset (offset div BLOCK_SZ) ?f buf 0)
      (\<lambda>r V'. r = 0 + (?f - offset) \<and> data_written V di V' \<and> blocks_full V' di \<and>
         inode_content V' di = overwrite (inode_content V di) offset (take (?f - offset) (drop 0 buf)))"
    by (rule write_loop_ok [OF cP ok full lt]) auto
  then have "hr V P (write_loop dev di offset (offset div BLOCK_SZ) ?f buf 0)
      (\<lambda>r V'. r = min (length buf) (unat (di_size di) - offset) \<and>
        data_written V di V' \<and> inode_content V' di = overwrite (inode_content V di) offset (take r buf))"
    by (rule hoare_conseq) (simp add: n)
  then show "hr V P (write_at dev di offset buf) (\<lambda>r V'. r = min (length buf) (unat (di_size di) - offset) \<and>
    data_written V di V' \<and> inode_content V' di = overwrite (inode_content V di) offset (take r buf))"
    using lt assms(3) by (simp add: write_at_def Let_def)
qed

end

section \<open>Properties\<close>

text \<open>\<open>DiskInode::clear_size\<close> of a well-formed inode returns, changes no block, empties the inode,
  and hands back exactly the blocks the inode owned (data, first-level, second-level and
  sub-blocks), each once; their number is \<open>total_blocks\<close> of the old size.\<close>

theorem clear_size_correct:
  assumes "bf_ok nblk w" and "inode_ok nblk (pins w) (bf_view nblk w) di" and "card (pins w) + 1 < BLOCK_CACHE_SIZE"
  shows "runs (clear_size BlockFile di) w (\<lambda>(v, di') w'. bf_view nblk w' = bf_view nblk w \<and>
    mset v = mset (inode_blocks (bf_view nblk w) di) \<and> length v = unat (total_blocks (di_size di)) \<and>
    di_size di' = 0 \<and> inode_blocks (bf_view nblk w') di' = [])"
proof -
  note len = length_inode_blocks [OF assms(2)]
  from bf.hoareD [OF bf.clear_size_ok [OF assms(2,3)] assms(1) refl refl] show ?thesis
  proof (rule runs_mono)
    fix r :: "u32 list \<times> DiskInode" and w' assume r: "bf_ok nblk w' \<and> pins w' = pins w \<and> (\<forall>b\<in>pins w. map_of (queue w') b = map_of (queue w) b) \<and>
       bf_view nblk w' = bf_view nblk w \<and> mset (fst r) = mset (inode_blocks (bf_view nblk w) di) \<and>
       di_size (snd r) = 0 \<and> di_type (snd r) = di_type di \<and> length (direct (snd r)) = INODE_DIRECT_COUNT"
    then have "length (fst r) = unat (total_blocks (di_size di))" by (metis size_mset len)
    with r show "(case r of (v, di') \<Rightarrow> \<lambda>w'. bf_view nblk w' = bf_view nblk w \<and>
      mset v = mset (inode_blocks (bf_view nblk w) di) \<and> length v = unat (total_blocks (di_size di)) \<and>
      di_size di' = 0 \<and> inode_blocks (bf_view nblk w') di' = []) w'"
      by (simp add: split_def inode_blocks_def inode_nblocks_def nblocks_def datas_def metas_def)
  qed
qed

lemma clear_size_correct_witness:
  "runs (clear_size BlockFile sample_inode) (blank 4) (\<lambda>(v, di') w'. bf_view 4 w' = bf_view 4 (blank 4) \<and>
    mset v = mset (inode_blocks (bf_view 4 (blank 4)) sample_inode) \<and>
    length v = unat (total_blocks (di_size sample_inode)) \<and>
    di_size di' = 0 \<and> inode_blocks (bf_view 4 w') di' = [])"
  by (rule clear_size_correct) (use blank_ok [of 4] sample_inode_ok [of 4] in \<open>simp_all add: USIZE_LIMIT_def\<close>)

text \<open>\<open>DiskInode::read_at\<close> of a well-formed inode returns and copies into the buffer exactly the
  bytes of the file from the offset on, as many as the buffer holds and the file has, leaving the
  rest of the buffer and every block unchanged.\<close>

theorem read_at_correct:
  assumes "bf_ok nblk w" and "inode_ok nblk (pins w) (bf_view nblk w) di" and "card (pins w) < BLOCK_CACHE_SIZE"
    and "offset + length buf < USIZE_LIMIT"
  shows "runs (read_at BlockFile di offset buf) w (\<lambda>(n, buf') w'. bf_view nblk w' = bf_view nblk w \<and>
    n = min (length buf) (unat (di_size di) - offset) \<and>
    take n buf' = take n (drop offset (inode_content (bf_view nblk w) di)) \<and> drop n buf' = drop n buf)"
  using bf.hoareD [OF bf.hoare_blocks_full [OF assms(2) bf.read_at_ok [OF assms(2-4)]] assms(1) refl refl]
proof (rule runs_mono)
  have full: "blocks_full (bf_view nblk w) di"
    using assms(1,2) bf.length_view by (auto simp: blocks_full_def inode_ok_def inode_blocks_def)
  let ?n = "min (length buf) (unat (di_size di) - offset)"
  have "length (take ?n (drop offset (inode_content (bf_view nblk w) di))) = ?n"
    using length_inode_content [OF full] by simp
  moreover fix r w'
  assume "bf_ok nblk w' \<and> pins w' = pins w \<and> (\<forall>b\<in>pins w. map_of (queue w') b = map_of (queue w) b) \<and>
     bf_view nblk w' = bf_view nblk w \<and>
     (let n = ?n in r = (n, overwrite buf 0 (take n (drop offset (inode_content (bf_view nblk w) di)))))"
  ultimately show "(case r of (n, buf') \<Rightarrow> \<lambda>w'. bf_view nblk w' = bf_view nblk w \<and> n = ?n \<and>
    take n buf' = take n (drop offset (inode_content (bf_view nblk w) di)) \<and> drop n buf' = drop n buf) w'"
    by (simp add: overwrite_def Let_def)
qed

lemma read_at_correct_witness:
  "runs (read_at BlockFile sample_inode 4 [9, 9, 9]) (blank 4) (\<lambda>(n, buf') w'. bf_view 4 w' = bf_view 4 (blank 4) \<and>
    n = min (length [9, 9, 9 :: u8]) (unat (di_size sample_inode) - 4) \<and>
    take n buf' = take n (drop 4 (inode_content (bf_view 4 (blank 4)) sample_inode)) \<and> drop n buf' = drop n [9, 9, 9])"
  by (rule read_at_correct) (use blank_ok [of 4] sample_inode_ok [of 4] in \<open>simp_all add: USIZE_LIMIT_def\<close>)

text \<open>C17. Writing at an offset inside a file and reading back at the same offset returns the bytes
  written (as many as fit below the file's size), the number of bytes \<open>write_at\<close> reported.\<close>

theorem write_read_roundtrip:
  assumes "bf_ok nblk w" and "inode_ok nblk (pins w) (bf_view nblk w) di" and "card (pins w) < BLOCK_CACHE_SIZE"
    and "offset + length buf < USIZE_LIMIT" and "offset < unat (di_size di)" and "buf \<noteq> []" and "length buf' = length buf"
  shows "runs (bind (write_at BlockFile di offset buf) (\<lambda>n. bind (read_at BlockFile di offset buf') (\<lambda>(m, out).
      ret (n, m, out)))) w (\<lambda>(n, m, out) w'. n = min (length buf) (unat (di_size di) - offset) \<and> m = n \<and>
      take n out = take n buf)"
proof -
  let ?V = "bf_view nblk w" and ?n = "min (length buf) (unat (di_size di) - offset)"
  have full: "blocks_full ?V di"
    using assms(1,2) bf.length_view by (auto simp: blocks_full_def inode_ok_def inode_blocks_def)
  have r: "hoare nblk (blockfile_ok nblk) blockfile_content V' (pins w)
      (bind (read_at BlockFile di offset buf') (\<lambda>(m, out). ret (n, m, out)))
      (\<lambda>r _. case r of (n, m, out) \<Rightarrow> n = ?n \<and> m = n \<and> take n out = take n buf)"
    if n: "n = ?n" and dw: "data_written ?V di V'"
      and c: "inode_content V' di = overwrite (inode_content ?V di) offset (take n buf)" for n V'
  proof (rule bf.hoare_bind [OF bf.read_at_ok])
    show "inode_ok nblk (pins w) V' di" using data_written_ok [OF dw assms(2)] .
    have "take n (drop offset (inode_content V' di)) = take n buf"
      unfolding c using overwrite_window(1) [of offset "take n buf" "inode_content ?V di"]
        length_inode_content [OF full] n assms(5) by (simp add: min_def split: if_splits)
    moreover have "length (take n buf) = n" using n by simp
    moreover fix a V''
    assume "V'' = V' \<and> (let n = min (length buf') (unat (di_size di) - offset)
        in a = (n, overwrite buf' 0 (take n (drop offset (inode_content V' di)))))"
    ultimately show "hoare nblk (blockfile_ok nblk) blockfile_content V'' (pins w) (case a of (m, out) \<Rightarrow> ret (n, m, out))
      (\<lambda>r _. case r of (n, m, out) \<Rightarrow> n = ?n \<and> m = n \<and> take n out = take n buf)"
      using n assms(7) by (auto simp: Let_def overwrite_def intro!: bf.hoare_ret)
  qed (use assms in auto)
  have "hoare nblk (blockfile_ok nblk) blockfile_content ?V (pins w)
      (bind (write_at BlockFile di offset buf) (\<lambda>n. bind (read_at BlockFile di offset buf') (\<lambda>(m, out). ret (n, m, out))))
      (\<lambda>r _. case r of (n, m, out) \<Rightarrow> n = ?n \<and> m = n \<and> take n out = take n buf)"
    by (rule bf.hoare_bind [OF bf.write_at_ok [OF assms(2-6)]], elim conjE, rule r) simp_all
  from bf.hoareD [OF this assms(1) refl refl] show ?thesis by (rule runs_mono) auto
qed

lemma write_read_roundtrip_witness:
  "runs (bind (write_at BlockFile sample_inode 4 [7, 8]) (\<lambda>n. bind (read_at BlockFile sample_inode 4 [0, 0]) (\<lambda>(m, out).
      ret (n, m, out)))) (blank 4) (\<lambda>(n, m, out) w'. n = min (length [7, 8 :: u8]) (unat (di_size sample_inode) - 4) \<and>
      m = n \<and> take n out = take n [7, 8])"
  by (rule write_read_roundtrip [where nblk = 4])
    (use blank_ok [of 4] sample_inode_ok [of 4] in \<open>simp_all add: USIZE_LIMIT_def sample_inode_def\<close>)

end
