(* ===== verification/Efs.thy ===== *)
theory Efs
  imports InodeData
begin

text \<open>
  The file system object (src/easy-fs/src/efs.rs): its creation on a device, its reopening, the
  position of an inode and the allocation of inodes and data blocks.  \<open>block_device\<close> is the argument
  \<open>dev\<close>; the other fields never change after construction, so an \<open>Arc<Mutex<EasyFileSystem>>\<close> is
  its value (every operation of src/easy-fs/src/vfs.rs locks it once, at its start).

  \<open>efs_inv\<close> is the invariant of a file system: its areas are disjoint and fit the device, every
  allocated inode is well-formed with its blocks in the data area, distinct inodes own distinct
  blocks, and the data bitmap marks exactly the owned blocks.
\<close>

section \<open>Model\<close>

record EasyFileSystem =
  inode_bitmap :: Bitmap
  data_bitmap :: Bitmap
  inode_area_start_block :: u32
  data_area_start_block :: u32

definition get_disk_inode_pos :: "EasyFileSystem \<Rightarrow> u32 \<Rightarrow> u32 \<times> usize" where
  "get_disk_inode_pos efs inode_id =
     (let inode_size = size_of DiskInode_layout;
          inodes_per_block = (of_nat (BLOCK_SZ div inode_size) :: u32)
      in (inode_area_start_block efs + inode_id div inodes_per_block,
          unat (inode_id mod inodes_per_block) * inode_size))"

definition get_data_block_id :: "EasyFileSystem \<Rightarrow> u32 \<Rightarrow> u32" where
  "get_data_block_id efs data_block_id = data_area_start_block efs + data_block_id"

definition alloc_inode :: "'d BlockDevice \<Rightarrow> EasyFileSystem \<Rightarrow> ('d world, u32) cmd" where
  "alloc_inode dev efs = bind (bitmap_alloc dev (inode_bitmap efs)) (\<lambda>r. bind (lift (unwrap r)) (\<lambda>i. ret (of_nat i)))"

definition alloc_data :: "'d BlockDevice \<Rightarrow> EasyFileSystem \<Rightarrow> ('d world, u32) cmd" where
  "alloc_data dev efs =
     bind (bitmap_alloc dev (data_bitmap efs)) (\<lambda>r. bind (lift (unwrap r)) (\<lambda>i.
     ret (of_nat i + data_area_start_block efs)))"

definition dealloc_data :: "'d BlockDevice \<Rightarrow> EasyFileSystem \<Rightarrow> u32 \<Rightarrow> ('d world, unit) cmd" where
  "dealloc_data dev efs bid =
     bind (cache_modify dev (unat bid) 0 DataBlock (\<lambda>data_block. ret ((), map (\<lambda>_. 0) data_block))) (\<lambda>_.
     bitmap_dealloc dev (data_bitmap efs) (unat (bid - data_area_start_block efs)))"

definition efs_layout :: "u32 \<Rightarrow> u32 \<Rightarrow> EasyFileSystem \<times> u32 \<times> u32 \<times> u32" where
  "efs_layout tot ibb =
     (let ibm = bitmap_new 1 (unat ibb);
          inode_num = bitmap_maximum ibm;
          iab = of_nat ((inode_num * size_of DiskInode_layout + BLOCK_SZ - 1) div BLOCK_SZ);
          inode_total_blocks = ibb + iab;
          data_total_blocks = tot - 1 - inode_total_blocks;
          dbb = (data_total_blocks + 4096) div 4097;
          dab = data_total_blocks - dbb;
          dbm = bitmap_new (unat (1 + ibb + iab)) (unat dbb)
      in (\<lparr>inode_bitmap = ibm, data_bitmap = dbm, inode_area_start_block = 1 + ibb,
           data_area_start_block = 1 + inode_total_blocks + dbb\<rparr>, iab, dbb, dab))"

definition clear_all_blocks :: "'d BlockDevice \<Rightarrow> u32 \<Rightarrow> ('d world, unit) cmd" where
  "clear_all_blocks dev tot =
     for_each [0..<unat tot] (\<lambda>i.
       cache_modify dev i 0 DataBlock (\<lambda>data_block. ret ((), map (\<lambda>_. 0) data_block)))"

definition efs_create :: "'d BlockDevice \<Rightarrow> u32 \<Rightarrow> u32 \<Rightarrow> ('d world, EasyFileSystem) cmd" where
  "efs_create dev tot ibb =
     (case efs_layout tot ibb of (efs, iab, dbb, dab) \<Rightarrow>
      bind (clear_all_blocks dev tot) (\<lambda>_.
      bind (cache_modify dev 0 0 SuperBlock_layout (\<lambda>super_block.
        ret ((), superblock_initialize super_block tot ibb iab dbb dab))) (\<lambda>_.
      bind (alloc_inode dev efs) (\<lambda>root.
      bind (assert_cmd (root = 0)) (\<lambda>_.
      case get_disk_inode_pos efs 0 of (root_inode_block_id, root_inode_offset) \<Rightarrow>
      bind (cache_modify dev (unat root_inode_block_id) root_inode_offset DiskInode_layout (\<lambda>disk_inode.
        ret ((), inode_initialize disk_inode Directory))) (\<lambda>_.
      bind (block_cache_sync_all dev) (\<lambda>_. ret efs)))))))"

definition efs_open :: "'d BlockDevice \<Rightarrow> ('d world, EasyFileSystem) cmd" where
  "efs_open dev =
     cache_read dev 0 0 SuperBlock_layout (\<lambda>super_block.
       bind (assert_cmd (superblock_is_valid super_block)) (\<lambda>_.
       let inode_total_blocks = inode_bitmap_blocks super_block + inode_area_blocks super_block in
       ret \<lparr>inode_bitmap = bitmap_new 1 (unat (inode_bitmap_blocks super_block)),
            data_bitmap = bitmap_new (unat (1 + inode_total_blocks)) (unat (data_bitmap_blocks super_block)),
            inode_area_start_block = 1 + inode_bitmap_blocks super_block,
            data_area_start_block = 1 + inode_total_blocks + data_bitmap_blocks super_block\<rparr>))"

section \<open>The invariant\<close>

text \<open>The areas, in order: super block, inode bitmap, inodes (four to a block), data bitmap, data.\<close>

definition efs_geom :: "nat \<Rightarrow> EasyFileSystem \<Rightarrow> bool" where
  "efs_geom nblk efs \<longleftrightarrow>
     start_block_id (inode_bitmap efs) = 1 \<and> 0 < bm_blocks (inode_bitmap efs) \<and>
     unat (inode_area_start_block efs) = 1 + bm_blocks (inode_bitmap efs) \<and>
     start_block_id (data_bitmap efs) = unat (inode_area_start_block efs) + bm_blocks (inode_bitmap efs) * 1024 \<and>
     unat (data_area_start_block efs) = start_block_id (data_bitmap efs) + bm_blocks (data_bitmap efs) \<and>
     unat (data_area_start_block efs) \<le> nblk \<and> nblk < 2 ^ 32 \<and> bitmap_maximum (inode_bitmap efs) < 2 ^ 32 \<and> nblk * BLOCK_BITS \<le> USIZE_LIMIT \<and>
     nblk - unat (data_area_start_block efs) \<le> bitmap_maximum (data_bitmap efs)"

definition inode_block :: "EasyFileSystem \<Rightarrow> nat \<Rightarrow> usize" where
  "inode_block efs i = unat (inode_area_start_block efs) + i div 4"

definition inode_offset :: "nat \<Rightarrow> usize" where
  "inode_offset i = (i mod 4) * 128"

definition inode_bytes :: "EasyFileSystem \<Rightarrow> (usize \<Rightarrow> bytes) \<Rightarrow> nat \<Rightarrow> bytes" where
  "inode_bytes efs V i = take 128 (drop (inode_offset i) (V (inode_block efs i)))"

definition disk_inode :: "EasyFileSystem \<Rightarrow> (usize \<Rightarrow> bytes) \<Rightarrow> nat \<Rightarrow> DiskInode option" where
  "disk_inode efs V i = from_bytes DiskInode_layout (inode_bytes efs V i)"

abbreviation inode_max :: "EasyFileSystem \<Rightarrow> nat" where
  "inode_max efs \<equiv> bitmap_maximum (inode_bitmap efs)"

abbreviation data_start :: "EasyFileSystem \<Rightarrow> nat" where
  "data_start efs \<equiv> unat (data_area_start_block efs)"

definition live :: "EasyFileSystem \<Rightarrow> (usize \<Rightarrow> bytes) \<Rightarrow> nat \<Rightarrow> bool" where
  "live efs V i \<longleftrightarrow> i < inode_max efs \<and> bm_test V (inode_bitmap efs) i"

definition the_inode :: "EasyFileSystem \<Rightarrow> (usize \<Rightarrow> bytes) \<Rightarrow> nat \<Rightarrow> DiskInode" where
  "the_inode efs V i = the (disk_inode efs V i)"

definition owned :: "EasyFileSystem \<Rightarrow> (usize \<Rightarrow> bytes) \<Rightarrow> nat \<Rightarrow> u32 set" where
  "owned efs V i = set (inode_blocks V (the_inode efs V i))"

definition data_used :: "EasyFileSystem \<Rightarrow> (usize \<Rightarrow> bytes) \<Rightarrow> u32 set" where
  "data_used efs V = {b. data_start efs \<le> unat b \<and> bm_test V (data_bitmap efs) (unat b - data_start efs)}"

definition free_blocks :: "nat \<Rightarrow> EasyFileSystem \<Rightarrow> (usize \<Rightarrow> bytes) \<Rightarrow> nat set" where
  "free_blocks nblk efs V = {b. data_start efs \<le> b \<and> b < nblk \<and> \<not> bm_test V (data_bitmap efs) (b - data_start efs)}"

definition efs_inv :: "nat \<Rightarrow> EasyFileSystem \<Rightarrow> (usize \<Rightarrow> bytes) \<Rightarrow> bool" where
  "efs_inv nblk efs V \<longleftrightarrow> efs_geom nblk efs \<and>
     (\<forall>i<inode_max efs. disk_inode efs V i \<noteq> None) \<and>
     (\<forall>i. live efs V i \<longrightarrow> inode_ok nblk {..<data_start efs} V (the_inode efs V i)) \<and>
     (\<forall>i j. live efs V i \<longrightarrow> live efs V j \<longrightarrow> i \<noteq> j \<longrightarrow> owned efs V i \<inter> owned efs V j = {}) \<and>
     (\<forall>b. data_start efs \<le> unat b \<longrightarrow> unat b < nblk \<longrightarrow>
        (b \<in> data_used efs V \<longleftrightarrow> (\<exists>i. live efs V i \<and> b \<in> owned efs V i)))"

section \<open>Inode slots\<close>

lemma inode_slot_pos:
  assumes "efs_geom nblk efs" and "i < inode_max efs"
  shows "get_disk_inode_pos efs (of_nat i) = (of_nat (inode_block efs i), inode_offset i)"
    and "unat (of_nat (inode_block efs i) :: u32) = inode_block efs i"
    and "inode_block efs i < start_block_id (data_bitmap efs)" and "unat (inode_area_start_block efs) \<le> inode_block efs i"
    and "inode_offset i + 128 \<le> BLOCK_SZ" and "unat (of_nat i :: u32) = i"
proof -
  have i4: "i div 4 < bm_blocks (inode_bitmap efs) * 1024"
    using assms(2) by (simp add: bitmap_maximum_def less_mult_imp_div_less)
  then show sb: "inode_block efs i < start_block_id (data_bitmap efs)" using assms(1) by (simp add: efs_geom_def inode_block_def)
  show "unat (inode_area_start_block efs) \<le> inode_block efs i" by (simp add: inode_block_def)
  have nb: "start_block_id (data_bitmap efs) < 2 ^ 32" "bm_blocks (inode_bitmap efs) * 1024 < 2 ^ 32"
    using assms(1) by (auto simp: efs_geom_def)
  then show ub: "unat (of_nat (inode_block efs i) :: u32) = inode_block efs i" using sb by (simp add: unat_of_nat)
  show ui: "unat (of_nat i :: u32) = i" using assms by (simp add: efs_geom_def unat_of_nat)
  show "inode_offset i + 128 \<le> BLOCK_SZ" using mod_less_divisor [of 4 i] by (simp add: inode_offset_def)
  have "unat ((of_nat i :: u32) div 4) = i div 4" "unat ((of_nat i :: u32) mod 4) = i mod 4"
    by (simp_all add: unat_div unat_mod ui)
  moreover have "inode_area_start_block efs + (of_nat i :: u32) div 4 = of_nat (inode_block efs i)"
  proof (rule word_unat_eq_iff [THEN iffD2])
    have "unat (inode_area_start_block efs) + unat ((of_nat i :: u32) div 4) < 2 ^ 32"
      using calculation(1) sb nb(1) by (simp add: inode_block_def)
    then have "unat (inode_area_start_block efs + (of_nat i :: u32) div 4) = inode_block efs i"
      using calculation(1) by (subst unat_add_lem [THEN iffD1]) (simp_all add: inode_block_def)
    then show "unat (inode_area_start_block efs + (of_nat i :: u32) div 4) = unat (of_nat (inode_block efs i) :: u32)"
      by (simp only: ub)
  qed
  ultimately show "get_disk_inode_pos efs (of_nat i) = (of_nat (inode_block efs i), inode_offset i)"
    by (simp add: get_disk_inode_pos_def inode_offset_def)
qed

lemma inode_bytes_cong: "V' (inode_block efs i) = V (inode_block efs i) \<Longrightarrow> inode_bytes efs V' i = inode_bytes efs V i"
  by (simp add: inode_bytes_def)

lemma inode_bytes_upd:
  assumes "length (V (inode_block efs i)) = BLOCK_SZ" and "length bs = 128"
  shows "inode_bytes efs (V(inode_block efs i := overwrite (V (inode_block efs i)) (inode_offset i) bs)) j =
    (if j = i then bs else inode_bytes efs V j)"
proof -
  have fit: "inode_offset i + length bs \<le> length (V (inode_block efs i))"
    using assms mod_less_divisor [of 4 i] by (simp add: inode_offset_def)
  consider "j = i" | "inode_block efs j \<noteq> inode_block efs i" | "inode_block efs j = inode_block efs i" "j \<noteq> i" by blast
  then show ?thesis
  proof cases
    case 1
    then show ?thesis using overwrite_window(1) [OF fit] assms(2) by (simp add: inode_bytes_def)
  next
    case 2
    then show ?thesis by (auto simp: inode_bytes_def)
  next
    case 3
    then have "j div 4 = i div 4" by (simp add: inode_block_def)
    with 3 have "j mod 4 \<noteq> i mod 4" by (metis div_mult_mod_eq)
    then have "j mod 4 < i mod 4 \<or> i mod 4 < j mod 4" by linarith
    then show ?thesis
    proof
      assume "j mod 4 < i mod 4"
      then have "inode_offset j + 128 \<le> inode_offset i" by (simp add: inode_offset_def)
      then show ?thesis using overwrite_window(2) [OF fit _ refl, of "inode_offset j" 128] 3
        by (simp add: inode_bytes_def)
    next
      assume "i mod 4 < j mod 4"
      then have "inode_offset i + 128 \<le> inode_offset j" by (simp add: inode_offset_def)
      then show ?thesis using overwrite_window(3) [OF fit, of "inode_offset j"] 3 assms(2)
        by (simp add: inode_bytes_def)
    qed
  qed
qed

section \<open>Frames\<close>

lemma bm_test_cong: "(\<And>b. b \<in> bm_range bm \<Longrightarrow> V' b = V b) \<Longrightarrow> i < bitmap_maximum bm \<Longrightarrow> bm_test V' bm i = bm_test V bm i"
  by (auto simp: bm_test_def bm_range_def bitmap_maximum_def less_mult_imp_div_less)

lemma efs_ranges:
  assumes "efs_geom nblk efs"
  shows "b \<in> bm_range (inode_bitmap efs) \<Longrightarrow> b < unat (inode_area_start_block efs)"
    and "b \<in> bm_range (data_bitmap efs) \<Longrightarrow> start_block_id (data_bitmap efs) \<le> b \<and> b < data_start efs"
  using assms by (auto simp: bm_range_def efs_geom_def)

lemma inode_ok_reserved: "inode_ok nblk R V di \<Longrightarrow> R' \<subseteq> R \<Longrightarrow> inode_ok nblk R' V di"
  by (auto simp: inode_ok_def)

lemma inode_cong:
  assumes "inode_ok nblk R V di" and "\<And>b. b \<in> set (inode_blocks V di) \<Longrightarrow> V' (unat b) = V (unat b)"
  shows "inode_blocks V' di = inode_blocks V di" and "inode_content V' di = inode_content V di"
    and "inode_ok nblk R V' di"
proof -
  let ?n = "inode_nblocks di"
  have m: "\<forall>m\<in>set (metas V di ?n). V' (unat m) = V (unat m)" using assms(2) by (simp add: inode_blocks_def)
  have n: "?n \<le> INDIRECT2_BOUND" using assms(1) by (simp add: inode_ok_def)
  have d: "datas V' di ?n = datas V di ?n" by (rule datas_cong [OF m n])
  then show ib: "inode_blocks V' di = inode_blocks V di" using metas_cong [OF m] by (simp add: inode_blocks_def)
  show "inode_content V' di = inode_content V di"
    using assms(2) by (auto simp: inode_content_def d inode_blocks_def intro!: arg_cong [where f = "take _"] arg_cong [where f = concat])
  show "inode_ok nblk R V' di" using assms(1) ib by (simp add: inode_ok_def)
qed

text \<open>One live inode \<open>i\<close> is replaced by \<open>di'\<close>: everything the other inodes depend on is kept.\<close>

definition inode_replaced :: "nat \<Rightarrow> EasyFileSystem \<Rightarrow> (usize \<Rightarrow> bytes) \<Rightarrow> nat \<Rightarrow> DiskInode \<Rightarrow> (usize \<Rightarrow> bytes) \<Rightarrow> bool" where
  "inode_replaced nblk efs V i di' V' \<longleftrightarrow>
     (\<forall>b\<in>bm_range (inode_bitmap efs). V' b = V b) \<and>
     disk_inode efs V' i = Some di' \<and> (\<forall>j<inode_max efs. j \<noteq> i \<longrightarrow> disk_inode efs V' j = disk_inode efs V j) \<and>
     inode_ok nblk {..<data_start efs} V' di' \<and>
     set (inode_blocks V' di') \<subseteq> owned efs V i \<union> {b. unat b \<in> free_blocks nblk efs V} \<and>
     (\<forall>b. data_start efs \<le> unat b \<longrightarrow> unat b < nblk \<longrightarrow>
        (b \<in> data_used efs V' \<longleftrightarrow> b \<in> data_used efs V - owned efs V i \<union> set (inode_blocks V' di'))) \<and>
     (\<forall>b. data_start efs \<le> unat b \<longrightarrow> b \<notin> owned efs V i \<union> set (inode_blocks V' di') \<longrightarrow> V' (unat b) = V (unat b))"

lemma inode_replaced_others:
  assumes inv: "efs_inv nblk efs V" and r: "inode_replaced nblk efs V i di' V'" and i: "live efs V i"
    and j: "live efs V j" "j \<noteq> i"
  shows "the_inode efs V' j = the_inode efs V j" and "owned efs V' j = owned efs V j"
    and "inode_content V' (the_inode efs V' j) = inode_content V (the_inode efs V j)"
    and "inode_ok nblk {..<data_start efs} V' (the_inode efs V' j)"
    and "owned efs V j \<inter> (owned efs V i \<union> set (inode_blocks V' di')) = {}"
proof -
  show d: "the_inode efs V' j = the_inode efs V j" using r j by (simp add: inode_replaced_def the_inode_def live_def)
  have ok: "inode_ok nblk {..<data_start efs} V (the_inode efs V j)" using inv j(1) by (auto simp: efs_inv_def)
  have rng: "data_start efs \<le> unat b \<and> unat b < nblk" if "b \<in> owned efs V j" for b
    using ok that by (auto simp: owned_def inode_ok_def)
  have used: "b \<in> data_used efs V" if "b \<in> owned efs V j" for b
    using inv that rng [OF that] j(1) by (auto simp: efs_inv_def)
  have "unat b \<notin> free_blocks nblk efs V" if "b \<in> owned efs V j" for b
    using used [OF that] by (auto simp: free_blocks_def data_used_def)
  moreover have "owned efs V i \<inter> owned efs V j = {}" using inv i j by (auto simp: efs_inv_def)
  ultimately show dis: "owned efs V j \<inter> (owned efs V i \<union> set (inode_blocks V' di')) = {}"
    using r by (fastforce simp: inode_replaced_def)
  have same: "V' (unat b) = V (unat b)" if "b \<in> set (inode_blocks V (the_inode efs V j))" for b
  proof -
    have bo: "b \<in> owned efs V j" using that by (simp add: owned_def)
    then have "b \<notin> owned efs V i \<union> set (inode_blocks V' di')" using dis by blast
    with rng [OF bo] r show ?thesis by (simp add: inode_replaced_def)
  qed
  note c = inode_cong [OF ok same]
  show "owned efs V' j = owned efs V j" using c(1) d by (simp add: owned_def)
  show "inode_content V' (the_inode efs V' j) = inode_content V (the_inode efs V j)" using c(2) d by simp
  show "inode_ok nblk {..<data_start efs} V' (the_inode efs V' j)" using c(3) d by simp
qed

lemma inode_replaced_live:
  assumes "inode_replaced nblk efs V i di' V'"
  shows "live efs V' j = live efs V j"
  using assms bm_test_cong [of "inode_bitmap efs" V' V j] by (auto simp: live_def inode_replaced_def)

lemma inode_replaced_inv:
  assumes inv: "efs_inv nblk efs V" and r: "inode_replaced nblk efs V i di' V'" and i: "live efs V i"
  shows "efs_inv nblk efs V'"
proof -
  note lv = inode_replaced_live [OF r]
  note oth = inode_replaced_others [OF inv r i]
  have di: "the_inode efs V' i = di'" using r by (simp add: inode_replaced_def the_inode_def)
  have oi: "owned efs V' i = set (inode_blocks V' di')" by (simp add: owned_def di)
  have dec: "\<forall>j<inode_max efs. disk_inode efs V' j \<noteq> None"
  proof (intro allI impI)
    fix j assume "j < inode_max efs"
    then show "disk_inode efs V' j \<noteq> None" using inv r by (cases "j = i") (auto simp: efs_inv_def inode_replaced_def)
  qed
  have ok: "inode_ok nblk {..<data_start efs} V' (the_inode efs V' j)" if "live efs V' j" for j
    using that oth(4) [of j] r di lv by (cases "j = i") (auto simp: inode_replaced_def)
  have dj: "owned efs V' j \<inter> owned efs V' k = {}" if "live efs V' j" "live efs V' k" "j \<noteq> k" for j k
  proof -
    consider "j = i" | "k = i" | "j \<noteq> i" "k \<noteq> i" by blast
    then show ?thesis
    proof cases
      case 1
      then show ?thesis using that oth(2,5) [of k] oi lv by auto
    next
      case 2
      then show ?thesis using that oth(2,5) [of j] oi lv by auto
    next
      case 3
      then show ?thesis using that oth(2) [of j] oth(2) [of k] lv inv by (auto simp: efs_inv_def)
    qed
  qed
  have us: "b \<in> data_used efs V' \<longleftrightarrow> (\<exists>j. live efs V' j \<and> b \<in> owned efs V' j)"
    if b: "data_start efs \<le> unat b" "unat b < nblk" for b
  proof -
    have "b \<in> data_used efs V' \<longleftrightarrow> (\<exists>j. live efs V j \<and> b \<in> owned efs V j) \<and> b \<notin> owned efs V i \<or> b \<in> owned efs V' i"
      using r b inv oi by (auto simp: inode_replaced_def efs_inv_def)
    also have "\<dots> \<longleftrightarrow> (\<exists>j. live efs V' j \<and> b \<in> owned efs V' j)"
      using oth(2,5) i lv by (metis (no_types, opaque_lifting) Int_iff UnCI empty_iff)
    finally show ?thesis .
  qed
  show ?thesis using inv dec ok dj us by (simp add: efs_inv_def)
qed

section \<open>Allocating data blocks\<close>

lemma free_blocks_finite: "finite (free_blocks nblk efs V)"
  by (rule finite_subset [of _ "{..<nblk}"]) (auto simp: free_blocks_def)

lemma efs_bm_fits:
  assumes "efs_geom nblk efs" and "P \<inter> bm_range (data_bitmap efs) = {}" and "card P < BLOCK_CACHE_SIZE"
  shows "bm_fits nblk P (data_bitmap efs)"
  using assms by (auto simp: bm_fits_def efs_geom_def)

context block_device
begin

lemma alloc_data_ok:
  assumes g: "efs_geom nblk efs" and P: "P \<inter> bm_range (data_bitmap efs) = {}" "card P < BLOCK_CACHE_SIZE"
    and f: "free_blocks nblk efs V \<noteq> {}"
  shows "hr V P (alloc_data dev efs) (\<lambda>b V'. unat b \<in> free_blocks nblk efs V \<and>
    (\<forall>c. c \<notin> bm_range (data_bitmap efs) \<longrightarrow> V' c = V c) \<and>
    (\<forall>c. c \<in> data_used efs V' \<longleftrightarrow> c = b \<or> c \<in> data_used efs V))"
  unfolding alloc_data_def
proof (rule hoare_bind [OF bitmap_alloc_ok [OF efs_bm_fits [OF g P]]])
  fix r V' assume post: "bm_alloc_post (data_bitmap efs) V 0 r V'"
  from f obtain b0 where b0: "data_start efs \<le> b0" "b0 < nblk" "\<not> bm_test V (data_bitmap efs) (b0 - data_start efs)"
    by (auto simp: free_blocks_def)
  then have "b0 - data_start efs < bitmap_maximum (data_bitmap efs)" using g by (auto simp: efs_geom_def)
  with b0(3) post obtain n where n: "r = Some n" by (cases r) (auto simp: bm_alloc_post_def)
  with post have p: "\<not> bm_test V (data_bitmap efs) n" "\<forall>i<n. bm_test V (data_bitmap efs) i"
    "\<forall>i. bm_test V' (data_bitmap efs) i \<longleftrightarrow> i = n \<or> bm_test V (data_bitmap efs) i"
    "\<forall>c. c \<notin> bm_range (data_bitmap efs) \<longrightarrow> V' c = V c" by (auto simp: bm_alloc_post_def)
  have le: "n \<le> b0 - data_start efs" using p(2) b0(3) by (meson linorder_not_le)
  then have nb: "n + data_start efs < nblk" "nblk < 2 ^ 32" using b0 g by (auto simp: efs_geom_def)
  have un: "unat (of_nat n :: u32) = n" using nb by (simp add: unat_of_nat)
  have ub: "unat (of_nat n + data_area_start_block efs) = n + data_start efs"
    using nb un by (subst unat_add_lem [THEN iffD1]) simp_all
  have "c \<in> data_used efs V' \<longleftrightarrow> c = of_nat n + data_area_start_block efs \<or> c \<in> data_used efs V" for c
  proof -
    have "c = of_nat n + data_area_start_block efs \<longleftrightarrow> unat c = n + data_start efs" by (metis ub word_unat_eq_iff)
    also have "\<dots> \<longleftrightarrow> data_start efs \<le> unat c \<and> unat c - data_start efs = n" by linarith
    finally show ?thesis using p(3) by (auto simp: data_used_def)
  qed
  moreover have "unat (of_nat n + data_area_start_block efs) \<in> free_blocks nblk efs V"
    using ub nb p(1) by (simp add: free_blocks_def)
  ultimately show "hr V' P (bind (lift (unwrap r)) (\<lambda>i. ret (of_nat i + data_area_start_block efs)))
    (\<lambda>b V'. unat b \<in> free_blocks nblk efs V \<and> (\<forall>c. c \<notin> bm_range (data_bitmap efs) \<longrightarrow> V' c = V c) \<and>
      (\<forall>c. c \<in> data_used efs V' \<longleftrightarrow> c = b \<or> c \<in> data_used efs V))"
    using n p(4) by (simp add: unwrap_def)
qed

lemma free_blocks_used:
  assumes "\<forall>c. c \<in> data_used efs V' \<longleftrightarrow> c \<in> B \<or> c \<in> data_used efs V" and "nblk < 2 ^ 32"
  shows "free_blocks nblk efs V' = free_blocks nblk efs V - unat ` B"
proof (rule set_eqI)
  fix b
  show "b \<in> free_blocks nblk efs V' \<longleftrightarrow> b \<in> free_blocks nblk efs V - unat ` B"
  proof (cases "b < nblk")
    case True
    then have u: "unat (of_nat b :: u32) = b" using assms(2) by (simp add: unat_of_nat)
    have "b \<in> unat ` B \<longleftrightarrow> of_nat b \<in> B" using unat_image_iff [of "of_nat b" B] u by simp
    moreover have "data_start efs \<le> b \<and> bm_test X (data_bitmap efs) (b - data_start efs) \<longleftrightarrow> of_nat b \<in> data_used efs X" for X
      by (simp add: data_used_def u)
    ultimately show ?thesis using assms(1) True by (auto simp: free_blocks_def)
  qed (simp add: free_blocks_def)
qed

lemma bm_range_free: "efs_geom nblk efs \<Longrightarrow> b \<in> free_blocks nblk efs V \<Longrightarrow> b \<notin> bm_range (data_bitmap efs)"
  using efs_ranges(2) [of nblk efs b] by (auto simp: free_blocks_def)

end

end
