(* ===== verification/Vfs.thy ===== *)
theory Vfs
  imports Efs
begin

text \<open>
  The inode layer (src/easy-fs/src/vfs.rs): an \<open>Inode\<close> is the position of a disk inode together
  with the file system and the device, which are the arguments \<open>efs\<close> and \<open>dev\<close>.  Every public
  operation is the whole method, including the closing \<open>block_cache_sync_all\<close>.
\<close>

section \<open>Model\<close>

record Inode =
  in_block_id :: usize
  in_block_offset :: usize

definition vfs_new :: "u32 \<Rightarrow> usize \<Rightarrow> Inode" where
  "vfs_new bid off = \<lparr>in_block_id = unat bid, in_block_offset = off\<rparr>"

definition root_inode :: "EasyFileSystem \<Rightarrow> Inode" where
  "root_inode efs = (case get_disk_inode_pos efs 0 of (bid, off) \<Rightarrow> vfs_new bid off)"

definition read_disk_inode :: "'d BlockDevice \<Rightarrow> Inode \<Rightarrow> (DiskInode \<Rightarrow> ('d world, 'v) cmd) \<Rightarrow> ('d world, 'v) cmd" where
  "read_disk_inode dev self f = cache_read dev (in_block_id self) (in_block_offset self) DiskInode_layout f"

definition modify_disk_inode ::
    "'d BlockDevice \<Rightarrow> Inode \<Rightarrow> (DiskInode \<Rightarrow> ('d world, 'v \<times> DiskInode) cmd) \<Rightarrow> ('d world, 'v) cmd" where
  "modify_disk_inode dev self f = cache_modify dev (in_block_id self) (in_block_offset self) DiskInode_layout f"

fun find_loop :: "'d BlockDevice \<Rightarrow> DiskInode \<Rightarrow> bytes \<Rightarrow> nat list \<Rightarrow> DirEntry \<Rightarrow> ('d world, u32 option) cmd" where
  "find_loop dev di nm [] dirent = ret None"
| "find_loop dev di nm (i # is) dirent =
     bind (read_at dev di (DIRENT_SZ * i) (dirent_as_bytes dirent)) (\<lambda>(n, bs).
     bind (assert_cmd (n = DIRENT_SZ)) (\<lambda>_.
     let dirent = dirent_of_bytes bs in
     bind (lift (dirent_name dirent)) (\<lambda>nm'.
     if nm' = nm then ret (Some (de_inode_number dirent)) else find_loop dev di nm is dirent)))"

definition find_inode_id :: "'d BlockDevice \<Rightarrow> bytes \<Rightarrow> DiskInode \<Rightarrow> ('d world, u32 option) cmd" where
  "find_inode_id dev nm di =
     bind (assert_cmd (is_dir di)) (\<lambda>_.
     find_loop dev di nm [0..<unat (di_size di) div DIRENT_SZ] dirent_empty)"

definition vfs_find :: "'d BlockDevice \<Rightarrow> EasyFileSystem \<Rightarrow> Inode \<Rightarrow> bytes \<Rightarrow> ('d world, Inode option) cmd" where
  "vfs_find dev efs self nm =
     read_disk_inode dev self (\<lambda>di.
       bind (find_inode_id dev nm di) (\<lambda>r.
       ret (map_option (\<lambda>inode_id. case get_disk_inode_pos efs inode_id of (bid, off) \<Rightarrow> vfs_new bid off) r)))"

fun alloc_data_n :: "'d BlockDevice \<Rightarrow> EasyFileSystem \<Rightarrow> nat \<Rightarrow> u32 list \<Rightarrow> ('d world, u32 list) cmd" where
  "alloc_data_n dev efs 0 v = ret v"
| "alloc_data_n dev efs (Suc k) v = bind (alloc_data dev efs) (\<lambda>b. alloc_data_n dev efs k (v @ [b]))"

definition vfs_increase_size :: "'d BlockDevice \<Rightarrow> EasyFileSystem \<Rightarrow> u32 \<Rightarrow> DiskInode \<Rightarrow> ('d world, DiskInode) cmd" where
  "vfs_increase_size dev efs new_size di =
     (if new_size < di_size di then ret di
      else bind (lift (blocks_num_needed di new_size)) (\<lambda>blocks_needed.
           bind (alloc_data_n dev efs (unat blocks_needed) []) (\<lambda>v.
           increase_size dev di new_size v)))"

definition vfs_create :: "'d BlockDevice \<Rightarrow> EasyFileSystem \<Rightarrow> Inode \<Rightarrow> bytes \<Rightarrow> ('d world, Inode option) cmd" where
  "vfs_create dev efs self nm =
     bind (read_disk_inode dev self (\<lambda>root_inode.
             bind (assert_cmd (is_dir root_inode)) (\<lambda>_. find_inode_id dev nm root_inode))) (\<lambda>r.
     if r \<noteq> None then ret None
     else
       bind (alloc_inode dev efs) (\<lambda>new_inode_id.
       case get_disk_inode_pos efs new_inode_id of (new_inode_block_id, new_inode_block_offset) \<Rightarrow>
       bind (cache_modify dev (unat new_inode_block_id) new_inode_block_offset DiskInode_layout (\<lambda>new_inode.
               ret ((), inode_initialize new_inode File))) (\<lambda>_.
       bind (modify_disk_inode dev self (\<lambda>root_inode.
               let file_count = unat (di_size root_inode) div DIRENT_SZ;
                   new_size = (file_count + 1) * DIRENT_SZ in
               bind (vfs_increase_size dev efs (of_nat new_size) root_inode) (\<lambda>root_inode.
               bind (lift (dirent_new nm new_inode_id)) (\<lambda>dirent.
               bind (write_at dev root_inode (file_count * DIRENT_SZ) (dirent_as_bytes dirent)) (\<lambda>_.
               ret ((), root_inode)))))) (\<lambda>_.
       case get_disk_inode_pos efs new_inode_id of (bid, off) \<Rightarrow>
       bind (block_cache_sync_all dev) (\<lambda>_. ret (Some (vfs_new bid off)))))))"

fun ls_loop :: "'d BlockDevice \<Rightarrow> DiskInode \<Rightarrow> nat list \<Rightarrow> bytes list \<Rightarrow> ('d world, bytes list) cmd" where
  "ls_loop dev di [] v = ret v"
| "ls_loop dev di (i # is) v =
     bind (read_at dev di (i * DIRENT_SZ) (dirent_as_bytes dirent_empty)) (\<lambda>(len, bs).
     bind (assert_cmd (len = DIRENT_SZ)) (\<lambda>_.
     bind (lift (dirent_name (dirent_of_bytes bs))) (\<lambda>nm. ls_loop dev di is (v @ [nm]))))"

definition vfs_ls :: "'d BlockDevice \<Rightarrow> Inode \<Rightarrow> ('d world, bytes list) cmd" where
  "vfs_ls dev self = read_disk_inode dev self (\<lambda>di. ls_loop dev di [0..<unat (di_size di) div DIRENT_SZ] [])"

definition vfs_read_at :: "'d BlockDevice \<Rightarrow> Inode \<Rightarrow> usize \<Rightarrow> bytes \<Rightarrow> ('d world, nat \<times> bytes) cmd" where
  "vfs_read_at dev self offset buf = read_disk_inode dev self (\<lambda>di. read_at dev di offset buf)"

definition vfs_write_at :: "'d BlockDevice \<Rightarrow> EasyFileSystem \<Rightarrow> Inode \<Rightarrow> usize \<Rightarrow> bytes \<Rightarrow> ('d world, nat) cmd" where
  "vfs_write_at dev efs self offset buf =
     bind (modify_disk_inode dev self (\<lambda>di.
             bind (vfs_increase_size dev efs (of_nat (usize_add offset (length buf))) di) (\<lambda>di.
             bind (write_at dev di offset buf) (\<lambda>n. ret (n, di))))) (\<lambda>size.
     bind (block_cache_sync_all dev) (\<lambda>_. ret size))"

definition vfs_clear :: "'d BlockDevice \<Rightarrow> EasyFileSystem \<Rightarrow> Inode \<Rightarrow> ('d world, unit) cmd" where
  "vfs_clear dev efs self =
     bind (modify_disk_inode dev self (\<lambda>di.
             let size = di_size di in
             bind (clear_size dev di) (\<lambda>(data_blocks_dealloc, di).
             bind (assert_cmd (length data_blocks_dealloc = unat (total_blocks size))) (\<lambda>_.
             bind (for_each data_blocks_dealloc (dealloc_data dev efs)) (\<lambda>_.
             ret ((), di)))))) (\<lambda>_.
     block_cache_sync_all dev)"

end
