(* ===== verification/VfsData.thy ===== *)
theory VfsData
  imports Vfs
begin

text \<open>
  Reading, writing and clearing a file through the inode layer (src/easy-fs/src/vfs.rs): the whole
  of \<open>Inode::write_at\<close>, \<open>read_at\<close> and \<open>clear\<close>, with the allocation of blocks, on a file system that
  satisfies \<open>efs_inv\<close>.  A write changes exactly the written range of exactly one file and keeps the
  invariant; clearing returns every block to the bitmap.
\<close>

section \<open>Growing a file\<close>

text \<open>The in-memory inode \<open>di\<close> has been grown to \<open>di'\<close> with freshly allocated blocks.\<close>

definition enlarged :: "nat \<Rightarrow> EasyFileSystem \<Rightarrow> (usize \<Rightarrow> bytes) \<Rightarrow> DiskInode \<Rightarrow> u32 \<Rightarrow> DiskInode \<Rightarrow> (usize \<Rightarrow> bytes) \<Rightarrow> bool" where
  "enlarged nblk efs V di ns di' V' \<longleftrightarrow>
     di_size di' = max (di_size di) ns \<and> di_type di' = di_type di \<and> inode_ok nblk {..<data_start efs} V' di' \<and>
     set (inode_blocks V di) \<subseteq> set (inode_blocks V' di') \<and>
     set (inode_blocks V' di') \<subseteq> set (inode_blocks V di) \<union> {b. unat b \<in> free_blocks nblk efs V} \<and>
     take (unat (di_size di)) (inode_content V' di') = inode_content V di \<and>
     (\<forall>c. unat c < nblk \<longrightarrow> (c \<in> data_used efs V' \<longleftrightarrow> c \<in> data_used efs V \<or> c \<in> set (inode_blocks V' di'))) \<and>
     (\<forall>b. b \<notin> bm_range (data_bitmap efs) \<longrightarrow> b \<notin> unat ` set (inode_blocks V' di') \<longrightarrow> V' b = V b)"

lemma owned_range:
  assumes inv: "efs_inv nblk efs V" and lv: "live efs V i" and b: "b \<in> owned efs V i"
  shows "data_start efs \<le> unat b" and "unat b < nblk" and "b \<in> data_used efs V"
proof -
  have "inode_ok nblk {..<data_start efs} V (the_inode efs V i)" using inv lv by (simp add: efs_inv_def)
  then show r: "data_start efs \<le> unat b" "unat b < nblk" using b by (auto simp: owned_def inode_ok_def)
  then show "b \<in> data_used efs V" using inv lv b unfolding efs_inv_def by blast
qed

lemma data_used_cong:
  assumes "efs_geom nblk efs" and "\<And>b. b \<in> bm_range (data_bitmap efs) \<Longrightarrow> V' b = V b" and "unat c < nblk"
  shows "c \<in> data_used efs V' \<longleftrightarrow> c \<in> data_used efs V"
proof (cases "data_start efs \<le> unat c")
  case True
  then have "unat c - data_start efs < bitmap_maximum (data_bitmap efs)" using assms(1,3) by (auto simp: efs_geom_def)
  then show ?thesis using bm_test_cong [of "data_bitmap efs" V' V, OF assms(2)] by (simp add: data_used_def)
qed (simp add: data_used_def)

lemma grown_content:
  assumes full: "blocks_full V di" and g: "grown V di (inode_nblocks di) (inode_nblocks di') nb di' V'"
    and sz: "unat (di_size di) \<le> unat (di_size di')" and dist: "distinct (inode_blocks V' di')"
  shows "take (unat (di_size di)) (inode_content V' di') = inode_content V di"
proof -
  let ?n = "inode_nblocks di"
  from g obtain ds ms where d: "datas V' di' (inode_nblocks di') = datas V di ?n @ ds"
    and m: "metas V' di' (inode_nblocks di') = metas V di ?n @ ms"
    and fr: "\<forall>b. b \<notin> unat ` set (metas V' di' (inode_nblocks di')) \<longrightarrow> V' b = V b" by (auto simp: grown_def)
  have same: "V' (unat b) = V (unat b)" if "b \<in> set (datas V di ?n)" for b
    using that fr dist d by (auto simp: inode_blocks_def)
  then have "concat (map (\<lambda>b. V' (unat b)) (datas V di ?n)) = concat (map (\<lambda>b. V (unat b)) (datas V di ?n))"
    by (intro arg_cong [where f = concat]) simp
  moreover have "length (concat (map (\<lambda>b. V (unat b)) (datas V di ?n))) = ?n * BLOCK_SZ"
    using full length_concat_blocks [of "datas V di ?n" V] by (simp add: blocks_full_def)
  moreover have "unat (di_size di) \<le> ?n * BLOCK_SZ" using size_le_blocks by (simp add: inode_nblocks_def)
  ultimately show ?thesis using sz by (simp add: inode_content_def d min_def)
qed

section \<open>Storing an inode\<close>

text \<open>The handle of inode \<open>i\<close>.\<close>

definition inode_at :: "EasyFileSystem \<Rightarrow> nat \<Rightarrow> Inode" where
  "inode_at efs i = \<lparr>in_block_id = inode_block efs i, in_block_offset = inode_offset i\<rparr>"

text \<open>Writing \<open>di'\<close> into the slot of inode \<open>i\<close>, after its blocks have been prepared in \<open>V2\<close>.\<close>

definition inode_stored :: "EasyFileSystem \<Rightarrow> nat \<Rightarrow> DiskInode \<Rightarrow> (usize \<Rightarrow> bytes) \<Rightarrow> (usize \<Rightarrow> bytes)" where
  "inode_stored efs i di' V2 = V2(inode_block efs i :=
     overwrite (V2 (inode_block efs i)) (inode_offset i) (to_bytes DiskInode_layout di' (inode_bytes efs V2 i)))"

lemma inode_stored_slot:
  assumes g: "efs_geom nblk efs" "i < inode_max efs" and len: "length (V2 (inode_block efs i)) = BLOCK_SZ"
    and d: "length (direct di') = INODE_DIRECT_COUNT"
  shows "disk_inode efs (inode_stored efs i di' V2) i = Some di'"
    and "j \<noteq> i \<Longrightarrow> disk_inode efs (inode_stored efs i di' V2) j = disk_inode efs V2 j"
    and "b \<noteq> inode_block efs i \<Longrightarrow> inode_stored efs i di' V2 b = V2 b"
proof -
  have "length (inode_bytes efs V2 i) = 128" using len inode_slot_pos(5) [OF g] by (simp add: inode_bytes_def)
  then have l: "length (to_bytes DiskInode_layout di' (inode_bytes efs V2 i)) = 128" using d by simp
  note u = inode_bytes_upd [of V2 efs i, OF len l]
  show "disk_inode efs (inode_stored efs i di' V2) i = Some di'"
    using u [of i] DiskInode_roundtrip d by (simp add: disk_inode_def inode_stored_def)
  show "j \<noteq> i \<Longrightarrow> disk_inode efs (inode_stored efs i di' V2) j = disk_inode efs V2 j"
    using u [of j] by (simp add: disk_inode_def inode_stored_def)
  show "b \<noteq> inode_block efs i \<Longrightarrow> inode_stored efs i di' V2 b = V2 b" by (simp add: inode_stored_def)
qed

lemma inode_stored_replaced:
  assumes g: "efs_geom nblk efs" "i < inode_max efs" and len: "length (V2 (inode_block efs i)) = BLOCK_SZ"
    and meta: "\<And>b. b < start_block_id (data_bitmap efs) \<Longrightarrow> V2 b = V b"
    and ok: "inode_ok nblk {..<data_start efs} V2 di'"
    and new: "set (inode_blocks V2 di') \<subseteq> owned efs V i \<union> {b. unat b \<in> free_blocks nblk efs V}"
    and used: "\<And>b. data_start efs \<le> unat b \<Longrightarrow> unat b < nblk \<Longrightarrow>
      b \<in> data_used efs V2 \<longleftrightarrow> b \<in> data_used efs V - owned efs V i \<union> set (inode_blocks V2 di')"
    and frame: "\<And>b. data_start efs \<le> unat b \<Longrightarrow> b \<notin> owned efs V i \<union> set (inode_blocks V2 di') \<Longrightarrow> V2 (unat b) = V (unat b)"
  shows "inode_replaced nblk efs V i di' (inode_stored efs i di' V2)"
    and "inode_content (inode_stored efs i di' V2) di' = inode_content V2 di'"
proof -
  let ?V3 = "inode_stored efs i di' V2"
  note slot = inode_stored_slot [of nblk efs i V2 di', OF g len]
  have d: "length (direct di') = INODE_DIRECT_COUNT" using ok by (simp add: inode_ok_def)
  have pos: "inode_block efs i < start_block_id (data_bitmap efs)" "unat (inode_area_start_block efs) \<le> inode_block efs i"
    "start_block_id (data_bitmap efs) \<le> data_start efs" using inode_slot_pos(3,4) [OF g] g(1) by (auto simp: efs_geom_def)
  have keep: "?V3 b = V2 b" if "b \<noteq> inode_block efs i" for b using that by (simp add: inode_stored_def)
  have hi: "?V3 b = V2 b" if "start_block_id (data_bitmap efs) \<le> b" for b using keep [of b] that pos by auto
  have same: "?V3 (unat b) = V2 (unat b)" if "b \<in> set (inode_blocks V2 di')" for b
    using that ok pos hi [of "unat b"] by (auto simp: inode_ok_def)
  have c: "inode_blocks ?V3 di' = inode_blocks V2 di'" "inode_content ?V3 di' = inode_content V2 di'"
    "inode_ok nblk {..<data_start efs} ?V3 di'" using inode_cong [OF ok same] by simp_all
  show "inode_content ?V3 di' = inode_content V2 di'" by (rule c(2))
  have "?V3 b = V b" if "b \<in> bm_range (inode_bitmap efs)" for b
    using efs_ranges(1) [OF g(1) that] keep [of b] meta [of b] pos by auto
  moreover have "disk_inode efs ?V3 j = disk_inode efs V j" if "j < inode_max efs" "j \<noteq> i" for j
  proof -
    have "disk_inode efs ?V3 j = disk_inode efs V2 j" using slot(2) d that by simp
    then show ?thesis using inode_bytes_cong [of V2 efs j V] meta [OF inode_slot_pos(3) [OF g(1) that(1)]]
      by (simp add: disk_inode_def)
  qed
  moreover have "b \<in> data_used efs ?V3 \<longleftrightarrow> b \<in> data_used efs V2" if "unat b < nblk" for b
    using data_used_cong [OF g(1) _ that] hi efs_ranges(2) [OF g(1)] by blast
  moreover have "?V3 (unat b) = V (unat b)" if "data_start efs \<le> unat b" "b \<notin> owned efs V i \<union> set (inode_blocks V2 di')" for b
    using frame [OF that] hi [of "unat b"] that(1) pos(3) by simp
  ultimately show "inode_replaced nblk efs V i di' ?V3"
    unfolding inode_replaced_def using c slot(1) [OF d] new used by simp
qed

text \<open>What returning the blocks \<open>B\<close> to the allocator does.\<close>

definition blocks_freed :: "nat \<Rightarrow> EasyFileSystem \<Rightarrow> (usize \<Rightarrow> bytes) \<Rightarrow> u32 set \<Rightarrow> (usize \<Rightarrow> bytes) \<Rightarrow> bool" where
  "blocks_freed nblk efs V B V' \<longleftrightarrow>
     (\<forall>c. unat c < nblk \<longrightarrow> (c \<in> data_used efs V' \<longleftrightarrow> c \<in> data_used efs V \<and> c \<notin> B)) \<and>
     (\<forall>b\<in>B. V' (unat b) = replicate BLOCK_SZ 0) \<and>
     (\<forall>b. b \<notin> bm_range (data_bitmap efs) \<longrightarrow> b \<notin> unat ` B \<longrightarrow> V' b = V b)"

lemma blocks_freed_trans:
  assumes "blocks_freed nblk efs V {b} V1" and "blocks_freed nblk efs V1 B V2" and "b \<notin> B"
    and "efs_geom nblk efs" and "data_start efs \<le> unat b"
  shows "blocks_freed nblk efs V (insert b B) V2"
proof -
  have "unat b \<notin> bm_range (data_bitmap efs)" using efs_ranges(2) [OF assms(4), of "unat b"] assms(5) by auto
  moreover have "unat b \<notin> unat ` B" using assms(3) unat_image_iff [of b B] by simp
  ultimately have "V2 (unat b) = V1 (unat b)" using assms(2) unfolding blocks_freed_def by blast
  then show ?thesis using assms(1,2) by (auto simp: blocks_freed_def)
qed

text \<open>What \<open>clear\<close> does to the file with inode number \<open>i\<close>.\<close>

definition file_cleared :: "nat \<Rightarrow> EasyFileSystem \<Rightarrow> (usize \<Rightarrow> bytes) \<Rightarrow> nat \<Rightarrow> (usize \<Rightarrow> bytes) \<Rightarrow> bool" where
  "file_cleared nblk efs V i V' \<longleftrightarrow>
     (\<exists>di'. inode_replaced nblk efs V i di' V' \<and> di_size di' = 0 \<and> di_type di' = di_type (the_inode efs V i)) \<and>
     (\<forall>b\<in>owned efs V i. V' (unat b) = replicate BLOCK_SZ 0)"

lemma freed_replaced:
  assumes inv: "efs_inv nblk efs V" and lv: "live efs V i" and fr: "blocks_freed nblk efs V (owned efs V i) V2"
    and di: "di_size di' = 0" "length (direct di') = INODE_DIRECT_COUNT" and len: "length (V2 (inode_block efs i)) = BLOCK_SZ"
  shows "inode_replaced nblk efs V i di' (inode_stored efs i di' V2)"
    and "V2 (inode_block efs i) = V (inode_block efs i)"
    and "b \<in> owned efs V i \<Longrightarrow> inode_stored efs i di' V2 (unat b) = replicate BLOCK_SZ 0"
proof -
  have g: "efs_geom nblk efs" "i < inode_max efs" and ok: "inode_ok nblk {..<data_start efs} V (the_inode efs V i)"
    using inv lv by (auto simp: efs_inv_def live_def)
  have pos: "inode_block efs i < start_block_id (data_bitmap efs)" "start_block_id (data_bitmap efs) \<le> data_start efs"
    using inode_slot_pos(3) [OF g] g(1) by (auto simp: efs_geom_def)
  have nb: "inode_blocks V2 di' = []" by (simp add: inode_blocks_def metas_def datas_def inode_nblocks_def di nblocks_def)
  have ok': "inode_ok nblk {..<data_start efs} V2 di'" by (simp add: inode_ok_def nb di inode_nblocks_def nblocks_def)
  have hi: "data_start efs \<le> unat b" if "b \<in> owned efs V i" for b using that ok by (auto simp: inode_ok_def owned_def)
  have meta: "V2 b = V b" if b: "b < start_block_id (data_bitmap efs)" for b
  proof -
    have "b \<notin> bm_range (data_bitmap efs)" using efs_ranges(2) [OF g(1), of b] b by auto
    moreover have "b \<notin> unat ` owned efs V i" using hi b pos(2) by fastforce
    ultimately show ?thesis using fr by (simp add: blocks_freed_def)
  qed
  then show "V2 (inode_block efs i) = V (inode_block efs i)" using pos(1) .
  have used: "b \<in> data_used efs V2 \<longleftrightarrow> b \<in> data_used efs V - owned efs V i \<union> set (inode_blocks V2 di')" if "unat b < nblk" for b
    using that fr nb by (simp add: blocks_freed_def)
  have frame: "V2 (unat b) = V (unat b)" if b: "data_start efs \<le> unat b" "b \<notin> owned efs V i \<union> set (inode_blocks V2 di')" for b
  proof -
    have "unat b \<notin> bm_range (data_bitmap efs)" using efs_ranges(2) [OF g(1), of "unat b"] b by auto
    then show ?thesis using fr b unat_image_iff [of b "owned efs V i"] by (simp add: blocks_freed_def)
  qed
  show "inode_replaced nblk efs V i di' (inode_stored efs i di' V2)"
    by (rule inode_stored_replaced(1) [of nblk efs i V2 V di', OF g len meta ok' _ used frame]) (auto simp: nb)
  show "inode_stored efs i di' V2 (unat b) = replicate BLOCK_SZ 0" if "b \<in> owned efs V i"
    using that hi [OF that] pos fr by (auto simp: inode_stored_def blocks_freed_def)
qed

lemma overwrite_grown:
  assumes "take (length c) c' = c" and "off \<le> length c" and "length c' = max (length c) (off + length bs)"
  shows "overwrite c' off bs = overwrite c off bs"
proof -
  have "take off c' = take off c" using arg_cong [OF assms(1), of "take off"] assms(2) by (simp add: min_def split: if_splits)
  moreover have "drop (off + length bs) c' = drop (off + length bs) c"
  proof (cases "off + length bs \<le> length c")
    case True
    then show ?thesis using assms by (simp add: max_def split: if_splits)
  qed (use assms in simp)
  ultimately show ?thesis by (simp add: overwrite_def)
qed

text \<open>What a write of \<open>buf\<close> at \<open>offset\<close> does to the file with inode number \<open>i\<close>.\<close>

definition file_written :: "nat \<Rightarrow> EasyFileSystem \<Rightarrow> (usize \<Rightarrow> bytes) \<Rightarrow> nat \<Rightarrow> usize \<Rightarrow> bytes \<Rightarrow> (usize \<Rightarrow> bytes) \<Rightarrow> bool" where
  "file_written nblk efs V i offset buf V' \<longleftrightarrow>
     (\<exists>di'. inode_replaced nblk efs V i di' V' \<and> di_type di' = di_type (the_inode efs V i) \<and>
        unat (di_size di') = max (unat (di_size (the_inode efs V i))) (offset + length buf) \<and>
        inode_content V' di' = overwrite (inode_content V (the_inode efs V i)) offset buf)"

lemma written_replaced:
  assumes inv: "efs_inv nblk efs V" and lv: "live efs V i" and en: "enlarged nblk efs V (the_inode efs V i) ns di' V1"
    and dw: "data_written V1 di' V2" and len: "length (V2 (inode_block efs i)) = BLOCK_SZ"
  shows "inode_replaced nblk efs V i di' (inode_stored efs i di' V2)"
    and "inode_content (inode_stored efs i di' V2) di' = inode_content V2 di'"
    and "V2 (inode_block efs i) = V (inode_block efs i)"
proof -
  have g: "efs_geom nblk efs" "i < inode_max efs" using inv lv by (auto simp: efs_inv_def live_def)
  have pos: "inode_block efs i < start_block_id (data_bitmap efs)" "start_block_id (data_bitmap efs) \<le> data_start efs"
    using inode_slot_pos(3) [OF g] g(1) by (auto simp: efs_geom_def)
  have ib: "inode_blocks V2 di' = inode_blocks V1 di'" using dw by (simp add: data_written_def inode_blocks_def)
  have ok1: "inode_ok nblk {..<data_start efs} V1 di'" using en by (simp add: enlarged_def)
  have V2: "V2 b = V1 b" if "b \<notin> unat ` set (inode_blocks V2 di')" for b
  proof -
    have "b \<notin> unat ` set (datas V1 di' (inode_nblocks di'))" using that ib by (auto simp: inode_blocks_def)
    then show ?thesis using dw by (simp add: data_written_def)
  qed
  have low: "V2 b = V1 b" if "b < data_start efs" for b using that ok1 ib V2 [of b] by (auto simp: inode_ok_def)
  have fr: "V2 b = V b" if "b \<notin> unat ` set (inode_blocks V2 di')" "b \<notin> bm_range (data_bitmap efs)" for b
    using that en V2 [OF that(1)] ib by (simp add: enlarged_def)
  have meta: "V2 b = V b" if "b < start_block_id (data_bitmap efs)" for b
  proof -
    have "b \<notin> unat ` set (inode_blocks V2 di')" using that ok1 ib pos(2) by (auto simp: inode_ok_def)
    then show ?thesis using fr efs_ranges(2) [OF g(1), of b] that by fastforce
  qed
  then show "V2 (inode_block efs i) = V (inode_block efs i)" using pos(1) .
  have used: "b \<in> data_used efs V2 \<longleftrightarrow> b \<in> data_used efs V - owned efs V i \<union> set (inode_blocks V2 di')"
    if "unat b < nblk" for b
  proof -
    have "b \<in> data_used efs V2 \<longleftrightarrow> b \<in> data_used efs V1"
      using data_used_cong [OF g(1) _ that] low efs_ranges(2) [OF g(1)] by blast
    also have "\<dots> \<longleftrightarrow> b \<in> data_used efs V \<or> b \<in> set (inode_blocks V2 di')" using en that ib by (simp add: enlarged_def)
    also have "\<dots> \<longleftrightarrow> b \<in> data_used efs V - owned efs V i \<union> set (inode_blocks V2 di')"
      using en ib by (auto simp: enlarged_def owned_def)
    finally show ?thesis .
  qed
  have frame: "V2 (unat b) = V (unat b)" if "data_start efs \<le> unat b" "b \<notin> owned efs V i \<union> set (inode_blocks V2 di')" for b
    using that fr [of "unat b"] efs_ranges(2) [OF g(1), of "unat b"] unat_image_iff [of b] by fastforce
  have new: "set (inode_blocks V2 di') \<subseteq> owned efs V i \<union> {b. unat b \<in> free_blocks nblk efs V}"
    using en ib by (simp add: enlarged_def owned_def)
  note r = inode_stored_replaced [of nblk efs i V2 V di', OF g len meta data_written_ok [OF dw ok1] new used frame]
  show "inode_replaced nblk efs V i di' (inode_stored efs i di' V2)" by (rule r(1))
  show "inode_content (inode_stored efs i di' V2) di' = inode_content V2 di'" by (rule r(2))
qed

context block_device
begin

lemma alloc_data_n_ok:
  assumes g: "efs_geom nblk efs" and P: "P \<inter> bm_range (data_bitmap efs) = {}" "card P < BLOCK_CACHE_SIZE"
  shows "k \<le> card (free_blocks nblk efs V) \<Longrightarrow> hr V P (alloc_data_n dev efs k v) (\<lambda>r V'. \<exists>nb. r = v @ nb \<and>
    length nb = k \<and> distinct nb \<and> unat ` set nb \<subseteq> free_blocks nblk efs V \<and>
    (\<forall>c. c \<notin> bm_range (data_bitmap efs) \<longrightarrow> V' c = V c) \<and>
    (\<forall>c. c \<in> data_used efs V' \<longleftrightarrow> c \<in> set nb \<or> c \<in> data_used efs V))"
proof (induction k arbitrary: v V)
  case 0
  then show ?case by simp
next
  case (Suc k)
  then have ne: "free_blocks nblk efs V \<noteq> {}" by auto
  have nb: "nblk < 2 ^ 32" using g by (simp add: efs_geom_def)
  show ?case unfolding alloc_data_n.simps
  proof (rule hoare_bind [OF alloc_data_ok [OF g P ne]], elim conjE)
    fix b V1 assume b: "unat b \<in> free_blocks nblk efs V" and fr: "\<forall>c. c \<notin> bm_range (data_bitmap efs) \<longrightarrow> V1 c = V c"
      and u: "\<forall>c. c \<in> data_used efs V1 \<longleftrightarrow> c = b \<or> c \<in> data_used efs V"
    have fb: "free_blocks nblk efs V1 = free_blocks nblk efs V - {unat b}"
      using free_blocks_used [of efs V1 "{b}" V, OF _ nb] u by simp
    then have k: "k \<le> card (free_blocks nblk efs V1)" using Suc.prems b free_blocks_finite by simp
    show "hr V1 P (alloc_data_n dev efs k (v @ [b])) (\<lambda>r V'. \<exists>nb. r = v @ nb \<and>
      length nb = Suc k \<and> distinct nb \<and> unat ` set nb \<subseteq> free_blocks nblk efs V \<and>
      (\<forall>c. c \<notin> bm_range (data_bitmap efs) \<longrightarrow> V' c = V c) \<and>
      (\<forall>c. c \<in> data_used efs V' \<longleftrightarrow> c \<in> set nb \<or> c \<in> data_used efs V))"
    proof (rule hoare_conseq [OF Suc.IH [OF k]], elim exE conjE)
      fix r V' nb assume "r = (v @ [b]) @ nb" "length nb = k" "distinct nb" "unat ` set nb \<subseteq> free_blocks nblk efs V1"
        "\<forall>c. c \<notin> bm_range (data_bitmap efs) \<longrightarrow> V' c = V1 c" "\<forall>c. c \<in> data_used efs V' \<longleftrightarrow> c \<in> set nb \<or> c \<in> data_used efs V1"
      with fb b fr u show "\<exists>nb. r = v @ nb \<and> length nb = Suc k \<and> distinct nb \<and> unat ` set nb \<subseteq> free_blocks nblk efs V \<and>
        (\<forall>c. c \<notin> bm_range (data_bitmap efs) \<longrightarrow> V' c = V c) \<and>
        (\<forall>c. c \<in> data_used efs V' \<longleftrightarrow> c \<in> set nb \<or> c \<in> data_used efs V)"
        by (intro exI [of _ "b # nb"]) auto
    qed
  qed
qed

lemma vfs_increase_size_ok:
  assumes geom: "efs_geom nblk efs" and P: "P \<subseteq> {..<start_block_id (data_bitmap efs)}" "card P + 1 < BLOCK_CACHE_SIZE"
    and ok: "inode_ok nblk {..<data_start efs} V di" and used: "set (inode_blocks V di) \<subseteq> data_used efs V"
    and ns: "nblocks (unat ns) \<le> INDIRECT2_BOUND"
    and room: "tblocks (nblocks (unat ns)) - tblocks (inode_nblocks di) \<le> card (free_blocks nblk efs V)"
  shows "hr V P (vfs_increase_size dev efs ns di) (enlarged nblk efs V di ns)"
proof (cases "ns < di_size di")
  case True
  then have mx: "max (di_size di) ns = di_size di" by (meson max.absorb3)
  have "enlarged nblk efs V di ns di V" if "blocks_full V di"
    unfolding enlarged_def mx using ok used length_inode_content [OF that] by (simp, blast)
  then show ?thesis
    by - (rule hoare_blocks_full [OF ok], simp add: vfs_increase_size_def True)
next
  case False
  then have le: "di_size di \<le> ns" "max (di_size di) ns = ns" by simp_all
  have sz: "unat (di_size di) \<le> unat ns" using le by (simp add: word_le_nat_alt)
  have P1: "P \<inter> bm_range (data_bitmap efs) = {}" using P(1) efs_ranges(2) [OF geom] by fastforce
  have PR: "P \<subseteq> {..<data_start efs}" using P(1) geom by (auto simp: efs_geom_def)
  have bn: "blocks_num_needed di ns = Ok (total_blocks ns - total_blocks (di_size di))"
    using le by (simp add: blocks_num_needed_def)
  have nbs: "inode_nblocks di \<le> nblocks (unat ns)" using sz by (simp add: inode_nblocks_def nblocks_mono)
  have s1: "unat (di_size di) + 511 < 2 ^ 32" and s2: "unat ns + 511 < 2 ^ 32" using nblocks_small [OF ns] sz by simp_all
  note tb = total_blocks_exact [OF s1] total_blocks_exact [OF s2]
  have "total_blocks (di_size di) \<le> total_blocks ns"
    using tblocks_mono [OF nbs] by (simp add: word_le_nat_alt tb inode_nblocks_def)
  then have kk: "unat (total_blocks ns - total_blocks (di_size di)) = tblocks (nblocks (unat ns)) - tblocks (inode_nblocks di)"
    by (simp add: unat_sub tb inode_nblocks_def)
  have eq: "vfs_increase_size dev efs ns di =
      bind (alloc_data_n dev efs (tblocks (nblocks (unat ns)) - tblocks (inode_nblocks di)) []) (\<lambda>v. increase_size dev di ns v)"
    using False by (simp add: vfs_increase_size_def bn kk)
  have cP: "card P < BLOCK_CACHE_SIZE" using P(2) by simp
  show ?thesis unfolding eq
  proof (rule hoare_bind [OF alloc_data_n_ok [OF geom P1 cP room]], elim exE conjE)
    fix r V1 nb assume r: "r = [] @ nb" and nb: "length nb = tblocks (nblocks (unat ns)) - tblocks (inode_nblocks di)" "distinct nb"
        "unat ` set nb \<subseteq> free_blocks nblk efs V" and fr: "\<forall>c. c \<notin> bm_range (data_bitmap efs) \<longrightarrow> V1 c = V c"
      and us: "\<forall>c. c \<in> data_used efs V1 \<longleftrightarrow> c \<in> set nb \<or> c \<in> data_used efs V"
    have same: "V1 (unat b) = V (unat b)" if "b \<in> set (inode_blocks V di)" for b
      using that fr ok efs_ranges(2) [OF geom, of "unat b"] by (force simp: inode_ok_def)
    have c: "inode_blocks V1 di = inode_blocks V di" "inode_content V1 di = inode_content V di"
      "inode_ok nblk {..<data_start efs} V1 di" using inode_cong [OF ok same] by simp_all
    have nfree: "b \<notin> data_used efs V" if "b \<in> set nb" for b
      using nb(3) that by (auto simp: free_blocks_def data_used_def)
    have nbr: "\<forall>b\<in>set nb. unat b < nblk \<and> unat b \<notin> {..<data_start efs}" using nb(3) by (auto simp: free_blocks_def)
    have dist: "distinct (inode_blocks V1 di @ nb)" using c ok nb(2) used nfree by (auto simp: inode_ok_def)
    have inc: "hr V1 P (increase_size dev di ns r) (\<lambda>di' V'. di_size di' = ns \<and> di_type di' = di_type di \<and>
        grown V1 di (inode_nblocks di) (nblocks (unat ns)) nb di' V')"
      unfolding r append_Nil
      by (rule increase_size_ok [OF inode_ok_reserved [OF c(3) PR] sz ns nb(1) dist _ P(2)]) (use nbr PR in auto)
    show "hr V1 P (increase_size dev di ns r) (enlarged nblk efs V di ns)"
    proof (rule hoare_blocks_full [OF c(3)])
      assume full: "blocks_full V1 di"
      show "hr V1 P (increase_size dev di ns r) (enlarged nblk efs V di ns)"
      proof (rule hoare_conseq [OF inc], elim conjE)
        fix di' V' assume d: "di_size di' = ns" "di_type di' = di_type di"
          and g: "grown V1 di (inode_nblocks di) (nblocks (unat ns)) nb di' V'"
        have n': "inode_nblocks di' = nblocks (unat ns)" by (simp add: inode_nblocks_def d)
        note g' = g [folded n']
        note ok' = grown_inode_ok [OF c(3) g' _ dist nbr, unfolded n', OF ns]
        have sets: "set (inode_blocks V' di') = set (inode_blocks V di) \<union> set nb"
          using mset_eq_setD [of "inode_blocks V' di'" "inode_blocks V1 di @ nb"] ok'(2) c(1) by simp
        have "take (unat (di_size di)) (inode_content V' di') = inode_content V di"
          using grown_content [OF full g'] sz d ok'(1) c(2) by (simp add: inode_ok_def)
        moreover have fin: "V' b = V b" if b: "b \<notin> bm_range (data_bitmap efs)" "b \<notin> unat ` set (inode_blocks V' di')" for b
        proof -
          have "b \<notin> unat ` set (metas V' di' (inode_nblocks di'))" using b(2) by (auto simp: inode_blocks_def)
          then have "V' b = V1 b" using g' by (auto simp: grown_def)
          with b(1) fr show ?thesis by simp
        qed
        moreover have "x \<in> data_used efs V' \<longleftrightarrow> x \<in> data_used efs V \<or> x \<in> set (inode_blocks V' di')" if x: "unat x < nblk" for x
        proof -
          have "V' b = V1 b" if "b \<in> bm_range (data_bitmap efs)" for b
          proof -
            have "b < data_start efs" using efs_ranges(2) [OF geom] that by blast
            then have "b \<notin> unat ` set (inode_blocks V' di')" using ok'(1) by (auto simp: inode_ok_def)
            then have "b \<notin> unat ` set (metas V' di' (inode_nblocks di'))" by (auto simp: inode_blocks_def)
            then show ?thesis using g' by (auto simp: grown_def)
          qed
          then have "x \<in> data_used efs V' \<longleftrightarrow> x \<in> data_used efs V1" using data_used_cong [OF geom _ x] by blast
          then show ?thesis using us used sets by auto
        qed
        ultimately show "enlarged nblk efs V di ns di' V'" using d le ok'(1) sets nb(3) by (auto simp: enlarged_def)
      qed
    qed
  qed
qed

lemma hoare_read_inode:
  assumes g: "efs_geom nblk efs" "i < inode_max efs" and di: "disk_inode efs V i = Some di"
    and f: "hr V {inode_block efs i} (f di) Q"
  shows "hr V {} (read_disk_inode dev (inode_at efs i) f) Q"
  unfolding read_disk_inode_def inode_at_def Inode.simps
  by (rule hoare_cache_read [where t = di])
    (use inode_slot_pos(3,5) [OF g] g di f in \<open>auto simp: efs_geom_def disk_inode_def inode_bytes_def\<close>)

lemma hoare_modify_inode:
  assumes g: "efs_geom nblk efs" "i < inode_max efs" and di: "disk_inode efs V i = Some di"
    and f: "hr V {inode_block efs i} (f di) (\<lambda>(v, di') V2. length (direct di') = INODE_DIRECT_COUNT \<and>
      V2 (inode_block efs i) = V (inode_block efs i) \<and> Q v (inode_stored efs i di' V2))"
  shows "hr V {} (modify_disk_inode dev (inode_at efs i) f) Q"
proof (rule hoare_len)
  assume len: "\<forall>b<nblk. length (V b) = BLOCK_SZ"
  have pos: "inode_block efs i < nblk" "inode_offset i + 128 \<le> BLOCK_SZ"
    using inode_slot_pos(3,5) [OF g] g by (auto simp: efs_geom_def)
  then have l: "length (inode_bytes efs V i) = 128" using len by (simp add: inode_bytes_def)
  show "hr V {} (modify_disk_inode dev (inode_at efs i) f) Q"
    unfolding modify_disk_inode_def inode_at_def Inode.simps
  proof (rule hoare_cache_modify [where t = di])
    show "hr V (insert (inode_block efs i) {}) (f di) (\<lambda>(v, t') V'.
      length (to_bytes DiskInode_layout t' (take (size_of DiskInode_layout) (drop (inode_offset i) (V (inode_block efs i))))) =
        size_of DiskInode_layout \<and>
      Q v (V'(inode_block efs i := overwrite (V (inode_block efs i)) (inode_offset i)
        (to_bytes DiskInode_layout t' (take (size_of DiskInode_layout) (drop (inode_offset i) (V (inode_block efs i))))))))"
      by (rule hoare_conseq [OF f]) (use l in \<open>auto simp: inode_stored_def inode_bytes_def\<close>)
  qed (use pos di in \<open>auto simp: disk_inode_def inode_bytes_def\<close>)
qed

lemma write_enlarged_ok:
  assumes inv: "efs_inv nblk efs V" and lv: "live efs V i" and ne: "buf \<noteq> []"
    and off: "offset \<le> unat (di_size (the_inode efs V i))" and small: "offset + length buf < USIZE_LIMIT"
    and en: "enlarged nblk efs V (the_inode efs V i) ns di' V1"
    and sz: "unat (di_size di') = max (unat (di_size (the_inode efs V i))) (offset + length buf)"
    and full: "blocks_full V (the_inode efs V i)"
  shows "hr V1 {inode_block efs i} (bind (write_at dev di' offset buf) (\<lambda>n. ret (n, di')))
    (\<lambda>(n, di') V2. n = length buf \<and> length (direct di') = INODE_DIRECT_COUNT \<and>
      V2 (inode_block efs i) = V (inode_block efs i) \<and> file_written nblk efs V i offset buf (inode_stored efs i di' V2))"
proof -
  let ?di = "the_inode efs V i" and ?P = "{inode_block efs i}"
  have g: "efs_geom nblk efs" "i < inode_max efs" using inv lv by (auto simp: efs_inv_def live_def)
  have pos: "inode_block efs i < start_block_id (data_bitmap efs)" "start_block_id (data_bitmap efs) \<le> data_start efs"
    using inode_slot_pos(3) [OF g] g(1) by (auto simp: efs_geom_def)
  have ok1: "inode_ok nblk {..<data_start efs} V1 di'" using en by (simp add: enlarged_def)
  have okP: "inode_ok nblk ?P V1 di'" by (rule inode_ok_reserved [OF ok1]) (use pos in auto)
  have "offset < unat (di_size di')" using sz ne by (cases buf) auto
  note wa = write_at_ok [OF okP _ small this ne]
  show ?thesis
  proof (rule hoare_blocks_full [OF ok1], rule hoare_bind [OF wa])
    fix n V2 assume full1: "blocks_full V1 di'" and w: "n = min (length buf) (unat (di_size di') - offset) \<and> data_written V1 di' V2 \<and>
      inode_content V2 di' = overwrite (inode_content V1 di') offset (take n buf)"
    then have n: "n = length buf" using sz by auto
    show "hr V2 ?P (ret (n, di')) (\<lambda>(n, di') V2. n = length buf \<and> length (direct di') = INODE_DIRECT_COUNT \<and>
      V2 (inode_block efs i) = V (inode_block efs i) \<and> file_written nblk efs V i offset buf (inode_stored efs i di' V2))"
    proof (rule hoare_len)
      assume len: "\<forall>b<nblk. length (V2 b) = BLOCK_SZ"
      then have "length (V2 (inode_block efs i)) = BLOCK_SZ" using pos g(1) by (simp add: efs_geom_def)
      note wr = written_replaced [OF inv lv en conjunct1 [OF conjunct2 [OF w]] this]
      have "inode_content V2 di' = overwrite (inode_content V ?di) offset buf"
        using overwrite_grown [of "inode_content V ?di" "inode_content V1 di'" offset buf] en w n off sz
        by (simp add: length_inode_content [OF full] length_inode_content [OF full1] enlarged_def)
      then have "file_written nblk efs V i offset buf (inode_stored efs i di' V2)"
        unfolding file_written_def using en sz w wr(1,2) by (intro exI [of _ di']) (simp add: enlarged_def)
      then show ?thesis using n wr(3) w ok1 by (simp add: inode_ok_def)
    qed
  qed simp
qed

lemma grow_and_write_ok:
  assumes inv: "efs_inv nblk efs V" and lv: "live efs V i" and ne: "buf \<noteq> []"
    and off: "offset \<le> unat (di_size (the_inode efs V i))" and big: "nblocks (offset + length buf) \<le> INDIRECT2_BOUND"
    and room: "tblocks (nblocks (offset + length buf)) - tblocks (inode_nblocks (the_inode efs V i)) \<le> card (free_blocks nblk efs V)"
  shows "hr V {inode_block efs i} (bind (vfs_increase_size dev efs (of_nat (offset + length buf)) (the_inode efs V i)) (\<lambda>di.
      bind (write_at dev di offset buf) (\<lambda>n. ret (n, di))))
    (\<lambda>(n, di') V2. n = length buf \<and> length (direct di') = INODE_DIRECT_COUNT \<and>
      V2 (inode_block efs i) = V (inode_block efs i) \<and> file_written nblk efs V i offset buf (inode_stored efs i di' V2))"
proof -
  let ?di = "the_inode efs V i" and ?ns = "of_nat (offset + length buf) :: u32" and ?P = "{inode_block efs i}"
  have g: "efs_geom nblk efs" "i < inode_max efs" and ok: "inode_ok nblk {..<data_start efs} V ?di"
    using inv lv by (auto simp: efs_inv_def live_def)
  have own: "set (inode_blocks V ?di) \<subseteq> data_used efs V"
    using owned_range(3) [OF inv lv] by (auto simp: owned_def)
  have small: "offset + length buf + 511 < 2 ^ 32" using nblocks_small [OF big] by simp
  then have uns: "unat ?ns = offset + length buf" by (simp add: unat_of_nat del: of_nat_add)
  have pos: "inode_block efs i < start_block_id (data_bitmap efs)" "start_block_id (data_bitmap efs) \<le> data_start efs"
    using inode_slot_pos(3) [OF g] g(1) by (auto simp: efs_geom_def)
  have inc: "hr V ?P (vfs_increase_size dev efs ?ns ?di) (enlarged nblk efs V ?di ?ns)"
    by (rule vfs_increase_size_ok [OF g(1) _ _ ok own]) (use pos big room uns in auto)
  show ?thesis
  proof (rule hoare_blocks_full [OF ok], rule hoare_bind [OF inc])
    fix di' V1 assume full: "blocks_full V ?di" and en: "enlarged nblk efs V ?di ?ns di' V1"
    have sz: "unat (di_size di') = max (unat (di_size ?di)) (offset + length buf)"
      using en uns by (simp add: enlarged_def max_def word_le_nat_alt)
    show "hr V1 ?P (bind (write_at dev di' offset buf) (\<lambda>n. ret (n, di')))
      (\<lambda>(n, di') V2. n = length buf \<and> length (direct di') = INODE_DIRECT_COUNT \<and>
        V2 (inode_block efs i) = V (inode_block efs i) \<and> file_written nblk efs V i offset buf (inode_stored efs i di' V2))"
      by (rule write_enlarged_ok [OF inv lv ne off _ en sz full]) (use small in \<open>simp add: USIZE_LIMIT_def\<close>)
  qed
qed

lemma vfs_write_body_ok:
  assumes inv: "efs_inv nblk efs V" and lv: "live efs V i" and ne: "buf \<noteq> []"
    and off: "offset \<le> unat (di_size (the_inode efs V i))" and big: "nblocks (offset + length buf) \<le> INDIRECT2_BOUND"
    and room: "tblocks (nblocks (offset + length buf)) - tblocks (inode_nblocks (the_inode efs V i)) \<le> card (free_blocks nblk efs V)"
  shows "hr V {} (modify_disk_inode dev (inode_at efs i) (\<lambda>di.
      bind (vfs_increase_size dev efs (of_nat (usize_add offset (length buf))) di) (\<lambda>di.
      bind (write_at dev di offset buf) (\<lambda>n. ret (n, di)))))
      (\<lambda>n V'. n = length buf \<and> file_written nblk efs V i offset buf V')"
proof -
  have g: "efs_geom nblk efs" "i < inode_max efs" using inv lv by (auto simp: efs_inv_def live_def)
  then have di: "disk_inode efs V i = Some (the_inode efs V i)" using inv by (auto simp: efs_inv_def the_inode_def)
  have "offset + length buf < USIZE_LIMIT" using nblocks_small [OF big] by (simp add: USIZE_LIMIT_def)
  then have ua: "usize_add offset (length buf) = offset + length buf" by (simp add: usize_add_def)
  show ?thesis unfolding ua
    by (rule hoare_modify_inode [OF g di], rule hoare_conseq [OF grow_and_write_ok [OF inv lv ne off big room]]) auto
qed

lemma vfs_read_at_ok:
  assumes inv: "efs_inv nblk efs V" and lv: "live efs V i" and small: "offset + length buf < USIZE_LIMIT"
  shows "hr V {} (vfs_read_at dev (inode_at efs i) offset buf) (\<lambda>r V'. V' = V \<and>
    (let n = min (length buf) (unat (di_size (the_inode efs V i)) - offset)
     in r = (n, overwrite buf 0 (take n (drop offset (inode_content V (the_inode efs V i)))))))"
proof -
  have g: "efs_geom nblk efs" "i < inode_max efs" using inv lv by (auto simp: efs_inv_def live_def)
  then have di: "disk_inode efs V i = Some (the_inode efs V i)" using inv by (auto simp: efs_inv_def the_inode_def)
  have "inode_ok nblk {..<data_start efs} V (the_inode efs V i)" using inv lv by (auto simp: efs_inv_def)
  then have "inode_ok nblk {inode_block efs i} V (the_inode efs V i)"
    by (rule inode_ok_reserved) (use inode_slot_pos(3) [OF g] g(1) in \<open>auto simp: efs_geom_def\<close>)
  then show ?thesis unfolding vfs_read_at_def
    by (intro hoare_read_inode [OF g di] read_at_ok) (use small in auto)
qed

lemma dealloc_data_ok:
  assumes g: "efs_geom nblk efs" and P: "P \<subseteq> {..<start_block_id (data_bitmap efs)}" "card P + 1 < BLOCK_CACHE_SIZE"
    and b: "data_start efs \<le> unat b" "unat b < nblk" "b \<in> data_used efs V"
  shows "hr V P (dealloc_data dev efs b) (\<lambda>_. blocks_freed nblk efs V {b})"
proof (rule hoare_len)
  assume len: "\<forall>b<nblk. length (V b) = BLOCK_SZ"
  let ?V1 = "V(unat b := replicate BLOCK_SZ 0)" and ?n = "unat (b - data_area_start_block efs)"
  have P1: "P \<inter> bm_range (data_bitmap efs) = {}" using P(1) efs_ranges(2) [OF g] by fastforce
  have bP: "unat b \<notin> P" using P(1) b(1) g by (auto simp: efs_geom_def)
  have m: "hr V P (cache_modify dev (unat b) 0 DataBlock (\<lambda>data_block. ret ((), map (\<lambda>_. 0) data_block))) (\<lambda>_ V'. V' = ?V1)"
    by (rule hoare_cache_modify [where t = "V (unat b)"])
      (use b bP P len in \<open>auto simp: DataBlock_def bytes_layout_def overwrite_def map_replicate_const\<close>)
  have n: "?n = unat b - data_start efs" using b(1) by (simp add: unat_sub word_le_nat_alt)
  have nm: "?n < bitmap_maximum (data_bitmap efs)" using n b g by (auto simp: efs_geom_def)
  have rng: "c \<in> bm_range (data_bitmap efs) \<Longrightarrow> c \<noteq> unat b" for c using efs_ranges(2) [OF g, of c] b(1) by auto
  have t: "bm_test ?V1 (data_bitmap efs) k = bm_test V (data_bitmap efs) k" if "k < bitmap_maximum (data_bitmap efs)" for k
    by (rule bm_test_cong [OF _ that]) (use rng in auto)
  then have bt: "bm_test ?V1 (data_bitmap efs) ?n" using b(3) n nm by (simp add: data_used_def)
  show "hr V P (dealloc_data dev efs b) (\<lambda>_. blocks_freed nblk efs V {b})"
    unfolding dealloc_data_def
  proof (rule hoare_bind [OF m], rule hoare_conseq)
    fix V1 assume "V1 = ?V1"
    then show "hr V1 P (bitmap_dealloc dev (data_bitmap efs) ?n) (\<lambda>_ V'. (\<forall>b. b \<notin> bm_range (data_bitmap efs) \<longrightarrow> V' b = ?V1 b) \<and>
        (\<forall>i. bm_test V' (data_bitmap efs) i \<longleftrightarrow> i \<noteq> ?n \<and> bm_test ?V1 (data_bitmap efs) i))"
      using bitmap_dealloc_ok [OF efs_bm_fits [OF g P1] nm bt] P(2) by simp
  next
    fix V' assume p: "(\<forall>b. b \<notin> bm_range (data_bitmap efs) \<longrightarrow> V' b = ?V1 b) \<and>
        (\<forall>i. bm_test V' (data_bitmap efs) i \<longleftrightarrow> i \<noteq> ?n \<and> bm_test ?V1 (data_bitmap efs) i)"
    have "c \<in> data_used efs V' \<longleftrightarrow> c \<in> data_used efs V \<and> c \<noteq> b" if c: "unat c < nblk" for c
    proof (cases "data_start efs \<le> unat c")
      case True
      then have k: "unat c - data_start efs < bitmap_maximum (data_bitmap efs)" using c g by (auto simp: efs_geom_def)
      have "unat c - data_start efs = ?n \<longleftrightarrow> c = b" using True b(1) n by (metis eq_diff_iff word_unat_eq_iff)
      then show ?thesis using True p t [OF k] by (simp add: data_used_def conj_commute)
    qed (simp add: data_used_def)
    moreover have "V' (unat b) = replicate BLOCK_SZ 0" using conjunct1 [OF p] rng [of "unat b"] by fastforce
    ultimately show "blocks_freed nblk efs V {b} V'" using p by (auto simp: blocks_freed_def)
  qed
qed

lemma dealloc_all_ok:
  assumes g: "efs_geom nblk efs" and P: "P \<subseteq> {..<start_block_id (data_bitmap efs)}" "card P + 1 < BLOCK_CACHE_SIZE"
  shows "distinct v \<Longrightarrow> \<forall>b\<in>set v. data_start efs \<le> unat b \<and> unat b < nblk \<and> b \<in> data_used efs V \<Longrightarrow>
    hr V P (for_each v (dealloc_data dev efs)) (\<lambda>_. blocks_freed nblk efs V (set v))"
proof (induction v arbitrary: V)
  case Nil
  then show ?case by (simp add: blocks_freed_def)
next
  case (Cons b v)
  have "hr V P (dealloc_data dev efs b) (\<lambda>_. blocks_freed nblk efs V {b})"
    by (rule dealloc_data_ok [OF g P]) (use Cons.prems in auto)
  then show ?case unfolding for_each.simps
  proof (rule hoare_bind)
    fix u V1 assume f1: "blocks_freed nblk efs V {b} V1"
    have "hr V1 P (for_each v (dealloc_data dev efs)) (\<lambda>_. blocks_freed nblk efs V1 (set v))"
      by (rule Cons.IH) (use Cons.prems f1 in \<open>auto simp: blocks_freed_def\<close>)
    then show "hr V1 P (for_each v (dealloc_data dev efs)) (\<lambda>_. blocks_freed nblk efs V (set (b # v)))"
      by (rule hoare_conseq) (use blocks_freed_trans [OF f1 _ _ g] Cons.prems in auto)
  qed
qed

lemma free_body_ok:
  assumes inv: "efs_inv nblk efs V" and lv: "live efs V i" and v: "mset v = mset (inode_blocks V (the_inode efs V i))"
    and d: "di_size di' = 0" "di_type di' = di_type (the_inode efs V i)" "length (direct di') = INODE_DIRECT_COUNT"
  shows "hr V {inode_block efs i} (bind (for_each v (dealloc_data dev efs)) (\<lambda>_. ret ((), di')))
    (\<lambda>(v, di') V2. length (direct di') = INODE_DIRECT_COUNT \<and>
      V2 (inode_block efs i) = V (inode_block efs i) \<and> file_cleared nblk efs V i (inode_stored efs i di' V2))"
proof -
  let ?P = "{inode_block efs i}"
  have g: "efs_geom nblk efs" "i < inode_max efs" and ok: "inode_ok nblk {..<data_start efs} V (the_inode efs V i)"
    using inv lv by (auto simp: efs_inv_def live_def)
  have pos: "inode_block efs i < start_block_id (data_bitmap efs)" "start_block_id (data_bitmap efs) \<le> data_start efs"
    using inode_slot_pos(3) [OF g] g(1) by (auto simp: efs_geom_def)
  have sv: "set v = owned efs V i" using mset_eq_setD [OF v] by (simp add: owned_def)
  have dv: "distinct v" using mset_eq_imp_distinct_iff [OF v] ok by (simp add: inode_ok_def)
  have rng: "\<forall>b\<in>set v. data_start efs \<le> unat b \<and> unat b < nblk \<and> b \<in> data_used efs V"
    unfolding sv using owned_range [OF inv lv] by blast
  have "hr V ?P (for_each v (dealloc_data dev efs)) (\<lambda>_. blocks_freed nblk efs V (set v))"
    by (rule dealloc_all_ok [OF g(1) _ _ dv rng]) (use pos in auto)
  then show ?thesis
  proof (rule hoare_bind)
    fix u V2 assume fr: "blocks_freed nblk efs V (set v) V2"
    show "hr V2 ?P (ret ((), di')) (\<lambda>(v, di') V2. length (direct di') = INODE_DIRECT_COUNT \<and>
      V2 (inode_block efs i) = V (inode_block efs i) \<and> file_cleared nblk efs V i (inode_stored efs i di' V2))"
    proof (rule hoare_len)
      assume "\<forall>b<nblk. length (V2 b) = BLOCK_SZ"
      then have "length (V2 (inode_block efs i)) = BLOCK_SZ" using pos g(1) by (simp add: efs_geom_def)
      note r = freed_replaced [of nblk efs V i V2 di', OF inv lv fr [unfolded sv] d(1,3) this]
      then have "file_cleared nblk efs V i (inode_stored efs i di' V2)" using d by (auto simp: file_cleared_def)
      then show ?thesis using r(2) d by simp
    qed
  qed
qed

lemma vfs_clear_body_ok:
  assumes inv: "efs_inv nblk efs V" and lv: "live efs V i"
  shows "hr V {} (modify_disk_inode dev (inode_at efs i) (\<lambda>di.
      let size = di_size di in bind (clear_size dev di) (\<lambda>(data_blocks_dealloc, di).
      bind (assert_cmd (length data_blocks_dealloc = unat (total_blocks size))) (\<lambda>_.
      bind (for_each data_blocks_dealloc (dealloc_data dev efs)) (\<lambda>_. ret ((), di)))))) (\<lambda>_. file_cleared nblk efs V i)"
proof -
  let ?di = "the_inode efs V i" and ?P = "{inode_block efs i}"
  have g: "efs_geom nblk efs" "i < inode_max efs" and ok: "inode_ok nblk {..<data_start efs} V ?di"
    using inv lv by (auto simp: efs_inv_def live_def)
  then have di: "disk_inode efs V i = Some ?di" using inv by (auto simp: efs_inv_def the_inode_def)
  have pos: "inode_block efs i < start_block_id (data_bitmap efs)" "start_block_id (data_bitmap efs) \<le> data_start efs"
    using inode_slot_pos(3) [OF g] g(1) by (auto simp: efs_geom_def)
  have okP: "inode_ok nblk ?P V ?di" by (rule inode_ok_reserved [OF ok]) (use pos in auto)
  show ?thesis
  proof (rule hoare_modify_inode [OF g di], unfold Let_def, rule hoare_bind [OF clear_size_ok [OF okP]], simp)
    fix r :: "u32 list \<times> DiskInode" and V' assume p: "V' = V \<and> mset (fst r) = mset (inode_blocks V ?di) \<and> di_size (snd r) = 0 \<and>
      di_type (snd r) = di_type ?di \<and> length (direct (snd r)) = INODE_DIRECT_COUNT"
    obtain v di' where r: "r = (v, di')" by (cases r)
    then have "length v = unat (total_blocks (di_size ?di))" using length_inode_blocks [OF ok] p by (metis fst_conv size_mset)
    then show "hr V' ?P (case r of (data_blocks_dealloc, di) \<Rightarrow>
        bind (assert_cmd (length data_blocks_dealloc = unat (total_blocks (di_size ?di)))) (\<lambda>_.
        bind (for_each data_blocks_dealloc (dealloc_data dev efs)) (\<lambda>_. ret ((), di))))
      (\<lambda>(v, di') V2. length (direct di') = INODE_DIRECT_COUNT \<and>
      V2 (inode_block efs i) = V (inode_block efs i) \<and> file_cleared nblk efs V i (inode_stored efs i di' V2))"
      using free_body_ok [OF inv lv, of v di'] p r by simp
  qed
qed

end

end
