(* ===== verification/EfsFormat.thy ===== *)
theory EfsFormat
  imports VfsData
begin

text \<open>
  Formatting and reopening a file system (\<open>EasyFileSystem::create\<close> and \<open>open\<close> of
  src/easy-fs/src/efs.rs): \<open>create\<close> establishes \<open>efs_inv\<close> with one live inode, an empty root
  directory, and \<open>open\<close> rebuilds from the super block the very file system \<open>create\<close> returned.
\<close>

section \<open>Geometry\<close>

text \<open>The parameters \<open>create\<close> is meant for: at least one inode bitmap block, an addressable number of
  inodes, and room for the inode area and a data area.\<close>

definition format_params :: "u32 \<Rightarrow> u32 \<Rightarrow> bool" where
  "format_params tot ibb \<longleftrightarrow> 0 < ibb \<and> unat ibb < 2 ^ 20 \<and> 1 + unat ibb * 1025 + 1 < unat tot \<and> unat tot + 4096 < 2 ^ 32"

lemma bitmap_share:
  fixes n :: nat
  shows "(n + 4096) div 4097 \<le> n" and "n \<le> (n + 4096) div 4097 * 4097"
proof -
  have "(n + 4096) div 4097 \<le> (4096 + n * 4097) div 4097" by (rule div_le_mono) simp
  then show "(n + 4096) div 4097 \<le> n" by simp
  show "n \<le> (n + 4096) div 4097 * 4097"
    using div_mult_mod_eq [of "n + 4096" 4097] mod_less_divisor [of 4097 "n + 4096"] by simp
qed

lemma efs_layout_numbers:
  assumes "format_params tot ibb"
  obtains efs iab dbb dab where "efs_layout tot ibb = (efs, iab, dbb, dab)"
    and "efs = \<lparr>inode_bitmap = bitmap_new 1 (unat ibb), data_bitmap = bitmap_new (unat (1 + (ibb + iab))) (unat dbb),
      inode_area_start_block = 1 + ibb, data_area_start_block = 1 + (ibb + iab) + dbb\<rparr>"
    and "efs_geom (unat tot) efs"
proof -
  have p: "1 + unat ibb * 1025 + 1 < unat tot" "0 < unat ibb" "unat ibb < 2 ^ 20" "unat tot + 4096 < 2 ^ 32"
    using assms(1) by (auto simp: format_params_def word_less_nat_alt)
  have "(511 + unat ibb * 1024 * 512) div 512 = unat ibb * 1024" by simp
  then have num: "(bitmap_maximum (bitmap_new 1 (unat ibb)) * size_of DiskInode_layout + BLOCK_SZ - 1) div BLOCK_SZ = unat ibb * 1024"
    by (simp add: bitmap_maximum_def bitmap_new_def DiskInode_layout_def)
  define iab where "iab = (of_nat (unat ibb * 1024) :: u32)"
  define dtw where "dtw = tot - 1 - (ibb + iab)"
  define dbb where "dbb = (dtw + 4096) div 4097"
  let ?dt = "unat tot - 1 - unat ibb * 1025"
  have iab: "unat iab = unat ibb * 1024" using p by (simp add: iab_def unat_of_nat del: of_nat_mult)
  have s1: "unat (1 + ibb) = 1 + unat ibb" using p by (subst unat_add_lem [THEN iffD1]) simp_all
  have s2: "unat (ibb + iab) = unat ibb * 1025" using p iab by (subst unat_add_lem [THEN iffD1]) simp_all
  have s3: "unat (1 + (ibb + iab)) = 1 + unat ibb * 1025" using p s2 by (subst unat_add_lem [THEN iffD1]) simp_all
  have "ibb + iab \<le> tot - 1" "1 \<le> tot" using p s2 by (simp_all add: word_le_nat_alt unat_sub)
  then have dtw: "unat dtw = ?dt" using s2 by (simp add: dtw_def unat_sub)
  then have "unat (dtw + 4096) = ?dt + 4096" using p by (subst unat_add_lem [THEN iffD1]) simp_all
  then have dbb: "unat dbb = (?dt + 4096) div 4097" by (simp add: dbb_def unat_div)
  have ok: "unat dbb \<le> ?dt" "?dt \<le> unat dbb * 4097" using bitmap_share [of ?dt] by (simp_all only: dbb)
  have s4: "unat (1 + (ibb + iab) + dbb) = 1 + unat ibb * 1025 + unat dbb"
    using p ok s3 by (subst unat_add_lem [THEN iffD1]) simp_all
  let ?efs = "\<lparr>inode_bitmap = bitmap_new 1 (unat ibb), data_bitmap = bitmap_new (unat (1 + (ibb + iab))) (unat dbb),
      inode_area_start_block = 1 + ibb, data_area_start_block = 1 + (ibb + iab) + dbb\<rparr>"
  have "efs_layout tot ibb = (?efs, iab, dbb, dtw - dbb)"
    by (simp only: efs_layout_def Let_def num iab_def [symmetric] dtw_def [symmetric] dbb_def [symmetric] add.assoc)
  moreover have "efs_geom (unat tot) ?efs"
    unfolding efs_geom_def using p s1 s3 s4 ok by (simp add: bitmap_new_def bitmap_maximum_def USIZE_LIMIT_def) arith
  ultimately show thesis using that by blast
qed

section \<open>Zeroed blocks\<close>

abbreviation zero_block :: bytes where
  "zero_block \<equiv> replicate BLOCK_SZ 0"

lemma zero_bm_test:
  assumes "\<And>b. b \<in> bm_range bm \<Longrightarrow> V b = zero_block" and "i < bitmap_maximum bm"
  shows "\<not> bm_test V bm i"
proof -
  have "i div BLOCK_BITS + start_block_id bm \<in> bm_range bm"
    using assms(2) by (auto simp: bm_range_def bitmap_maximum_def less_mult_imp_div_less)
  then have "V (i div BLOCK_BITS + start_block_id bm) = zero_block" by (rule assms(1))
  moreover have "i mod BLOCK_BITS div 64 < 64" using mod_less_divisor [of BLOCK_BITS i] by (simp add: less_mult_imp_div_less)
  ultimately show ?thesis by (simp add: bm_test_def bit_at_def bytes_u64s_def nth_chunks)
qed

lemma zero_disk_inode:
  assumes "V (inode_block efs i) = zero_block" and "inode_offset i + 128 \<le> BLOCK_SZ"
  shows "\<exists>di. disk_inode efs V i = Some di \<and> di_size di = 0"
  using assms by (simp add: disk_inode_def inode_bytes_def DiskInode_layout_def min_def)

section \<open>A fresh file system\<close>

definition formatted :: "nat \<Rightarrow> EasyFileSystem \<Rightarrow> (usize \<Rightarrow> bytes) \<Rightarrow> bool" where
  "formatted nblk efs V \<longleftrightarrow> efs_inv nblk efs V \<and> (\<forall>i. live efs V i \<longleftrightarrow> i = 0) \<and>
     is_dir (the_inode efs V 0) \<and> di_size (the_inode efs V 0) = 0 \<and> free_blocks nblk efs V = {data_start efs..<nblk}"

lemma empty_inode_ok:
  assumes "di_size di = 0" and "length (direct di) = INODE_DIRECT_COUNT"
  shows "inode_ok nblk R V di" and "inode_blocks V di = []"
  using assms by (simp_all add: inode_ok_def inode_blocks_def metas_def datas_def inode_nblocks_def nblocks_def)

lemma formatted_zeroed:
  assumes g: "efs_geom nblk efs" and z: "\<And>b. 0 < b \<Longrightarrow> b < nblk \<Longrightarrow> b \<notin> bm_range (inode_bitmap efs) \<Longrightarrow> V b = zero_block"
    and bits: "\<And>i. i < inode_max efs \<Longrightarrow> bm_test V (inode_bitmap efs) i \<longleftrightarrow> i = 0"
    and di: "di_size di = 0" "is_dir di" "length (direct di) = INODE_DIRECT_COUNT"
  shows "formatted nblk efs (inode_stored efs 0 di V)"
proof -
  let ?V = "inode_stored efs 0 di V"
  have geo: "start_block_id (data_bitmap efs) \<le> data_start efs" "data_start efs \<le> nblk" "0 < unat (inode_area_start_block efs)"
    "start_block_id (inode_bitmap efs) = 1" "0 < inode_max efs" "unat (inode_area_start_block efs) = 1 + bm_blocks (inode_bitmap efs)"
    "nblk - data_start efs \<le> bitmap_maximum (data_bitmap efs)"
    using g by (auto simp: efs_geom_def bitmap_maximum_def)
  note pos = inode_slot_pos [OF g]
  have zi: "V (inode_block efs i) = zero_block" if "i < inode_max efs" for i
    using z [of "inode_block efs i"] pos(3,4) [OF that] geo by (auto simp: bm_range_def)
  have len: "length (V (inode_block efs 0)) = BLOCK_SZ" using zi geo(5) by simp
  note slot = inode_stored_slot [of nblk efs 0 V di, OF g geo(5) len di(3)]
  have low: "?V b = V b" if "b < unat (inode_area_start_block efs)" for b
    using slot(3) [of b] pos(4) [OF geo(5)] that by auto
  have "bm_test ?V (inode_bitmap efs) i \<longleftrightarrow> i = 0" if "i < inode_max efs" for i
    using bm_test_cong [of "inode_bitmap efs" ?V V i, OF _ that] low efs_ranges(1) [OF g] bits [OF that] by blast
  then have lv: "live efs ?V i \<longleftrightarrow> i = 0" for i using geo(5) by (auto simp: live_def)
  have root: "the_inode efs ?V 0 = di" using slot(1) by (simp add: the_inode_def)
  have dec: "disk_inode efs ?V i \<noteq> None" if "i < inode_max efs" for i
    using slot(1) slot(2) [of i] zero_disk_inode [of V efs i] zi [OF that] pos(5) [OF that] by (cases "i = 0") auto
  have zd: "?V b = zero_block" if "b \<in> bm_range (data_bitmap efs)" for b
    using efs_ranges(2) [OF g that] slot(3) [of b] z [of b] pos(3) [OF geo(5)] geo efs_ranges(1) [OF g, of b] pos(4) [OF geo(5)]
    by fastforce
  have dt: "\<not> bm_test ?V (data_bitmap efs) i" if "i < bitmap_maximum (data_bitmap efs)" for i
    using zero_bm_test [of "data_bitmap efs" ?V i, OF zd that] by blast
  have nu: "\<not> bm_test ?V (data_bitmap efs) (b - data_start efs)" if "b < nblk" "data_start efs \<le> b" for b
    by (rule dt) (use that geo(7) in linarith)
  have own: "owned efs ?V 0 = {}" using empty_inode_ok(2) [OF di(1,3)] by (simp add: owned_def root)
  have "efs_inv nblk efs ?V"
    unfolding efs_inv_def using g dec lv own empty_inode_ok(1) [OF di(1,3)] nu by (auto simp: root data_used_def)
  then show ?thesis using lv root di nu by (auto simp: formatted_def free_blocks_def)
qed

context block_device
begin

lemma zero_blocks_ok:
  "\<forall>x\<in>set xs. x < nblk \<Longrightarrow> hr V {} (for_each xs (\<lambda>i. cache_modify dev i 0 DataBlock (\<lambda>data_block.
     ret ((), map (\<lambda>_. 0) data_block)))) (\<lambda>_ V'. \<forall>b. V' b = (if b \<in> set xs then zero_block else V b))"
proof (induction xs arbitrary: V)
  case Nil
  then show ?case by simp
next
  case (Cons x xs)
  show ?case unfolding for_each.simps
  proof (rule hoare_len)
    assume len: "\<forall>b<nblk. length (V b) = BLOCK_SZ"
    let ?c = "\<lambda>i. cache_modify dev i 0 DataBlock (\<lambda>data_block. ret ((), map (\<lambda>_. 0) data_block))"
    have m: "hr V {} (?c x) (\<lambda>_ V'. V' = V(x := zero_block))"
      by (rule hoare_cache_modify [where t = "V x"])
        (use Cons.prems len in \<open>auto simp: DataBlock_def bytes_layout_def overwrite_def map_replicate_const\<close>)
    have ih: "hr V1 {} (for_each xs ?c) (\<lambda>_ V'. \<forall>b. V' b = (if b \<in> set xs then zero_block else V1 b))" for V1
      by (rule Cons.IH) (use Cons.prems in auto)
    show "hr V {} (bind (?c x) (\<lambda>_. for_each xs ?c)) (\<lambda>_ V'. \<forall>b. V' b = (if b \<in> set (x # xs) then zero_block else V b))"
      by (rule hoare_bind [OF m], rule hoare_conseq [OF ih]) auto
  qed
qed

lemma clear_all_ok: "unat tot \<le> nblk \<Longrightarrow> hr V {} (clear_all_blocks dev tot) (\<lambda>_ V'. \<forall>b<unat tot. V' b = zero_block)"
  unfolding clear_all_blocks_def by (rule hoare_conseq [OF zero_blocks_ok]) auto

lemma alloc_inode_ok:
  assumes g: "efs_geom nblk efs" and k: "k < inode_max efs" "\<not> live efs V k"
  shows "hr V {} (alloc_inode dev efs) (\<lambda>r V'. \<exists>i. r = of_nat i \<and> i \<le> k \<and> \<not> live efs V i \<and> (\<forall>j<i. live efs V j) \<and>
    (\<forall>b. b \<notin> bm_range (inode_bitmap efs) \<longrightarrow> V' b = V b) \<and> (\<forall>j. live efs V' j \<longleftrightarrow> j = i \<or> live efs V j))"
proof -
  have "bm_fits nblk {} (inode_bitmap efs)" using g by (simp add: bm_fits_def efs_geom_def)
  note al = bitmap_alloc_ok [OF this, where V = V]
  show ?thesis unfolding alloc_inode_def
  proof (rule hoare_bind [OF al])
    fix r V' assume post: "bm_alloc_post (inode_bitmap efs) V 0 r V'"
    have nk: "\<not> bm_test V (inode_bitmap efs) k" using k by (simp add: live_def)
    with post k(1) obtain n where n: "r = Some n" by (cases r) (auto simp: bm_alloc_post_def)
    have p: "n < inode_max efs" "\<not> bm_test V (inode_bitmap efs) n" "\<forall>i<n. bm_test V (inode_bitmap efs) i"
      "\<forall>i. bm_test V' (inode_bitmap efs) i \<longleftrightarrow> i = n \<or> bm_test V (inode_bitmap efs) i"
      "\<forall>b. b \<notin> bm_range (inode_bitmap efs) \<longrightarrow> V' b = V b" using post n by (auto simp: bm_alloc_post_def)
    have "n \<le> k" using p(3) nk by (meson linorder_not_le)
    then have "\<exists>i. (of_nat n :: u32) = of_nat i \<and> i \<le> k \<and> \<not> live efs V i \<and> (\<forall>j<i. live efs V j) \<and>
        (\<forall>b. b \<notin> bm_range (inode_bitmap efs) \<longrightarrow> V' b = V b) \<and> (\<forall>j. live efs V' j \<longleftrightarrow> j = i \<or> live efs V j)"
      using p by (intro exI [of _ n]) (auto simp: live_def)
    then show "hr V' {} (bind (lift (unwrap r)) (\<lambda>i. ret (of_nat i :: u32))) (\<lambda>r V'. \<exists>i. r = of_nat i \<and> i \<le> k \<and> \<not> live efs V i \<and>
        (\<forall>j<i. live efs V j) \<and> (\<forall>b. b \<notin> bm_range (inode_bitmap efs) \<longrightarrow> V' b = V b) \<and>
        (\<forall>j. live efs V' j \<longleftrightarrow> j = i \<or> live efs V j))"
      using n by (simp add: unwrap_def)
  qed
qed

lemma initialize_inode_ok:
  assumes g: "efs_geom nblk efs" "i < inode_max efs" and di: "disk_inode efs V i = Some di"
    and Q: "\<And>di'. di' = inode_initialize di ty \<Longrightarrow> Q () (inode_stored efs i di' V)"
  shows "hr V {} (cache_modify dev (unat (fst (get_disk_inode_pos efs (of_nat i)))) (snd (get_disk_inode_pos efs (of_nat i)))
    DiskInode_layout (\<lambda>disk_inode. ret ((), inode_initialize disk_inode ty))) Q"
proof -
  have "length (direct (inode_initialize di ty)) = INODE_DIRECT_COUNT"
    using di DiskInode_from_direct by (auto simp: disk_inode_def inode_initialize_def)
  then have "hr V {} (modify_disk_inode dev (inode_at efs i) (\<lambda>disk_inode. ret ((), inode_initialize disk_inode ty))) Q"
    using Q by (intro hoare_modify_inode [OF g di]) simp
  then show ?thesis using inode_slot_pos(1,2) [OF g] by (simp add: modify_disk_inode_def inode_at_def)
qed

lemma efs_open_ok:
  assumes "0 < nblk" and "from_bytes SuperBlock_layout (take 24 (V 0)) = Some sb" and "superblock_is_valid sb"
  shows "hr V {} (efs_open dev) (\<lambda>efs V'. V' = V \<and> efs = \<lparr>inode_bitmap = bitmap_new 1 (unat (inode_bitmap_blocks sb)),
    data_bitmap = bitmap_new (unat (1 + (inode_bitmap_blocks sb + inode_area_blocks sb))) (unat (data_bitmap_blocks sb)),
    inode_area_start_block = 1 + inode_bitmap_blocks sb,
    data_area_start_block = 1 + (inode_bitmap_blocks sb + inode_area_blocks sb) + data_bitmap_blocks sb\<rparr>)"
  unfolding efs_open_def by (rule hoare_cache_read [where t = sb]) (use assms in \<open>simp_all add: Let_def\<close>)

lemma create_root_ok:
  assumes g: "efs_geom nblk efs" and z: "\<And>b. 0 < b \<Longrightarrow> b < nblk \<Longrightarrow> b \<notin> bm_range (inode_bitmap efs) \<Longrightarrow> V b = zero_block"
    and lv: "\<And>j. live efs V j \<longleftrightarrow> j = 0"
    and sb: "from_bytes SuperBlock_layout (take 24 (V 0)) = Some sb" "superblock_is_valid sb"
    and efs: "efs = \<lparr>inode_bitmap = bitmap_new 1 (unat (inode_bitmap_blocks sb)),
      data_bitmap = bitmap_new (unat (1 + (inode_bitmap_blocks sb + inode_area_blocks sb))) (unat (data_bitmap_blocks sb)),
      inode_area_start_block = 1 + inode_bitmap_blocks sb,
      data_area_start_block = 1 + (inode_bitmap_blocks sb + inode_area_blocks sb) + data_bitmap_blocks sb\<rparr>"
  shows "hr V {} (case get_disk_inode_pos efs 0 of (root_inode_block_id, root_inode_offset) \<Rightarrow>
      bind (cache_modify dev (unat root_inode_block_id) root_inode_offset DiskInode_layout (\<lambda>disk_inode.
        ret ((), inode_initialize disk_inode Directory))) (\<lambda>_.
      bind (block_cache_sync_all dev) (\<lambda>_. ret efs)))
    (\<lambda>efs' V'. formatted nblk efs' V' \<and> efs = efs' \<and> hr V' {} (efs_open dev) (\<lambda>efs'' V''. efs'' = efs' \<and> V'' = V'))"
proof -
  have n0: "0 < nblk" "0 < inode_max efs" using g by (auto simp: efs_geom_def bitmap_maximum_def)
  note pos = inode_slot_pos [OF g n0(2)]
  have "inode_block efs 0 < nblk" "inode_block efs 0 \<notin> bm_range (inode_bitmap efs)" "0 < inode_block efs 0"
    using pos(3,4) g by (auto simp: efs_geom_def bm_range_def)
  then have "V (inode_block efs 0) = zero_block" using z by blast
  from zero_disk_inode [of V efs 0, OF this pos(5)] obtain di where di: "disk_inode efs V 0 = Some di" by blast
  let ?di = "inode_initialize di Directory" and ?V = "inode_stored efs 0 (inode_initialize di Directory) V"
  have "length (direct ?di) = INODE_DIRECT_COUNT" using di DiskInode_from_direct by (auto simp: disk_inode_def inode_initialize_def)
  then have f: "formatted nblk efs ?V"
    by (intro formatted_zeroed [OF g z]) (use lv in \<open>auto simp: live_def inode_initialize_def is_dir_def\<close>)
  have "?V 0 = V 0" using \<open>0 < inode_block efs 0\<close> by (simp add: inode_stored_def)
  then have op: "hr ?V {} (efs_open dev) (\<lambda>efs' V'. efs' = efs \<and> V' = ?V)"
    using efs_open_ok [of ?V sb, OF n0(1)] sb by (auto simp: efs intro: hoare_conseq)
  have m: "hr V {} (cache_modify dev (unat (fst (get_disk_inode_pos efs 0))) (snd (get_disk_inode_pos efs 0))
    DiskInode_layout (\<lambda>disk_inode. ret ((), inode_initialize disk_inode Directory))) (\<lambda>_ V'. V' = ?V)"
    using initialize_inode_ok [OF g n0(2) di, where Q = "\<lambda>_ V'. V' = ?V"] by simp
  show ?thesis unfolding split_def
    by (rule hoare_bind [OF m], rule hoare_bind [OF hoare_sync_all]) (use f op in simp)
qed

lemma efs_create_ok:
  assumes p: "format_params tot ibb" and nb: "nblk = unat tot"
  shows "hr V {} (efs_create dev tot ibb) (\<lambda>efs V'. formatted nblk efs V' \<and> fst (efs_layout tot ibb) = efs \<and>
    hr V' {} (efs_open dev) (\<lambda>efs' V''. efs' = efs \<and> V'' = V'))"
proof -
  obtain efs iab dbb dab where lay: "efs_layout tot ibb = (efs, iab, dbb, dab)"
    and efs: "efs = \<lparr>inode_bitmap = bitmap_new 1 (unat ibb), data_bitmap = bitmap_new (unat (1 + (ibb + iab))) (unat dbb),
      inode_area_start_block = 1 + ibb, data_area_start_block = 1 + (ibb + iab) + dbb\<rparr>"
    and g: "efs_geom nblk efs" using efs_layout_numbers [OF p] nb by metis
  have n0: "0 < nblk" "0 < inode_max efs" using g by (auto simp: efs_geom_def bitmap_maximum_def)
  note pos = inode_slot_pos [OF g n0(2)]
  let ?sb = "\<lambda>sb. superblock_initialize sb tot ibb iab dbb dab"
  show ?thesis unfolding efs_create_def lay prod.case fst_conv
  proof (rule hoare_bind [OF clear_all_ok])
    fix u V1 assume z1: "\<forall>b<unat tot. V1 b = zero_block"
    obtain sb where sb: "from_bytes SuperBlock_layout (take 24 (drop 0 (V1 0))) = Some sb" using SuperBlock_from by blast
    define V2 where "V2 = V1(0 := overwrite (V1 0) 0 (to_bytes SuperBlock_layout (?sb sb) (take 24 (drop 0 (V1 0)))))"
    have m: "hr V1 {} (cache_modify dev 0 0 SuperBlock_layout (\<lambda>super_block. ret ((), ?sb super_block))) (\<lambda>_ V'. V' = V2)"
      by (rule hoare_cache_modify [where t = sb]) (use sb n0 in \<open>auto simp: V2_def\<close>)
    show "hr V1 {} (bind (cache_modify dev 0 0 SuperBlock_layout (\<lambda>super_block. ret ((), ?sb super_block))) (\<lambda>_.
        bind (alloc_inode dev efs) (\<lambda>root. bind (assert_cmd (root = 0)) (\<lambda>_.
        case get_disk_inode_pos efs 0 of (root_inode_block_id, root_inode_offset) \<Rightarrow>
        bind (cache_modify dev (unat root_inode_block_id) root_inode_offset DiskInode_layout (\<lambda>disk_inode.
          ret ((), inode_initialize disk_inode Directory))) (\<lambda>_.
        bind (block_cache_sync_all dev) (\<lambda>_. ret efs))))))
      (\<lambda>efs' V'. formatted nblk efs' V' \<and> efs = efs' \<and> hr V' {} (efs_open dev) (\<lambda>efs'' V''. efs'' = efs' \<and> V'' = V'))"
    proof (rule hoare_bind [OF m], elim ssubst, rule hoare_bind [OF alloc_inode_ok [OF g n0(2)]])
      have z2: "V2 b = zero_block" if "0 < b" "b < nblk" for b using z1 that nb by (simp add: V2_def)
      have "b \<in> bm_range (inode_bitmap efs) \<Longrightarrow> 0 < b \<and> b < nblk" for b
        using efs_ranges(1) [OF g, of b] g by (auto simp: efs_geom_def bm_range_def)
      then have nl: "\<not> live efs V2 j" for j using zero_bm_test [of "inode_bitmap efs" V2 j] z2 by (auto simp: live_def)
      then show "\<not> live efs V2 0" .
      fix r V3 assume "\<exists>i. r = of_nat i \<and> i \<le> 0 \<and> \<not> live efs V2 i \<and> (\<forall>j<i. live efs V2 j) \<and>
        (\<forall>b. b \<notin> bm_range (inode_bitmap efs) \<longrightarrow> V3 b = V2 b) \<and> (\<forall>j. live efs V3 j \<longleftrightarrow> j = i \<or> live efs V2 j)"
      then have r: "r = 0" and fr: "\<forall>b. b \<notin> bm_range (inode_bitmap efs) \<longrightarrow> V3 b = V2 b" and lv: "live efs V3 j \<longleftrightarrow> j = 0" for j
        using nl by auto
      show "hr V3 {} (bind (assert_cmd (r = 0)) (\<lambda>_.
        case get_disk_inode_pos efs 0 of (root_inode_block_id, root_inode_offset) \<Rightarrow>
        bind (cache_modify dev (unat root_inode_block_id) root_inode_offset DiskInode_layout (\<lambda>disk_inode.
          ret ((), inode_initialize disk_inode Directory))) (\<lambda>_.
        bind (block_cache_sync_all dev) (\<lambda>_. ret efs))))
      (\<lambda>efs' V'. formatted nblk efs' V' \<and> efs = efs' \<and> hr V' {} (efs_open dev) (\<lambda>efs'' V''. efs'' = efs' \<and> V'' = V'))"
      proof -
        have "V3 0 = V2 0" using fr g by (simp add: bm_range_def efs_geom_def)
        moreover have "take 24 (V2 0) = to_bytes SuperBlock_layout (?sb sb) (take 24 (drop 0 (V1 0)))"
          by (simp add: V2_def overwrite_def)
        ultimately have "from_bytes SuperBlock_layout (take 24 (V3 0)) = Some (?sb sb)" by simp
        note cr = create_root_ok [OF g _ lv this]
        show ?thesis unfolding r
          by (simp, rule cr) (use z2 fr in \<open>auto simp: superblock_initialize_def superblock_is_valid_def efs\<close>)
      qed
    qed
  qed (simp add: nb)
qed

end

end
