(* ===== verification/VfsDir.thy ===== *)
theory VfsDir
  imports EfsFormat
begin

text \<open>
  Directories (\<open>find\<close>, \<open>create\<close> and \<open>ls\<close> of src/easy-fs/src/vfs.rs).  The content of a directory is
  read as an association list from names to inode numbers: \<open>find\<close> is its lookup, \<open>ls\<close> its names, and
  \<open>create\<close> appends one entry for a fresh empty file and leaves every other file as it was.
\<close>

section \<open>Directory contents\<close>

definition dirent_at :: "bytes \<Rightarrow> nat \<Rightarrow> DirEntry" where
  "dirent_at c k = dirent_of_bytes (take DIRENT_SZ (drop (DIRENT_SZ * k) c))"

definition named :: "DirEntry \<Rightarrow> bool" where
  "named de \<longleftrightarrow> (\<exists>nm. dirent_name de = Ok nm)"

definition name_of :: "DirEntry \<Rightarrow> bytes" where
  "name_of de = (case dirent_name de of Ok nm \<Rightarrow> nm | Panic p \<Rightarrow> [])"

definition dir_list :: "bytes \<Rightarrow> (bytes \<times> u32) list" where
  "dir_list c = map (\<lambda>k. (name_of (dirent_at c k), de_inode_number (dirent_at c k))) [0..<length c div DIRENT_SZ]"

definition dir_ok :: "bytes \<Rightarrow> bool" where
  "dir_ok c \<longleftrightarrow> length c mod DIRENT_SZ = 0 \<and> (\<forall>k<length c div DIRENT_SZ. named (dirent_at c k))"

lemma dir_entry_fits: "k < length c div DIRENT_SZ \<Longrightarrow> DIRENT_SZ * k + DIRENT_SZ \<le> length c"
  by (metis add.commute div_times_less_eq_dividend dual_order.trans mult.commute mult_Suc_right mult_le_mono2 Suc_leI)

lemma length_dirent_bytes: "length bs = DIRENT_SZ \<Longrightarrow> length (dirent_as_bytes (dirent_of_bytes bs)) = DIRENT_SZ"
  by (simp add: dirent_as_bytes_def dirent_of_bytes_def)

lemma length_dirent_empty [simp]: "length (dirent_as_bytes dirent_empty) = DIRENT_SZ"
  by (simp add: dirent_as_bytes_def dirent_empty_def)

lemma dir_list_append:
  assumes "dir_ok c" and "length e = DIRENT_SZ" and "dirent_name (dirent_of_bytes e) = Ok nm"
  shows "dir_ok (c @ e)" and "dir_list (c @ e) = dir_list c @ [(nm, de_inode_number (dirent_of_bytes e))]"
proof -
  let ?n = "length c div DIRENT_SZ"
  have c: "length c = DIRENT_SZ * ?n" using assms(1) by (simp add: dir_ok_def mod_0_imp_dvd)
  have len: "length (c @ e) div DIRENT_SZ = Suc ?n" using assms(2) c by simp
  have old: "dirent_at (c @ e) k = dirent_at c k" if "k < ?n" for k
    using dir_entry_fits [OF that] by (simp add: dirent_at_def)
  have new: "dirent_at (c @ e) ?n = dirent_of_bytes e" using c assms(2) by (simp add: dirent_at_def)
  show "dir_ok (c @ e)" using assms c len old new by (auto simp: dir_ok_def less_Suc_eq named_def)
  show "dir_list (c @ e) = dir_list c @ [(nm, de_inode_number (dirent_of_bytes e))]"
    unfolding dir_list_def len using old new assms(3) by (simp add: name_of_def)
qed

text \<open>The directory with inode number \<open>d\<close>, in a well-formed file system.\<close>

definition dir_content :: "EasyFileSystem \<Rightarrow> (usize \<Rightarrow> bytes) \<Rightarrow> nat \<Rightarrow> bytes" where
  "dir_content efs V d = inode_content V (the_inode efs V d)"

definition dir_inv :: "nat \<Rightarrow> EasyFileSystem \<Rightarrow> (usize \<Rightarrow> bytes) \<Rightarrow> nat \<Rightarrow> bool" where
  "dir_inv nblk efs V d \<longleftrightarrow> efs_inv nblk efs V \<and> live efs V d \<and> is_dir (the_inode efs V d) \<and>
     dir_ok (dir_content efs V d) \<and> (\<forall>e\<in>set (dir_list (dir_content efs V d)). live efs V (unat (snd e)))"

lemma dir_invD:
  assumes "dir_inv nblk efs V d"
  shows "efs_geom nblk efs" and "d < inode_max efs" and "disk_inode efs V d = Some (the_inode efs V d)"
    and "inode_ok nblk {inode_block efs d} V (the_inode efs V d)"
proof -
  show g: "efs_geom nblk efs" "d < inode_max efs" using assms by (auto simp: dir_inv_def efs_inv_def live_def)
  then show "disk_inode efs V d = Some (the_inode efs V d)" using assms by (auto simp: dir_inv_def efs_inv_def the_inode_def)
  have "inode_ok nblk {..<data_start efs} V (the_inode efs V d)" using assms by (auto simp: dir_inv_def efs_inv_def)
  then show "inode_ok nblk {inode_block efs d} V (the_inode efs V d)"
    by (rule inode_ok_reserved) (use inode_slot_pos(3) [OF g] g(1) in \<open>auto simp: efs_geom_def\<close>)
qed

lemma vfs_new_at:
  assumes "efs_geom nblk efs" and "unat ino < inode_max efs"
  shows "(case get_disk_inode_pos efs ino of (bid, off) \<Rightarrow> vfs_new bid off) = inode_at efs (unat ino)"
  using inode_slot_pos(1,2) [OF assms] by (simp add: vfs_new_def inode_at_def)

section \<open>A new inode\<close>

definition inode_added :: "nat \<Rightarrow> EasyFileSystem \<Rightarrow> (usize \<Rightarrow> bytes) \<Rightarrow> nat \<Rightarrow> (usize \<Rightarrow> bytes) \<Rightarrow> bool" where
  "inode_added nblk efs V i V' \<longleftrightarrow> efs_inv nblk efs V' \<and> (\<forall>j. live efs V' j \<longleftrightarrow> j = i \<or> live efs V j) \<and>
     (\<forall>j. live efs V j \<longrightarrow> the_inode efs V' j = the_inode efs V j \<and>
        inode_content V' (the_inode efs V' j) = inode_content V (the_inode efs V j)) \<and>
     free_blocks nblk efs V' = free_blocks nblk efs V \<and>
     is_file (the_inode efs V' i) \<and> di_size (the_inode efs V' i) = 0"

lemma inode_addedI:
  assumes inv: "efs_inv nblk efs V" and i: "i < inode_max efs" "\<not> live efs V i"
    and fr: "\<forall>b. b \<notin> bm_range (inode_bitmap efs) \<longrightarrow> V1 b = V b" and lv: "\<forall>j. live efs V1 j \<longleftrightarrow> j = i \<or> live efs V j"
    and di: "di_size di = 0" "is_file di" "length (direct di) = INODE_DIRECT_COUNT"
    and len: "length (V1 (inode_block efs i)) = BLOCK_SZ"
  shows "inode_added nblk efs V i (inode_stored efs i di V1)"
proof -
  let ?V = "inode_stored efs i di V1"
  have g: "efs_geom nblk efs" using inv by (simp add: efs_inv_def)
  have geo: "start_block_id (data_bitmap efs) \<le> data_start efs" using g by (simp add: efs_geom_def)
  note pos = inode_slot_pos [OF g i(1)]
  note slot = inode_stored_slot [of nblk efs i V1 di, OF g i(1) len di(3)]
  have hi: "?V b = V b" if "start_block_id (data_bitmap efs) \<le> b" for b
  proof -
    have "b \<noteq> inode_block efs i" "b \<notin> bm_range (inode_bitmap efs)" using that pos(3,4) efs_ranges(1) [OF g, of b] by auto
    then show ?thesis using slot(3) fr by simp
  qed
  have low: "?V b = V1 b" if "b \<in> bm_range (inode_bitmap efs)" for b
    using slot(3) [of b] pos(4) efs_ranges(1) [OF g that] by auto
  have lv': "live efs ?V j \<longleftrightarrow> j = i \<or> live efs V j" for j
    using bm_test_cong [of "inode_bitmap efs" ?V V1 j] low lv by (auto simp: live_def)
  have root: "the_inode efs ?V i = di" using slot(1) by (simp add: the_inode_def)
  have dj: "disk_inode efs ?V j = disk_inode efs V j" if j: "j < inode_max efs" "j \<noteq> i" for j
  proof -
    have "V1 (inode_block efs j) = V (inode_block efs j)"
      using fr inode_slot_pos(4) [OF g j(1)] efs_ranges(1) [OF g, of "inode_block efs j"] by (meson leD)
    then show ?thesis using slot(2) [OF j(2)] inode_bytes_cong [of V1 efs j V] by (simp add: disk_inode_def)
  qed
  have tj: "the_inode efs ?V j = the_inode efs V j" if "live efs V j" for j
    using that i(2) dj [of j] by (cases "j = i") (simp_all add: live_def the_inode_def)
  have cong: "inode_blocks ?V (the_inode efs V j) = inode_blocks V (the_inode efs V j)"
    "inode_content ?V (the_inode efs V j) = inode_content V (the_inode efs V j)"
    "inode_ok nblk {..<data_start efs} ?V (the_inode efs V j)" if "live efs V j" for j
  proof -
    have ok: "inode_ok nblk {..<data_start efs} V (the_inode efs V j)" using inv that by (simp add: efs_inv_def)
    have same: "?V (unat b) = V (unat b)" if "b \<in> set (inode_blocks V (the_inode efs V j))" for b
      by (rule hi) (use that ok geo in \<open>auto simp: inode_ok_def\<close>)
    show "inode_blocks ?V (the_inode efs V j) = inode_blocks V (the_inode efs V j)"
      "inode_content ?V (the_inode efs V j) = inode_content V (the_inode efs V j)"
      "inode_ok nblk {..<data_start efs} ?V (the_inode efs V j)" using inode_cong [OF ok same] by simp_all
  qed
  have oi: "owned efs ?V i = {}" using empty_inode_ok(2) [OF di(1,3)] by (simp add: owned_def root)
  have oj: "owned efs ?V j = owned efs V j" if "live efs V j" for j using tj [OF that] cong(1) [OF that] by (simp add: owned_def)
  have use: "c \<in> data_used efs ?V \<longleftrightarrow> c \<in> data_used efs V" if "unat c < nblk" for c
    using data_used_cong [OF g _ that] hi efs_ranges(2) [OF g] by blast
  have "efs_inv nblk efs ?V" unfolding efs_inv_def
  proof (intro conjI allI impI)
    show "disk_inode efs ?V j \<noteq> None" if "j < inode_max efs" for j
      using slot(1) dj [OF that] inv that by (cases "j = i") (auto simp: efs_inv_def)
    show "inode_ok nblk {..<data_start efs} ?V (the_inode efs ?V j)" if "live efs ?V j" for j
      using that lv' cong(3) [of j] tj [of j] empty_inode_ok(1) [OF di(1,3)] root by auto
    show "owned efs ?V j \<inter> owned efs ?V k = {}" if "live efs ?V j" "live efs ?V k" "j \<noteq> k" for j k
    proof (cases "j = i \<or> k = i")
      case False
      then have "live efs V j" "live efs V k" using that lv' by auto
      then show ?thesis using oj inv that(3) by (simp add: efs_inv_def)
    qed (use oi in auto)
    show "b \<in> data_used efs ?V \<longleftrightarrow> (\<exists>i. live efs ?V i \<and> b \<in> owned efs ?V i)"
      if "data_start efs \<le> unat b" "unat b < nblk" for b
    proof -
      have "b \<in> data_used efs ?V \<longleftrightarrow> (\<exists>j. live efs V j \<and> b \<in> owned efs V j)" using use [OF that(2)] inv that by (simp add: efs_inv_def)
      also have "\<dots> \<longleftrightarrow> (\<exists>j. live efs ?V j \<and> b \<in> owned efs ?V j)" using lv' oi oj by auto
      finally show ?thesis .
    qed
  qed (rule g)
  moreover have "free_blocks nblk efs ?V = free_blocks nblk efs V"
  proof -
    have "\<forall>b\<in>bm_range (data_bitmap efs). ?V b = V b" using hi efs_ranges(2) [OF g] by blast
    moreover have "b - data_start efs < bitmap_maximum (data_bitmap efs)" if "b < nblk" "data_start efs \<le> b" for b
      using that g unfolding efs_geom_def by linarith
    ultimately show ?thesis using bm_test_cong [of "data_bitmap efs" ?V V] by (auto simp: free_blocks_def)
  qed
  ultimately show ?thesis using lv' tj cong(2) root di by (simp add: inode_added_def)
qed

text \<open>What creating the file \<open>nm\<close> with inode number \<open>i\<close> in the directory \<open>d\<close> does.\<close>

definition file_created :: "nat \<Rightarrow> EasyFileSystem \<Rightarrow> (usize \<Rightarrow> bytes) \<Rightarrow> nat \<Rightarrow> bytes \<Rightarrow> nat \<Rightarrow> (usize \<Rightarrow> bytes) \<Rightarrow> bool" where
  "file_created nblk efs V d nm i V' \<longleftrightarrow> \<not> live efs V i \<and> dir_inv nblk efs V' d \<and>
     dir_list (dir_content efs V' d) = dir_list (dir_content efs V d) @ [(nm, of_nat i)] \<and>
     (\<forall>j. live efs V' j \<longleftrightarrow> j = i \<or> live efs V j) \<and>
     is_file (the_inode efs V' i) \<and> di_size (the_inode efs V' i) = 0 \<and>
     (\<forall>j. live efs V j \<longrightarrow> j \<noteq> d \<longrightarrow> the_inode efs V' j = the_inode efs V j \<and>
        inode_content V' (the_inode efs V' j) = inode_content V (the_inode efs V j))"

lemma file_createdI:
  assumes inv: "dir_inv nblk efs V d" and i: "\<not> live efs V i" and ad: "inode_added nblk efs V i V2"
    and de: "dirent_name de = Ok nm" "de_inode_number de = of_nat i" "length (dirent_as_bytes de) = DIRENT_SZ"
      "dirent_of_bytes (dirent_as_bytes de) = de"
    and fw: "file_written nblk efs V2 d (length (dir_content efs V d)) (dirent_as_bytes de) V'"
  shows "file_created nblk efs V d nm i V'"
proof -
  have d: "live efs V d" "efs_inv nblk efs V2" "live efs V2 d" "i \<noteq> d" using inv ad i by (auto simp: dir_inv_def inode_added_def)
  have g: "efs_geom nblk efs" using d(2) by (simp add: efs_inv_def)
  have c2: "inode_content V2 (the_inode efs V d) = dir_content efs V d" "the_inode efs V2 d = the_inode efs V d"
    unfolding dir_content_def using ad d(1) unfolding inode_added_def by metis+
  from fw obtain di' where r: "inode_replaced nblk efs V2 d di' V'" and ty: "di_type di' = di_type (the_inode efs V d)"
    and ct: "inode_content V' di' = dir_content efs V d @ dirent_as_bytes de"
    unfolding file_written_def c2 by (auto simp: overwrite_def)
  note lv = inode_replaced_live [OF r]
  note oth = inode_replaced_others [OF d(2) r d(3)]
  have "the_inode efs V' d = di'" using r by (simp add: inode_replaced_def the_inode_def)
  then have dc: "dir_content efs V' d = dir_content efs V d @ dirent_as_bytes de" "is_dir (the_inode efs V' d)"
    using ct ty inv by (simp_all add: dir_content_def is_dir_def dir_inv_def)
  have "dir_ok (dir_content efs V d)" using inv by (simp add: dir_inv_def)
  note app = dir_list_append [OF this de(3), unfolded de(4), OF de(1)]
  have li: "live efs V2 i" "unat (of_nat i :: u32) = i" using ad inode_slot_pos(6) [OF g, of i] by (auto simp: inode_added_def live_def)
  have lj: "live efs V' j \<longleftrightarrow> j = i \<or> live efs V j" for j using lv ad by (simp add: inode_added_def)
  have "dir_inv nblk efs V' d"
    using inode_replaced_inv [OF d(2) r d(3)] dc app lj inv de(2) li by (auto simp: dir_inv_def)
  moreover have "the_inode efs V' i = the_inode efs V2 i" using oth(1) [OF li(1) d(4)] .
  moreover have "the_inode efs V' j = the_inode efs V j \<and> inode_content V' (the_inode efs V' j) = inode_content V (the_inode efs V j)"
    if j: "live efs V j" "j \<noteq> d" for j
  proof -
    have "live efs V2 j" "the_inode efs V2 j = the_inode efs V j"
      "inode_content V2 (the_inode efs V2 j) = inode_content V (the_inode efs V j)" using ad j(1) by (auto simp: inode_added_def)
    then show ?thesis using oth(1,3) [of j] j(2) by metis
  qed
  moreover have "is_file (the_inode efs V2 i)" "di_size (the_inode efs V2 i) = 0" using ad by (simp_all add: inode_added_def)
  moreover have "dir_list (dir_content efs V' d) = dir_list (dir_content efs V d) @ [(nm, of_nat i)]" using dc(1) app(2) de(2) by simp
  ultimately show ?thesis using i lj unfolding file_created_def by (metis (no_types))
qed

section \<open>Looking up\<close>

context block_device
begin

lemma read_dirent_ok:
  assumes ok: "inode_ok nblk P V di" and cP: "card P < BLOCK_CACHE_SIZE" and full: "blocks_full V di"
    and k: "k < unat (di_size di) div DIRENT_SZ" and b: "length buf = DIRENT_SZ"
  shows "hr V P (read_at dev di (DIRENT_SZ * k) buf)
    (\<lambda>r V'. V' = V \<and> r = (DIRENT_SZ, take DIRENT_SZ (drop (DIRENT_SZ * k) (inode_content V di))))"
proof -
  have len: "length (inode_content V di) = unat (di_size di)" by (rule length_inode_content [OF full])
  have fit: "DIRENT_SZ * k + DIRENT_SZ \<le> unat (di_size di)" using dir_entry_fits [of k "inode_content V di"] k len by simp
  have "unat (di_size di) < 2 ^ 32" using unsigned_less [of "di_size di", where ?'a = nat] by simp
  then have "DIRENT_SZ * k + length buf < USIZE_LIMIT" using fit b by (simp add: USIZE_LIMIT_def)
  from read_at_ok [OF ok cP this] show ?thesis
    by (rule hoare_conseq) (use fit b len in \<open>auto simp: Let_def overwrite_def min_def\<close>)
qed

lemma find_loop_ok:
  assumes ok: "inode_ok nblk P V di" and cP: "card P < BLOCK_CACHE_SIZE" and full: "blocks_full V di"
    and c: "c = inode_content V di"
  shows "\<forall>k\<in>set ks. k < unat (di_size di) div DIRENT_SZ \<and> named (dirent_at c k) \<Longrightarrow>
    length (dirent_as_bytes de) = DIRENT_SZ \<Longrightarrow>
    hr V P (find_loop dev di nm ks de) (\<lambda>r V'. V' = V \<and>
      r = map_of (map (\<lambda>k. (name_of (dirent_at c k), de_inode_number (dirent_at c k))) ks) nm)"
proof (induction ks arbitrary: de)
  case Nil
  then show ?case by simp
next
  case (Cons k ks)
  let ?e = "take DIRENT_SZ (drop (DIRENT_SZ * k) c)"
  have k: "k < unat (di_size di) div DIRENT_SZ" using Cons.prems by simp
  have "length c = unat (di_size di)" using length_inode_content [OF full] c by simp
  then have l: "length ?e = DIRENT_SZ" using dir_entry_fits [of k c] k by simp
  obtain nm' where nm': "dirent_name (dirent_at c k) = Ok nm'" using Cons.prems by (auto simp: named_def)
  note ih = Cons.IH [OF _ length_dirent_bytes [OF l]]
  show ?case unfolding find_loop.simps
    by (rule hoare_bind [OF read_dirent_ok [OF ok cP full k Cons.prems(2)]])
      (use nm' ih Cons.prems c in \<open>auto simp: dirent_at_def [symmetric] name_of_def\<close>)
qed

lemma find_inode_id_ok:
  assumes ok: "inode_ok nblk P V di" and cP: "card P < BLOCK_CACHE_SIZE" and d: "is_dir di" "dir_ok (inode_content V di)"
  shows "hr V P (find_inode_id dev nm di) (\<lambda>r V'. V' = V \<and> r = map_of (dir_list (inode_content V di)) nm)"
proof (rule hoare_blocks_full [OF ok])
  assume full: "blocks_full V di"
  have len: "length (inode_content V di) = unat (di_size di)" by (rule length_inode_content [OF full])
  show "hr V P (find_inode_id dev nm di) (\<lambda>r V'. V' = V \<and> r = map_of (dir_list (inode_content V di)) nm)"
    unfolding find_inode_id_def dir_list_def len
    using find_loop_ok [OF ok cP full refl, of "[0..<unat (di_size di) div DIRENT_SZ]" dirent_empty nm] d len
    by (simp add: dir_ok_def)
qed

lemma ls_loop_ok:
  assumes ok: "inode_ok nblk P V di" and cP: "card P < BLOCK_CACHE_SIZE" and full: "blocks_full V di"
    and c: "c = inode_content V di"
  shows "\<forall>k\<in>set ks. k < unat (di_size di) div DIRENT_SZ \<and> named (dirent_at c k) \<Longrightarrow>
    hr V P (ls_loop dev di ks v) (\<lambda>r V'. V' = V \<and> r = v @ map (\<lambda>k. name_of (dirent_at c k)) ks)"
proof (induction ks arbitrary: v)
  case Nil
  then show ?case by simp
next
  case (Cons k ks)
  have k: "k < unat (di_size di) div DIRENT_SZ" using Cons.prems by simp
  obtain nm' where nm': "dirent_name (dirent_at c k) = Ok nm'" using Cons.prems by (auto simp: named_def)
  have ih: "hr V P (ls_loop dev di ks (v @ [nm'])) (\<lambda>r V'. V' = V \<and> r = (v @ [nm']) @ map (\<lambda>k. name_of (dirent_at c k)) ks)"
    by (rule Cons.IH) (use Cons.prems in auto)
  show ?case unfolding ls_loop.simps mult.commute [of k]
    by (rule hoare_bind [OF read_dirent_ok [OF ok cP full k length_dirent_empty]])
      (use nm' ih c in \<open>auto simp: dirent_at_def [symmetric] name_of_def\<close>)
qed

lemma vfs_find_ok:
  assumes inv: "dir_inv nblk efs V d"
  shows "hr V {} (vfs_find dev efs (inode_at efs d) nm) (\<lambda>r V'. V' = V \<and>
    r = map_option (\<lambda>ino. inode_at efs (unat ino)) (map_of (dir_list (dir_content efs V d)) nm))"
proof -
  note D = dir_invD [OF inv]
  let ?r = "map_of (dir_list (dir_content efs V d)) nm"
  have f: "hr V {inode_block efs d} (find_inode_id dev nm (the_inode efs V d)) (\<lambda>r V'. V' = V \<and> r = ?r)"
    unfolding dir_content_def by (rule find_inode_id_ok [OF D(4)]) (use inv in \<open>auto simp: dir_inv_def dir_content_def\<close>)
  have "unat ino < inode_max efs" if "?r = Some ino" for ino
    using map_of_SomeD [OF that] inv by (auto simp: dir_inv_def live_def)
  then have "map_option (\<lambda>ino. case get_disk_inode_pos efs ino of (bid, off) \<Rightarrow> vfs_new bid off) ?r =
      map_option (\<lambda>ino. inode_at efs (unat ino)) ?r"
    using vfs_new_at [OF D(1)] by (cases ?r) auto
  then show ?thesis unfolding vfs_find_def
    by (intro hoare_read_inode [OF D(1-3)] hoare_bind [OF f]) simp
qed

lemma vfs_ls_ok:
  assumes inv: "dir_inv nblk efs V d"
  shows "hr V {} (vfs_ls dev (inode_at efs d)) (\<lambda>r V'. V' = V \<and> r = map fst (dir_list (dir_content efs V d)))"
proof -
  note D = dir_invD [OF inv]
  let ?di = "the_inode efs V d"
  have "hr V {inode_block efs d} (ls_loop dev ?di [0..<unat (di_size ?di) div DIRENT_SZ] [])
      (\<lambda>r V'. V' = V \<and> r = map fst (dir_list (dir_content efs V d)))"
  proof (rule hoare_blocks_full [OF D(4)])
    assume full: "blocks_full V ?di"
    have len: "length (dir_content efs V d) = unat (di_size ?di)" by (simp add: dir_content_def length_inode_content [OF full])
    show "hr V {inode_block efs d} (ls_loop dev ?di [0..<unat (di_size ?di) div DIRENT_SZ] [])
      (\<lambda>r V'. V' = V \<and> r = map fst (dir_list (dir_content efs V d)))"
      by (rule hoare_conseq [OF ls_loop_ok [OF D(4) _ full dir_content_def]])
        (use inv len in \<open>auto simp: dir_inv_def dir_ok_def dir_list_def\<close>)
  qed
  then show ?thesis unfolding vfs_ls_def by (rule hoare_read_inode [OF D(1-3)])
qed

section \<open>Creating\<close>

lemma create_entry_ok:
  assumes inv: "dir_inv nblk efs V d" and i: "\<not> live efs V i" and ad: "inode_added nblk efs V i V2"
    and nm: "length nm \<le> NAME_LENGTH_LIMIT" "\<forall>b\<in>set nm. b \<noteq> 0" "utf8_valid nm"
    and sz: "length (dir_content efs V d) = unat (di_size (the_inode efs V d))"
    and big: "nblocks (length (dir_content efs V d) + DIRENT_SZ) \<le> INDIRECT2_BOUND"
    and room: "tblocks (nblocks (length (dir_content efs V d) + DIRENT_SZ)) - tblocks (inode_nblocks (the_inode efs V d))
      \<le> card (free_blocks nblk efs V)"
  shows "hr V2 {} (modify_disk_inode dev (inode_at efs d) (\<lambda>root_inode.
      let file_count = unat (di_size root_inode) div DIRENT_SZ; new_size = (file_count + 1) * DIRENT_SZ in
      bind (vfs_increase_size dev efs (of_nat new_size) root_inode) (\<lambda>root_inode.
      bind (lift (dirent_new nm (of_nat i))) (\<lambda>dirent.
      bind (write_at dev root_inode (file_count * DIRENT_SZ) (dirent_as_bytes dirent)) (\<lambda>_. ret ((), root_inode))))))
    (\<lambda>_. file_created nblk efs V d nm i)"
proof -
  have d: "live efs V d" "efs_inv nblk efs V2" "live efs V2 d" using inv ad by (auto simp: dir_inv_def inode_added_def)
  have g: "efs_geom nblk efs" "d < inode_max efs" using d(2,3) by (auto simp: efs_inv_def live_def)
  have td: "the_inode efs V2 d = the_inode efs V d" "free_blocks nblk efs V2 = free_blocks nblk efs V"
    using ad d(1) by (auto simp: inode_added_def)
  have di: "disk_inode efs V2 d = Some (the_inode efs V d)" using d(2) g td by (auto simp: efs_inv_def the_inode_def)
  from dirent_name_new [OF nm, of "of_nat i"] obtain de where new: "dirent_new nm (of_nat i) = Ok de"
    and de: "dirent_name de = Ok nm" "de_inode_number de = of_nat i" "length (dirent_as_bytes de) = DIRENT_SZ"
      "dirent_of_bytes (dirent_as_bytes de) = de" by blast
  let ?n = "unat (di_size (the_inode efs V d)) div DIRENT_SZ"
  have n: "?n * DIRENT_SZ = length (dir_content efs V d)" "(?n + 1) * DIRENT_SZ = length (dir_content efs V d) + length (dirent_as_bytes de)"
    using inv sz de(3) by (auto simp: dir_inv_def dir_ok_def mod_0_imp_dvd)
  have ne: "dirent_as_bytes de \<noteq> []" using de(3) by auto
  note gw = grow_and_write_ok [OF d(2,3) ne, of "length (dir_content efs V d)", unfolded td, OF _ big [folded de(3)] room [folded de(3)]]
  show ?thesis
  proof (rule hoare_modify_inode [OF g di], unfold Let_def n new lift_Ok)
    show "hr V2 {inode_block efs d} (bind (vfs_increase_size dev efs (of_nat (length (dir_content efs V d) + length (dirent_as_bytes de)))
        (the_inode efs V d)) (\<lambda>root_inode. bind (ret de) (\<lambda>dirent.
        bind (write_at dev root_inode (length (dir_content efs V d)) (dirent_as_bytes dirent)) (\<lambda>_. ret ((), root_inode)))))
      (\<lambda>(v, di') V2'. length (direct di') = INODE_DIRECT_COUNT \<and> V2' (inode_block efs d) = V2 (inode_block efs d) \<and>
        file_created nblk efs V d nm i (inode_stored efs d di' V2'))"
    proof -
      have eq: "bind inc (\<lambda>di. bind (ret de) (\<lambda>dirent. bind (write_at dev di off (dirent_as_bytes dirent)) (\<lambda>_. ret ((), di))))
          = bind (bind inc (\<lambda>di. bind (write_at dev di off (dirent_as_bytes de)) (\<lambda>n. ret (n, di)))) (\<lambda>(n, di). ret ((), di))"
        for inc off by (simp add: bind_assoc)
      show ?thesis unfolding eq
        by (rule hoare_bind [OF gw]) (use sz file_createdI [OF inv i ad de] in auto)
    qed
  qed
qed

lemma create_tail_ok:
  assumes inv: "dir_inv nblk efs V d" and nm: "length nm \<le> NAME_LENGTH_LIMIT" "\<forall>b\<in>set nm. b \<noteq> 0" "utf8_valid nm"
    and big: "nblocks (length (dir_content efs V d) + DIRENT_SZ) \<le> INDIRECT2_BOUND"
    and room: "tblocks (nblocks (length (dir_content efs V d) + DIRENT_SZ)) - tblocks (inode_nblocks (the_inode efs V d))
      \<le> card (free_blocks nblk efs V)"
    and k: "k < inode_max efs" and i: "i \<le> k" "\<not> live efs V i"
    and fr: "\<forall>b. b \<notin> bm_range (inode_bitmap efs) \<longrightarrow> V1 b = V b" and lv: "\<forall>j. live efs V1 j \<longleftrightarrow> j = i \<or> live efs V j"
    and r: "r = of_nat i"
  shows "hr V1 {} (case get_disk_inode_pos efs r of (new_inode_block_id, new_inode_block_offset) \<Rightarrow>
       bind (cache_modify dev (unat new_inode_block_id) new_inode_block_offset DiskInode_layout (\<lambda>new_inode.
               ret ((), inode_initialize new_inode File))) (\<lambda>_.
       bind (modify_disk_inode dev (inode_at efs d) (\<lambda>root_inode.
               let file_count = unat (di_size root_inode) div DIRENT_SZ;
                   new_size = (file_count + 1) * DIRENT_SZ in
               bind (vfs_increase_size dev efs (of_nat new_size) root_inode) (\<lambda>root_inode.
               bind (lift (dirent_new nm r)) (\<lambda>dirent.
               bind (write_at dev root_inode (file_count * DIRENT_SZ) (dirent_as_bytes dirent)) (\<lambda>_.
               ret ((), root_inode)))))) (\<lambda>_.
       case get_disk_inode_pos efs r of (bid, off) \<Rightarrow>
       bind (block_cache_sync_all dev) (\<lambda>_. ret (Some (vfs_new bid off))))))
    (\<lambda>r V'. \<exists>i. r = Some (inode_at efs i) \<and> file_created nblk efs V d nm i V')"
proof (rule hoare_len)
  assume len: "\<forall>b<nblk. length (V1 b) = BLOCK_SZ"
  note D = dir_invD [OF inv]
  have im: "i < inode_max efs" using i(1) k by simp
  note pos = inode_slot_pos [OF D(1) im]
  have ib: "inode_block efs i < nblk" "inode_block efs i \<notin> bm_range (inode_bitmap efs)"
    using pos(3,4) D(1) efs_ranges(1) [OF D(1), of "inode_block efs i"] by (auto simp: efs_geom_def)
  obtain di where di: "disk_inode efs V1 i = Some di"
    using inv im fr ib inode_bytes_cong [of V1 efs i V] by (auto simp: dir_inv_def efs_inv_def disk_inode_def)
  have l28: "length (direct (inode_initialize di File)) = INODE_DIRECT_COUNT"
    using di DiskInode_from_direct by (auto simp: disk_inode_def inode_initialize_def)
  have ad: "inode_added nblk efs V i (inode_stored efs i (inode_initialize di File) V1)"
    by (rule inode_addedI [OF _ im i(2) fr lv _ _ l28]) (use inv len ib in \<open>auto simp: dir_inv_def inode_initialize_def is_file_def\<close>)
  note init = initialize_inode_ok [OF D(1) im di, where ty = File and Q = "\<lambda>_. inode_added nblk efs V i"]
  have okd: "inode_ok nblk {..<data_start efs} V (the_inode efs V d)" using inv by (auto simp: dir_inv_def efs_inv_def)
  have "length (V (unat b)) = BLOCK_SZ" if "b \<in> set (inode_blocks V (the_inode efs V d))" for b
  proof -
    have "data_start efs \<le> unat b" "unat b < nblk" using okd that by (auto simp: inode_ok_def)
    moreover have "unat (inode_area_start_block efs) \<le> data_start efs" using D(1) by (simp add: efs_geom_def)
    ultimately show ?thesis using fr len efs_ranges(1) [OF D(1), of "unat b"] by force
  qed
  then have "blocks_full V (the_inode efs V d)" by (auto simp: blocks_full_def inode_blocks_def)
  then have sz: "length (dir_content efs V d) = unat (di_size (the_inode efs V d))"
    unfolding dir_content_def by (rule length_inode_content)
  note entry = create_entry_ok [OF inv i(2) _ nm sz big room]
  show ?thesis unfolding split_def r
    by (rule hoare_bind [OF init], use ad in simp, rule hoare_bind [OF entry], assumption, rule hoare_bind [OF hoare_sync_all])
      (use pos(1,2) in \<open>auto simp: vfs_new_def inode_at_def intro!: hoare_ret exI [of _ i]\<close>)
qed

lemma vfs_create_exists:
  assumes inv: "dir_inv nblk efs V d" and old: "map_of (dir_list (dir_content efs V d)) nm \<noteq> None"
  shows "hr V {} (vfs_create dev efs (inode_at efs d) nm) (\<lambda>r V'. r = None \<and> V' = V)"
proof -
  note D = dir_invD [OF inv]
  have f: "hr V {} (read_disk_inode dev (inode_at efs d) (\<lambda>root_inode. bind (assert_cmd (is_dir root_inode)) (\<lambda>_.
      find_inode_id dev nm root_inode))) (\<lambda>r V'. V' = V \<and> r = map_of (dir_list (dir_content efs V d)) nm)"
    unfolding dir_content_def
    by (rule hoare_read_inode [OF D(1-3)]) (use inv find_inode_id_ok [OF D(4)] in \<open>auto simp: dir_inv_def dir_content_def\<close>)
  show ?thesis unfolding vfs_create_def by (rule hoare_bind [OF f]) (use old in auto)
qed

lemma vfs_create_new:
  assumes inv: "dir_inv nblk efs V d" and new: "map_of (dir_list (dir_content efs V d)) nm = None"
    and nm: "length nm \<le> NAME_LENGTH_LIMIT" "\<forall>b\<in>set nm. b \<noteq> 0" "utf8_valid nm"
    and k: "k < inode_max efs" "\<not> live efs V k"
    and big: "nblocks (length (dir_content efs V d) + DIRENT_SZ) \<le> INDIRECT2_BOUND"
    and room: "tblocks (nblocks (length (dir_content efs V d) + DIRENT_SZ)) - tblocks (inode_nblocks (the_inode efs V d))
      \<le> card (free_blocks nblk efs V)"
  shows "hr V {} (vfs_create dev efs (inode_at efs d) nm) (\<lambda>r V'. \<exists>i. r = Some (inode_at efs i) \<and> file_created nblk efs V d nm i V')"
proof -
  note D = dir_invD [OF inv]
  have f: "hr V {} (read_disk_inode dev (inode_at efs d) (\<lambda>root_inode. bind (assert_cmd (is_dir root_inode)) (\<lambda>_.
      find_inode_id dev nm root_inode))) (\<lambda>r V'. V' = V \<and> r = map_of (dir_list (dir_content efs V d)) nm)"
    unfolding dir_content_def
    by (rule hoare_read_inode [OF D(1-3)]) (use inv find_inode_id_ok [OF D(4)] in \<open>auto simp: dir_inv_def dir_content_def\<close>)
  let ?Q = "\<lambda>r V'. \<exists>i. r = Some (inode_at efs i) \<and> file_created nblk efs V d nm i V'"
  show ?thesis unfolding vfs_create_def
  proof (rule hoare_bind [OF f], elim conjE, hypsubst, simp only: new not_True_eq_False not_False_eq_True if_False simp_thms,
      rule hoare_bind [OF alloc_inode_ok [OF D(1) k]], elim exE conjE)
    fix r :: u32 and V1 i assume r: "r = of_nat i" and i: "i \<le> k" "\<not> live efs V i"
      and fr: "\<forall>b. b \<notin> bm_range (inode_bitmap efs) \<longrightarrow> V1 b = V b" and lv: "\<forall>j. live efs V1 j \<longleftrightarrow> j = i \<or> live efs V j"
    show "hr V1 {} (case get_disk_inode_pos efs r of (new_inode_block_id, new_inode_block_offset) \<Rightarrow>
       bind (cache_modify dev (unat new_inode_block_id) new_inode_block_offset DiskInode_layout (\<lambda>new_inode.
               ret ((), inode_initialize new_inode File))) (\<lambda>_.
       bind (modify_disk_inode dev (inode_at efs d) (\<lambda>root_inode.
               let file_count = unat (di_size root_inode) div DIRENT_SZ;
                   new_size = (file_count + 1) * DIRENT_SZ in
               bind (vfs_increase_size dev efs (of_nat new_size) root_inode) (\<lambda>root_inode.
               bind (lift (dirent_new nm r)) (\<lambda>dirent.
               bind (write_at dev root_inode (file_count * DIRENT_SZ) (dirent_as_bytes dirent)) (\<lambda>_.
               ret ((), root_inode)))))) (\<lambda>_.
       case get_disk_inode_pos efs r of (bid, off) \<Rightarrow>
       bind (block_cache_sync_all dev) (\<lambda>_. ret (Some (vfs_new bid off)))))) ?Q"
      by (rule create_tail_ok [OF inv nm big room k(1) i fr lv r])
  qed
qed

end

end
