(* ===== verification/FsSpec.thy ===== *)
theory FsSpec
  imports VfsDir
begin

text \<open>
  What the file system promises its users: a map from inode numbers to byte strings (\<open>files\<close>), kept
  on the block device.  Every public operation of src/easy-fs/src/vfs.rs refines an operation of that
  map, keeps the on-disk invariant, and writes back everything it changed; formatting a device and
  opening it again agree.  The statements are about the file-backed device of src/easy-fs-fuse.
\<close>

section \<open>The abstract file system\<close>

definition files :: "EasyFileSystem \<Rightarrow> (usize \<Rightarrow> bytes) \<Rightarrow> nat \<Rightarrow> bytes option" where
  "files efs V i = (if live efs V i then Some (inode_content V (the_inode efs V i)) else None)"

definition fs_state :: "nat \<Rightarrow> EasyFileSystem \<Rightarrow> bytes world \<Rightarrow> bool" where
  "fs_state nblk efs w \<longleftrightarrow> bf_ok nblk w \<and> pins w = {} \<and> efs_inv nblk efs (bf_view nblk w)"

text \<open>The device itself, and not only the cache, holds the current contents.\<close>

definition durable :: "nat \<Rightarrow> bytes world \<Rightarrow> bool" where
  "durable nblk w \<longleftrightarrow> (\<forall>b<nblk. blockfile_content (disk w) b = bf_view nblk w b)"

lemma files_replaced:
  assumes "efs_inv nblk efs V" and "inode_replaced nblk efs V i di' V'" and "live efs V i"
  shows "files efs V' = (files efs V)(i \<mapsto> inode_content V' di')"
proof
  fix j
  have "the_inode efs V' i = di'" using assms(2) by (simp add: inode_replaced_def the_inode_def)
  then show "files efs V' j = ((files efs V)(i \<mapsto> inode_content V' di')) j"
    using inode_replaced_others(3) [OF assms, of j] inode_replaced_live [OF assms(2)] assms(3)
    by (cases "j = i") (auto simp: files_def)
qed

lemma live_blocks_full:
  assumes "fs_state nblk efs w" and "live efs (bf_view nblk w) i"
  shows "blocks_full (bf_view nblk w) (the_inode efs (bf_view nblk w) i)"
proof -
  have "inode_ok nblk {..<data_start efs} (bf_view nblk w) (the_inode efs (bf_view nblk w) i)"
    using assms by (simp add: fs_state_def efs_inv_def)
  then show ?thesis using assms(1) bf.length_view by (auto simp: fs_state_def blocks_full_def inode_ok_def inode_blocks_def)
qed

lemma filesD:
  assumes "fs_state nblk efs w" and "files efs (bf_view nblk w) i = Some c"
  shows "live efs (bf_view nblk w) i" and "c = inode_content (bf_view nblk w) (the_inode efs (bf_view nblk w) i)"
    and "length c = unat (di_size (the_inode efs (bf_view nblk w) i))"
    and "nblocks (length c) = inode_nblocks (the_inode efs (bf_view nblk w) i)"
proof -
  show lv: "live efs (bf_view nblk w) i" and c: "c = inode_content (bf_view nblk w) (the_inode efs (bf_view nblk w) i)"
    using assms(2) by (auto simp: files_def split: if_splits)
  show l: "length c = unat (di_size (the_inode efs (bf_view nblk w) i))"
    unfolding c by (rule length_inode_content [OF live_blocks_full [OF assms(1) lv]])
  then show "nblocks (length c) = inode_nblocks (the_inode efs (bf_view nblk w) i)" by (simp add: inode_nblocks_def)
qed

text \<open>A file that owns no block any more has given all its blocks back.\<close>

lemma free_blocks_cleared:
  assumes inv: "efs_inv nblk efs V" and lv: "live efs V i" and r: "inode_replaced nblk efs V i di' V'" and nb: "inode_blocks V' di' = []"
  shows "free_blocks nblk efs V' = free_blocks nblk efs V \<union> unat ` owned efs V i"
proof (rule set_eqI)
  fix b
  have n32: "nblk < 2 ^ 32" using inv by (simp add: efs_inv_def efs_geom_def)
  show "b \<in> free_blocks nblk efs V' \<longleftrightarrow> b \<in> free_blocks nblk efs V \<union> unat ` owned efs V i"
  proof (cases "data_start efs \<le> b \<and> b < nblk")
    case True
    then have u: "unat (of_nat b :: u32) = b" using n32 by (simp add: unat_of_nat)
    have fb: "b \<in> free_blocks nblk efs X \<longleftrightarrow> of_nat b \<notin> data_used efs X" for X
      using True by (simp add: free_blocks_def data_used_def u)
    have "of_nat b \<in> data_used efs V' \<longleftrightarrow> of_nat b \<in> data_used efs V - owned efs V i"
      using r True u nb by (simp add: inode_replaced_def)
    moreover have "b \<in> unat ` owned efs V i \<longleftrightarrow> of_nat b \<in> owned efs V i" using unat_image_iff [of "of_nat b" "owned efs V i"] u by simp
    ultimately show ?thesis using fb by auto
  next
    case False
    then show ?thesis using owned_range(1,2) [OF inv lv] by (auto simp: free_blocks_def)
  qed
qed

text \<open>A command followed by \<open>block_cache_sync_all\<close> leaves its result on the device.\<close>

lemma runs_synced:
  assumes m: "hoare nblk (blockfile_ok nblk) blockfile_content (bf_view nblk w) {} m Q" and w: "bf_ok nblk w" "pins w = {}"
  shows "runs (bind m (\<lambda>a. bind (block_cache_sync_all BlockFile) (\<lambda>_. ret a))) w
    (\<lambda>a w'. bf_ok nblk w' \<and> pins w' = {} \<and> durable nblk w' \<and> Q a (bf_view nblk w'))"
proof -
  from bf.hoareD [OF m w(1) refl w(2)] obtain a w1 where a: "m w = Ok (a, w1)"
    and w1: "bf_ok nblk w1" "pins w1 = {}" "Q a (bf_view nblk w1)" by (auto simp: runs_iff)
  from bf.sync_all_ok [OF w1(1,2)] obtain w2 where s: "block_cache_sync_all BlockFile w1 = Ok ((), w2)"
    and w2: "bf_ok nblk w2" "bf_view nblk w2 = bf_view nblk w1" "pins w2 = {}"
      "\<forall>bid<nblk. blockfile_content (disk w2) bid = bf_view nblk w1 bid" by blast
  show ?thesis using a s w1 w2 by (simp add: runs_iff bind_def ret_def durable_def)
qed

lemma bind_unit_ret: "bind m (\<lambda>a. bind s (\<lambda>_. ret a)) = bind m (\<lambda>_. s)" for m s :: "('s, unit) cmd"
  by (simp add: bind_def ret_def fun_eq_iff split: res.splits prod.splits)

lemmas runs_synced_unit = runs_synced [where ?'a = unit, unfolded bind_unit_ret]

section \<open>A formatted device\<close>

text \<open>A device of 1030 blocks, formatted with one inode bitmap block: three data blocks.\<close>

definition sample_fs :: "EasyFileSystem \<times> bytes world" where
  "sample_fs = (case efs_create BlockFile 1030 1 (blank 1030) of Ok r \<Rightarrow> r | Panic _ \<Rightarrow> (fst (efs_layout 1030 1), blank 1030))"

lemma sample_fs_ok:
  "fs_state 1030 (fst sample_fs) (snd sample_fs)" "formatted 1030 (fst sample_fs) (bf_view 1030 (snd sample_fs))"
  "data_start (fst sample_fs) = 1027"
proof -
  have p: "format_params 1030 1" by (simp add: format_params_def)
  have b: "bf_ok 1030 (blank 1030)" "pins (blank 1030) = {}" using blank_ok [of 1030] by (simp_all add: USIZE_LIMIT_def)
  from bf.hoareD [OF bf.efs_create_ok [OF p] b(1) refl b(2)] obtain efs w where
    r: "efs_create BlockFile 1030 1 (blank 1030) = Ok (efs, w)" "bf_ok 1030 w" "pins w = {}"
      "formatted 1030 efs (bf_view 1030 w)" "fst (efs_layout 1030 1) = efs"
    by (auto simp: runs_iff)
  then show "fs_state 1030 (fst sample_fs) (snd sample_fs)" "formatted 1030 (fst sample_fs) (bf_view 1030 (snd sample_fs))"
    by (simp_all add: sample_fs_def fs_state_def formatted_def)
  have "fst sample_fs = fst (efs_layout 1030 1)" using r by (simp add: sample_fs_def)
  then show "data_start (fst sample_fs) = 1027"
    by (simp add: efs_layout_def Let_def bitmap_maximum_def bitmap_new_def DiskInode_layout_def)
qed

lemma sample_fs_root:
  "files (fst sample_fs) (bf_view 1030 (snd sample_fs)) 0 = Some []"
  "card (free_blocks 1030 (fst sample_fs) (bf_view 1030 (snd sample_fs))) = 3"
proof -
  have lv: "live (fst sample_fs) (bf_view 1030 (snd sample_fs)) 0" and z: "di_size (the_inode (fst sample_fs) (bf_view 1030 (snd sample_fs)) 0) = 0"
    and fb: "free_blocks 1030 (fst sample_fs) (bf_view 1030 (snd sample_fs)) = {data_start (fst sample_fs)..<1030}"
    using sample_fs_ok(2) by (auto simp: formatted_def)
  have "length (inode_content (bf_view 1030 (snd sample_fs)) (the_inode (fst sample_fs) (bf_view 1030 (snd sample_fs)) 0)) = 0"
    using length_inode_content [OF live_blocks_full [OF sample_fs_ok(1) lv]] z by simp
  then show "files (fst sample_fs) (bf_view 1030 (snd sample_fs)) 0 = Some []" using lv by (simp add: files_def)
  show "card (free_blocks 1030 (fst sample_fs) (bf_view 1030 (snd sample_fs))) = 3" using fb sample_fs_ok(3) by simp
qed

lemma sample_fs_dir:
  "dir_inv 1030 (fst sample_fs) (bf_view 1030 (snd sample_fs)) 0" "dir_content (fst sample_fs) (bf_view 1030 (snd sample_fs)) 0 = []"
  "1 < inode_max (fst sample_fs)" "\<not> live (fst sample_fs) (bf_view 1030 (snd sample_fs)) 1"
proof -
  have f: "live (fst sample_fs) (bf_view 1030 (snd sample_fs)) i \<longleftrightarrow> i = 0" "is_dir (the_inode (fst sample_fs) (bf_view 1030 (snd sample_fs)) 0)"
    "efs_inv 1030 (fst sample_fs) (bf_view 1030 (snd sample_fs))" for i
    using sample_fs_ok(2) by (auto simp: formatted_def)
  show c: "dir_content (fst sample_fs) (bf_view 1030 (snd sample_fs)) 0 = []"
    using filesD(2) [OF sample_fs_ok(1) sample_fs_root(1)] by (simp add: dir_content_def)
  then show "dir_inv 1030 (fst sample_fs) (bf_view 1030 (snd sample_fs)) 0"
    using f by (simp add: dir_inv_def dir_ok_def dir_list_def)
  show "\<not> live (fst sample_fs) (bf_view 1030 (snd sample_fs)) 1" using f(1) by simp
  show "1 < inode_max (fst sample_fs)" using f(3) by (auto simp: efs_inv_def efs_geom_def bitmap_maximum_def)
qed

text \<open>The same device after a file named \<open>a\<close> has been created in its root directory.\<close>

definition sample_fs_a :: "bytes world" where
  "sample_fs_a = (case vfs_create BlockFile (fst sample_fs) (inode_at (fst sample_fs) 0) [97] (snd sample_fs) of
     Ok r \<Rightarrow> snd r | Panic _ \<Rightarrow> snd sample_fs)"

lemma sample_fs_a_created:
  obtains i where "fs_state 1030 (fst sample_fs) sample_fs_a"
    and "file_created 1030 (fst sample_fs) (bf_view 1030 (snd sample_fs)) 0 [97] i (bf_view 1030 sample_fs_a)"
proof -
  have s: "bf_ok 1030 (snd sample_fs)" "pins (snd sample_fs) = {}" using sample_fs_ok(1) by (auto simp: fs_state_def)
  have nb: "nblocks (length (dir_content (fst sample_fs) (bf_view 1030 (snd sample_fs)) 0)) =
      inode_nblocks (the_inode (fst sample_fs) (bf_view 1030 (snd sample_fs)) 0)"
    using filesD(4) [OF sample_fs_ok(1) sample_fs_root(1)] sample_fs_dir(2) by simp
  have cr: "hoare 1030 (blockfile_ok 1030) blockfile_content (bf_view 1030 (snd sample_fs)) {}
    (vfs_create BlockFile (fst sample_fs) (inode_at (fst sample_fs) 0) [97])
    (\<lambda>r V'. \<exists>i. r = Some (inode_at (fst sample_fs) i) \<and> file_created 1030 (fst sample_fs) (bf_view 1030 (snd sample_fs)) 0 [97] i V')"
    by (rule bf.vfs_create_new [OF sample_fs_dir(1) _ _ _ _ sample_fs_dir(3,4)])
      (simp_all add: sample_fs_dir(2) sample_fs_root(2) dir_list_def nblocks_def tblocks_def nb [symmetric])
  from bf.hoareD [OF cr s(1) refl s(2)] obtain a w' i where
    r: "vfs_create BlockFile (fst sample_fs) (inode_at (fst sample_fs) 0) [97] (snd sample_fs) = Ok (a, w')" "bf_ok 1030 w'" "pins w' = {}"
      "file_created 1030 (fst sample_fs) (bf_view 1030 (snd sample_fs)) 0 [97] i (bf_view 1030 w')"
    by (auto simp: runs_iff)
  then have "sample_fs_a = w'" by (simp add: sample_fs_a_def)
  with r show thesis by (intro that [of i]) (auto simp: fs_state_def file_created_def dir_inv_def)
qed

lemma sample_fs_a_ok:
  "fs_state 1030 (fst sample_fs) sample_fs_a" "dir_inv 1030 (fst sample_fs) (bf_view 1030 sample_fs_a) 0"
  "[97] \<in> fst ` set (dir_list (dir_content (fst sample_fs) (bf_view 1030 sample_fs_a) 0))"
  by (rule sample_fs_a_created, simp add: file_created_def)+

section \<open>Properties\<close>

text \<open>C1. \<open>Inode::write_at\<close> refines an update of the abstract file system: a non-empty write that
  starts inside or at the end of a file, and for which enough data blocks are free, returns the
  length of the buffer, changes that range of that file (extending it as needed) and no other file,
  keeps the on-disk invariant, and is on the device when it returns.\<close>

theorem vfs_write_correct:
  assumes st: "fs_state nblk efs w" and c: "files efs (bf_view nblk w) i = Some c"
    and buf: "buf \<noteq> []" "offset \<le> length c" "nblocks (offset + length buf) \<le> INDIRECT2_BOUND"
    and room: "tblocks (nblocks (offset + length buf)) - tblocks (nblocks (length c)) \<le> card (free_blocks nblk efs (bf_view nblk w))"
  shows "runs (vfs_write_at BlockFile efs (inode_at efs i) offset buf) w (\<lambda>n w'. n = length buf \<and>
    fs_state nblk efs w' \<and> durable nblk w' \<and>
    files efs (bf_view nblk w') = (files efs (bf_view nblk w))(i \<mapsto> overwrite c offset buf))"
proof -
  note F = filesD [OF st c]
  have s: "bf_ok nblk w" "pins w = {}" "efs_inv nblk efs (bf_view nblk w)" using st by (auto simp: fs_state_def)
  have post: "efs_inv nblk efs V' \<and> files efs V' = (files efs (bf_view nblk w))(i \<mapsto> overwrite c offset buf)"
    if "file_written nblk efs (bf_view nblk w) i offset buf V'" for V'
    using that files_replaced [OF s(3) _ F(1)] inode_replaced_inv [OF s(3) _ F(1)] F(2) by (auto simp: file_written_def)
  show ?thesis unfolding vfs_write_at_def
    by (rule runs_mono [OF runs_synced [OF bf.vfs_write_body_ok [OF s(3) F(1) buf(1)] s(1,2)]])
      (use buf room F post in \<open>auto simp: fs_state_def\<close>)
qed

lemma vfs_write_correct_witness:
  "runs (vfs_write_at BlockFile (fst sample_fs) (inode_at (fst sample_fs) 0) 0 [1, 2, 3]) (snd sample_fs) (\<lambda>n w'.
    n = length [1, 2, 3 :: u8] \<and> fs_state 1030 (fst sample_fs) w' \<and> durable 1030 w' \<and>
    files (fst sample_fs) (bf_view 1030 w') =
      (files (fst sample_fs) (bf_view 1030 (snd sample_fs)))(0 \<mapsto> overwrite [] 0 [1, 2, 3]))"
  by (rule vfs_write_correct [OF sample_fs_ok(1) sample_fs_root(1)])
    (simp_all add: sample_fs_root(2) nblocks_def tblocks_def)

text \<open>C23. \<open>Inode::read_at\<close> returns and copies into the buffer the bytes of the file from \<open>offset\<close> on, as
  many as the buffer holds and the file has; it changes nothing.\<close>

theorem vfs_read_correct:
  assumes st: "fs_state nblk efs w" and c: "files efs (bf_view nblk w) i = Some c" and "offset + length buf < USIZE_LIMIT"
  shows "runs (vfs_read_at BlockFile (inode_at efs i) offset buf) w (\<lambda>(n, buf') w'. fs_state nblk efs w' \<and>
    files efs (bf_view nblk w') = files efs (bf_view nblk w) \<and>
    n = min (length buf) (length c - offset) \<and> buf' = take n (drop offset c) @ drop n buf)"
proof -
  note F = filesD [OF st c]
  have s: "bf_ok nblk w" "pins w = {}" "efs_inv nblk efs (bf_view nblk w)" using st by (auto simp: fs_state_def)
  show ?thesis
    by (rule runs_mono [OF bf.hoareD [OF bf.vfs_read_at_ok [OF s(3) F(1) assms(3)] s(1) refl s(2)]])
      (auto simp: fs_state_def Let_def overwrite_def s F(3) [symmetric] F(2) [symmetric] min_def)
qed

lemma vfs_read_correct_witness:
  "\<exists>c. files (fst sample_fs) (bf_view 1030 sample_fs_a) 0 = Some c \<and> c \<noteq> [] \<and>
    runs (vfs_read_at BlockFile (inode_at (fst sample_fs) 0) 0 [9]) sample_fs_a (\<lambda>(n, buf') w'. n = 1 \<and> buf' = [hd c])"
proof -
  let ?c = "dir_content (fst sample_fs) (bf_view 1030 sample_fs_a) 0"
  have f: "files (fst sample_fs) (bf_view 1030 sample_fs_a) 0 = Some ?c" using sample_fs_a_ok(2) by (simp add: files_def dir_content_def dir_inv_def)
  have "dir_list ?c \<noteq> []" using sample_fs_a_ok(3) by auto
  then have c: "?c \<noteq> []" by (auto simp: dir_list_def)
  then have "take 1 ?c = [hd ?c]" "1 \<le> length ?c" by (cases ?c; simp)+
  moreover have "0 + length [9 :: u8] < USIZE_LIMIT" by (simp add: USIZE_LIMIT_def)
  from vfs_read_correct [OF sample_fs_a_ok(1) f this]
  have "runs (vfs_read_at BlockFile (inode_at (fst sample_fs) 0) 0 [9]) sample_fs_a (\<lambda>(n, buf') w'.
    n = min (length [9 :: u8]) (length ?c - 0) \<and> buf' = take n (drop 0 ?c) @ drop n [9])" by (rule runs_mono) auto
  ultimately have "runs (vfs_read_at BlockFile (inode_at (fst sample_fs) 0) 0 [9]) sample_fs_a (\<lambda>(n, buf') w'. n = 1 \<and> buf' = [hd ?c])"
    by (elim runs_mono) auto
  then show ?thesis using f c by blast
qed

text \<open>C13. \<open>Inode::clear\<close> empties one file and no other, and gives all its blocks back: exactly the
  blocks it owned become free, each of them zeroed, and the invariant holds on the device.\<close>

theorem vfs_clear_correct:
  assumes st: "fs_state nblk efs w" and c: "files efs (bf_view nblk w) i = Some c"
  shows "runs (vfs_clear BlockFile efs (inode_at efs i)) w (\<lambda>_ w'. fs_state nblk efs w' \<and> durable nblk w' \<and>
    files efs (bf_view nblk w') = (files efs (bf_view nblk w))(i \<mapsto> []) \<and>
    free_blocks nblk efs (bf_view nblk w') = free_blocks nblk efs (bf_view nblk w) \<union> unat ` owned efs (bf_view nblk w) i \<and>
    (\<forall>b\<in>owned efs (bf_view nblk w) i. bf_view nblk w' (unat b) = replicate BLOCK_SZ 0))"
proof -
  note F = filesD [OF st c]
  have s: "bf_ok nblk w" "pins w = {}" "efs_inv nblk efs (bf_view nblk w)" using st by (auto simp: fs_state_def)
  let ?V = "bf_view nblk w"
  have post: "efs_inv nblk efs V' \<and> files efs V' = (files efs ?V)(i \<mapsto> []) \<and>
      free_blocks nblk efs V' = free_blocks nblk efs ?V \<union> unat ` owned efs ?V i"
    if "file_cleared nblk efs ?V i V'" for V'
  proof -
    from that obtain di' where r: "inode_replaced nblk efs ?V i di' V'" and z: "di_size di' = 0" by (auto simp: file_cleared_def)
    have "length (direct di') = INODE_DIRECT_COUNT" using r by (simp add: inode_replaced_def inode_ok_def)
    then have nb: "inode_blocks V' di' = []" using empty_inode_ok(2) z by blast
    have "inode_content V' di' = []" by (simp add: inode_content_def z)
    then show ?thesis using files_replaced [OF s(3) r F(1)] inode_replaced_inv [OF s(3) r F(1)]
        free_blocks_cleared [OF s(3) F(1) r nb] by simp
  qed
  show ?thesis unfolding vfs_clear_def
    by (rule runs_mono [OF runs_synced_unit [ OF bf.vfs_clear_body_ok [OF s(3) F(1)] s(1,2)]])
      (use post in \<open>auto simp: fs_state_def file_cleared_def\<close>)
qed

lemma vfs_clear_correct_witness:
  "runs (vfs_clear BlockFile (fst sample_fs) (inode_at (fst sample_fs) 0)) (snd sample_fs) (\<lambda>_ w'. fs_state 1030 (fst sample_fs) w' \<and>
    durable 1030 w' \<and> files (fst sample_fs) (bf_view 1030 w') = (files (fst sample_fs) (bf_view 1030 (snd sample_fs)))(0 \<mapsto> []) \<and>
    free_blocks 1030 (fst sample_fs) (bf_view 1030 w') = free_blocks 1030 (fst sample_fs) (bf_view 1030 (snd sample_fs)) \<union>
      unat ` owned (fst sample_fs) (bf_view 1030 (snd sample_fs)) 0 \<and>
    (\<forall>b\<in>owned (fst sample_fs) (bf_view 1030 (snd sample_fs)) 0. bf_view 1030 w' (unat b) = replicate BLOCK_SZ 0))"
  by (rule vfs_clear_correct [OF sample_fs_ok(1) sample_fs_root(1)])

text \<open>C4. \<open>Inode::create\<close> of a new name in a directory, with a free inode and room for the entry,
  returns the handle of a fresh empty file; looking the name up afterwards finds that file, every
  other name is found as before, and no other file changes.\<close>

theorem vfs_create_find:
  assumes st: "fs_state nblk efs w" and d: "dir_inv nblk efs (bf_view nblk w) d"
    and nm: "map_of (dir_list (dir_content efs (bf_view nblk w) d)) nm = None" "length nm \<le> NAME_LENGTH_LIMIT" "\<forall>b\<in>set nm. b \<noteq> 0" "utf8_valid nm"
    and k: "k < inode_max efs" "\<not> live efs (bf_view nblk w) k"
    and big: "nblocks (length (dir_content efs (bf_view nblk w) d) + DIRENT_SZ) \<le> INDIRECT2_BOUND"
    and room: "tblocks (nblocks (length (dir_content efs (bf_view nblk w) d) + DIRENT_SZ)) -
      tblocks (nblocks (length (dir_content efs (bf_view nblk w) d))) \<le> card (free_blocks nblk efs (bf_view nblk w))"
  shows "runs (bind (vfs_create BlockFile efs (inode_at efs d) nm) (\<lambda>r. bind (vfs_find BlockFile efs (inode_at efs d) nm') (\<lambda>r'. ret (r, r'))))
    w (\<lambda>(r, r') w'. fs_state nblk efs w' \<and> (\<exists>i. files efs (bf_view nblk w) i = None \<and> files efs (bf_view nblk w') i = Some [] \<and>
      (\<forall>j. j \<noteq> i \<longrightarrow> j \<noteq> d \<longrightarrow> files efs (bf_view nblk w') j = files efs (bf_view nblk w) j) \<and>
      r = Some (inode_at efs i) \<and>
      r' = (if nm' = nm then Some (inode_at efs i)
            else map_option (\<lambda>ino. inode_at efs (unat ino)) (map_of (dir_list (dir_content efs (bf_view nblk w) d)) nm'))))"
proof -
  have s: "bf_ok nblk w" "pins w = {}" "live efs (bf_view nblk w) d" using st d by (auto simp: fs_state_def dir_inv_def)
  let ?V = "bf_view nblk w" and ?l = "dir_list (dir_content efs (bf_view nblk w) d)"
  have "files efs ?V d = Some (dir_content efs ?V d)" using s(3) by (simp add: files_def dir_content_def)
  note F = filesD(4) [OF st this]
  let ?Q = "\<lambda>(r, r') V'. efs_inv nblk efs V' \<and> (\<exists>i. files efs ?V i = None \<and> files efs V' i = Some [] \<and>
      (\<forall>j. j \<noteq> i \<longrightarrow> j \<noteq> d \<longrightarrow> files efs V' j = files efs ?V j) \<and> r = Some (inode_at efs i) \<and>
      r' = (if nm' = nm then Some (inode_at efs i) else map_option (\<lambda>ino. inode_at efs (unat ino)) (map_of ?l nm')))"
  have fin: "?Q (Some (inode_at efs i), map_option (\<lambda>ino. inode_at efs (unat ino)) (map_of (dir_list (dir_content efs V' d)) nm')) V'"
    if fc: "file_created nblk efs ?V d nm i V'" for i V'
  proof -
    have li: "live efs V' i" "i < inode_max efs" and e: "efs_inv nblk efs V'" using fc by (auto simp: file_created_def live_def dir_inv_def)
    have u: "unat (of_nat i :: u32) = i" by (rule inode_slot_pos(6) [of nblk]) (use e li in \<open>auto simp: efs_inv_def\<close>)
    have m: "map_of (dir_list (dir_content efs V' d)) nm' = (if nm' = nm then Some (of_nat i) else map_of ?l nm')"
      using fc nm(1) by (auto simp: file_created_def map_add_def split: option.splits)
    have "files efs V' i = Some []" using fc li by (simp add: files_def file_created_def inode_content_def)
    moreover have "files efs ?V i = None" using fc by (simp add: files_def file_created_def)
    moreover have "files efs V' j = files efs ?V j" if "j \<noteq> i" "j \<noteq> d" for j
      using fc that unfolding files_def file_created_def by metis
    ultimately show ?thesis using m u e by auto
  qed
  have "hoare nblk (blockfile_ok nblk) blockfile_content ?V {} (bind (vfs_create BlockFile efs (inode_at efs d) nm) (\<lambda>r.
      bind (vfs_find BlockFile efs (inode_at efs d) nm') (\<lambda>r'. ret (r, r')))) ?Q"
  proof (rule bf.hoare_bind [OF bf.vfs_create_new [OF d nm k big room [unfolded F]]], elim exE conjE)
    fix r V' i assume r: "r = Some (inode_at efs i)" and fc: "file_created nblk efs ?V d nm i V'"
    have "dir_inv nblk efs V' d" using fc by (simp add: file_created_def)
    then show "hoare nblk (blockfile_ok nblk) blockfile_content V' {} (bind (vfs_find BlockFile efs (inode_at efs d) nm') (\<lambda>r'. ret (r, r'))) ?Q"
      by (rule bf.hoare_bind [OF bf.vfs_find_ok]) (use r fin [OF fc] in \<open>auto intro!: bf.hoare_ret\<close>)
  qed
  from bf.hoareD [OF this s(1) refl s(2)] show ?thesis by (rule runs_mono) (auto simp: fs_state_def)
qed

lemma vfs_create_find_witness:
  "runs (bind (vfs_create BlockFile (fst sample_fs) (inode_at (fst sample_fs) 0) [97]) (\<lambda>r.
      bind (vfs_find BlockFile (fst sample_fs) (inode_at (fst sample_fs) 0) [97]) (\<lambda>r'. ret (r, r'))))
    (snd sample_fs) (\<lambda>(r, r') w'. fs_state 1030 (fst sample_fs) w' \<and>
      (\<exists>i. files (fst sample_fs) (bf_view 1030 (snd sample_fs)) i = None \<and> files (fst sample_fs) (bf_view 1030 w') i = Some [] \<and>
      (\<forall>j. j \<noteq> i \<longrightarrow> j \<noteq> 0 \<longrightarrow> files (fst sample_fs) (bf_view 1030 w') j = files (fst sample_fs) (bf_view 1030 (snd sample_fs)) j) \<and>
      r = Some (inode_at (fst sample_fs) i) \<and>
      r' = (if [97 :: u8] = [97] then Some (inode_at (fst sample_fs) i)
            else map_option (\<lambda>ino. inode_at (fst sample_fs) (unat ino))
              (map_of (dir_list (dir_content (fst sample_fs) (bf_view 1030 (snd sample_fs)) 0)) [97]))))"
  by (rule vfs_create_find [OF sample_fs_ok(1) sample_fs_dir(1) _ _ _ _ sample_fs_dir(3,4)])
    (simp_all add: sample_fs_dir(2) sample_fs_root(2) dir_list_def nblocks_def tblocks_def)

text \<open>C33. \<open>Inode::create\<close> of a name the directory already has returns \<open>None\<close> and changes no file and no
  block; \<open>Inode::ls\<close> lists exactly the names of the directory, in the order they were created.\<close>

theorem vfs_create_existing:
  assumes st: "fs_state nblk efs w" and d: "dir_inv nblk efs (bf_view nblk w) d"
    and nm: "nm \<in> fst ` set (dir_list (dir_content efs (bf_view nblk w) d))"
  shows "runs (bind (vfs_ls BlockFile (inode_at efs d)) (\<lambda>names. bind (vfs_create BlockFile efs (inode_at efs d) nm) (\<lambda>r. ret (names, r)))) w
    (\<lambda>(names, r) w'. names = map fst (dir_list (dir_content efs (bf_view nblk w) d)) \<and>
       r = None \<and> fs_state nblk efs w' \<and> bf_view nblk w' = bf_view nblk w)"
proof -
  let ?V = "bf_view nblk w" and ?l = "dir_list (dir_content efs (bf_view nblk w) d)"
  have s: "bf_ok nblk w" "pins w = {}" "efs_inv nblk efs ?V" using st by (auto simp: fs_state_def)
  have "map_of ?l nm \<noteq> None" using nm by (auto simp: map_of_eq_None_iff)
  note ex = bf.vfs_create_exists [OF d this]
  have "hoare nblk (blockfile_ok nblk) blockfile_content ?V {} (bind (vfs_ls BlockFile (inode_at efs d)) (\<lambda>names.
      bind (vfs_create BlockFile efs (inode_at efs d) nm) (\<lambda>r. ret (names, r)))) (\<lambda>a V'. a = (map fst ?l, None) \<and> V' = ?V)"
    by (rule bf.hoare_bind [OF bf.vfs_ls_ok [OF d]], elim conjE, hypsubst, rule bf.hoare_bind [OF ex]) (auto intro!: bf.hoare_ret)
  from bf.hoareD [OF this s(1) refl s(2)] show ?thesis by (rule runs_mono) (use s(3) in \<open>auto simp: fs_state_def\<close>)
qed

lemma vfs_create_existing_witness:
  "runs (bind (vfs_ls BlockFile (inode_at (fst sample_fs) 0)) (\<lambda>names.
      bind (vfs_create BlockFile (fst sample_fs) (inode_at (fst sample_fs) 0) [97]) (\<lambda>r. ret (names, r)))) sample_fs_a
    (\<lambda>(names, r) w'. names = map fst (dir_list (dir_content (fst sample_fs) (bf_view 1030 sample_fs_a) 0)) \<and>
       r = None \<and> fs_state 1030 (fst sample_fs) w' \<and> bf_view 1030 w' = bf_view 1030 sample_fs_a)"
  by (rule vfs_create_existing) (use sample_fs_a_ok in auto)

text \<open>C11. \<open>EasyFileSystem::create\<close> on a device of \<open>tot\<close> blocks returns a file system that satisfies the
  invariant and holds exactly one file, the empty root directory, with every data block free; opening
  the device again with \<open>EasyFileSystem::open\<close> returns the same file system and changes nothing.\<close>

theorem efs_create_open:
  assumes "bf_ok (unat tot) w" and "pins w = {}" and "format_params tot ibb"
  shows "runs (bind (efs_create BlockFile tot ibb) (\<lambda>efs. bind (efs_open BlockFile) (\<lambda>efs'. ret (efs, efs')))) w
    (\<lambda>(efs, efs') w'. efs' = efs \<and> fs_state (unat tot) efs w' \<and>
       files efs (bf_view (unat tot) w') = [0 \<mapsto> []] \<and> dir_inv (unat tot) efs (bf_view (unat tot) w') 0 \<and>
       free_blocks (unat tot) efs (bf_view (unat tot) w') = {data_start efs..<unat tot})"
proof -
  let ?n = "unat tot"
  have h: "hoare ?n (blockfile_ok ?n) blockfile_content (bf_view ?n w) {}
      (bind (efs_create BlockFile tot ibb) (\<lambda>efs. bind (efs_open BlockFile) (\<lambda>efs'. ret (efs, efs'))))
      (\<lambda>(efs, efs') V'. efs' = efs \<and> formatted ?n efs V')"
    by (rule bf.hoare_bind [OF bf.efs_create_ok [OF assms(3) refl]], elim conjE, erule bf.hoare_bind) (auto intro!: bf.hoare_ret)
  from bf.hoareD [OF h assms(1) refl assms(2)] show ?thesis
  proof (rule runs_mono)
    fix a w' assume a: "bf_ok ?n w' \<and> pins w' = {} \<and> (\<forall>b\<in>{}. map_of (queue w') b = map_of (queue w) b) \<and>
      (case a of (efs, efs') \<Rightarrow> \<lambda>V'. efs' = efs \<and> formatted ?n efs V') (bf_view ?n w')"
    obtain efs where e: "a = (efs, efs)" "formatted ?n efs (bf_view ?n w')" using a by (cases a) auto
    have st: "fs_state ?n efs w'" using a e(2) by (simp add: fs_state_def formatted_def)
    have lv: "live efs (bf_view ?n w') i \<longleftrightarrow> i = 0" for i using e(2) by (simp add: formatted_def)
    have c: "inode_content (bf_view ?n w') (the_inode efs (bf_view ?n w') 0) = []"
      using e(2) by (simp add: formatted_def inode_content_def)
    then have "files efs (bf_view ?n w') = [0 \<mapsto> []]" using lv by (auto simp: files_def fun_eq_iff)
    moreover have "dir_inv ?n efs (bf_view ?n w') 0"
      using e(2) c lv by (simp add: formatted_def dir_inv_def dir_content_def dir_ok_def dir_list_def)
    ultimately show "(case a of (efs, efs') \<Rightarrow> \<lambda>w'. efs' = efs \<and> fs_state ?n efs w' \<and>
       files efs (bf_view ?n w') = [0 \<mapsto> []] \<and> dir_inv ?n efs (bf_view ?n w') 0 \<and>
       free_blocks ?n efs (bf_view ?n w') = {data_start efs..<?n}) w'"
      using st e by (simp add: formatted_def)
  qed
qed

lemma efs_create_open_witness:
  "runs (bind (efs_create BlockFile 1030 1) (\<lambda>efs. bind (efs_open BlockFile) (\<lambda>efs'. ret (efs, efs')))) (blank 1030)
    (\<lambda>(efs, efs') w'. efs' = efs \<and> fs_state (unat (1030 :: u32)) efs w' \<and>
       files efs (bf_view (unat (1030 :: u32)) w') = [0 \<mapsto> []] \<and> dir_inv (unat (1030 :: u32)) efs (bf_view (unat (1030 :: u32)) w') 0 \<and>
       free_blocks (unat (1030 :: u32)) efs (bf_view (unat (1030 :: u32)) w') = {data_start efs..<unat (1030 :: u32)})"
  by (rule efs_create_open) (use blank_ok [of 1030] in \<open>simp_all add: USIZE_LIMIT_def format_params_def\<close>)

end
