(* ===== verification/OsFiles.thy ===== *)
theory OsFiles
  imports FsSpec
begin

text \<open>
  The kernel's view of the file system (src/os/src/fs/inode.rs): open files with an offset over the inodes
  of easy-fs, and \<open>open_file\<close> in the root directory.  An \<open>Arc<OSInode>\<close> is its contents; an operation that
  moves the offset returns the file with the new offset.
\<close>

unbundle bit_operations_syntax

section \<open>Open files\<close>

record OSInode =
  os_readable :: bool
  os_writable :: bool
  os_offset :: usize
  os_inode :: Inode

definition os_inode_new :: "bool \<Rightarrow> bool \<Rightarrow> Inode \<Rightarrow> OSInode" where
  "os_inode_new readable writable inode = \<lparr>os_readable = readable, os_writable = writable, os_offset = 0, os_inode = inode\<rparr>"

text \<open>The loop of \<open>read_all\<close>, with \<open>fuel\<close> rounds; \<open>None\<close> when they do not suffice.\<close>

fun read_all_loop :: "nat \<Rightarrow> 'd BlockDevice \<Rightarrow> OSInode \<Rightarrow> bytes \<Rightarrow> bytes \<Rightarrow> ('d world, bytes option \<times> OSInode) cmd" where
  "read_all_loop 0 dev f buffer v = ret (None, f)"
| "read_all_loop (Suc fuel) dev f buffer v =
     bind (vfs_read_at dev (os_inode f) (os_offset f) buffer) (\<lambda>(len, buffer).
     if len = 0 then ret (Some v, f)
     else bind (lift (slice_res buffer 0 len)) (\<lambda>bs.
       read_all_loop fuel dev (f\<lparr>os_offset := usize_add (os_offset f) len\<rparr>) buffer (v @ bs)))"

text \<open>A file has less than \<open>2 ^ 32\<close> bytes, so \<open>2 ^ 23\<close> rounds of 512 bytes and one that reads nothing suffice.\<close>

definition read_all :: "'d BlockDevice \<Rightarrow> OSInode \<Rightarrow> ('d world, bytes option \<times> OSInode) cmd" where
  "read_all dev f = read_all_loop (2 ^ 23 + 1) dev f (replicate 512 0) []"

definition os_read :: "'d BlockDevice \<Rightarrow> OSInode \<Rightarrow> bytes \<Rightarrow> ('d world, nat \<times> bytes \<times> OSInode) cmd" where
  "os_read dev f buf =
     bind (vfs_read_at dev (os_inode f) (os_offset f) buf) (\<lambda>(read_size, buf).
     ret (read_size, buf, f\<lparr>os_offset := usize_add (os_offset f) read_size\<rparr>))"

definition os_write :: "'d BlockDevice \<Rightarrow> EasyFileSystem \<Rightarrow> OSInode \<Rightarrow> bytes \<Rightarrow> ('d world, nat \<times> OSInode) cmd" where
  "os_write dev efs f buf =
     bind (vfs_write_at dev efs (os_inode f) (os_offset f) buf) (\<lambda>read_size.
     ret (read_size, f\<lparr>os_offset := usize_add (os_offset f) read_size\<rparr>))"

section \<open>Opening\<close>

definition RDONLY :: u32 where "RDONLY = 0"
definition WRONLY :: u32 where "WRONLY = 1"
definition RDWR :: u32 where "RDWR = push_bit 1 1"
definition CREATE :: u32 where "CREATE = push_bit 9 1"
definition TRUNC :: u32 where "TRUNC = push_bit 10 1"

definition OpenFlags_from_bits :: "u32 \<Rightarrow> u32 option" where
  "OpenFlags_from_bits b = (if b AND NOT (RDONLY OR WRONLY OR RDWR OR CREATE OR TRUNC) = 0 then Some b else None)"

definition flags_contains :: "u32 \<Rightarrow> u32 \<Rightarrow> bool" where
  "flags_contains fl f \<longleftrightarrow> fl AND f = f"

definition read_write :: "u32 \<Rightarrow> bool \<times> bool" where
  "read_write fl = (if fl = 0 then (True, False) else if flags_contains fl WRONLY then (False, True) else (True, True))"

definition open_file :: "'d BlockDevice \<Rightarrow> EasyFileSystem \<Rightarrow> bytes \<Rightarrow> u32 \<Rightarrow> ('d world, OSInode option) cmd" where
  "open_file dev efs nm fl =
     (case read_write fl of (readable, writable) \<Rightarrow>
      if flags_contains fl CREATE then
        bind (vfs_find dev efs (root_inode efs) nm) (\<lambda>r. case r of
          Some inode \<Rightarrow> bind (vfs_clear dev efs inode) (\<lambda>_. ret (Some (os_inode_new readable writable inode)))
        | None \<Rightarrow> bind (vfs_create dev efs (root_inode efs) nm) (\<lambda>r. ret (map_option (os_inode_new readable writable) r)))
      else
        bind (vfs_find dev efs (root_inode efs) nm) (\<lambda>r. case r of
          Some inode \<Rightarrow>
            bind (if flags_contains fl TRUNC then vfs_clear dev efs inode else ret ()) (\<lambda>_.
            ret (Some (os_inode_new readable writable inode)))
        | None \<Rightarrow> ret None))"

section \<open>Operations on the device\<close>

lemma dir_inv_replaced:
  assumes d: "dir_inv nblk efs V d" and r: "inode_replaced nblk efs V i di' V'" and lv: "live efs V i" and ne: "d \<noteq> i"
  shows "dir_inv nblk efs V' d" and "dir_content efs V' d = dir_content efs V d"
proof -
  have inv: "efs_inv nblk efs V" and ld: "live efs V d" using d by (simp_all add: dir_inv_def)
  show c: "dir_content efs V' d = dir_content efs V d" using inode_replaced_others(3) [OF inv r lv ld ne] by (simp add: dir_content_def)
  show "dir_inv nblk efs V' d"
    using d inode_replaced_inv [OF inv r lv] inode_replaced_live [OF r] inode_replaced_others(1) [OF inv r lv ld ne] c
    by (simp add: dir_inv_def)
qed

lemma root_inode_at:
  assumes "dir_inv nblk efs V 0"
  shows "root_inode efs = inode_at efs 0"
proof -
  have "efs_geom nblk efs" "unat (0 :: u32) < inode_max efs" using assms by (simp_all add: dir_inv_def efs_inv_def live_def)
  from vfs_new_at [OF this] show ?thesis by (simp add: root_inode_def)
qed

text \<open>A file \<open>i\<close> other than the root directory, with its contents.\<close>

definition plain_file :: "nat \<Rightarrow> EasyFileSystem \<Rightarrow> bytes world \<Rightarrow> bytes \<Rightarrow> nat \<Rightarrow> bytes \<Rightarrow> bool" where
  "plain_file nblk efs w nm i c \<longleftrightarrow> fs_state nblk efs w \<and> dir_inv nblk efs (bf_view nblk w) 0 \<and> i \<noteq> 0 \<and>
     map_option unat (map_of (dir_list (dir_content efs (bf_view nblk w) 0)) nm) = Some i \<and> files efs (bf_view nblk w) i = Some c"

lemma find_runs:
  assumes "plain_file nblk efs w nm i c"
  shows "runs (vfs_find BlockFile efs (root_inode efs) nm) w (\<lambda>r w'. r = Some (inode_at efs i) \<and> plain_file nblk efs w' nm i c \<and>
    bf_view nblk w' = bf_view nblk w)"
proof -
  have d: "dir_inv nblk efs (bf_view nblk w) 0" and s: "bf_ok nblk w" "pins w = {}" using assms by (auto simp: plain_file_def fs_state_def)
  show ?thesis unfolding root_inode_at [OF d]
    by (rule runs_mono [OF bf.hoareD [OF bf.vfs_find_ok [OF d] s(1) refl s(2)]]) (use assms in \<open>auto simp: plain_file_def fs_state_def\<close>)
qed

lemma plain_file_replaced:
  assumes f: "plain_file nblk efs w nm i c" and r: "inode_replaced nblk efs (bf_view nblk w) i di' (bf_view nblk w')"
    and w': "bf_ok nblk w'" "pins w' = {}"
  shows "plain_file nblk efs w' nm i (inode_content (bf_view nblk w') di')"
    and "files efs (bf_view nblk w') = (files efs (bf_view nblk w))(i \<mapsto> inode_content (bf_view nblk w') di')"
proof -
  have st: "fs_state nblk efs w" and fi: "files efs (bf_view nblk w) i = Some c" using f by (simp_all add: plain_file_def)
  have e: "efs_inv nblk efs (bf_view nblk w)" using st by (simp add: fs_state_def)
  note lv = filesD(1) [OF st fi]
  have "dir_inv nblk efs (bf_view nblk w') 0" "dir_content efs (bf_view nblk w') 0 = dir_content efs (bf_view nblk w) 0"
    using dir_inv_replaced [OF _ r lv, of 0] f by (simp_all add: plain_file_def)
  moreover have "fs_state nblk efs w'" using inode_replaced_inv [OF e r lv] w' by (simp add: fs_state_def)
  moreover show fl: "files efs (bf_view nblk w') = (files efs (bf_view nblk w))(i \<mapsto> inode_content (bf_view nblk w') di')"
    by (rule files_replaced [OF e r lv])
  ultimately show "plain_file nblk efs w' nm i (inode_content (bf_view nblk w') di')" using f by (simp add: plain_file_def)
qed

lemma clear_runs:
  assumes f: "plain_file nblk efs w nm i c"
  shows "runs (vfs_clear BlockFile efs (inode_at efs i)) w (\<lambda>_ w'. plain_file nblk efs w' nm i [] \<and>
    files efs (bf_view nblk w') = (files efs (bf_view nblk w))(i \<mapsto> []) \<and>
    free_blocks nblk efs (bf_view nblk w') = free_blocks nblk efs (bf_view nblk w) \<union> unat ` owned efs (bf_view nblk w) i)"
proof -
  have st: "fs_state nblk efs w" and fi: "files efs (bf_view nblk w) i = Some c" using f by (simp_all add: plain_file_def)
  have s: "bf_ok nblk w" "pins w = {}" "efs_inv nblk efs (bf_view nblk w)" using st by (auto simp: fs_state_def)
  note lv = filesD(1) [OF st fi]
  show ?thesis unfolding vfs_clear_def
  proof (rule runs_mono [OF runs_synced_unit [OF bf.vfs_clear_body_ok [OF s(3) lv] s(1,2)]], elim conjE)
    fix w' assume w': "bf_ok nblk w'" "pins w' = {}" and "file_cleared nblk efs (bf_view nblk w) i (bf_view nblk w')"
    then obtain di' where r: "inode_replaced nblk efs (bf_view nblk w) i di' (bf_view nblk w')" and z: "di_size di' = 0" by (auto simp: file_cleared_def)
    have "length (direct di') = INODE_DIRECT_COUNT" using r by (simp add: inode_replaced_def inode_ok_def)
    then have nb: "inode_blocks (bf_view nblk w') di' = []" using empty_inode_ok(2) z by blast
    have "inode_content (bf_view nblk w') di' = []" by (simp add: inode_content_def z)
    then show "plain_file nblk efs w' nm i [] \<and> files efs (bf_view nblk w') = (files efs (bf_view nblk w))(i \<mapsto> []) \<and>
      free_blocks nblk efs (bf_view nblk w') = free_blocks nblk efs (bf_view nblk w) \<union> unat ` owned efs (bf_view nblk w) i"
      using plain_file_replaced [OF f r w'] free_blocks_cleared [OF s(3) lv r nb] by simp
  qed
qed

lemma write_runs:
  assumes f: "plain_file nblk efs w nm i c"
    and buf: "buf \<noteq> []" "offset \<le> length c" "nblocks (offset + length buf) \<le> INDIRECT2_BOUND"
    and room: "tblocks (nblocks (offset + length buf)) - tblocks (nblocks (length c)) \<le> card (free_blocks nblk efs (bf_view nblk w))"
  shows "runs (vfs_write_at BlockFile efs (inode_at efs i) offset buf) w (\<lambda>n w'. n = length buf \<and> durable nblk w' \<and>
    plain_file nblk efs w' nm i (overwrite c offset buf) \<and> files efs (bf_view nblk w') = (files efs (bf_view nblk w))(i \<mapsto> overwrite c offset buf))"
proof -
  have st: "fs_state nblk efs w" and fi: "files efs (bf_view nblk w) i = Some c" using f by (simp_all add: plain_file_def)
  have s: "bf_ok nblk w" "pins w = {}" "efs_inv nblk efs (bf_view nblk w)" using st by (auto simp: fs_state_def)
  note F = filesD [OF st fi]
  have post: "plain_file nblk efs w' nm i (overwrite c offset buf) \<and> files efs (bf_view nblk w') = (files efs (bf_view nblk w))(i \<mapsto> overwrite c offset buf)"
    if "bf_ok nblk w'" "pins w' = {}" "file_written nblk efs (bf_view nblk w) i offset buf (bf_view nblk w')" for w'
    using plain_file_replaced [OF f _ that(1,2)] that(3) F(2) unfolding file_written_def by metis
  show ?thesis unfolding vfs_write_at_def
    by (rule runs_mono [OF runs_synced [OF bf.vfs_write_body_ok [OF s(3) F(1) buf(1)] s(1,2)]])
      (use buf room F post in auto)
qed

lemma read_runs:
  assumes f: "plain_file nblk efs w nm i c" and "offset + length buf < USIZE_LIMIT"
  shows "runs (vfs_read_at BlockFile (inode_at efs i) offset buf) w (\<lambda>(n, buf') w'. plain_file nblk efs w' nm i c \<and> bf_view nblk w' = bf_view nblk w \<and>
    n = min (length buf) (length c - offset) \<and> buf' = take n (drop offset c) @ drop n buf)"
proof -
  have st: "fs_state nblk efs w" and fi: "files efs (bf_view nblk w) i = Some c" using f by (simp_all add: plain_file_def)
  have s: "bf_ok nblk w" "pins w = {}" "efs_inv nblk efs (bf_view nblk w)" using st by (auto simp: fs_state_def)
  note F = filesD [OF st fi]
  show ?thesis
    by (rule runs_mono [OF bf.hoareD [OF bf.vfs_read_at_ok [OF s(3) F(1) assms(2)] s(1) refl s(2)]])
      (use f in \<open>auto simp: plain_file_def fs_state_def Let_def overwrite_def F(3) [symmetric] F(2) [symmetric] min_def\<close>)
qed

lemma plain_file_short: "plain_file nblk efs w nm i c \<Longrightarrow> length c < 2 ^ 32"
  using filesD(3) [of nblk efs w i c] unsigned_less [of "di_size (the_inode efs (bf_view nblk w) i)", where 'a = nat] by (simp add: plain_file_def)

lemma read_all_loop_ok:
  assumes "plain_file nblk efs w nm i c" and "length buffer = 512" and "os_inode f = inode_at efs i" and "os_offset f \<le> length c"
    and "length c - os_offset f \<le> 512 * n"
  shows "runs (read_all_loop (Suc n) BlockFile f buffer v) w
    (\<lambda>(r, f') w'. r = Some (v @ drop (os_offset f) c) \<and> plain_file nblk efs w' nm i c \<and> bf_view nblk w' = bf_view nblk w)"
  using assms
proof (induction n arbitrary: f buffer v w)
  case 0
  have "os_offset f + length buffer < USIZE_LIMIT" using plain_file_short [OF 0(1)] 0 by (simp add: USIZE_LIMIT_def)
  from read_runs [OF 0(1) this] show ?case using 0
    by (simp add: runs_bind) (erule runs_mono, simp split: prod.splits)
next
  case (Suc n)
  have big: "os_offset f + length buffer < USIZE_LIMIT" using plain_file_short [OF Suc.prems(1)] Suc.prems(2,4) by (simp add: USIZE_LIMIT_def)
  let ?n = "min 512 (length c - os_offset f)"
  let ?P = "\<lambda>(r, f') w'. r = Some (v @ drop (os_offset f) c) \<and> plain_file nblk efs w' nm i c \<and> bf_view nblk w' = bf_view nblk w"
  have step: "runs (if len = 0 then ret (Some v, f) else bind (lift (slice_res buffer' 0 len)) (\<lambda>bs.
      read_all_loop (Suc n) BlockFile (f\<lparr>os_offset := usize_add (os_offset f) len\<rparr>) buffer' (v @ bs))) w1 ?P"
    if w1: "plain_file nblk efs w1 nm i c" "bf_view nblk w1 = bf_view nblk w" and len: "len = ?n"
      and b: "buffer' = take len (drop (os_offset f) c) @ drop len buffer" for len buffer' w1
  proof (cases "len = 0")
    case True
    then show ?thesis using w1 len by simp
  next
    case False
    have l: "length buffer' = 512" "take len buffer' = take len (drop (os_offset f) c)" using b len Suc.prems(2) by auto
    have o: "usize_add (os_offset f) len = os_offset f + len" using big len Suc.prems(2) by (simp add: usize_add_def min_def)
    let ?f = "f\<lparr>os_offset := os_offset f + len\<rparr>"
    have d: "take len (drop (os_offset f) c) @ drop (os_offset f + len) c = drop (os_offset f) c"
      by (metis add.commute append_take_drop_id drop_drop)
    have "runs (read_all_loop (Suc n) BlockFile ?f buffer' (v @ take len buffer')) w1
      (\<lambda>(r, f') w'. r = Some ((v @ take len buffer') @ drop (os_offset ?f) c) \<and> plain_file nblk efs w' nm i c \<and> bf_view nblk w' = bf_view nblk w1)"
      by (rule Suc.IH) (use w1 l Suc.prems len in auto)
    then have "runs (read_all_loop (Suc n) BlockFile ?f buffer' (v @ take len buffer')) w1 ?P"
      by (rule runs_mono) (use w1(2) l d in auto)
    moreover have "slice_res buffer' 0 len = Ok (take len buffer')" using len l(1) by (simp add: slice_res_def)
    ultimately show ?thesis using False o by (simp add: runs_bind runs_lift del: read_all_loop.simps)
  qed
  from read_runs [OF Suc.prems(1) big] show ?case unfolding read_all_loop.simps(2) [of "Suc n"] runs_bind Suc.prems(3)
  proof (rule runs_mono)
    fix a w1 assume p: "(case a of (n, buf') \<Rightarrow> \<lambda>w'. plain_file nblk efs w' nm i c \<and> bf_view nblk w' = bf_view nblk w \<and>
      n = min (length buffer) (length c - os_offset f) \<and> buf' = take n (drop (os_offset f) c) @ drop n buffer) w1"
    obtain len buffer' where a: "a = (len, buffer')" by (cases a)
    show "runs (case a of (len, buffer) \<Rightarrow> if len = 0 then ret (Some v, f) else bind (lift (slice_res buffer 0 len)) (\<lambda>bs.
      read_all_loop (Suc n) BlockFile (f\<lparr>os_offset := usize_add (os_offset f) len\<rparr>) buffer (v @ bs))) w1 ?P"
      unfolding a prod.case by (rule step) (use p a Suc.prems(2) in \<open>simp_all del: read_all_loop.simps\<close>)
  qed
qed

lemma read_all_ok:
  assumes f: "plain_file nblk efs w nm i c" and "os_inode f = inode_at efs i" and "os_offset f = 0"
  shows "runs (read_all BlockFile f) w (\<lambda>(r, f') w'. r = Some c \<and> plain_file nblk efs w' nm i c \<and> bf_view nblk w' = bf_view nblk w)"
proof -
  have "length c - os_offset f \<le> 512 * 2 ^ 23" using plain_file_short [OF f] by simp
  from read_all_loop_ok [OF f _ assms(2) _ this, of "replicate 512 0" "[]"] show ?thesis
    using assms(3) by (simp add: read_all_def)
qed

section \<open>Saving and loading\<close>

lemma open_create_runs:
  assumes f: "plain_file nblk efs w nm i c"
  shows "runs (open_file BlockFile efs nm (CREATE OR WRONLY)) w (\<lambda>r w'. r = Some (os_inode_new False True (inode_at efs i)) \<and>
    plain_file nblk efs w' nm i [] \<and> files efs (bf_view nblk w') = (files efs (bf_view nblk w))(i \<mapsto> []) \<and>
    free_blocks nblk efs (bf_view nblk w') = free_blocks nblk efs (bf_view nblk w) \<union> unat ` owned efs (bf_view nblk w) i)"
proof -
  have fl: "read_write (CREATE OR WRONLY) = (False, True)" "flags_contains (CREATE OR WRONLY) CREATE"
    by (simp_all add: read_write_def flags_contains_def CREATE_def WRONLY_def)
  show ?thesis unfolding open_file_def fl(1) prod.case if_P [OF fl(2)] runs_bind [of "vfs_find _ _ _ _"]
  proof (rule runs_mono [OF find_runs [OF f]], elim conjE)
    fix r w1 assume w1: "r = Some (inode_at efs i)" "plain_file nblk efs w1 nm i c" "bf_view nblk w1 = bf_view nblk w"
    show "runs (case r of None \<Rightarrow> bind (vfs_create BlockFile efs (root_inode efs) nm) (\<lambda>r. ret (map_option (os_inode_new False True) r))
        | Some inode \<Rightarrow> bind (vfs_clear BlockFile efs inode) (\<lambda>_. ret (Some (os_inode_new False True inode)))) w1
      (\<lambda>r w'. r = Some (os_inode_new False True (inode_at efs i)) \<and> plain_file nblk efs w' nm i [] \<and> files efs (bf_view nblk w') = (files efs (bf_view nblk w))(i \<mapsto> []) \<and>
        free_blocks nblk efs (bf_view nblk w') = free_blocks nblk efs (bf_view nblk w) \<union> unat ` owned efs (bf_view nblk w) i)"
      unfolding w1(1) option.case runs_bind by (rule runs_mono [OF clear_runs [OF w1(2)]]) (simp add: w1(3))
  qed
qed

lemma open_read_runs:
  assumes f: "plain_file nblk efs w nm i c"
  shows "runs (open_file BlockFile efs nm RDONLY) w (\<lambda>r w'. r = Some (os_inode_new True False (inode_at efs i)) \<and>
    plain_file nblk efs w' nm i c \<and> bf_view nblk w' = bf_view nblk w)"
proof -
  have fl: "read_write RDONLY = (True, False)" "\<not> flags_contains RDONLY CREATE" "\<not> flags_contains RDONLY TRUNC"
    by (simp_all add: read_write_def flags_contains_def CREATE_def RDONLY_def TRUNC_def)
  show ?thesis unfolding open_file_def fl(1) prod.case if_not_P [OF fl(2)] if_not_P [OF fl(3)] runs_bind [of "vfs_find _ _ _ _"]
    by (rule runs_mono [OF find_runs [OF f]]) (auto simp: runs_bind)
qed

text \<open>C14.  What a program saves in a file it can load again.  Opening an existing file with \<open>CREATE | WRONLY\<close>, writing
  a non-empty buffer that fits on the device, opening the file again read-only and reading all of it gives
  the buffer, whatever the file held before; the write is on the device when it returns, and no other file
  changes.\<close>

theorem save_load:
  assumes f: "plain_file nblk efs w nm i c" and buf: "buf \<noteq> []" "nblocks (length buf) \<le> INDIRECT2_BOUND"
    and room: "tblocks (nblocks (length buf)) \<le> card (free_blocks nblk efs (bf_view nblk w) \<union> unat ` owned efs (bf_view nblk w) i)"
  shows "runs (open_file BlockFile efs nm (CREATE OR WRONLY)) w (\<lambda>r w1. \<exists>f. r = Some f \<and> os_writable f \<and>
    runs (os_write BlockFile efs f buf) w1 (\<lambda>(n, f') w2. n = length buf \<and> os_offset f' = length buf \<and> durable nblk w2 \<and>
      files efs (bf_view nblk w2) = (files efs (bf_view nblk w))(i \<mapsto> buf) \<and>
    runs (open_file BlockFile efs nm RDONLY) w2 (\<lambda>r w3. \<exists>g. r = Some g \<and> os_readable g \<and>
    runs (read_all BlockFile g) w3 (\<lambda>(r, _) w4. r = Some buf \<and> bf_view nblk w4 = bf_view nblk w2))))"
proof (rule runs_mono [OF open_create_runs [OF f]], elim conjE)
  fix r w1 assume r: "r = Some (os_inode_new False True (inode_at efs i))" and f1: "plain_file nblk efs w1 nm i []"
    and fl: "files efs (bf_view nblk w1) = (files efs (bf_view nblk w))(i \<mapsto> [])"
    and fr: "free_blocks nblk efs (bf_view nblk w1) = free_blocks nblk efs (bf_view nblk w) \<union> unat ` owned efs (bf_view nblk w) i"
  let ?f = "os_inode_new False True (inode_at efs i)" and ?g = "os_inode_new True False (inode_at efs i)"
  have z: "tblocks (nblocks (0 + length buf)) - tblocks (nblocks (length [])) \<le> card (free_blocks nblk efs (bf_view nblk w1))" using room fr by simp
  have ob: "os_inode ?f = inode_at efs i" "os_offset ?f = 0" "os_inode ?g = inode_at efs i" "os_offset ?g = 0" by (simp_all add: os_inode_new_def)
  have n: "length buf < USIZE_LIMIT" using buf(2) by (simp add: USIZE_LIMIT_def nblocks_def)
  have load: "runs (open_file BlockFile efs nm RDONLY) w2 (\<lambda>r w3. \<exists>g. r = Some g \<and> os_readable g \<and>
      runs (read_all BlockFile g) w3 (\<lambda>(r, _) w4. r = Some buf \<and> bf_view nblk w4 = bf_view nblk w2))" if "plain_file nblk efs w2 nm i buf" for w2
  proof (rule runs_mono [OF open_read_runs [OF that]], elim conjE)
    fix r w3 assume w3: "r = Some ?g" "plain_file nblk efs w3 nm i buf" "bf_view nblk w3 = bf_view nblk w2"
    have "runs (read_all BlockFile ?g) w3 (\<lambda>(r, _) w4. r = Some buf \<and> bf_view nblk w4 = bf_view nblk w2)"
      by (rule runs_mono [OF read_all_ok [OF w3(2) ob(3,4)]]) (use w3(3) in auto)
    then show "\<exists>g. r = Some g \<and> os_readable g \<and> runs (read_all BlockFile g) w3 (\<lambda>(r, _) w4. r = Some buf \<and> bf_view nblk w4 = bf_view nblk w2)"
      using w3(1) by (intro exI [of _ ?g]) (simp add: os_inode_new_def)
  qed
  have "runs (os_write BlockFile efs ?f buf) w1 (\<lambda>(n, f') w2. n = length buf \<and> os_offset f' = length buf \<and> durable nblk w2 \<and>
      files efs (bf_view nblk w2) = (files efs (bf_view nblk w))(i \<mapsto> buf) \<and>
      runs (open_file BlockFile efs nm RDONLY) w2 (\<lambda>r w3. \<exists>g. r = Some g \<and> os_readable g \<and>
      runs (read_all BlockFile g) w3 (\<lambda>(r, _) w4. r = Some buf \<and> bf_view nblk w4 = bf_view nblk w2)))"
    unfolding os_write_def runs_bind ob
    by (rule runs_mono [OF write_runs [OF f1 buf(1) _ _ z]]) (use buf(2) n load fl in \<open>simp_all add: overwrite_def usize_add_def ob\<close>)
  then show "\<exists>f. r = Some f \<and> os_writable f \<and>
    runs (os_write BlockFile efs f buf) w1 (\<lambda>(n, f') w2. n = length buf \<and> os_offset f' = length buf \<and> durable nblk w2 \<and>
      files efs (bf_view nblk w2) = (files efs (bf_view nblk w))(i \<mapsto> buf) \<and>
    runs (open_file BlockFile efs nm RDONLY) w2 (\<lambda>r w3. \<exists>g. r = Some g \<and> os_readable g \<and>
    runs (read_all BlockFile g) w3 (\<lambda>(r, _) w4. r = Some buf \<and> bf_view nblk w4 = bf_view nblk w2)))"
    using r by (intro exI [of _ ?f]) (simp add: os_inode_new_def)
qed

lemma sample_plain_file:
  obtains i where "plain_file 1030 (fst sample_fs) sample_fs_a [97] i []" and "1 \<le> card (free_blocks 1030 (fst sample_fs) (bf_view 1030 sample_fs_a))"
proof -
  let ?e = "fst sample_fs" and ?V = "bf_view 1030 sample_fs_a" and ?W = "bf_view 1030 (snd sample_fs)"
  obtain i where st: "fs_state 1030 ?e sample_fs_a" and fc: "file_created 1030 ?e ?W 0 [97] i ?V" by (rule sample_fs_a_created)
  have lv: "live ?e ?V j \<longleftrightarrow> j = i \<or> j = 0" for j using fc sample_fs_ok(2) by (simp add: file_created_def formatted_def)
  have "live ?e ?W 0" "\<not> live ?e ?W i" using fc sample_fs_dir(1) by (simp_all add: file_created_def dir_inv_def)
  then have i: "i \<noteq> 0" by metis
  have inv: "efs_inv 1030 ?e ?V" and d: "dir_inv 1030 ?e ?V 0" using st sample_fs_a_ok(2) by (simp_all add: fs_state_def)
  have dl: "dir_list (dir_content ?e ?V 0) = [([97], of_nat i)]" using fc sample_fs_dir(2) by (simp add: file_created_def dir_list_def)
  have "i < inode_max ?e" using lv [of i] by (simp add: live_def)
  then have u: "unat (of_nat i :: u32) = i" by (rule inode_slot_pos(6) [of 1030, rotated]) (use inv in \<open>simp add: efs_inv_def\<close>)
  have fi: "files ?e ?V i = Some []" using fc lv by (simp add: files_def file_created_def inode_content_def)
  have "length (dir_content ?e ?V 0) div DIRENT_SZ = 1" using arg_cong [OF dl, of length] by (simp add: dir_list_def)
  moreover have "length (dir_content ?e ?V 0) mod DIRENT_SZ = 0" using d by (simp add: dir_inv_def dir_ok_def)
  ultimately have len: "length (dir_content ?e ?V 0) = DIRENT_SZ" using div_mult_mod_eq [of "length (dir_content ?e ?V 0)" DIRENT_SZ] by simp
  have ok: "inode_ok 1030 {..<data_start ?e} ?V (the_inode ?e ?V j)" if "live ?e ?V j" for j using inv that unfolding efs_inv_def by blast
  note ok0 = ok [of 0] and oki = ok [of i]
  have f0: "files ?e ?V 0 = Some (dir_content ?e ?V 0)" using lv by (simp add: files_def dir_content_def)
  have "tblocks 1 = 1" "tblocks 0 = 0" by (simp_all add: tblocks_def)
  then have "length (inode_blocks ?V (the_inode ?e ?V 0)) = 1" "length (inode_blocks ?V (the_inode ?e ?V i)) = 0"
    using inode_blocks_count [OF ok0] inode_blocks_count [OF oki] lv filesD(4) [OF st f0] filesD(4) [OF st fi] len by (simp_all add: nblocks_def)
  then have o: "card (owned ?e ?V 0) \<le> 1" "owned ?e ?V i = {}" using card_length [of "inode_blocks ?V (the_inode ?e ?V 0)"] by (simp_all add: owned_def)
  have "{1027..<1030} \<subseteq> free_blocks 1030 ?e ?V \<union> unat ` owned ?e ?V 0"
  proof
    fix b :: nat assume b: "b \<in> {1027..<1030}"
    have ub: "unat (of_nat b :: u32) = b" using b by (simp add: unat_of_nat)
    have "(of_nat b :: u32) \<in> data_used ?e ?V \<longleftrightarrow> (\<exists>j. live ?e ?V j \<and> of_nat b \<in> owned ?e ?V j)"
      using inv b ub sample_fs_ok(3) unfolding efs_inv_def by (metis atLeastLessThan_iff)
    then show "b \<in> free_blocks 1030 ?e ?V \<union> unat ` owned ?e ?V 0"
      using b o(2) ub lv sample_fs_ok(3) by (auto simp: free_blocks_def data_used_def intro: rev_image_eqI)
  qed
  moreover have fin: "finite (free_blocks 1030 ?e ?V)" "finite (owned ?e ?V 0)" by (simp_all add: free_blocks_def owned_def)
  ultimately have "3 \<le> card (free_blocks 1030 ?e ?V \<union> unat ` owned ?e ?V 0)" using card_mono [of _ "{1027..<1030 :: nat}"] by fastforce
  also have "\<dots> \<le> card (free_blocks 1030 ?e ?V) + card (owned ?e ?V 0)"
    using card_Un_le [of "free_blocks 1030 ?e ?V" "unat ` owned ?e ?V 0"] card_image_le [OF fin(2), of unat] by linarith
  finally show thesis using that st d i dl u fi o(1) by (simp add: plain_file_def)
qed

theorem save_load_witness:
  "runs (open_file BlockFile (fst sample_fs) [97] (CREATE OR WRONLY)) sample_fs_a (\<lambda>r w1. \<exists>f. r = Some f \<and> os_writable f \<and>
    runs (os_write BlockFile (fst sample_fs) f [1, 2, 3]) w1 (\<lambda>(n, f') w2. n = 3 \<and>
    runs (open_file BlockFile (fst sample_fs) [97] RDONLY) w2 (\<lambda>r w3. \<exists>g. r = Some g \<and> os_readable g \<and>
    runs (read_all BlockFile g) w3 (\<lambda>(r, _) w4. r = Some [1, 2, 3]))))"
proof -
  obtain i where f: "plain_file 1030 (fst sample_fs) sample_fs_a [97] i []" and c: "1 \<le> card (free_blocks 1030 (fst sample_fs) (bf_view 1030 sample_fs_a))"
    by (rule sample_plain_file)
  let ?b = "[1, 2, 3] :: bytes"
  have b: "?b \<noteq> []" "nblocks (length ?b) \<le> INDIRECT2_BOUND" by (simp_all add: nblocks_def)
  have "card (free_blocks 1030 (fst sample_fs) (bf_view 1030 sample_fs_a)) \<le>
    card (free_blocks 1030 (fst sample_fs) (bf_view 1030 sample_fs_a) \<union> unat ` owned (fst sample_fs) (bf_view 1030 sample_fs_a) i)"
    by (rule card_mono) (auto simp: free_blocks_def owned_def)
  moreover have "tblocks (nblocks (length ?b)) = 1" by (simp add: nblocks_def tblocks_def)
  ultimately have "tblocks (nblocks (length ?b)) \<le>
    card (free_blocks 1030 (fst sample_fs) (bf_view 1030 sample_fs_a) \<union> unat ` owned (fst sample_fs) (bf_view 1030 sample_fs_a) i)" using c by linarith
  from save_load [OF f b this] show ?thesis
    by (elim runs_mono) (fastforce elim!: runs_mono split: prod.splits)
qed

end
