(* ===== verification/Address.thy ===== *)
theory Address
  imports Prelude
begin

text \<open>
  Physical and virtual addresses (src/os/src/mm/address.rs) and the constants of
  src/os/src/config.rs.  Addresses are 64-bit words; \<open>VirtAddr::new\<close> panics on a non-canonical
  address.  The lemmas relate the bit masks to page arithmetic and the linear kernel mapping to its
  inverse.
\<close>

unbundle bit_operations_syntax

section \<open>Constants\<close>

abbreviation PAGE_SIZE :: u64 where "PAGE_SIZE \<equiv> 0x1000"
abbreviation PA_1TB_BITS :: nat where "PA_1TB_BITS \<equiv> 40"
abbreviation VA_MAX_BITS :: nat where "VA_MAX_BITS \<equiv> 48"
abbreviation PHYS_VIRT_OFFSET :: u64 where "PHYS_VIRT_OFFSET \<equiv> 0xffff000000000000"
abbreviation USER_STACK_SIZE :: u64 where "USER_STACK_SIZE \<equiv> 4096 * 4"
abbreviation USER_STACK_TOP :: u64 where "USER_STACK_TOP \<equiv> 0x800000000000"
definition USER_ASPACE_START :: u64 where "USER_ASPACE_START = 0"
abbreviation USER_ASPACE_END :: u64 where "USER_ASPACE_END \<equiv> 0x1000000000000"
abbreviation MEMORY_START :: u64 where "MEMORY_START \<equiv> 0x40000000"
abbreviation MEMORY_END :: u64 where "MEMORY_END \<equiv> MEMORY_START + 0x8000000"

section \<open>Model\<close>

datatype PhysAddr = PhysAddr (pa_as_usize: u64)

datatype VirtAddr = VirtAddr (va_as_usize: u64)

definition phys_to_virt :: "u64 \<Rightarrow> u64" where
  "phys_to_virt paddr = paddr + PHYS_VIRT_OFFSET"

definition virt_to_phys :: "u64 \<Rightarrow> u64" where
  "virt_to_phys vaddr = vaddr - PHYS_VIRT_OFFSET"

definition align_down :: "u64 \<Rightarrow> u64 \<Rightarrow> u64" where
  "align_down addr page_size = addr AND NOT (page_size - 1)"

definition align_up :: "u64 \<Rightarrow> u64 \<Rightarrow> u64" where
  "align_up addr page_size = (addr + page_size - 1) AND NOT (page_size - 1)"

definition page_offset :: "u64 \<Rightarrow> u64 \<Rightarrow> u64" where
  "page_offset addr page_size = addr AND (page_size - 1)"

definition is_aligned :: "u64 \<Rightarrow> u64 \<Rightarrow> bool" where
  "is_aligned addr page_size \<longleftrightarrow> page_offset addr page_size = 0"

definition PA_MAX :: u64 where
  "PA_MAX = push_bit PA_1TB_BITS 1 - 1"

definition pa_new :: "u64 \<Rightarrow> PhysAddr" where
  "pa_new pa = PhysAddr (pa AND PA_MAX)"

definition va_new :: "u64 \<Rightarrow> VirtAddr res" where
  "va_new va =
     (let top_bits = drop_bit VA_MAX_BITS va
      in if top_bits \<noteq> 0 \<and> top_bits \<noteq> 0xffff then Panic Explicit_panic else Ok (VirtAddr va))"

definition into_kvaddr :: "PhysAddr \<Rightarrow> VirtAddr res" where
  "into_kvaddr p = va_new (phys_to_virt (pa_as_usize p))"

definition pa_align_down :: "PhysAddr \<Rightarrow> PhysAddr" where
  "pa_align_down p = PhysAddr (align_down (pa_as_usize p) PAGE_SIZE)"

definition pa_align_up :: "PhysAddr \<Rightarrow> PhysAddr" where
  "pa_align_up p = PhysAddr (align_up (pa_as_usize p) PAGE_SIZE)"

definition pa_page_offset :: "PhysAddr \<Rightarrow> u64" where
  "pa_page_offset p = page_offset (pa_as_usize p) PAGE_SIZE"

definition pa_is_aligned :: "PhysAddr \<Rightarrow> bool" where
  "pa_is_aligned p \<longleftrightarrow> is_aligned (pa_as_usize p) PAGE_SIZE"

definition va_align_down :: "VirtAddr \<Rightarrow> VirtAddr" where
  "va_align_down v = VirtAddr (align_down (va_as_usize v) PAGE_SIZE)"

definition va_align_up :: "VirtAddr \<Rightarrow> VirtAddr" where
  "va_align_up v = VirtAddr (align_up (va_as_usize v) PAGE_SIZE)"

definition va_page_offset :: "VirtAddr \<Rightarrow> u64" where
  "va_page_offset v = page_offset (va_as_usize v) PAGE_SIZE"

definition va_is_aligned :: "VirtAddr \<Rightarrow> bool" where
  "va_is_aligned v \<longleftrightarrow> is_aligned (va_as_usize v) PAGE_SIZE"

section \<open>Pages\<close>

text \<open>The number of the 4 KiB page an address lies in.\<close>

definition page_of :: "u64 \<Rightarrow> nat" where
  "page_of a = unat a div 4096"

lemma mask_12: "(4095 :: u64) = mask 12"
  by (simp add: mask_eq_exp_minus_1)

lemma page_offset_take_bit: "page_offset a PAGE_SIZE = take_bit 12 a"
  by (simp add: page_offset_def mask_12 take_bit_eq_mask)

lemma align_down_shift: "align_down a PAGE_SIZE = push_bit 12 (drop_bit 12 a)"
  by (rule bit_word_eqI) (auto simp: align_down_def mask_12 bit_simps)

lemma unat_page_offset: "unat (page_offset a PAGE_SIZE) = unat a mod 4096"
  by (simp add: page_offset_take_bit take_bit_eq_mod unat_mod)

lemma unat_align_down: "unat (align_down a PAGE_SIZE) = page_of a * 4096"
proof -
  have "unat a < 2 ^ 64" using unsigned_less [of a, where ?'a = nat] by simp
  moreover from this have "unat a div 4096 * 4096 < 2 ^ 64" using div_times_less_eq_dividend [of "unat a" 4096] by linarith
  ultimately show ?thesis
    unfolding align_down_shift unsigned_push_bit_eq unsigned_drop_bit_eq
    by (simp add: push_bit_eq_mult drop_bit_eq_div take_bit_eq_mod page_of_def)
qed

lemma is_aligned_unat: "is_aligned a PAGE_SIZE \<longleftrightarrow> unat a mod 4096 = 0"
  unfolding is_aligned_def unat_page_offset [symmetric] by (rule unat_eq_0 [symmetric])

lemma is_aligned_page: "is_aligned a PAGE_SIZE \<longleftrightarrow> unat a = page_of a * 4096"
  unfolding is_aligned_unat page_of_def using div_mult_mod_eq [of "unat a" 4096] by linarith

lemma align_down_aligned [simp]: "is_aligned (align_down a PAGE_SIZE) PAGE_SIZE"
  by (simp add: is_aligned_unat unat_align_down)

lemma align_down_id: "is_aligned a PAGE_SIZE \<Longrightarrow> align_down a PAGE_SIZE = a"
  by (simp add: word_unat_eq_iff unat_align_down is_aligned_page)

lemma align_down_offset: "align_down a PAGE_SIZE + page_offset a PAGE_SIZE = a"
  unfolding align_down_shift page_offset_take_bit by (metis add.commute bits_ident)

lemma align_up_aligned [simp]: "is_aligned (align_up a PAGE_SIZE) PAGE_SIZE"
  using align_down_aligned [of "4095 + a"] by (simp add: align_up_def align_down_def)

lemma unat_align_up:
  assumes "unat a + 4095 < 2 ^ 64"
  shows "unat (align_up a PAGE_SIZE) = (unat a + 4095) div 4096 * 4096"
proof -
  have "align_up a PAGE_SIZE = align_down (a + 4095) PAGE_SIZE" by (simp add: align_up_def align_down_def add.commute)
  moreover have "unat (a + 4095) = unat a + 4095" using assms by (subst unat_add_lem [THEN iffD1]) simp_all
  ultimately show ?thesis by (simp add: unat_align_down page_of_def)
qed

section \<open>The linear mapping\<close>

lemma PA_MAX_mask: "PA_MAX = mask 40"
  by (simp add: PA_MAX_def mask_eq_exp_minus_1)

lemma pa_new_take_bit: "pa_new a = PhysAddr (take_bit 40 a)"
  by (simp add: pa_new_def PA_MAX_mask take_bit_eq_mask)

lemma pa_new_id: "unat a < 2 ^ 40 \<Longrightarrow> pa_new a = PhysAddr a"
  by (simp add: pa_new_take_bit word_unat_eq_iff unsigned_take_bit_eq take_bit_nat_eq_self)

lemma phys_virt_inverse [simp]: "virt_to_phys (phys_to_virt p) = p" "phys_to_virt (virt_to_phys v) = v"
  by (simp_all add: phys_to_virt_def virt_to_phys_def)

text \<open>The kernel address of every physical address below 1 TiB is canonical.\<close>

lemma into_kvaddr_ok:
  assumes "unat (pa_as_usize p) < 2 ^ 40"
  shows "into_kvaddr p = Ok (VirtAddr (phys_to_virt (pa_as_usize p)))"
proof -
  let ?a = "pa_as_usize p"
  have u: "unat (?a + PHYS_VIRT_OFFSET) = unat ?a + unat PHYS_VIRT_OFFSET"
    using assms by (subst unat_add_lem [THEN iffD1]) simp_all
  have "unat (drop_bit 48 (?a + PHYS_VIRT_OFFSET)) = (unat ?a + unat PHYS_VIRT_OFFSET) div 2 ^ 48"
    unfolding u [symmetric] by (simp add: drop_bit_eq_div unat_div)
  also have "\<dots> = unat (0xffff :: u64)"
  proof -
    have "(unat ?a + 0xffff * 2 ^ 48) div 2 ^ 48 = unat ?a div 2 ^ 48 + 0xffff" by simp
    then show ?thesis using assms by simp
  qed
  finally have "drop_bit 48 (?a + PHYS_VIRT_OFFSET) = 0xffff" using word_unat_eq_iff by blast
  then show ?thesis by (simp add: into_kvaddr_def va_new_def phys_to_virt_def Let_def)
qed

end
