(* ===== verification/Frames.thy ===== *)
theory Frames
  imports Address Allocator Bytes
begin

text \<open>
  Physical frames (src/os/src/mm/frame_allocator.rs).  The state is the global \<open>FRAME_ALLOCATOR\<close>
  together with physical memory, as a map from the address of a frame to its 4096 bytes; the
  kernel reaches a frame through its linear mapping, so every access goes through \<open>into_kvaddr\<close> and
  \<open>virt_to_phys\<close>.  A \<open>PhysFrame\<close> is an owned handle: dropping it gives the frame back.
\<close>

section \<open>Model\<close>

record pmem =
  FRAME_ALLOCATOR :: FreeListAllocator
  frames :: "u64 \<Rightarrow> bytes"

datatype PhysFrame = PhysFrame (start_paddr: PhysAddr)

text \<open>The 4096 bytes at a kernel virtual address, read and replaced.\<close>

definition kread :: "VirtAddr \<Rightarrow> (pmem, bytes) cmd" where
  "kread v = (\<lambda>s. Ok (frames s (virt_to_phys (va_as_usize v)), s))"

definition kwrite :: "VirtAddr \<Rightarrow> bytes \<Rightarrow> (pmem, unit) cmd" where
  "kwrite v bs = (\<lambda>s. Ok ((), s\<lparr>frames := (frames s)(virt_to_phys (va_as_usize v) := bs)\<rparr>))"

definition phys_frame_alloc :: "(pmem, PhysFrame option) cmd" where
  "phys_frame_alloc = (\<lambda>s. case fla_alloc (FRAME_ALLOCATOR s) of (r, a) \<Rightarrow>
     Ok (map_option (\<lambda>value. PhysFrame (pa_new (of_nat value * PAGE_SIZE))) r, s\<lparr>FRAME_ALLOCATOR := a\<rparr>))"

definition phys_frame_as_slice :: "PhysFrame \<Rightarrow> (pmem, bytes) cmd" where
  "phys_frame_as_slice f = bind (lift (into_kvaddr (start_paddr f))) kread"

definition phys_frame_set_slice :: "PhysFrame \<Rightarrow> bytes \<Rightarrow> (pmem, unit) cmd" where
  "phys_frame_set_slice f bs = bind (lift (into_kvaddr (start_paddr f))) (\<lambda>v. kwrite v bs)"

definition phys_frame_zero :: "PhysFrame \<Rightarrow> (pmem, unit) cmd" where
  "phys_frame_zero f = phys_frame_set_slice f (replicate 4096 0)"

definition phys_frame_alloc_zero :: "(pmem, PhysFrame option) cmd" where
  "phys_frame_alloc_zero = bind phys_frame_alloc (\<lambda>r. case r of
     None \<Rightarrow> ret None
   | Some f \<Rightarrow> bind (phys_frame_zero f) (\<lambda>_. ret (Some f)))"

definition phys_frame_drop :: "PhysFrame \<Rightarrow> (pmem, unit) cmd" where
  "phys_frame_drop f = (\<lambda>s.
     case fla_dealloc (FRAME_ALLOCATOR s) (unat (pa_as_usize (start_paddr f) div PAGE_SIZE)) of
       Ok a \<Rightarrow> Ok ((), s\<lparr>FRAME_ALLOCATOR := a\<rparr>)
     | Panic p \<Rightarrow> Panic p)"

definition frame_alloc :: "(pmem, PhysFrame option) cmd" where
  "frame_alloc = phys_frame_alloc"

definition frame_dealloc :: "PhysFrame \<Rightarrow> (pmem, unit) cmd" where
  "frame_dealloc pf = phys_frame_drop pf"

text \<open>\<open>ekernel\<close> is the end of the kernel image, a symbol of the linker script.\<close>

definition init_frame_allocator :: "u64 \<Rightarrow> (pmem, unit) cmd" where
  "init_frame_allocator ekernel =
     (let start = pa_align_up (pa_new (virt_to_phys ekernel));
          end_paddr = pa_align_down (pa_new MEMORY_END)
      in (\<lambda>s. Ok ((), s\<lparr>FRAME_ALLOCATOR := fla_init (FRAME_ALLOCATOR s)
           (unat (pa_as_usize start div PAGE_SIZE)) (unat (pa_as_usize end_paddr div PAGE_SIZE))\<rparr>)))"

section \<open>Frames by number\<close>

definition frame_pa :: "nat \<Rightarrow> u64" where
  "frame_pa n = of_nat n * PAGE_SIZE"

abbreviation frame_at :: "nat \<Rightarrow> PhysFrame" where
  "frame_at n \<equiv> PhysFrame (PhysAddr (frame_pa n))"

definition live_frames :: "pmem \<Rightarrow> nat set" where
  "live_frames s = fla_live (FRAME_ALLOCATOR s)"

definition all_frames :: "pmem \<Rightarrow> nat set" where
  "all_frames s = fla_pool (FRAME_ALLOCATOR s)"

definition free_count :: "pmem \<Rightarrow> nat" where
  "free_count s = card (all_frames s - live_frames s)"

text \<open>Physical memory lies below 1 TiB, the reach of a page table entry.\<close>

definition pmem_ok :: "pmem \<Rightarrow> bool" where
  "pmem_ok s \<longleftrightarrow> fla_ok (FRAME_ALLOCATOR s) \<and> all_frames s \<subseteq> {..<2 ^ 28} \<and>
     (\<forall>n\<in>all_frames s. length (frames s (frame_pa n)) = 4096)"

lemma unat_frame_pa: "n < 2 ^ 28 \<Longrightarrow> unat (frame_pa n) = n * 4096"
proof -
  assume n: "n < 2 ^ 28"
  have "frame_pa n = of_nat (n * 4096)" by (simp add: frame_pa_def)
  then show ?thesis using n by (simp add: unat_of_nat del: of_nat_mult)
qed

lemma frame_pa_inject [simp]: "n < 2 ^ 28 \<Longrightarrow> m < 2 ^ 28 \<Longrightarrow> frame_pa n = frame_pa m \<longleftrightarrow> n = m"
  using unat_frame_pa [of n] unat_frame_pa [of m] by (metis mult_cancel2 zero_neq_numeral)

lemma frame_pa_bound: "n < 2 ^ 28 \<Longrightarrow> unat (frame_pa n) < 2 ^ 40"
  by (simp add: unat_frame_pa)

lemma frame_pa_aligned: "n < 2 ^ 28 \<Longrightarrow> is_aligned (frame_pa n) PAGE_SIZE"
  by (simp add: is_aligned_unat unat_frame_pa)

lemma pa_new_frame: "n < 2 ^ 28 \<Longrightarrow> pa_new (of_nat n * PAGE_SIZE) = PhysAddr (frame_pa n)"
  using pa_new_id [OF frame_pa_bound] by (simp add: frame_pa_def)

lemma frame_kvaddr: "n < 2 ^ 28 \<Longrightarrow> into_kvaddr (PhysAddr (frame_pa n)) = Ok (VirtAddr (phys_to_virt (frame_pa n)))"
  using into_kvaddr_ok [of "PhysAddr (frame_pa n)"] frame_pa_bound [of n] by simp

lemma pmem_okD:
  assumes "pmem_ok s" and "n \<in> live_frames s"
  shows "n < 2 ^ 28" and "n \<in> all_frames s" and "length (frames s (frame_pa n)) = 4096"
  using assms fla.live_pool [of "FRAME_ALLOCATOR s"] by (auto simp: pmem_ok_def live_frames_def all_frames_def)

lemma finite_frames: "finite (all_frames s)"
  by (simp add: all_frames_def fla.finite_pool)

section \<open>Operations\<close>

lemma kread_frame: "runs (bind (lift (into_kvaddr (PhysAddr (frame_pa n)))) kread) s Q \<longleftrightarrow> Q (frames s (frame_pa n)) s"
  if "n < 2 ^ 28"
  by (simp add: frame_kvaddr [OF that] kread_def runs_def)

lemma runs_as_slice: "n < 2 ^ 28 \<Longrightarrow> runs (phys_frame_as_slice (frame_at n)) s Q \<longleftrightarrow> Q (frames s (frame_pa n)) s"
  by (simp add: phys_frame_as_slice_def kread_frame)

lemma runs_set_slice:
  "n < 2 ^ 28 \<Longrightarrow> runs (phys_frame_set_slice (frame_at n) bs) s Q \<longleftrightarrow> Q () (s\<lparr>frames := (frames s)(frame_pa n := bs)\<rparr>)"
  by (simp add: phys_frame_set_slice_def frame_kvaddr kwrite_def runs_def)

text \<open>What an allocation does: one fresh frame becomes live, memory is untouched.\<close>

definition frame_taken :: "pmem \<Rightarrow> nat \<Rightarrow> pmem \<Rightarrow> bool" where
  "frame_taken s n s' \<longleftrightarrow> pmem_ok s' \<and> n \<in> all_frames s - live_frames s \<and> all_frames s' = all_frames s \<and>
     live_frames s' = insert n (live_frames s) \<and> free_count s = Suc (free_count s') \<and>
     (\<forall>m\<in>all_frames s - {n}. frames s' (frame_pa m) = frames s (frame_pa m))"

lemma alloc_ok:
  assumes ok: "pmem_ok s" and free: "0 < free_count s"
  shows "runs phys_frame_alloc s (\<lambda>r s'. \<exists>n. r = Some (frame_at n) \<and> frame_taken s n s')"
proof -
  let ?a = "FRAME_ALLOCATOR s"
  have a: "fla_ok ?a" using ok by (simp add: pmem_ok_def)
  obtain r a' where r: "fla_alloc ?a = (r, a')" by (cases "fla_alloc ?a")
  have "r \<noteq> None"
  proof
    assume "r = None"
    then have "live_frames s = all_frames s" using fla.alloc_None [OF a] r by (simp add: live_frames_def all_frames_def)
    then show False using free by (simp add: free_count_def)
  qed
  then obtain n where n: "r = Some n" by blast
  with r have "fla_alloc ?a = (Some n, a')" by simp
  note post = fla.alloc_Some [OF a this]
  have b: "n < 2 ^ 28" using post ok by (auto simp: pmem_ok_def all_frames_def)
  let ?s = "s\<lparr>FRAME_ALLOCATOR := a'\<rparr>"
  have sets: "all_frames ?s = all_frames s" "live_frames ?s = insert n (live_frames s)" "n \<in> all_frames s - live_frames s"
    using post by (auto simp: all_frames_def live_frames_def)
  have eq: "all_frames s - live_frames s = insert n (all_frames ?s - live_frames ?s)" using sets by blast
  have "free_count s = Suc (free_count ?s)"
    unfolding free_count_def eq by (rule card_insert_disjoint) (use sets finite_frames in auto)
  moreover have "pmem_ok ?s" using ok post sets(1) by (simp add: pmem_ok_def)
  ultimately have "frame_taken s n ?s" using sets by (simp add: frame_taken_def)
  moreover have "phys_frame_alloc s = Ok (Some (frame_at n), ?s)" using r n pa_new_frame [OF b] by (simp add: phys_frame_alloc_def)
  ultimately show ?thesis unfolding runs_iff by blast
qed

lemma alloc_zero_ok:
  assumes ok: "pmem_ok s" and free: "0 < free_count s"
  shows "runs phys_frame_alloc_zero s (\<lambda>r s'. \<exists>n. r = Some (frame_at n) \<and> frame_taken s n s' \<and>
    frames s' (frame_pa n) = replicate 4096 0)"
  unfolding phys_frame_alloc_zero_def runs_bind
proof (rule runs_mono [OF alloc_ok [OF assms]], elim exE conjE)
  fix r s' n assume r: "r = Some (frame_at n)" and t: "frame_taken s n s'"
  have n: "n < 2 ^ 28" using t ok by (auto simp: frame_taken_def pmem_ok_def)
  let ?s = "s'\<lparr>frames := (frames s')(frame_pa n := replicate 4096 0)\<rparr>"
  have same: "all_frames ?s = all_frames s'" "live_frames ?s = live_frames s'" "free_count ?s = free_count s'"
    by (simp_all add: all_frames_def live_frames_def free_count_def)
  have other: "frames ?s (frame_pa m) = frames s' (frame_pa m)" if "m \<in> all_frames s - {n}" for m
    using that n ok by (auto simp: pmem_ok_def)
  have "pmem_ok ?s" using t by (auto simp: frame_taken_def pmem_ok_def same(1))
  then have "frame_taken s n ?s" using t same other by (simp add: frame_taken_def)
  then show "runs (case r of None \<Rightarrow> ret None | Some f \<Rightarrow> bind (phys_frame_zero f) (\<lambda>_. ret (Some f))) s'
    (\<lambda>r s'. \<exists>n. r = Some (frame_at n) \<and> frame_taken s n s' \<and> frames s' (frame_pa n) = replicate 4096 0)"
    using r n by (auto simp: phys_frame_zero_def runs_bind runs_set_slice)
qed

text \<open>Dropping a live frame gives exactly that frame back.\<close>

definition frame_returned :: "pmem \<Rightarrow> nat set \<Rightarrow> pmem \<Rightarrow> bool" where
  "frame_returned s N s' \<longleftrightarrow> pmem_ok s' \<and> all_frames s' = all_frames s \<and> live_frames s' = live_frames s - N \<and> frames s' = frames s"

lemma drop_ok:
  assumes ok: "pmem_ok s" and n: "n \<in> live_frames s"
  shows "runs (phys_frame_drop (frame_at n)) s (\<lambda>_. frame_returned s {n})"
proof -
  have b: "n < 2 ^ 28" using pmem_okD [OF assms] by simp
  have "unat (frame_pa n div PAGE_SIZE) = n" using unat_frame_pa [OF b] by (simp add: unat_div)
  moreover from fla.dealloc_live [of "FRAME_ALLOCATOR s" n] obtain a where
    "fla_dealloc (FRAME_ALLOCATOR s) n = Ok a" "fla_live a = fla_live (FRAME_ALLOCATOR s) - {n}"
    "fla_pool a = fla_pool (FRAME_ALLOCATOR s)" "fla_ok a" using assms by (auto simp: pmem_ok_def live_frames_def)
  ultimately show ?thesis using ok
    by (simp add: phys_frame_drop_def runs_def frame_returned_def pmem_ok_def all_frames_def live_frames_def)
qed

lemma drop_all_ok:
  "pmem_ok s \<Longrightarrow> distinct ns \<Longrightarrow> set ns \<subseteq> live_frames s \<Longrightarrow>
   runs (for_each (map frame_at ns) phys_frame_drop) s (\<lambda>_. frame_returned s (set ns))"
proof (induction ns arbitrary: s)
  case Nil
  then show ?case by (simp add: frame_returned_def)
next
  case (Cons n ns)
  show ?case unfolding list.map for_each.simps runs_bind
  proof (rule runs_mono [OF drop_ok])
    fix u s' assume r: "frame_returned s {n} s'"
    have "runs (for_each (map frame_at ns) phys_frame_drop) s' (\<lambda>_. frame_returned s' (set ns))"
      by (rule Cons.IH) (use Cons.prems r in \<open>auto simp: frame_returned_def\<close>)
    then show "runs (for_each (map frame_at ns) phys_frame_drop) s' (\<lambda>_. frame_returned s (set (n # ns)))"
      by (rule runs_mono) (use r in \<open>auto simp: frame_returned_def\<close>)
  qed (use Cons.prems in auto)
qed

end
