(* ===== verification/PageTables.thy ===== *)
theory PageTables
  imports Frames
begin

text \<open>
  AArch64 page tables (src/os/src/mm/page_table.rs): descriptors, four-level tables in physical
  frames, and mapping, unmapping and querying a page.  A reference to an entry is the address of its
  table and its index; table memory is read and written through the kernel's linear mapping.  The
  three intermediate levels are the same code, written here once over the list of their indices.
\<close>

section \<open>Descriptors\<close>

text \<open>\<open>bitflags\<close> sets are words; \<open>contains\<close>, \<open>intersects\<close> and \<open>from_bits_truncate\<close> are its methods.\<close>

definition bits_contains :: "u64 \<Rightarrow> u64 \<Rightarrow> bool" where
  "bits_contains a b \<longleftrightarrow> a AND b = b"

definition bits_intersects :: "u64 \<Rightarrow> u64 \<Rightarrow> bool" where
  "bits_intersects a b \<longleftrightarrow> a AND b \<noteq> 0"

text \<open>\<open>1 << n\<close>.\<close>

definition BIT :: "nat \<Rightarrow> u64" where
  "BIT n = push_bit n 1"

abbreviation MF_READ :: u64 where "MF_READ \<equiv> BIT 0"
abbreviation MF_WRITE :: u64 where "MF_WRITE \<equiv> BIT 1"
abbreviation MF_EXECUTE :: u64 where "MF_EXECUTE \<equiv> BIT 2"
abbreviation MF_USER :: u64 where "MF_USER \<equiv> BIT 3"
abbreviation MF_DEVICE :: u64 where "MF_DEVICE \<equiv> BIT 4"

definition DA_VALID :: u64 where "DA_VALID = BIT 0"
definition DA_NON_BLOCK :: u64 where "DA_NON_BLOCK = BIT 1"
definition DA_ATTR_INDX :: u64 where "DA_ATTR_INDX = push_bit 2 (mask 3)"
definition DA_AP_EL0 :: u64 where "DA_AP_EL0 = BIT 6"
definition DA_AP_RO :: u64 where "DA_AP_RO = BIT 7"
definition DA_INNER :: u64 where "DA_INNER = BIT 8"
definition DA_SHAREABLE :: u64 where "DA_SHAREABLE = BIT 9"
definition DA_AF :: u64 where "DA_AF = BIT 10"
definition DA_PXN :: u64 where "DA_PXN = BIT 53"
definition DA_UXN :: u64 where "DA_UXN = BIT 54"

text \<open>All the flags of \<open>DescriptorAttr\<close>: bits 0 to 11, 52 to 54 and 59 to 63.\<close>

definition DA_all :: u64 where
  "DA_all = mask 12 OR push_bit 52 (mask 3) OR push_bit 59 (mask 5)"

definition DA_from_bits_truncate :: "u64 \<Rightarrow> u64" where
  "DA_from_bits_truncate bits = bits AND DA_all"

datatype MemType = Device | Normal

definition DA_from_mem_type :: "MemType \<Rightarrow> u64" where
  "DA_from_mem_type mem_type =
     (let bits = push_bit 2 (case mem_type of Device \<Rightarrow> 0 | Normal \<Rightarrow> 1);
          bits = (if mem_type = Normal then bits OR (DA_INNER OR DA_SHAREABLE) else bits)
      in DA_from_bits_truncate bits)"

definition DA_mem_type :: "u64 \<Rightarrow> MemType res" where
  "DA_mem_type attr =
     (let idx = drop_bit 2 (attr AND DA_ATTR_INDX)
      in if idx = 0 then Ok Device else if idx = 1 then Ok Normal else Panic Explicit_panic)"

definition flags_of_attr :: "u64 \<Rightarrow> u64 res" where
  "flags_of_attr attr =
     bind_res (DA_mem_type attr) (\<lambda>ty.
     let flags = 0;
         flags = (if bits_contains attr DA_VALID then flags OR MF_READ else flags);
         flags = (if \<not> bits_contains attr DA_AP_RO then flags OR MF_WRITE else flags);
         flags = (if bits_contains attr DA_AP_EL0 then
                    let flags = flags OR MF_USER
                    in if \<not> bits_contains attr DA_UXN then flags OR MF_EXECUTE else flags
                  else if \<not> bits_intersects attr DA_PXN then flags OR MF_EXECUTE else flags)
     in Ok (if ty = Device then flags OR MF_DEVICE else flags))"

definition attr_of_flags :: "u64 \<Rightarrow> u64" where
  "attr_of_flags flags =
     (let attr = (if bits_contains flags MF_DEVICE then DA_from_mem_type Device else DA_from_mem_type Normal);
          attr = (if bits_contains flags MF_READ then attr OR DA_VALID else attr);
          attr = (if \<not> bits_contains flags MF_WRITE then attr OR DA_AP_RO else attr)
      in if bits_contains flags MF_USER then
           let attr = attr OR (DA_AP_EL0 OR DA_PXN)
           in if \<not> bits_contains flags MF_EXECUTE then attr OR DA_UXN else attr
         else
           let attr = attr OR DA_UXN
           in if \<not> bits_contains flags MF_EXECUTE then attr OR DA_PXN else attr)"

section \<open>Entries\<close>

type_synonym PageTableEntry = u64

definition PHYS_ADDR_MASK :: u64 where
  "PHYS_ADDR_MASK = PA_MAX AND NOT (PAGE_SIZE - 1)"

definition pte_empty :: PageTableEntry where
  "pte_empty = 0"

definition pte_new_page :: "PhysAddr \<Rightarrow> u64 \<Rightarrow> bool \<Rightarrow> PageTableEntry" where
  "pte_new_page paddr flags is_block =
     (let attr = attr_of_flags flags OR DA_AF;
          attr = (if \<not> is_block then attr OR DA_NON_BLOCK else attr)
      in attr OR (pa_as_usize paddr AND PHYS_ADDR_MASK))"

definition pte_new_table :: "PhysAddr \<Rightarrow> PageTableEntry" where
  "pte_new_table paddr = (DA_NON_BLOCK OR DA_VALID) OR (pa_as_usize paddr AND PHYS_ADDR_MASK)"

definition pte_paddr :: "PageTableEntry \<Rightarrow> PhysAddr" where
  "pte_paddr e = pa_new (e AND PHYS_ADDR_MASK)"

definition pte_flags :: "PageTableEntry \<Rightarrow> u64 res" where
  "pte_flags e = flags_of_attr (DA_from_bits_truncate e)"

definition pte_is_unused :: "PageTableEntry \<Rightarrow> bool" where
  "pte_is_unused e \<longleftrightarrow> e = 0"

definition pte_is_present :: "PageTableEntry \<Rightarrow> bool" where
  "pte_is_present e \<longleftrightarrow> bits_contains (DA_from_bits_truncate e) DA_VALID"

definition pte_is_block :: "PageTableEntry \<Rightarrow> bool" where
  "pte_is_block e \<longleftrightarrow> \<not> bits_contains (DA_from_bits_truncate e) DA_NON_BLOCK"

section \<open>Tables\<close>

abbreviation ENTRY_COUNT :: nat where "ENTRY_COUNT \<equiv> 512"

definition p4_index :: "VirtAddr \<Rightarrow> nat" where
  "p4_index vaddr = unat (drop_bit (12 + 27) (va_as_usize vaddr) AND (of_nat ENTRY_COUNT - 1))"

definition p3_index :: "VirtAddr \<Rightarrow> nat" where
  "p3_index vaddr = unat (drop_bit (12 + 18) (va_as_usize vaddr) AND (of_nat ENTRY_COUNT - 1))"

definition p2_index :: "VirtAddr \<Rightarrow> nat" where
  "p2_index vaddr = unat (drop_bit (12 + 9) (va_as_usize vaddr) AND (of_nat ENTRY_COUNT - 1))"

definition p1_index :: "VirtAddr \<Rightarrow> nat" where
  "p1_index vaddr = unat (drop_bit 12 (va_as_usize vaddr) AND (of_nat ENTRY_COUNT - 1))"

definition table_of :: "PhysAddr \<Rightarrow> (pmem, PageTableEntry list) cmd" where
  "table_of paddr = bind (lift (into_kvaddr paddr)) (\<lambda>v. bind (kread v) (\<lambda>bs. ret (bytes_u64s ENTRY_COUNT bs)))"

text \<open>Reading and assigning through \<open>table_of_mut(paddr)[i]\<close>.\<close>

definition entry_get :: "PhysAddr \<times> nat \<Rightarrow> (pmem, PageTableEntry) cmd" where
  "entry_get r = bind (table_of (fst r)) (\<lambda>t. lift (index_res t (snd r)))"

definition entry_set :: "PhysAddr \<times> nat \<Rightarrow> PageTableEntry \<Rightarrow> (pmem, unit) cmd" where
  "entry_set r e =
     bind (lift (into_kvaddr (fst r))) (\<lambda>v. bind (kread v) (\<lambda>bs.
     bind (lift (update_res (bytes_u64s ENTRY_COUNT bs) (snd r) e)) (\<lambda>t. kwrite v (u64s_bytes t))))"

record PageTable =
  root_paddr :: PhysAddr
  intrm_tables :: "PhysFrame list"

definition page_table_new :: "(pmem, PageTable) cmd" where
  "page_table_new =
     bind phys_frame_alloc_zero (\<lambda>r. bind (lift (unwrap r)) (\<lambda>root_frame.
     ret \<lparr>root_paddr = start_paddr root_frame, intrm_tables = [root_frame]\<rparr>))"

definition page_table_from_root :: "PhysAddr \<Rightarrow> PageTable" where
  "page_table_from_root root = \<lparr>root_paddr = root, intrm_tables = []\<rparr>"

definition alloc_intrm_table :: "PageTable \<Rightarrow> (pmem, PhysAddr \<times> PageTable) cmd" where
  "alloc_intrm_table pt =
     bind phys_frame_alloc_zero (\<lambda>r. bind (lift (unwrap r)) (\<lambda>frame.
     ret (start_paddr frame, pt\<lparr>intrm_tables := intrm_tables pt @ [frame]\<rparr>)))"

definition next_table_mut :: "PageTableEntry \<Rightarrow> PhysAddr option res" where
  "next_table_mut entry =
     (if \<not> pte_is_present entry then Ok None
      else if pte_is_block entry then Panic Assert_failed
      else Ok (Some (pte_paddr entry)))"

definition next_table_mut_or_create :: "PageTable \<Rightarrow> PhysAddr \<times> nat \<Rightarrow> (pmem, PhysAddr option \<times> PageTable) cmd" where
  "next_table_mut_or_create pt r =
     bind (entry_get r) (\<lambda>entry.
     if pte_is_unused entry then
       bind (alloc_intrm_table pt) (\<lambda>(paddr, pt).
       bind (entry_set r (pte_new_table paddr)) (\<lambda>_. ret (Some paddr, pt)))
     else bind (lift (next_table_mut entry)) (\<lambda>t. ret (t, pt)))"

fun tables_down :: "PhysAddr \<Rightarrow> nat list \<Rightarrow> (pmem, PhysAddr option) cmd" where
  "tables_down p [] = ret (Some p)"
| "tables_down p (i # is) =
     bind (entry_get (p, i)) (\<lambda>e. bind (lift (next_table_mut e)) (\<lambda>r. case r of
       None \<Rightarrow> ret None
     | Some q \<Rightarrow> tables_down q is))"

fun tables_down_or_create :: "PageTable \<Rightarrow> PhysAddr \<Rightarrow> nat list \<Rightarrow> (pmem, PhysAddr option \<times> PageTable) cmd" where
  "tables_down_or_create pt p [] = ret (Some p, pt)"
| "tables_down_or_create pt p (i # is) =
     bind (next_table_mut_or_create pt (p, i)) (\<lambda>(r, pt). case r of
       None \<Rightarrow> ret (None, pt)
     | Some q \<Rightarrow> tables_down_or_create pt q is)"

definition get_entry_mut :: "PageTable \<Rightarrow> VirtAddr \<Rightarrow> (pmem, (PhysAddr \<times> nat) option) cmd" where
  "get_entry_mut pt vaddr =
     bind (tables_down (root_paddr pt) [p4_index vaddr, p3_index vaddr, p2_index vaddr]) (\<lambda>r.
     ret (map_option (\<lambda>p1. (p1, p1_index vaddr)) r))"

definition get_entry_mut_or_create :: "PageTable \<Rightarrow> VirtAddr \<Rightarrow> (pmem, (PhysAddr \<times> nat) option \<times> PageTable) cmd" where
  "get_entry_mut_or_create pt vaddr =
     bind (tables_down_or_create pt (root_paddr pt) [p4_index vaddr, p3_index vaddr, p2_index vaddr]) (\<lambda>(r, pt).
     ret (map_option (\<lambda>p1. (p1, p1_index vaddr)) r, pt))"

definition page_table_map :: "PageTable \<Rightarrow> VirtAddr \<Rightarrow> PhysAddr \<Rightarrow> u64 \<Rightarrow> (pmem, PageTable) cmd" where
  "page_table_map pt vaddr paddr flags =
     bind (get_entry_mut_or_create pt vaddr) (\<lambda>(r, pt). bind (lift (unwrap r)) (\<lambda>entry.
     bind (entry_get entry) (\<lambda>e.
     if \<not> pte_is_unused e then fail Explicit_panic
     else bind (entry_set entry (pte_new_page (pa_align_down paddr) flags False)) (\<lambda>_. ret pt))))"

definition page_table_unmap :: "PageTable \<Rightarrow> VirtAddr \<Rightarrow> (pmem, unit) cmd" where
  "page_table_unmap pt vaddr =
     bind (get_entry_mut pt vaddr) (\<lambda>r. bind (lift (unwrap r)) (\<lambda>entry.
     bind (entry_get entry) (\<lambda>e.
     if pte_is_unused e then fail Explicit_panic else entry_set entry pte_empty)))"

definition page_table_query :: "PageTable \<Rightarrow> VirtAddr \<Rightarrow> (pmem, (PhysAddr \<times> u64) option) cmd" where
  "page_table_query pt vaddr =
     bind (get_entry_mut pt vaddr) (\<lambda>r. case r of
       None \<Rightarrow> ret None
     | Some entry \<Rightarrow> bind (entry_get entry) (\<lambda>e.
         if pte_is_unused e then ret None
         else let off = va_page_offset vaddr in
              bind (lift (pte_flags e)) (\<lambda>flags.
              ret (Some (pa_new (pa_as_usize (pte_paddr e) + off), flags)))))"

text \<open>Dropping a page table drops its frames, in order.\<close>

definition page_table_drop :: "PageTable \<Rightarrow> (pmem, unit) cmd" where
  "page_table_drop pt = for_each (intrm_tables pt) phys_frame_drop"

text \<open>\<open>walk\<close> calls \<open>func\<close> on the present entries in order, depth first, at most \<open>limit\<close> per table; the
  model returns the list of those calls.  \<open>levels\<close> is \<open>3 - level\<close>.\<close>

fun pt_walk_entries :: "(nat \<Rightarrow> u64 \<Rightarrow> PageTableEntry \<Rightarrow> (pmem, 'v list) cmd) \<Rightarrow> (nat \<Rightarrow> u64) \<Rightarrow> nat \<Rightarrow> nat \<Rightarrow>
    PageTableEntry list \<Rightarrow> nat \<Rightarrow> (pmem, 'v list) cmd" where
  "pt_walk_entries visit va i n [] limit = ret []"
| "pt_walk_entries visit va i n (e # es) limit =
     (if pte_is_present e then
        bind (visit i (va i) e) (\<lambda>v.
        if n + 1 \<ge> limit then ret v
        else bind (pt_walk_entries visit va (i + 1) (n + 1) es limit) (\<lambda>vs. ret (v @ vs)))
      else pt_walk_entries visit va (i + 1) n es limit)"

fun pt_walk :: "nat \<Rightarrow> PhysAddr \<Rightarrow> u64 \<Rightarrow> nat \<Rightarrow> (pmem, (nat \<times> nat \<times> u64 \<times> PageTableEntry) list) cmd" where
  "pt_walk 0 table start_vaddr limit =
     bind (table_of table) (\<lambda>t. pt_walk_entries (\<lambda>i vaddr e. ret [(3, i, vaddr, e)])
       (\<lambda>i. start_vaddr + push_bit 12 (of_nat i)) 0 0 t limit)"
| "pt_walk (Suc levels) table start_vaddr limit =
     bind (table_of table) (\<lambda>t. pt_walk_entries
       (\<lambda>i vaddr e.
          if \<not> pte_is_block e then
            bind (lift (next_table_mut e)) (\<lambda>r. bind (lift (unwrap r)) (\<lambda>table_entry.
            bind (pt_walk levels table_entry vaddr limit) (\<lambda>vs. ret ((2 - levels, i, vaddr, e) # vs))))
          else ret [(2 - levels, i, vaddr, e)])
       (\<lambda>i. start_vaddr + push_bit (12 + Suc levels * 9) (of_nat i)) 0 0 t limit)"

definition page_table_dump :: "PageTable \<Rightarrow> nat \<Rightarrow> (pmem, (nat \<times> nat \<times> u64 \<times> PageTableEntry) list) cmd" where
  "page_table_dump pt limit = pt_walk 3 (root_paddr pt) 0 limit"

end
