(* ===== verification/PageEntries.thy ===== *)
theory PageEntries
  imports PageTables
begin

text \<open>
  The encoding of page table entries (src/os/src/mm/page_table.rs): the attribute bits, the address
  bits and the flags of an entry can be read back from it.
\<close>

section \<open>Bits\<close>

lemma bit_BIT [simp]: "bit (BIT n) k \<longleftrightarrow> n = k \<and> k < 64"
  unfolding BIT_def bit_push_bit_iff bit_1_iff by auto

lemma and_BIT: "k < 64 \<Longrightarrow> a AND BIT k = (if bit a k then BIT k else 0)"
  by (rule bit_word_eqI) (auto simp: bit_and_iff)

lemma BIT_nonzero: "k < 64 \<Longrightarrow> BIT k \<noteq> 0"
  using bit_BIT [of k k] bit_0_eq by fastforce

lemma bits_contains_bit: "k < 64 \<Longrightarrow> bits_contains a (BIT k) \<longleftrightarrow> bit a k"
  using BIT_nonzero [of k] by (simp add: bits_contains_def and_BIT)

lemma bits_intersects_bit: "k < 64 \<Longrightarrow> bits_intersects a (BIT k) \<longleftrightarrow> bit a k"
  using BIT_nonzero [of k] by (simp add: bits_intersects_def and_BIT)

lemma bit_DA_all: "bit DA_all k \<longleftrightarrow> k < 12 \<or> (52 \<le> k \<and> k < 55) \<or> (59 \<le> k \<and> k < 64)"
  unfolding DA_all_def bit_or_iff bit_push_bit_iff bit_mask_iff by auto

lemma bit_ATTR_INDX: "bit DA_ATTR_INDX k \<longleftrightarrow> 2 \<le> k \<and> k < 5"
  unfolding DA_ATTR_INDX_def bit_push_bit_iff bit_mask_iff by auto

lemmas DA_bits = DA_VALID_def DA_NON_BLOCK_def DA_AP_EL0_def DA_AP_RO_def DA_INNER_def DA_SHAREABLE_def DA_AF_def
  DA_PXN_def DA_UXN_def

lemma bit_mem_type: "bit (DA_from_mem_type ty) k \<longleftrightarrow> ty = Normal \<and> (k = 2 \<or> k = 8 \<or> k = 9)"
proof -
  have "(4 :: u64) = BIT 2" by (simp add: BIT_def)
  then have "bit (4 :: u64) k \<longleftrightarrow> k = 2" by (simp only: bit_BIT) auto
  then show ?thesis
    unfolding DA_from_mem_type_def DA_from_bits_truncate_def Let_def DA_bits bit_and_iff bit_DA_all
    by (cases ty) (auto simp: bit_or_iff)
qed

lemma bit_attr_of_flags:
  "bit (attr_of_flags f) k \<longleftrightarrow>
     (k = 0 \<and> bit f 0) \<or> (k = 7 \<and> \<not> bit f 1) \<or> (\<not> bit f 4 \<and> (k = 2 \<or> k = 8 \<or> k = 9)) \<or>
     (k = 6 \<and> bit f 3) \<or> (k = 53 \<and> (bit f 3 \<or> \<not> bit f 2)) \<or> (k = 54 \<and> (\<not> bit f 3 \<or> \<not> bit f 2))"
  unfolding attr_of_flags_def Let_def
  by (cases "bit f 0"; cases "bit f 1"; cases "bit f 2"; cases "bit f 3"; cases "bit f 4";
    simp add: bits_contains_bit bit_mem_type DA_bits bit_or_iff; auto)

section \<open>Addresses in entries\<close>

lemma bit_PHYS_ADDR_MASK: "bit PHYS_ADDR_MASK k \<longleftrightarrow> 12 \<le> k \<and> k < 40"
proof -
  have m: "PAGE_SIZE - 1 = mask 12" by (simp add: mask_eq_exp_minus_1)
  show ?thesis unfolding PHYS_ADDR_MASK_def PA_MAX_mask m bit_and_iff bit_not_iff bit_mask_iff by auto
qed

text \<open>The addresses an entry can hold: page aligned, below 1 TiB.\<close>

definition page_frame :: "u64 \<Rightarrow> bool" where
  "page_frame a \<longleftrightarrow> is_aligned a PAGE_SIZE \<and> unat a < 2 ^ 40"

lemma page_frame_bits: "page_frame a \<Longrightarrow> bit a k \<Longrightarrow> 12 \<le> k \<and> k < 40"
proof -
  assume a: "page_frame a" "bit a k"
  have "take_bit 12 a = 0" using a(1) by (simp add: page_frame_def is_aligned_def page_offset_take_bit)
  then have "\<not> bit (take_bit 12 a) k" by simp
  then have "12 \<le> k" using a(2) by (simp add: bit_simps)
  moreover have "take_bit 40 a = a" using a(1) pa_new_id [of a] by (simp add: page_frame_def pa_new_take_bit)
  then have "bit (take_bit 40 a) k" using a(2) by simp
  then have "k < 40" by (simp add: bit_simps)
  ultimately show ?thesis by simp
qed

lemma page_frame_mask: "page_frame a \<Longrightarrow> a AND PHYS_ADDR_MASK = a"
  by (rule bit_word_eqI) (use page_frame_bits in \<open>auto simp: bit_simps bit_PHYS_ADDR_MASK\<close>)

lemma page_frame_at: "n < 2 ^ 28 \<Longrightarrow> page_frame (frame_pa n)"
  using frame_pa_aligned frame_pa_bound by (simp add: page_frame_def)

lemma entry_paddr:
  assumes "page_frame a" and "\<And>k. bit attr k \<Longrightarrow> k < 12 \<or> 40 \<le> k"
  shows "pte_paddr (attr OR a) = PhysAddr a"
proof -
  have "(attr OR a) AND PHYS_ADDR_MASK = a"
    by (rule bit_word_eqI) (use assms(2) page_frame_bits [OF assms(1)] in \<open>fastforce simp: bit_simps bit_PHYS_ADDR_MASK\<close>)
  then show ?thesis using assms(1) pa_new_id by (simp add: pte_paddr_def page_frame_def)
qed

lemma new_table_ok:
  assumes "page_frame a"
  defines "e \<equiv> pte_new_table (PhysAddr a)"
  shows "pte_is_present e" and "\<not> pte_is_block e" and "pte_paddr e = PhysAddr a" and "e \<noteq> 0"
    and "next_table_mut e = Ok (Some (PhysAddr a))"
proof -
  have e: "e = (DA_NON_BLOCK OR DA_VALID) OR a" using page_frame_mask [OF assms(1)] by (simp add: e_def pte_new_table_def)
  have "bit e 0" "bit e 1" by (simp_all add: e DA_bits bit_simps)
  then show p: "pte_is_present e" "\<not> pte_is_block e" "e \<noteq> 0"
    by (auto simp: pte_is_present_def pte_is_block_def DA_bits bits_contains_bit DA_from_bits_truncate_def bit_simps bit_DA_all)
  show q: "pte_paddr e = PhysAddr a" unfolding e by (rule entry_paddr [OF assms(1)]) (auto simp: DA_bits bit_simps)
  show "next_table_mut e = Ok (Some (PhysAddr a))" using p q by (simp add: next_table_mut_def)
qed

text \<open>The flags a page is mapped with, and its address, are read back from its entry.\<close>

lemma bit_new_page:
  assumes "page_frame a"
  shows "bit (pte_new_page (PhysAddr a) f False) k \<longleftrightarrow> bit (attr_of_flags f) k \<or> k = 10 \<or> k = 1 \<or> bit a k"
  using page_frame_mask [OF assms] by (auto simp: pte_new_page_def Let_def DA_bits bit_simps)

lemma new_page_paddr:
  assumes "page_frame a"
  shows "pte_paddr (pte_new_page (PhysAddr a) f False) = PhysAddr a" and "pte_new_page (PhysAddr a) f False \<noteq> 0"
proof -
  have "pte_new_page (PhysAddr a) f False = ((attr_of_flags f OR DA_AF) OR DA_NON_BLOCK) OR a"
    using page_frame_mask [OF assms] by (simp add: pte_new_page_def Let_def or.assoc)
  moreover have "pte_paddr \<dots> = PhysAddr a"
    by (rule entry_paddr [OF assms]) (auto simp: bit_attr_of_flags DA_bits bit_simps)
  ultimately show "pte_paddr (pte_new_page (PhysAddr a) f False) = PhysAddr a" by simp
  have "bit (pte_new_page (PhysAddr a) f False) 10" using bit_new_page [OF assms] by simp
  then show "pte_new_page (PhysAddr a) f False \<noteq> 0" by auto
qed

lemma attr_bits_range: "bit (attr_of_flags f) k \<Longrightarrow> k < 12 \<or> (52 \<le> k \<and> k < 55)"
  unfolding bit_attr_of_flags by auto

lemma new_page_flags:
  assumes a: "page_frame a" and f: "f AND 31 = f"
  shows "pte_flags (pte_new_page (PhysAddr a) f False) = Ok f"
proof -
  let ?t = "DA_from_bits_truncate (pte_new_page (PhysAddr a) f False)"
  have bt: "bit ?t k \<longleftrightarrow> bit (attr_of_flags f) k \<or> k = 10 \<or> k = 1" for k
    unfolding DA_from_bits_truncate_def bit_and_iff bit_new_page [OF a] bit_DA_all
    using page_frame_bits [OF a, of k] attr_bits_range [of f k] by linarith
  have m31: "(31 :: u64) = mask 5" by (simp add: mask_eq_exp_minus_1)
  have f5: "k < 5" if "bit f k" for k
  proof -
    have "bit (f AND mask 5) k" using that f by (simp only: m31)
    then show ?thesis unfolding bit_and_iff bit_mask_iff by simp
  qed
  have split: "f = (((((if bit f 0 then MF_READ else 0) OR (if bit f 1 then MF_WRITE else 0)) OR
      (if bit f 3 then MF_USER else 0)) OR (if bit f 2 then MF_EXECUTE else 0)) OR (if bit f 4 then MF_DEVICE else 0))"
  proof (rule bit_word_eqI)
    fix n :: nat
    consider "n = 0" | "n = 1" | "n = 2" | "n = 3" | "n = 4" | "5 \<le> n" by linarith
    then show "bit f n = bit (((((if bit f 0 then MF_READ else 0) OR (if bit f 1 then MF_WRITE else 0)) OR
      (if bit f 3 then MF_USER else 0)) OR (if bit f 2 then MF_EXECUTE else 0)) OR (if bit f 4 then MF_DEVICE else 0)) n"
      by cases (use f5 [of n] in \<open>auto simp: bit_or_iff\<close>)
  qed
  have ty: "DA_mem_type ?t = Ok (if bit f 4 then Device else Normal)"
  proof -
    have "drop_bit 2 (?t AND DA_ATTR_INDX) = (if bit f 4 then 0 else 1)"
      by (rule bit_word_eqI) (auto simp: bit_drop_bit_eq bit_and_iff bit_ATTR_INDX bt bit_attr_of_flags bit_1_iff)
    then show ?thesis by (simp add: DA_mem_type_def)
  qed
  have c: "bits_contains ?t DA_VALID = bit f 0" "bits_contains ?t DA_AP_RO = (\<not> bit f 1)" "bits_contains ?t DA_AP_EL0 = bit f 3"
    "bits_contains ?t DA_UXN = (\<not> bit f 3 \<or> \<not> bit f 2)" "bits_intersects ?t DA_PXN = (bit f 3 \<or> \<not> bit f 2)"
    by (simp_all add: DA_bits bits_contains_bit bits_intersects_bit bt bit_attr_of_flags)
  have "flags_of_attr ?t = Ok f" unfolding flags_of_attr_def ty bind_res.simps Let_def res.inject c
    by (rule trans [OF _ split [symmetric]], cases "bit f 0"; cases "bit f 1"; cases "bit f 2"; cases "bit f 3"; cases "bit f 4"; simp)
  then show ?thesis by (simp add: pte_flags_def)
qed

end
