(* ===== verification/PageTableSpec.thy ===== *)
theory PageTableSpec
  imports PageEntries
begin

text \<open>
  The page table as a function from virtual pages to entries.  \<open>pt_rep\<close> is the representation
  invariant: the tables form a tree whose nodes are the frames the page table owns, and a non-leaf
  entry is empty or points to one of them.  Mapping, unmapping and querying then refine update and
  lookup of the function \<open>leaf\<close> that sends an address to its last-level entry.
\<close>

section \<open>The tree of tables\<close>

definition tbl :: "pmem \<Rightarrow> nat \<Rightarrow> u64 list" where
  "tbl s n = bytes_u64s ENTRY_COUNT (frames s (frame_pa n))"

definition child :: "pmem \<Rightarrow> nat \<Rightarrow> nat \<Rightarrow> nat option" where
  "child s n i = (let e = tbl s n ! i in if e = 0 then None else Some (page_of (pa_as_usize (pte_paddr e))))"

fun node :: "pmem \<Rightarrow> nat \<Rightarrow> nat list \<Rightarrow> nat option" where
  "node s n [] = Some n"
| "node s n (i # is) = (case child s n i of None \<Rightarrow> None | Some m \<Rightarrow> node s m is)"

definition valid_path :: "nat \<Rightarrow> nat list \<Rightarrow> bool" where
  "valid_path k p \<longleftrightarrow> length p \<le> k \<and> (\<forall>i\<in>set p. i < ENTRY_COUNT)"

definition pt_rep :: "pmem \<Rightarrow> PageTable \<Rightarrow> nat \<Rightarrow> nat list \<Rightarrow> bool" where
  "pt_rep s pt r ts \<longleftrightarrow> pt = \<lparr>root_paddr = PhysAddr (frame_pa r), intrm_tables = map frame_at ts\<rparr> \<and>
     pmem_ok s \<and> distinct ts \<and> set ts \<subseteq> live_frames s \<and> r \<in> set ts \<and>
     (\<forall>p n. valid_path 3 p \<longrightarrow> node s r p = Some n \<longrightarrow> n \<in> set ts) \<and>
     (\<forall>p q n. valid_path 3 p \<longrightarrow> valid_path 3 q \<longrightarrow> node s r p = Some n \<longrightarrow> node s r q = Some n \<longrightarrow> p = q) \<and>
     (\<forall>p n i. valid_path 2 p \<longrightarrow> node s r p = Some n \<longrightarrow> i < ENTRY_COUNT \<longrightarrow>
        tbl s n ! i = 0 \<or> (\<exists>m\<in>set ts. tbl s n ! i = pte_new_table (PhysAddr (frame_pa m))))"

definition idx_path :: "VirtAddr \<Rightarrow> nat list" where
  "idx_path v = [p4_index v, p3_index v, p2_index v]"

definition leaf :: "pmem \<Rightarrow> nat \<Rightarrow> VirtAddr \<Rightarrow> u64" where
  "leaf s r v = (case node s r (idx_path v) of None \<Rightarrow> 0 | Some n \<Rightarrow> tbl s n ! p1_index v)"

text \<open>The virtual page number: bits 12 to 47.\<close>

definition vpn :: "VirtAddr \<Rightarrow> u64" where
  "vpn v = take_bit 36 (drop_bit 12 (va_as_usize v))"

section \<open>Indices\<close>

lemma index_take_bit:
  "p4_index v = unat (take_bit 9 (drop_bit 39 (va_as_usize v)))" "p3_index v = unat (take_bit 9 (drop_bit 30 (va_as_usize v)))"
  "p2_index v = unat (take_bit 9 (drop_bit 21 (va_as_usize v)))" "p1_index v = unat (take_bit 9 (drop_bit 12 (va_as_usize v)))"
proof -
  have m: "(of_nat ENTRY_COUNT - 1 :: u64) = mask 9" by (simp add: mask_eq_exp_minus_1)
  show "p4_index v = unat (take_bit 9 (drop_bit 39 (va_as_usize v)))" "p3_index v = unat (take_bit 9 (drop_bit 30 (va_as_usize v)))"
    "p2_index v = unat (take_bit 9 (drop_bit 21 (va_as_usize v)))" "p1_index v = unat (take_bit 9 (drop_bit 12 (va_as_usize v)))"
    unfolding p4_index_def p3_index_def p2_index_def p1_index_def m take_bit_eq_mask by simp_all
qed

lemma take_bit_9_less: "unat (take_bit 9 (a :: u64)) < 512"
proof -
  have "unat (take_bit 9 a) = take_bit 9 (unat a)" by (simp only: unsigned_take_bit_eq)
  then show ?thesis by (simp add: take_bit_eq_mod)
qed

lemma idx_path_valid [simp]: "valid_path 3 (idx_path v)" "p1_index v < ENTRY_COUNT" "length (idx_path v) = 3"
  using take_bit_9_less by (simp_all add: valid_path_def idx_path_def index_take_bit)

lemma idx_path_vpn: "idx_path v = idx_path v' \<and> p1_index v = p1_index v' \<longleftrightarrow> vpn v = vpn v'"
proof
  let ?a = "va_as_usize v" and ?b = "va_as_usize v'"
  assume "idx_path v = idx_path v' \<and> p1_index v = p1_index v'"
  then have e: "take_bit 9 (drop_bit 39 ?a) = take_bit 9 (drop_bit 39 ?b)" "take_bit 9 (drop_bit 30 ?a) = take_bit 9 (drop_bit 30 ?b)"
    "take_bit 9 (drop_bit 21 ?a) = take_bit 9 (drop_bit 21 ?b)" "take_bit 9 (drop_bit 12 ?a) = take_bit 9 (drop_bit 12 ?b)"
    by (simp_all only: idx_path_def index_take_bit list.inject word_unat_eq_iff)
  have slice: "bit ?a (k + j) = bit ?b (k + j)" if "take_bit 9 (drop_bit k ?a) = take_bit 9 (drop_bit k ?b)" "j < 9" for k j
    using arg_cong [OF that(1), of "\<lambda>w. bit w j"] that(2) by (simp only: bit_take_bit_iff bit_drop_bit_eq o_apply simp_thms)
  show "vpn v = vpn v'" unfolding vpn_def
  proof (rule bit_word_eqI)
    fix n
    show "bit (take_bit 36 (drop_bit 12 ?a)) n = bit (take_bit 36 (drop_bit 12 ?b)) n"
    proof (cases "n < 36")
      case True
      then consider "n < 9" | "9 \<le> n" "n < 18" | "18 \<le> n" "n < 27" | "27 \<le> n" "n < 36" by linarith
      then have "bit ?a (12 + n) = bit ?b (12 + n)"
        by cases (use slice [OF e(4), of n] slice [OF e(3), of "n - 9"] slice [OF e(2), of "n - 18"] slice [OF e(1), of "n - 27"] in auto)
      then show ?thesis by (simp only: bit_take_bit_iff bit_drop_bit_eq o_apply)
    qed (simp add: bit_take_bit_iff)
  qed
next
  let ?a = "va_as_usize v" and ?b = "va_as_usize v'"
  assume "vpn v = vpn v'"
  then have e: "take_bit 36 (drop_bit 12 ?a) = take_bit 36 (drop_bit 12 ?b)" by (simp add: vpn_def)
  have "take_bit 9 (drop_bit (12 + k) ?a) = take_bit 9 (drop_bit (12 + k) ?b)" if "k + 9 \<le> 36" for k
  proof (rule bit_word_eqI)
    fix n
    show "bit (take_bit 9 (drop_bit (12 + k) ?a)) n = bit (take_bit 9 (drop_bit (12 + k) ?b)) n"
      using arg_cong [OF e, of "\<lambda>w. bit w (k + n)"] that
      by (cases "n < 9") (simp_all only: bit_take_bit_iff bit_drop_bit_eq o_apply add.assoc, auto)
  qed
  from this [of 27] this [of 18] this [of 9] this [of 0] show "idx_path v = idx_path v' \<and> p1_index v = p1_index v'"
    by (simp add: idx_path_def index_take_bit)
qed

section \<open>Paths\<close>

lemma node_append: "node s n (p @ q) = (case node s n p of None \<Rightarrow> None | Some m \<Rightarrow> node s m q)"
  by (induction p arbitrary: n) (auto split: option.splits)

lemma node_snoc: "node s n (p @ [i]) = (case node s n p of None \<Rightarrow> None | Some m \<Rightarrow> child s m i)"
  by (auto simp: node_append split: option.splits)

lemma valid_path_append: "valid_path k (p @ q) \<Longrightarrow> valid_path k p"
  by (auto simp: valid_path_def)

lemma valid_path_le: "valid_path k p \<Longrightarrow> k \<le> k' \<Longrightarrow> valid_path k' p"
  by (auto simp: valid_path_def)

lemma child_cong: "tbl s' n = tbl s n \<Longrightarrow> child s' n = child s n"
  by (simp add: child_def fun_eq_iff)

lemma child_new_table: "m < 2 ^ 28 \<Longrightarrow> tbl s n ! i = pte_new_table (PhysAddr (frame_pa m)) \<Longrightarrow> child s n i = Some m"
  using new_table_ok(3,4) [OF page_frame_at] unat_frame_pa [of m] by (simp add: child_def Let_def page_of_def)

lemma pt_repD:
  assumes "pt_rep s pt r ts"
  shows "pmem_ok s" and "distinct ts" and "set ts \<subseteq> live_frames s" and "r \<in> set ts" and "\<And>n. n \<in> set ts \<Longrightarrow> n < 2 ^ 28"
    and "\<And>p n. valid_path 3 p \<Longrightarrow> node s r p = Some n \<Longrightarrow> n \<in> set ts"
    and "\<And>p q n. valid_path 3 p \<Longrightarrow> valid_path 3 q \<Longrightarrow> node s r p = Some n \<Longrightarrow> node s r q = Some n \<Longrightarrow> p = q"
    and "\<And>p n i. valid_path 2 p \<Longrightarrow> node s r p = Some n \<Longrightarrow> i < ENTRY_COUNT \<Longrightarrow>
        tbl s n ! i = 0 \<or> (\<exists>m\<in>set ts. tbl s n ! i = pte_new_table (PhysAddr (frame_pa m)))"
    and "root_paddr pt = PhysAddr (frame_pa r)" and "intrm_tables pt = map frame_at ts"
proof -
  note d = assms [unfolded pt_rep_def]
  show a: "pmem_ok s" "distinct ts" "set ts \<subseteq> live_frames s" "r \<in> set ts" using d by blast+
  show "n < 2 ^ 28" if "n \<in> set ts" for n using pmem_okD(1) [OF a(1)] a(3) that by blast
  show "n \<in> set ts" if "valid_path 3 p" "node s r p = Some n" for p n using d that by blast
  show "p = q" if "valid_path 3 p" "valid_path 3 q" "node s r p = Some n" "node s r q = Some n" for p q n using d that by blast
  show "tbl s n ! i = 0 \<or> (\<exists>m\<in>set ts. tbl s n ! i = pte_new_table (PhysAddr (frame_pa m)))"
    if "valid_path 2 p" "node s r p = Some n" "i < ENTRY_COUNT" for p n i using d that by blast
  show "root_paddr pt = PhysAddr (frame_pa r)" "intrm_tables pt = map frame_at ts" using d by simp_all
qed

text \<open>The tree depends only on the tables at inner nodes.\<close>

lemma node_cong:
  assumes "\<And>q m. valid_path 2 q \<Longrightarrow> node s r q = Some m \<Longrightarrow> tbl s' m = tbl s m"
  shows "valid_path 3 p \<Longrightarrow> node s' r p = node s r p"
proof (induction p rule: rev_induct)
  case (snoc i p)
  have v: "valid_path 2 p" "valid_path 3 p" using snoc.prems by (auto simp: valid_path_def)
  from snoc.IH [OF v(2)] assms [OF v(1)] child_cong [of s' _ s] show ?case
    by (auto simp: node_snoc split: option.splits)
qed simp

text \<open>Writing an entry of a last-level table changes that entry alone.\<close>

definition entry_written :: "pmem \<Rightarrow> nat \<Rightarrow> nat \<Rightarrow> u64 \<Rightarrow> pmem \<Rightarrow> bool" where
  "entry_written s n i e s' \<longleftrightarrow> pmem_ok s' \<and> all_frames s' = all_frames s \<and> live_frames s' = live_frames s \<and>
     tbl s' n = (tbl s n)[i := e] \<and> (\<forall>m\<in>all_frames s - {n}. frames s' (frame_pa m) = frames s (frame_pa m))"

lemma tbl_cong: "frames s' (frame_pa m) = frames s (frame_pa m) \<Longrightarrow> tbl s' m = tbl s m"
  by (simp add: tbl_def)

lemma leaf_written:
  assumes rep: "pt_rep s pt r ts" and n: "node s r (idx_path v) = Some n" and w: "entry_written s n (p1_index v) e s'"
  shows "pt_rep s' pt r ts" and "leaf s' r v' = (if vpn v' = vpn v then e else leaf s r v')"
proof -
  note R = pt_repD [OF rep]
  have all: "set ts \<subseteq> all_frames s" using R(1,3) pmem_okD(2) by blast
  have inner: "tbl s' m = tbl s m" if "valid_path 2 q" "node s r q = Some m" for q m
  proof -
    have q: "valid_path 3 q" using that(1) by (rule valid_path_le) simp
    have "m \<noteq> n" using R(7) [OF q idx_path_valid(1) that(2)] n that(1) idx_path_valid(3) [of v] by (auto simp: valid_path_def)
    moreover have "m \<in> all_frames s" using R(6) [OF q that(2)] all by blast
    ultimately show ?thesis using w by (intro tbl_cong) (simp add: entry_written_def)
  qed
  have nodes: "node s' r p = node s r p" if "valid_path 3 p" for p by (rule node_cong [OF inner that])
  have sub: "set ts \<subseteq> live_frames s'" "pmem_ok s'" using R(3) w by (auto simp: entry_written_def)
  have inner': "tbl s' m ! i = 0 \<or> (\<exists>k\<in>set ts. tbl s' m ! i = pte_new_table (PhysAddr (frame_pa k)))"
    if "valid_path 2 p" "node s' r p = Some m" "i < ENTRY_COUNT" for p m i
  proof -
    have "node s r p = Some m" using nodes [of p] that(1,2) valid_path_le [OF that(1), of 3] by simp
    then show ?thesis using inner [OF that(1)] R(8) [OF that(1) _ that(3)] by simp
  qed
  show "pt_rep s' pt r ts" unfolding pt_rep_def
  proof (intro conjI allI impI)
    show "pt = \<lparr>root_paddr = PhysAddr (frame_pa r), intrm_tables = map frame_at ts\<rparr>" using R(9,10) by simp
    show "n \<in> set ts" if "valid_path 3 p" "node s' r p = Some n" for p n using R(6) that nodes by simp
    show "p = q" if "valid_path 3 p" "valid_path 3 q" "node s' r p = Some n" "node s' r q = Some n" for p q n
      using R(7) that nodes by simp
  qed (use sub R(2,4) inner' in auto)
  have tn: "tbl s' m = (if m = n then (tbl s n)[p1_index v := e] else tbl s m)" if "m \<in> set ts" for m
    using that all w by (auto simp: entry_written_def intro!: tbl_cong)
  have len: "length (tbl s n) = ENTRY_COUNT" by (simp add: tbl_def)
  show "leaf s' r v' = (if vpn v' = vpn v then e else leaf s r v')"
  proof (cases "node s r (idx_path v')")
    case None
    then show ?thesis using nodes n idx_path_vpn [of v' v] by (auto simp: leaf_def)
  next
    case (Some m)
    have "m = n \<longleftrightarrow> idx_path v' = idx_path v" using R(7) [OF idx_path_valid(1) idx_path_valid(1)] Some n by auto
    moreover have "m \<in> set ts" using R(6) [OF idx_path_valid(1) Some] .
    ultimately show ?thesis
      using Some nodes [OF idx_path_valid(1)] tn [of m] idx_path_vpn [of v' v] len
      by (auto simp: leaf_def nth_list_update)
  qed
qed

text \<open>Linking a fresh zeroed table under an empty entry of an inner table adds one node and no mapping.\<close>

definition table_linked :: "pmem \<Rightarrow> nat \<Rightarrow> nat \<Rightarrow> nat \<Rightarrow> pmem \<Rightarrow> bool" where
  "table_linked s n i f s' \<longleftrightarrow> pmem_ok s' \<and> f \<in> all_frames s - live_frames s \<and> all_frames s' = all_frames s \<and>
     live_frames s' = insert f (live_frames s) \<and> free_count s = Suc (free_count s') \<and>
     tbl s' f = replicate ENTRY_COUNT 0 \<and> tbl s' n = (tbl s n)[i := pte_new_table (PhysAddr (frame_pa f))] \<and>
     (\<forall>m\<in>all_frames s - {n, f}. frames s' (frame_pa m) = frames s (frame_pa m))"

lemma linked_node:
  assumes rep: "pt_rep s pt r ts" and p: "valid_path 2 p" "node s r p = Some n" and i: "i < ENTRY_COUNT" "tbl s n ! i = 0"
    and l: "table_linked s n i f s'"
  shows "valid_path 3 q \<Longrightarrow> node s' r q = (if q = p @ [i] then Some f else if take (Suc (length p)) q = p @ [i] then None else node s r q)"
proof (induction q rule: rev_induct)
  case Nil
  then show ?case by simp
next
  case (snoc j q)
  note R = pt_repD [OF rep]
  have f: "f \<notin> set ts" "f < 2 ^ 28" using l R(1,3) by (auto simp: table_linked_def pmem_ok_def)
  have v: "valid_path 3 q" "j < ENTRY_COUNT" using snoc.prems by (auto simp: valid_path_def)
  have len: "length (tbl s n) = ENTRY_COUNT" by (simp add: tbl_def)
  have cf: "child s' f j = None" using l v(2) by (simp add: child_def table_linked_def)
  have cn: "child s' n j = (if j = i then Some f else child s n j)"
  proof (cases "j = i")
    case True
    have "tbl s' n ! i = pte_new_table (PhysAddr (frame_pa f))" using l i(1) len by (simp add: table_linked_def)
    then show ?thesis using child_new_table [OF f(2)] True by simp
  qed (use l in \<open>simp add: child_def table_linked_def\<close>)
  have cm: "child s' m j = child s m j" if "m \<in> set ts" "m \<noteq> n" for m
  proof -
    have "m \<in> all_frames s - {n, f}" using that f(1) R(1,3) pmem_okD(2) by blast
    then have "tbl s' m = tbl s m" using l by (intro tbl_cong) (simp add: table_linked_def)
    then show ?thesis using child_cong [of s' m s] by simp
  qed
  have ni: "child s n i = None" using i(2) by (simp add: child_def)
  note IH = snoc.IH [OF v(1)]
  show ?case
  proof (cases "take (Suc (length p)) q = p @ [i]")
    case True
    then have "length p < length q" by (metis length_append_singleton length_take lessI min.strict_boundedE)
    then have t: "take (Suc (length p)) (q @ [j]) = p @ [i]" "q @ [j] \<noteq> p @ [i]" using True by auto
    have "node s' r (q @ [j]) = None" unfolding node_snoc IH using True cf by simp
    then show ?thesis using t by (simp only: if_False if_True refl)
  next
    case False
    then have q: "node s' r q = node s r q" "q \<noteq> p @ [i]" using IH by auto
    have iff: "take (Suc (length p)) (q @ [j]) = p @ [i] \<longleftrightarrow> q = p \<and> j = i"
    proof (cases "length q < Suc (length p)")
      case True
      then show ?thesis by auto
    qed (use False in auto)
    show ?thesis
    proof (cases "node s r q")
      case None
      then have "q \<noteq> p" using p(2) by auto
      then show ?thesis using None q(1) iff by (simp add: node_snoc)
    next
      case (Some m)
      have "m = n \<longleftrightarrow> q = p" using R(7) [OF v(1) valid_path_le [OF p(1)]] Some p(2) by auto
      then show ?thesis using Some q(1) iff cn cm [of m] R(6) [OF v(1) Some] ni by (auto simp: node_snoc)
    qed
  qed
qed

lemma linked_rep:
  assumes rep: "pt_rep s pt r ts" and p: "valid_path 2 p" "node s r p = Some n" and i: "i < ENTRY_COUNT" "tbl s n ! i = 0"
    and l: "table_linked s n i f s'"
  shows "pt_rep s' (pt\<lparr>intrm_tables := intrm_tables pt @ [frame_at f]\<rparr>) r (ts @ [f])" and "leaf s' r v = leaf s r v"
proof -
  note R = pt_repD [OF rep]
  note N = linked_node [OF assms]
  have f: "f \<notin> set ts" "f < 2 ^ 28" using l R(1,3) by (auto simp: table_linked_def pmem_ok_def)
  have len: "length (tbl s n) = ENTRY_COUNT" by (simp add: tbl_def)
  have tm: "tbl s' m = tbl s m" if "m \<in> set ts" "m \<noteq> n" for m
  proof -
    have "m \<in> all_frames s - {n, f}" using that f(1) R(1,3) pmem_okD(2) by blast
    then show ?thesis using l by (intro tbl_cong) (simp add: table_linked_def)
  qed
  have inj: "node s' r q = Some m \<longleftrightarrow> (if q = p @ [i] then m = f else take (Suc (length p)) q \<noteq> p @ [i] \<and> node s r q = Some m)"
    if "valid_path 3 q" for q m using N [OF that] by auto
  have old: "m \<noteq> f" if "valid_path 3 q" "node s r q = Some m" for q m using R(6) [OF that] f(1) by auto
  have inner: "tbl s' m ! j = 0 \<or> (\<exists>k\<in>set (ts @ [f]). tbl s' m ! j = pte_new_table (PhysAddr (frame_pa k)))"
    if v: "valid_path 2 q" "node s' r q = Some m" "j < ENTRY_COUNT" for q m j
  proof (cases "q = p @ [i]")
    case True
    then have "m = f" using inj [of q m] v(2) valid_path_le [OF v(1), of 3] by simp
    then show ?thesis using l v(3) by (simp add: table_linked_def)
  next
    case False
    then have q: "node s r q = Some m" using inj [of q m] v(2) valid_path_le [OF v(1), of 3] by simp
    from R(8) [OF v(1) q v(3)] show ?thesis
      using tm [of m] R(6) [OF valid_path_le [OF v(1)] q] l len i by (cases "m = n") (auto simp: table_linked_def nth_list_update)
  qed
  show "pt_rep s' (pt\<lparr>intrm_tables := intrm_tables pt @ [frame_at f]\<rparr>) r (ts @ [f])" unfolding pt_rep_def
  proof (intro conjI allI impI)
    show "pt\<lparr>intrm_tables := intrm_tables pt @ [frame_at f]\<rparr> = \<lparr>root_paddr = PhysAddr (frame_pa r), intrm_tables = map frame_at (ts @ [f])\<rparr>"
      using R(9,10) by (cases pt) simp
    show "m \<in> set (ts @ [f])" if "valid_path 3 q" "node s' r q = Some m" for q m
      using inj [OF that(1), of m] that(2) R(6) [OF that(1)] by (auto split: if_splits)
    show "q = q'" if v: "valid_path 3 q" "valid_path 3 q'" "node s' r q = Some m" "node s' r q' = Some m" for q q' m
      using inj [OF v(1), of m] inj [OF v(2), of m] v(3,4) old [OF v(1)] old [OF v(2)] R(7) [OF v(1,2)] by (auto split: if_splits)
    show "pmem_ok s'" "set (ts @ [f]) \<subseteq> live_frames s'" using l R(3) by (auto simp: table_linked_def)
    show "distinct (ts @ [f])" "r \<in> set (ts @ [f])" using R(2,4) f(1) by simp_all
  qed (rule inner)
  have idx: "take (Suc (length p)) (idx_path v) = p @ [i] \<Longrightarrow> leaf s r v = 0"
  proof -
    assume t: "take (Suc (length p)) (idx_path v) = p @ [i]"
    have "node s r (p @ [i]) = None" using p(2) i(2) by (simp add: node_snoc child_def)
    then have "node s r (idx_path v) = None"
      using node_append [of s r "p @ [i]" "drop (Suc (length p)) (idx_path v)"] t by (metis append_take_drop_id option.case(1))
    then show ?thesis by (simp add: leaf_def)
  qed
  show "leaf s' r v = leaf s r v"
  proof (cases "take (Suc (length p)) (idx_path v) = p @ [i]")
    case True
    then show ?thesis using idx N [OF idx_path_valid(1)] l by (auto simp: leaf_def table_linked_def)
  next
    case False
    then have nv: "node s' r (idx_path v) = node s r (idx_path v)" using N [OF idx_path_valid(1), of v] by (auto split: if_splits)
    show ?thesis
    proof (cases "node s r (idx_path v)")
      case (Some m)
      have "m \<noteq> n" using R(7) [OF idx_path_valid(1) valid_path_le [OF p(1)] Some] p idx_path_valid(3) [of v] by (auto simp: valid_path_def)
      then show ?thesis using Some nv tm [OF R(6) [OF idx_path_valid(1) Some]] by (simp add: leaf_def)
    qed (simp add: leaf_def nv)
  qed
qed

section \<open>Entries in memory\<close>

lemma runs_entry_get:
  assumes "n < 2 ^ 28" and "i < ENTRY_COUNT"
  shows "runs (entry_get (PhysAddr (frame_pa n), i)) s Q \<longleftrightarrow> Q (tbl s n ! i) s"
  using assms by (simp add: entry_get_def table_of_def frame_kvaddr kread_def runs_bind runs_def bind_def ret_def lift_def index_res_def tbl_def)

lemma entry_set_ok:
  assumes ok: "pmem_ok s" and n: "n \<in> all_frames s" and i: "i < ENTRY_COUNT"
  shows "runs (entry_set (PhysAddr (frame_pa n), i) e) s (\<lambda>_. entry_written s n i e)"
proof -
  have b: "n < 2 ^ 28" using ok n by (auto simp: pmem_ok_def)
  let ?s = "s\<lparr>frames := (frames s)(frame_pa n := u64s_bytes ((tbl s n)[i := e]))\<rparr>"
  have run: "entry_set (PhysAddr (frame_pa n), i) e s = Ok ((), ?s)"
    using b i by (simp add: entry_set_def frame_kvaddr kread_def kwrite_def bind_def lift_def update_res_def tbl_def)
  have same: "all_frames ?s = all_frames s" "live_frames ?s = live_frames s" by (simp_all add: all_frames_def live_frames_def)
  have oth: "frames ?s (frame_pa m) = frames s (frame_pa m)" if "m \<in> all_frames s - {n}" for m
    using that b ok by (auto simp: pmem_ok_def)
  have "length (frames ?s (frame_pa m)) = 4096" if "m \<in> all_frames s" for m
    using that ok by (cases "m = n") (auto simp: pmem_ok_def tbl_def)
  then have "pmem_ok ?s" using ok same(1) by (simp add: pmem_ok_def)
  moreover have "tbl ?s n = (tbl s n)[i := e]" by (simp add: tbl_def bytes_roundtrips)
  ultimately have "entry_written s n i e ?s" using same oth by (simp add: entry_written_def)
  then show ?thesis using run by (simp add: runs_def)
qed

lemma tbl_zero: "frames s (frame_pa n) = replicate 4096 0 \<Longrightarrow> tbl s n = replicate ENTRY_COUNT 0"
  by (rule nth_equalityI) (simp_all add: tbl_def bytes_u64s_def nth_chunks)

section \<open>Walking the tables\<close>

lemma next_table_entry:
  assumes rep: "pt_rep s pt r ts" and p: "valid_path 2 p" "node s r p = Some n" and i: "i < ENTRY_COUNT"
  shows "next_table_mut (tbl s n ! i) = Ok (map_option (\<lambda>m. PhysAddr (frame_pa m)) (child s n i))"
proof -
  note R = pt_repD [OF rep]
  from R(8) [OF p i] show ?thesis
  proof
    assume "tbl s n ! i = 0"
    then show ?thesis by (simp add: next_table_mut_def child_def pte_is_present_def DA_from_bits_truncate_def bits_contains_bit DA_VALID_def)
  next
    assume "\<exists>m\<in>set ts. tbl s n ! i = pte_new_table (PhysAddr (frame_pa m))"
    then obtain m where m: "m \<in> set ts" "tbl s n ! i = pte_new_table (PhysAddr (frame_pa m))" by blast
    then show ?thesis using child_new_table [OF R(5)] new_table_ok(5) [OF page_frame_at [OF R(5)]] by simp
  qed
qed

lemma tables_down_ok:
  assumes rep: "pt_rep s pt r ts"
  shows "valid_path 3 (p @ is) \<Longrightarrow> node s r p = Some n \<Longrightarrow>
    runs (tables_down (PhysAddr (frame_pa n)) is) s (\<lambda>q s'. s' = s \<and> q = map_option (\<lambda>m. PhysAddr (frame_pa m)) (node s n is))"
proof (induction "is" arbitrary: p n)
  case (Cons i "is")
  have v: "valid_path 2 p" "i < ENTRY_COUNT" "valid_path 3 p" using Cons.prems(1) by (auto simp: valid_path_def)
  have b: "n < 2 ^ 28" using pt_repD(5,6) [OF rep] v(3) Cons.prems(2) by blast
  note nx = next_table_entry [OF rep v(1) Cons.prems(2) v(2)]
  show ?case
  proof (cases "child s n i")
    case None
    then show ?thesis using nx by (simp add: runs_bind runs_entry_get [OF b v(2)])
  next
    case (Some m)
    have "node s r (p @ [i]) = Some m" using Cons.prems(2) Some by (simp add: node_snoc)
    from Cons.IH [of "p @ [i]", OF _ this] Cons.prems(1) show ?thesis
      using nx Some by (simp add: runs_bind runs_entry_get [OF b v(2)])
  qed
qed simp

text \<open>What walking with creation leaves: the same mappings, the path present, some fresh tables.\<close>

definition tables_grown :: "pmem \<Rightarrow> nat \<Rightarrow> nat list \<Rightarrow> nat list \<Rightarrow> pmem \<Rightarrow> PageTable \<Rightarrow> bool" where
  "tables_grown s r ts new s' pt' \<longleftrightarrow> pt_rep s' pt' r (ts @ new) \<and> all_frames s' = all_frames s \<and>
     live_frames s' = live_frames s \<union> set new \<and> set new \<inter> live_frames s = {} \<and> free_count s = free_count s' + length new \<and>
     (\<forall>v. leaf s' r v = leaf s r v) \<and>
     (\<forall>m\<in>all_frames s - set (ts @ new). frames s' (frame_pa m) = frames s (frame_pa m))"

lemma tables_grown_refl: "pt_rep s pt r ts \<Longrightarrow> tables_grown s r ts [] s pt"
  by (simp add: tables_grown_def)

lemma tables_grown_trans:
  assumes "tables_grown s r ts new s1 pt1" and "tables_grown s1 r (ts @ new) new' s2 pt2"
  shows "tables_grown s r ts (new @ new') s2 pt2"
  using assms by (auto simp: tables_grown_def)

lemma link_ok:
  assumes rep: "pt_rep s pt r ts" and p: "valid_path 2 p" "node s r p = Some n" and i: "i < ENTRY_COUNT" "tbl s n ! i = 0"
    and free: "0 < free_count s"
  shows "runs (next_table_mut_or_create pt (PhysAddr (frame_pa n), i)) s (\<lambda>(q, pt') s'. \<exists>f. q = Some (PhysAddr (frame_pa f)) \<and>
    tables_grown s r ts [f] s' pt' \<and> node s' r (p @ [i]) = Some f)"
proof -
  note R = pt_repD [OF rep]
  have nt: "n \<in> set ts" using R(6) [OF valid_path_le [OF p(1)] p(2)] by simp
  have na: "n \<in> all_frames s" "n < 2 ^ 28" using nt R(1,3,5) pmem_okD(2) by blast+
  have u: "pte_is_unused (tbl s n ! i)" using i(2) by (simp add: pte_is_unused_def)
  show ?thesis unfolding next_table_mut_or_create_def alloc_intrm_table_def
  proof (simp add: runs_bind runs_entry_get [OF na(2) i(1)] u, rule runs_mono [OF alloc_zero_ok [OF R(1) free]], elim exE conjE)
    fix q s1 f assume q: "q = Some (frame_at f)" and t: "frame_taken s f s1" and z: "frames s1 (frame_pa f) = replicate 4096 0"
    have s1: "pmem_ok s1" "n \<in> all_frames s1" "n \<noteq> f" "f \<in> all_frames s" using t na(1) nt R(3) by (auto simp: frame_taken_def)
    have f28: "f < 2 ^ 28" using s1(4) R(1) by (auto simp: pmem_ok_def)
    have tn: "tbl s1 n = tbl s n" using t na(1) s1(3) by (intro tbl_cong) (simp add: frame_taken_def)
    show "runs (lift (unwrap q)) s1 (\<lambda>a s'. runs (entry_set (PhysAddr (frame_pa n), i) (pte_new_table (start_paddr a))) s'
      (\<lambda>a' s'. \<exists>f. start_paddr a = PhysAddr (frame_pa f) \<and>
        tables_grown s r ts [f] s' (pt\<lparr>intrm_tables := intrm_tables pt @ [a]\<rparr>) \<and> node s' r (p @ [i]) = Some f))"
      unfolding q unwrap_def option.case lift_Ok runs_ret PhysFrame.sel
    proof (rule runs_mono [OF entry_set_ok [OF s1(1,2) i(1)]])
      fix u s2 assume w: "entry_written s1 n i (pte_new_table (PhysAddr (frame_pa f))) s2"
      have fc: "free_count s2 = free_count s1" using w by (simp add: entry_written_def free_count_def)
      have "tbl s2 f = replicate ENTRY_COUNT 0"
      proof -
        have "f \<in> all_frames s1 - {n}" using s1(3,4) t by (simp add: frame_taken_def)
        then have "tbl s2 f = tbl s1 f" using w by (intro tbl_cong) (simp add: entry_written_def)
        then show ?thesis using tbl_zero [OF z] by simp
      qed
      then have l: "table_linked s n i f s2" using t w tn fc by (simp add: table_linked_def frame_taken_def entry_written_def)
      have "tables_grown s r ts [f] s2 (pt\<lparr>intrm_tables := intrm_tables pt @ [frame_at f]\<rparr>)"
        unfolding tables_grown_def using linked_rep [OF rep p i l] l nt by (auto simp: table_linked_def)
      moreover have "node s2 r (p @ [i]) = Some f"
        using linked_node [OF rep p i l, of "p @ [i]"] p(1) i(1) by (simp add: valid_path_def)
      ultimately show "\<exists>fa. PhysAddr (frame_pa f) = PhysAddr (frame_pa fa) \<and>
        tables_grown s r ts [fa] s2 (pt\<lparr>intrm_tables := intrm_tables pt @ [frame_at f]\<rparr>) \<and> node s2 r (p @ [i]) = Some fa" by blast
    qed
  qed
qed

lemma tables_down_or_create_ok:
  "pt_rep s pt r ts \<Longrightarrow> valid_path 3 (p @ is) \<Longrightarrow> node s r p = Some n \<Longrightarrow> length is \<le> free_count s \<Longrightarrow>
    runs (tables_down_or_create pt (PhysAddr (frame_pa n)) is) s (\<lambda>(q, pt') s'. \<exists>new m. q = Some (PhysAddr (frame_pa m)) \<and>
      length new \<le> length is \<and> tables_grown s r ts new s' pt' \<and> node s' r (p @ is) = Some m)"
proof (induction "is" arbitrary: s pt ts p n)
  case Nil
  then show ?case using tables_grown_refl by fastforce
next
  case (Cons i "is")
  note rep = Cons.prems(1)
  have v: "valid_path 2 p" "i < ENTRY_COUNT" "valid_path 3 p" using Cons.prems(2) by (auto simp: valid_path_def)
  have b: "n < 2 ^ 28" using pt_repD(5,6) [OF rep] v(3) Cons.prems(3) by blast
  let ?Q = "\<lambda>(q, pt') s'. \<exists>new m. q = Some (PhysAddr (frame_pa m)) \<and> length new \<le> length (i # is) \<and>
    tables_grown s r ts new s' pt' \<and> node s' r (p @ i # is) = Some m"
  have step: "runs (next_table_mut_or_create pt (PhysAddr (frame_pa n), i)) s (\<lambda>(q, pt1) s1. \<exists>new f. q = Some (PhysAddr (frame_pa f)) \<and>
      length new \<le> 1 \<and> tables_grown s r ts new s1 pt1 \<and> node s1 r (p @ [i]) = Some f)"
  proof (cases "tbl s n ! i = 0")
    case True
    have f: "0 < free_count s" using Cons.prems(4) by simp
    show ?thesis
    proof (rule runs_mono [OF link_ok [OF rep v(1) Cons.prems(3) v(2) True f]], clarify)
      fix q pt1 s1 g assume "tables_grown s r ts [g] s1 pt1" "node s1 r (p @ [i]) = Some g"
      then show "\<exists>new f. Some (PhysAddr (frame_pa g)) = Some (PhysAddr (frame_pa f)) \<and> length new \<le> 1 \<and>
        tables_grown s r ts new s1 pt1 \<and> node s1 r (p @ [i]) = Some f" by (intro exI [of _ "[g]"] exI [of _ g]) simp
    qed
  next
    case False
    then obtain m where m: "child s n i = Some m" by (auto simp: child_def Let_def)
    then have "node s r (p @ [i]) = Some m" using Cons.prems(3) by (simp add: node_snoc)
    then have ex: "\<exists>new f. Some (PhysAddr (frame_pa m)) = Some (PhysAddr (frame_pa f)) \<and> length new \<le> 1 \<and>
        tables_grown s r ts new s pt \<and> node s r (p @ [i]) = Some f"
      using tables_grown_refl [OF rep] by (intro exI [of _ "[]"] exI [of _ m]) simp
    show ?thesis unfolding next_table_mut_or_create_def runs_bind runs_entry_get [OF b v(2)]
      using next_table_entry [OF rep v(1) Cons.prems(3) v(2)] m False ex by (simp add: runs_bind pte_is_unused_def)
  qed
  show ?case unfolding tables_down_or_create.simps runs_bind
  proof (rule runs_mono [OF step], clarify)
    fix q pt1 s1 new f assume nl: "length new \<le> 1" and tg: "tables_grown s r ts new s1 pt1" and nd: "node s1 r (p @ [i]) = Some f"
    have rep1: "pt_rep s1 pt1 r (ts @ new)" using tg by (simp add: tables_grown_def)
    have fc: "length is \<le> free_count s1" using tg nl Cons.prems(4) by (simp add: tables_grown_def)
    have vp: "valid_path 3 ((p @ [i]) @ is)" using Cons.prems(2) by simp
    show "runs (case Some (PhysAddr (frame_pa f)) of None \<Rightarrow> ret (None, pt1) | Some q \<Rightarrow> tables_down_or_create pt1 q is) s1 ?Q"
      unfolding option.case
    proof (rule runs_mono [OF Cons.IH [OF rep1 vp nd fc]], clarify)
      fix q pt2 s2 new' m assume "length new' \<le> length is" "tables_grown s1 r (ts @ new) new' s2 pt2" "node s2 r ((p @ [i]) @ is) = Some m"
      then show "\<exists>new m'. Some (PhysAddr (frame_pa m)) = Some (PhysAddr (frame_pa m')) \<and> length new \<le> length (i # is) \<and>
        tables_grown s r ts new s2 pt2 \<and> node s2 r (p @ i # is) = Some m'"
        using tables_grown_trans [OF tg] nl by (intro exI [of _ "new @ new'"] exI [of _ m]) simp
    qed
  qed
qed

section \<open>Mapping, unmapping, querying\<close>

text \<open>The page of \<open>v\<close> now has the entry \<open>e\<close>; no other page and no frame outside the tables changes.\<close>

definition page_set :: "pmem \<Rightarrow> nat \<Rightarrow> nat list \<Rightarrow> VirtAddr \<Rightarrow> u64 \<Rightarrow> nat list \<Rightarrow> pmem \<Rightarrow> PageTable \<Rightarrow> bool" where
  "page_set s r ts v e new s' pt' \<longleftrightarrow> pt_rep s' pt' r (ts @ new) \<and> all_frames s' = all_frames s \<and>
     live_frames s' = live_frames s \<union> set new \<and> set new \<inter> live_frames s = {} \<and> free_count s = free_count s' + length new \<and>
     (\<forall>v'. leaf s' r v' = (if vpn v' = vpn v then e else leaf s r v')) \<and>
     (\<forall>m\<in>all_frames s - set (ts @ new). frames s' (frame_pa m) = frames s (frame_pa m))"

lemma leaf_node: "node s r (idx_path v) = Some m \<Longrightarrow> leaf s r v = tbl s m ! p1_index v"
  by (simp add: leaf_def)

lemma written_page_set:
  assumes tg: "tables_grown s r ts new s1 pt1" and nd: "node s1 r (idx_path v) = Some m" and w: "entry_written s1 m (p1_index v) e s2"
  shows "page_set s r ts v e new s2 pt1"
proof -
  have rep1: "pt_rep s1 pt1 r (ts @ new)" using tg by (simp add: tables_grown_def)
  have m: "m \<in> set (ts @ new)" using pt_repD(6) [OF rep1 idx_path_valid(1) nd] .
  note lw = leaf_written [OF rep1 nd w]
  have fc: "free_count s2 = free_count s1" using w by (simp add: entry_written_def free_count_def)
  have "frames s2 (frame_pa k) = frames s (frame_pa k)" if "k \<in> all_frames s - set (ts @ new)" for k
  proof -
    have "k \<in> all_frames s1 - {m}" using that m tg by (auto simp: tables_grown_def)
    then show ?thesis using that w tg by (simp add: entry_written_def tables_grown_def)
  qed
  then show ?thesis using lw tg w fc by (simp add: page_set_def tables_grown_def entry_written_def)
qed

lemma page_table_map_ok:
  assumes rep: "pt_rep s pt r ts" and un: "leaf s r v = 0" and free: "3 \<le> free_count s"
  shows "runs (page_table_map pt v pa flags) s (\<lambda>pt' s'. \<exists>new. length new \<le> 3 \<and>
    page_set s r ts v (pte_new_page (pa_align_down pa) flags False) new s' pt')"
proof -
  note R = pt_repD [OF rep]
  have nr: "node s r [] = Some r" by simp
  have vp: "valid_path 3 ([] @ idx_path v)" "length (idx_path v) \<le> free_count s" using free by simp_all
  show ?thesis unfolding page_table_map_def get_entry_mut_or_create_def R(9) idx_path_def [symmetric] runs_bind
  proof (rule runs_mono [OF tables_down_or_create_ok [OF rep vp(1) nr vp(2)]], clarify)
    fix q pt1 s1 new m assume nl: "length new \<le> length (idx_path v)" and tg: "tables_grown s r ts new s1 pt1" and nd0: "node s1 r ([] @ idx_path v) = Some m"
    have nd: "node s1 r (idx_path v) = Some m" using nd0 by simp
    have rep1: "pt_rep s1 pt1 r (ts @ new)" using tg by (simp add: tables_grown_def)
    note R1 = pt_repD [OF rep1]
    have m: "m \<in> set (ts @ new)" using R1(6) [OF idx_path_valid(1) nd] .
    then have mb: "m < 2 ^ 28" "m \<in> all_frames s1" using R1(1,3,5) pmem_okD(2) by blast+
    have z: "tbl s1 m ! p1_index v = 0" using leaf_node [OF nd] tg un by (simp add: tables_grown_def)
    show "runs (ret (map_option (\<lambda>p1. (p1, p1_index v)) (Some (PhysAddr (frame_pa m))), pt1)) s1 (\<lambda>a s'.
      runs (case a of (r, pt) \<Rightarrow> bind (lift (unwrap r)) (\<lambda>entry. bind (entry_get entry) (\<lambda>e. if \<not> pte_is_unused e then fail Explicit_panic
         else bind (entry_set entry (pte_new_page (pa_align_down pa) flags False)) (\<lambda>_. ret pt)))) s'
      (\<lambda>pt' s'. \<exists>new. length new \<le> 3 \<and> page_set s r ts v (pte_new_page (pa_align_down pa) flags False) new s' pt'))"
      using nl written_page_set [OF tg nd]
      by (auto simp: unwrap_def runs_bind runs_entry_get [OF mb(1)] z pte_is_unused_def intro!: runs_mono [OF entry_set_ok [OF R1(1) mb(2)]])
  qed
qed

text \<open>Mapping a page that is mapped panics.\<close>

lemma page_table_map_mapped:
  assumes rep: "pt_rep s pt r ts" and un: "leaf s r v \<noteq> 0" and free: "3 \<le> free_count s"
  shows "page_table_map pt v pa flags s = Panic Explicit_panic"
proof -
  note R = pt_repD [OF rep]
  obtain n where n: "node s r (idx_path v) = Some n" using un by (auto simp: leaf_def split: option.splits)
  have "runs (tables_down_or_create pt (PhysAddr (frame_pa r)) (idx_path v)) s (\<lambda>(q, pt') s'. \<exists>new m. q = Some (PhysAddr (frame_pa m)) \<and>
      length new \<le> length (idx_path v) \<and> tables_grown s r ts new s' pt' \<and> node s' r ([] @ idx_path v) = Some m)"
    by (rule tables_down_or_create_ok [OF rep]) (use free in auto)
  then obtain q pt1 s1 m new where run: "tables_down_or_create pt (PhysAddr (frame_pa r)) (idx_path v) s = Ok ((q, pt1), s1)"
    and q: "q = Some (PhysAddr (frame_pa m))" and nd: "node s1 r (idx_path v) = Some m" and tg: "tables_grown s r ts new s1 pt1"
    by (fastforce simp: runs_iff)
  have rep1: "pt_rep s1 pt1 r (ts @ new)" using tg by (simp add: tables_grown_def)
  note R1 = pt_repD [OF rep1]
  have mb: "m < 2 ^ 28" using R1(5) [OF R1(6) [OF idx_path_valid(1) nd]] .
  have z: "tbl s1 m ! p1_index v \<noteq> 0" using leaf_node [OF nd] tg un by (simp add: tables_grown_def)
  have "entry_get (PhysAddr (frame_pa m), p1_index v) s1 = Ok (tbl s1 m ! p1_index v, s1)"
    using runs_entry_get [OF mb, of "p1_index v" s1 "\<lambda>a s'. a = tbl s1 m ! p1_index v \<and> s' = s1"] by (auto simp: runs_iff)
  then show ?thesis using run q z
    by (simp add: page_table_map_def get_entry_mut_or_create_def R(9) idx_path_def [symmetric] bind_def ret_def unwrap_def lift_def pte_is_unused_def fail_def)
qed

lemma get_entry_mut_ok:
  assumes rep: "pt_rep s pt r ts"
  shows "runs (get_entry_mut pt v) s (\<lambda>q s'. s' = s \<and> q = map_option (\<lambda>m. (PhysAddr (frame_pa m), p1_index v)) (node s r (idx_path v)))"
  unfolding get_entry_mut_def pt_repD(9) [OF rep] idx_path_def [symmetric] runs_bind
  by (rule runs_mono [OF tables_down_ok [OF rep, of "[]"]]) (auto simp: option.map_comp o_def)

lemma page_table_unmap_ok:
  assumes rep: "pt_rep s pt r ts" and m: "leaf s r v \<noteq> 0"
  shows "runs (page_table_unmap pt v) s (\<lambda>_ s'. page_set s r ts v 0 [] s' pt)"
proof -
  obtain n where n: "node s r (idx_path v) = Some n" using m by (auto simp: leaf_def split: option.splits)
  note R = pt_repD [OF rep]
  have nb: "n < 2 ^ 28" "n \<in> all_frames s" using R(1,3,5) R(6) [OF idx_path_valid(1) n] pmem_okD(2) by blast+
  have z: "tbl s n ! p1_index v \<noteq> 0" using leaf_node [OF n] m by simp
  show ?thesis unfolding page_table_unmap_def runs_bind
    by (rule runs_mono [OF get_entry_mut_ok [OF rep]], elim conjE, hypsubst, unfold n)
      (use written_page_set [OF tables_grown_refl [OF rep] n] z in
        \<open>auto simp: unwrap_def runs_bind runs_entry_get [OF nb(1)] pte_is_unused_def pte_empty_def intro!: runs_mono [OF entry_set_ok [OF R(1) nb(2)]]\<close>)
qed

lemma page_table_query_ok:
  assumes rep: "pt_rep s pt r ts" and fl: "leaf s r v \<noteq> 0 \<Longrightarrow> pte_flags (leaf s r v) = Ok flags"
  shows "runs (page_table_query pt v) s (\<lambda>q s'. s' = s \<and> q = (if leaf s r v = 0 then None
    else Some (pa_new (pa_as_usize (pte_paddr (leaf s r v)) + va_page_offset v), flags)))"
proof (cases "node s r (idx_path v)")
  case None
  then show ?thesis unfolding page_table_query_def runs_bind
    by (intro runs_mono [OF get_entry_mut_ok [OF rep]]) (auto simp: leaf_def)
next
  case (Some n)
  note R = pt_repD [OF rep]
  have nb: "n < 2 ^ 28" using R(5) [OF R(6) [OF idx_path_valid(1) Some]] .
  note lf = leaf_node [OF Some]
  show ?thesis unfolding page_table_query_def runs_bind
    by (rule runs_mono [OF get_entry_mut_ok [OF rep]], elim conjE, hypsubst, unfold Some)
      (use fl lf in \<open>auto simp: runs_bind runs_entry_get [OF nb] pte_is_unused_def Let_def\<close>)
qed

section \<open>A new page table\<close>

lemma pt_rep_new:
  assumes "pmem_ok s" and "r \<in> live_frames s" and "tbl s r = replicate ENTRY_COUNT 0"
  shows "pt_rep s \<lparr>root_paddr = PhysAddr (frame_pa r), intrm_tables = [frame_at r]\<rparr> r [r]" and "leaf s r v = 0"
proof -
  have ch: "child s r i = None" if "i < ENTRY_COUNT" for i using that assms(3) by (simp add: child_def)
  have nd: "node s r p = Some n \<longleftrightarrow> p = [] \<and> n = r" if "valid_path 3 p" for p n
    using that ch by (cases p) (auto simp: valid_path_def)
  have nd2: "valid_path 2 p \<Longrightarrow> valid_path 3 p" for p by (erule valid_path_le) simp
  show "pt_rep s \<lparr>root_paddr = PhysAddr (frame_pa r), intrm_tables = [frame_at r]\<rparr> r [r]"
    unfolding pt_rep_def using assms nd nd2 by auto
  have "node s r (idx_path v) = None" using nd [OF idx_path_valid(1), of v]
    by (cases "node s r (idx_path v)") (auto simp: idx_path_def)
  then show "leaf s r v = 0" by (simp add: leaf_def)
qed

lemma page_table_new_ok:
  assumes ok: "pmem_ok s" and free: "0 < free_count s"
  shows "runs page_table_new s (\<lambda>pt s'. \<exists>r. frame_taken s r s' \<and> pt_rep s' pt r [r] \<and> (\<forall>v. leaf s' r v = 0))"
  unfolding page_table_new_def runs_bind
proof (rule runs_mono [OF alloc_zero_ok [OF assms]], elim exE conjE)
  fix q s' n assume q: "q = Some (frame_at n)" and t: "frame_taken s n s'" and z: "frames s' (frame_pa n) = replicate 4096 0"
  have "pmem_ok s'" "n \<in> live_frames s'" using t by (auto simp: frame_taken_def)
  note new = pt_rep_new [OF this tbl_zero [OF z]]
  show "runs (lift (unwrap q)) s' (\<lambda>a s'. runs (ret \<lparr>root_paddr = start_paddr a, intrm_tables = [a]\<rparr>) s'
    (\<lambda>pt s'. \<exists>r. frame_taken s r s' \<and> pt_rep s' pt r [r] \<and> (\<forall>v. leaf s' r v = 0)))"
    unfolding q unwrap_def option.case lift_Ok runs_ret PhysFrame.sel using t new by blast
qed

text \<open>The lookup function: the physical address and the flags of a virtual address.\<close>

definition translate :: "pmem \<Rightarrow> nat \<Rightarrow> VirtAddr \<Rightarrow> (PhysAddr \<times> u64) option" where
  "translate s r v = (if leaf s r v = 0 then None
     else case pte_flags (leaf s r v) of
       Ok f \<Rightarrow> Some (PhysAddr (pa_as_usize (pte_paddr (leaf s r v)) + va_page_offset v), f)
     | Panic _ \<Rightarrow> None)"

text \<open>Every mapped page has been mapped with a page frame and memory flags.\<close>

definition page_entry :: "u64 \<Rightarrow> bool" where
  "page_entry e \<longleftrightarrow> e = 0 \<or> (\<exists>a f. page_frame a \<and> f AND 31 = f \<and> e = pte_new_page (PhysAddr a) f False)"

definition pt_pages :: "pmem \<Rightarrow> nat \<Rightarrow> bool" where
  "pt_pages s r \<longleftrightarrow> (\<forall>v. page_entry (leaf s r v))"

lemma page_offset_bound:
  assumes "page_frame a"
  shows "unat (a + va_page_offset v) = unat a + unat (va_page_offset v)" and "unat (a + va_page_offset v) < 2 ^ 40"
proof -
  have o: "unat (va_page_offset v) < 4096" by (simp add: va_page_offset_def unat_page_offset)
  have a: "unat a < 2 ^ 40" "unat a = page_of a * 4096" using assms by (simp_all add: page_frame_def is_aligned_page)
  show u: "unat (a + va_page_offset v) = unat a + unat (va_page_offset v)"
    using o a by (subst unat_add_lem [THEN iffD1]) simp_all
  have "page_of a < 2 ^ 28" using a by simp
  then show "unat (a + va_page_offset v) < 2 ^ 40" using u o a(2) by simp
qed

lemma translate_page:
  assumes "page_frame a" and "f AND 31 = f" and "leaf s r v = pte_new_page (PhysAddr a) f False"
  shows "translate s r v = Some (PhysAddr (a + va_page_offset v), f)"
  using new_page_paddr [OF assms(1)] new_page_flags [OF assms(1,2)] assms(3) by (simp add: translate_def)

lemma translate_cong: "leaf s' r v = leaf s r v \<Longrightarrow> translate s' r v = translate s r v"
  by (simp only: translate_def)

lemma query_translate:
  assumes rep: "pt_rep s pt r ts" and pg: "page_entry (leaf s r v)"
  shows "runs (page_table_query pt v) s (\<lambda>q s'. s' = s \<and> q = translate s r v)"
proof (cases "leaf s r v = 0")
  case True
  then show ?thesis by (intro runs_mono [OF page_table_query_ok [OF rep]]) (auto simp: translate_def)
next
  case False
  then obtain a f where af: "page_frame a" "f AND 31 = f" "leaf s r v = pte_new_page (PhysAddr a) f False"
    using pg by (auto simp: page_entry_def)
  have fl: "pte_flags (leaf s r v) = Ok f" using new_page_flags [OF af(1,2)] af(3) by simp
  show ?thesis
    by (rule runs_mono [OF page_table_query_ok [OF rep fl]])
      (use False translate_page [OF af] new_page_paddr [OF af(1)] af(3) pa_new_id [OF page_offset_bound(2) [OF af(1)]] in simp)
qed

section \<open>Properties\<close>

text \<open>A small physical memory: sixteen zeroed frames from \<open>0x40100000\<close> on, and an empty page table in it.\<close>

definition sample_pmem :: pmem where
  "sample_pmem = \<lparr>FRAME_ALLOCATOR = fla_init fla_empty 0x40100 0x40110, frames = (\<lambda>_. replicate 4096 0)\<rparr>"

definition sample_pt :: "PageTable \<times> pmem" where
  "sample_pt = (case page_table_new sample_pmem of Ok r \<Rightarrow> r | Panic _ \<Rightarrow> (page_table_from_root (PhysAddr 0), sample_pmem))"

lemma sample_pmem_ok: "pmem_ok sample_pmem" "live_frames sample_pmem = {}" "free_count sample_pmem = 16"
  by (auto simp: fla_ok_init fla_live_init sample_pmem_def pmem_ok_def all_frames_def live_frames_def free_count_def)

lemma sample_pt_ok:
  obtains r where "pt_rep (snd sample_pt) (fst sample_pt) r [r]" "\<forall>v. leaf (snd sample_pt) r v = 0" "free_count (snd sample_pt) = 15"
proof -
  have "0 < free_count sample_pmem" by (simp add: sample_pmem_ok)
  from page_table_new_ok [OF sample_pmem_ok(1) this] obtain pt s' r where
    "page_table_new sample_pmem = Ok (pt, s')" "frame_taken sample_pmem r s'" "pt_rep s' pt r [r]" "\<forall>v. leaf s' r v = 0"
    by (auto simp: runs_iff)
  then show thesis using that [of r] sample_pmem_ok(3) by (simp add: sample_pt_def frame_taken_def)
qed

definition sample_mapped :: "PageTable \<times> pmem" where
  "sample_mapped = (case page_table_map (fst sample_pt) (VirtAddr 0x1000) (PhysAddr 0x40080000) 11 (snd sample_pt) of
     Ok r \<Rightarrow> r | Panic _ \<Rightarrow> sample_pt)"

lemma sample_mapped_ok:
  obtains r ts where "pt_rep (snd sample_mapped) (fst sample_mapped) r ts" "pt_pages (snd sample_mapped) r"
    "leaf (snd sample_mapped) r (VirtAddr 0x1000) \<noteq> 0"
proof -
  obtain r where r: "pt_rep (snd sample_pt) (fst sample_pt) r [r]" "\<forall>v. leaf (snd sample_pt) r v = 0" "free_count (snd sample_pt) = 15"
    by (rule sample_pt_ok)
  have a: "page_frame 0x40080000" "pa_align_down (PhysAddr 0x40080000) = PhysAddr 0x40080000"
    by (simp_all add: page_frame_def is_aligned_unat pa_align_down_def align_down_id)
  from page_table_map_ok [OF r(1), where v = "VirtAddr 0x1000" and pa = "PhysAddr 0x40080000" and flags = 11] r(2,3) obtain pt' s' new where
    run: "page_table_map (fst sample_pt) (VirtAddr 0x1000) (PhysAddr 0x40080000) 11 (snd sample_pt) = Ok (pt', s')"
    and ps: "page_set (snd sample_pt) r [r] (VirtAddr 0x1000) (pte_new_page (PhysAddr 0x40080000) 11 False) new s' pt'"
    by (auto simp: runs_iff a(2))
  have "page_entry (pte_new_page (PhysAddr 0x40080000) 11 False)"
    unfolding page_entry_def using a(1) by (intro disjI2 exI [of _ "0x40080000"] exI [of _ "11"]) simp
  then have "page_entry (leaf s' r v)" for v using ps r(2) by (simp add: page_set_def page_entry_def [of 0])
  then show thesis using that [of r "[r] @ new"] run ps new_page_paddr(2) [OF a(1)]
    by (simp add: sample_mapped_def page_set_def pt_pages_def)
qed

text \<open>C6. Mapping a page refines the update of the translation function: after \<open>PageTable::map\<close> of an
  unmapped page (three frames being free for intermediate tables) every address of that page is
  translated to the mapped frame, with the mapped flags, and every other address as before.\<close>

theorem map_query_refines:
  assumes rep: "pt_rep s pt r ts" and pg: "pt_pages s r" and un: "leaf s r v = 0" and free: "3 \<le> free_count s"
    and a: "page_frame a" and f: "f AND 31 = f"
  shows "runs (bind (page_table_map pt v (PhysAddr a) f) (\<lambda>pt'. page_table_query pt' v')) s
    (\<lambda>q s'. q = (if vpn v' = vpn v then Some (PhysAddr (a + va_page_offset v'), f) else translate s r v'))"
  unfolding runs_bind
proof (rule runs_mono [OF page_table_map_ok [OF rep un free]], elim exE conjE)
  fix pt' s' new assume ps: "page_set s r ts v (pte_new_page (pa_align_down (PhysAddr a)) f False) new s' pt'"
  have al: "pa_align_down (PhysAddr a) = PhysAddr a" using a align_down_id by (simp add: pa_align_down_def page_frame_def)
  have rep': "pt_rep s' pt' r (ts @ new)" and lf: "leaf s' r v' = (if vpn v' = vpn v then pte_new_page (PhysAddr a) f False else leaf s r v')"
    using ps by (auto simp: page_set_def al)
  have "page_entry (leaf s' r v')" using lf pg a f by (auto simp: pt_pages_def page_entry_def)
  from query_translate [OF rep' this] show "runs (page_table_query pt' v') s'
      (\<lambda>q s'. q = (if vpn v' = vpn v then Some (PhysAddr (a + va_page_offset v'), f) else translate s r v'))"
    by (rule runs_mono) (use lf translate_page [OF a f, of s' r v'] translate_cong [of s' r v' s] in auto)
qed

theorem map_query_refines_witness:
  "\<exists>r. runs (bind (page_table_map (fst sample_pt) (VirtAddr 0x1000) (PhysAddr 0x40080000) 11) (\<lambda>pt'. page_table_query pt' (VirtAddr 0x1008)))
     (snd sample_pt) (\<lambda>q s'. q = (if vpn (VirtAddr 0x1008) = vpn (VirtAddr 0x1000)
       then Some (PhysAddr (0x40080000 + va_page_offset (VirtAddr 0x1008)), 11) else translate (snd sample_pt) r (VirtAddr 0x1008)))"
proof -
  obtain r where r: "pt_rep (snd sample_pt) (fst sample_pt) r [r]" "\<forall>v. leaf (snd sample_pt) r v = 0" "free_count (snd sample_pt) = 15"
    by (rule sample_pt_ok)
  have "runs (bind (page_table_map (fst sample_pt) (VirtAddr 0x1000) (PhysAddr 0x40080000) 11) (\<lambda>pt'. page_table_query pt' (VirtAddr 0x1008)))
     (snd sample_pt) (\<lambda>q s'. q = (if vpn (VirtAddr 0x1008) = vpn (VirtAddr 0x1000)
       then Some (PhysAddr (0x40080000 + va_page_offset (VirtAddr 0x1008)), 11) else translate (snd sample_pt) r (VirtAddr 0x1008)))"
    by (rule map_query_refines [OF r(1)]) (use r in \<open>simp_all add: pt_pages_def page_entry_def page_frame_def is_aligned_unat\<close>)
  then show ?thesis by blast
qed

text \<open>C15. \<open>PageTable::unmap\<close> of a mapped page removes exactly that page: its addresses are no longer
  translated, all others are as before, and no frame is taken or given back.\<close>

theorem unmap_query_refines:
  assumes rep: "pt_rep s pt r ts" and pg: "pt_pages s r" and m: "leaf s r v \<noteq> 0"
  shows "runs (bind (page_table_unmap pt v) (\<lambda>_. page_table_query pt v')) s
    (\<lambda>q s'. q = (if vpn v' = vpn v then None else translate s r v') \<and> live_frames s' = live_frames s)"
  unfolding runs_bind
proof (rule runs_mono [OF page_table_unmap_ok [OF rep m]])
  fix u s' assume ps: "page_set s r ts v 0 [] s' pt"
  have rep': "pt_rep s' pt r ts" and lf: "leaf s' r v' = (if vpn v' = vpn v then 0 else leaf s r v')" and lv: "live_frames s' = live_frames s"
    using ps by (auto simp: page_set_def)
  have "page_entry (leaf s' r v')" using lf pg by (auto simp: pt_pages_def page_entry_def)
  from query_translate [OF rep' this] show "runs (page_table_query pt v') s'
      (\<lambda>q s'. q = (if vpn v' = vpn v then None else translate s r v') \<and> live_frames s' = live_frames s)"
    by (rule runs_mono) (use lf lv translate_cong [of s' r v' s] in \<open>auto simp: translate_def [of s']\<close>)
qed

theorem unmap_query_refines_witness:
  "\<exists>r. runs (bind (page_table_unmap (fst sample_mapped) (VirtAddr 0x1000)) (\<lambda>_. page_table_query (fst sample_mapped) (VirtAddr 0x1008)))
     (snd sample_mapped) (\<lambda>q s'. q = (if vpn (VirtAddr 0x1008) = vpn (VirtAddr 0x1000) then None
       else translate (snd sample_mapped) r (VirtAddr 0x1008)) \<and> live_frames s' = live_frames (snd sample_mapped))"
proof -
  obtain r ts where r: "pt_rep (snd sample_mapped) (fst sample_mapped) r ts" "pt_pages (snd sample_mapped) r"
    "leaf (snd sample_mapped) r (VirtAddr 0x1000) \<noteq> 0" by (rule sample_mapped_ok)
  from unmap_query_refines [OF this] show ?thesis by blast
qed

text \<open>C37. \<open>PageTable::map\<close> never replaces a mapping: on a page that is mapped it panics.\<close>

theorem map_mapped_panics:
  assumes "pt_rep s pt r ts" and "leaf s r v = 0" and "6 \<le> free_count s" and "page_frame a" and "vpn v' = vpn v"
  shows "bind (page_table_map pt v (PhysAddr a) f) (\<lambda>pt'. page_table_map pt' v' b g) s = Panic Explicit_panic"
proof -
  have free: "3 \<le> free_count s" using assms(3) by simp
  from page_table_map_ok [OF assms(1,2) free, of "PhysAddr a" f] obtain pt' s' new where
    run: "page_table_map pt v (PhysAddr a) f s = Ok (pt', s')" and nl: "length new \<le> 3"
    and ps: "page_set s r ts v (pte_new_page (pa_align_down (PhysAddr a)) f False) new s' pt'" by (auto simp: runs_iff)
  have al: "pa_align_down (PhysAddr a) = PhysAddr a" using assms(4) align_down_id by (simp add: pa_align_down_def page_frame_def)
  have "pt_rep s' pt' r (ts @ new)" "leaf s' r v' \<noteq> 0" "3 \<le> free_count s'"
    using ps nl assms(3,5) new_page_paddr(2) [OF assms(4)] by (auto simp: page_set_def al)
  from page_table_map_mapped [OF this] show ?thesis using run by (simp add: bind_def)
qed

theorem map_mapped_panics_witness:
  "bind (page_table_map (fst sample_pt) (VirtAddr 0x1000) (PhysAddr 0x40080000) 11) (\<lambda>pt'. page_table_map pt' (VirtAddr 0x1000) (PhysAddr 0x40081000) 3)
     (snd sample_pt) = Panic Explicit_panic"
proof -
  obtain r where r: "pt_rep (snd sample_pt) (fst sample_pt) r [r]" "\<forall>v. leaf (snd sample_pt) r v = 0" "free_count (snd sample_pt) = 15"
    by (rule sample_pt_ok)
  show ?thesis by (rule map_mapped_panics [OF r(1)]) (use r in \<open>simp_all add: page_frame_def is_aligned_unat\<close>)
qed

end
