(* ===== verification/BTreeMaps.thy ===== *)
theory BTreeMaps
  imports Address "HOL-Library.Multiset"
begin

text \<open>
  \<open>alloc::collections::BTreeMap\<close>, as far as the kernel uses it: an association list sorted by key,
  iterated in that order.  The locale \<open>ordered_map\<close> is its contract; \<open>VirtAddr\<close>, its key type in
  the memory manager, derives \<open>Ord\<close> from the address it wraps.
\<close>

instantiation VirtAddr :: linorder
begin

definition less_eq_VirtAddr :: "VirtAddr \<Rightarrow> VirtAddr \<Rightarrow> bool" where
  "less_eq_VirtAddr a b \<longleftrightarrow> va_as_usize a \<le> va_as_usize b"

definition less_VirtAddr :: "VirtAddr \<Rightarrow> VirtAddr \<Rightarrow> bool" where
  "less_VirtAddr a b \<longleftrightarrow> va_as_usize a < va_as_usize b"

instance
  by standard (auto simp: less_eq_VirtAddr_def less_VirtAddr_def intro: VirtAddr.expand)

end

type_synonym ('k, 'v) btree_map = "('k \<times> 'v) list"

definition btm_get :: "('k, 'v) btree_map \<Rightarrow> 'k \<Rightarrow> 'v option" where
  "btm_get m k = map_of m k"

fun btm_insert :: "'k::linorder \<Rightarrow> 'v \<Rightarrow> ('k, 'v) btree_map \<Rightarrow> ('k, 'v) btree_map" where
  "btm_insert k v [] = [(k, v)]"
| "btm_insert k v ((k', v') # m) =
     (if k < k' then (k, v) # (k', v') # m
      else if k = k' then (k, v) # m
      else (k', v') # btm_insert k v m)"

definition btm_remove :: "'k \<Rightarrow> ('k, 'v) btree_map \<Rightarrow> ('k, 'v) btree_map" where
  "btm_remove k m = filter (\<lambda>e. fst e \<noteq> k) m"

definition btm_ok :: "('k::linorder, 'v) btree_map \<Rightarrow> bool" where
  "btm_ok m \<longleftrightarrow> sorted_wrt (<) (map fst m)"

locale ordered_map =
  fixes get :: "'m \<Rightarrow> 'k \<Rightarrow> 'v option"
    and ins :: "'k \<Rightarrow> 'v \<Rightarrow> 'm \<Rightarrow> 'm"
    and rem :: "'k \<Rightarrow> 'm \<Rightarrow> 'm"
    and ok :: "'m \<Rightarrow> bool"
  assumes get_ins: "ok m \<Longrightarrow> get (ins k v m) = (get m)(k \<mapsto> v)"
    and get_rem: "ok m \<Longrightarrow> get (rem k m) = (get m)(k := None)"
    and ok_ins: "ok m \<Longrightarrow> ok (ins k v m)"
    and ok_rem: "ok m \<Longrightarrow> ok (rem k m)"
begin

lemma ins_rem_fresh: "ok m \<Longrightarrow> get m k = None \<Longrightarrow> get (rem k (ins k v m)) = get m"
  by (auto simp: get_rem get_ins ok_ins)

lemma ins_ins_swap: "ok m \<Longrightarrow> k \<noteq> k' \<Longrightarrow> get (ins k v (ins k' v' m)) = get (ins k' v' (ins k v m))"
  by (auto simp: get_ins ok_ins)

end

lemma fst_btm_insert: "fst ` set (btm_insert k v m) = insert k (fst ` set m)"
  by (induction k v m rule: btm_insert.induct) (simp_all add: insert_commute)

lemma btm_insert_ok: "btm_ok m \<Longrightarrow> btm_ok (btm_insert k v m)"
proof (induction m)
  case (Cons e m)
  then show ?case using fst_btm_insert [of k v m]
    by (cases e) (fastforce simp: btm_ok_def)
qed (simp add: btm_ok_def)

lemma map_of_btm_insert: "btm_ok m \<Longrightarrow> map_of (btm_insert k v m) = (map_of m)(k \<mapsto> v)"
proof (induction m)
  case (Cons e m)
  obtain k' v' where e: "e = (k', v')" by (cases e)
  have ok: "btm_ok m" "\<forall>x\<in>set m. k' < fst x" using Cons.prems by (auto simp: btm_ok_def e)
  have "map_of m k = None" if "k \<le> k'" using ok(2) that by (force simp: map_of_eq_None_iff)
  then show ?case using Cons.IH [OF ok(1)] by (auto simp: e fun_eq_iff)
qed simp

lemma btm_remove_ok: "btm_ok m \<Longrightarrow> btm_ok (btm_remove k m)"
  by (induction m) (auto simp: btm_ok_def btm_remove_def)

lemma map_of_btm_remove: "map_of (btm_remove k m) = (map_of m)(k := None)"
  by (induction m) (auto simp: btm_remove_def)

interpretation btm: ordered_map btm_get btm_insert btm_remove btm_ok
  by unfold_locales
    (simp_all add: fun_eq_iff btm_get_def map_of_btm_insert map_of_btm_remove btm_insert_ok btm_remove_ok)

lemma btm_ok_distinct: "btm_ok m \<Longrightarrow> distinct (map fst m)"
  by (simp add: btm_ok_def strict_sorted_iff)

lemma set_btm_insert_new: "btm_ok m \<Longrightarrow> k \<notin> fst ` set m \<Longrightarrow> set (btm_insert k v m) = insert (k, v) (set m)"
  by (induction k v m rule: btm_insert.induct) (simp_all add: btm_ok_def insert_commute)

lemma btm_remove_split:
  assumes "btm_ok m" and "btm_get m k = Some v"
  shows "mset m = add_mset (k, v) (mset (btm_remove k m))"
  using assms
proof (induction m)
  case (Cons e m)
  obtain k' v' where e: "e = (k', v')" by (cases e)
  have ok: "btm_ok m" "\<forall>x\<in>set m. k' < fst x" using Cons.prems(1) by (auto simp: btm_ok_def e)
  show ?case
  proof (cases "k = k'")
    case True
    then have "btm_remove k m = m" using ok(2) by (auto simp: btm_remove_def filter_id_conv)
    then show ?thesis using True Cons.prems(2) by (simp add: e btm_get_def btm_remove_def)
  next
    case False
    then show ?thesis using Cons.IH [OF ok(1)] Cons.prems(2) by (simp add: e btm_get_def btm_remove_def)
  qed
qed (simp add: btm_get_def)

end
