(* ===== verification/MemorySets.thy ===== *)
theory MemorySets
  imports PageTables BTreeMaps
begin

text \<open>
  Address spaces (src/os/src/mm/memory_set.rs, and the area operations of mm/page_table.rs): areas of
  pages, mapped at a fixed offset or each to a frame of its own, in a page table.  Frames that the
  code drops implicitly are dropped explicitly here.  The ELF parser is an external crate: what
  \<open>load_user\<close> reads of its result is the record \<open>ElfFile\<close>.
\<close>

datatype Mapper = Offset u64 | Framed "(VirtAddr, PhysFrame) btree_map"

record MapArea =
  start :: VirtAddr
  area_size :: u64
  area_flags :: u64
  mapper :: Mapper

record MemorySet =
  pt :: PageTable
  areas :: "(VirtAddr, MapArea) btree_map"

section \<open>Areas\<close>

definition area_new_offset :: "VirtAddr \<Rightarrow> PhysAddr \<Rightarrow> u64 \<Rightarrow> u64 \<Rightarrow> MapArea res" where
  "area_new_offset start_vaddr start_pa size' flags =
     bind_res (assert_res (va_is_aligned start_vaddr)) (\<lambda>_.
     bind_res (assert_res (pa_is_aligned start_pa)) (\<lambda>_.
     bind_res (assert_res (is_aligned size' PAGE_SIZE)) (\<lambda>_.
     let offset = va_as_usize start_vaddr - pa_as_usize start_pa in
     Ok \<lparr>start = start_vaddr, area_size = size', area_flags = flags, mapper = Offset offset\<rparr>)))"

definition area_new_framed :: "VirtAddr \<Rightarrow> u64 \<Rightarrow> u64 \<Rightarrow> MapArea res" where
  "area_new_framed start_vaddr size' flags =
     bind_res (assert_res (va_is_aligned start_vaddr)) (\<lambda>_.
     bind_res (assert_res (is_aligned size' PAGE_SIZE)) (\<lambda>_.
     Ok \<lparr>start = start_vaddr, area_size = size', area_flags = flags, mapper = Framed []\<rparr>))"

fun clone_frames :: "(VirtAddr, PhysFrame) btree_map \<Rightarrow> (VirtAddr, PhysFrame) btree_map \<Rightarrow>
    (pmem, (VirtAddr, PhysFrame) btree_map) cmd" where
  "clone_frames [] new_frames = ret new_frames"
| "clone_frames ((vaddr, orig_frame) # orig) new_frames =
     bind phys_frame_alloc (\<lambda>r. bind (lift (unwrap r)) (\<lambda>new_frame.
     bind (phys_frame_as_slice orig_frame) (\<lambda>bs. bind (phys_frame_set_slice new_frame bs) (\<lambda>_.
     clone_frames orig (btm_insert vaddr new_frame new_frames)))))"

definition area_clone :: "MapArea \<Rightarrow> (pmem, MapArea) cmd" where
  "area_clone a =
     bind (case mapper a of
             Offset off \<Rightarrow> ret (Offset off)
           | Framed orig_frames \<Rightarrow> bind (clone_frames orig_frames []) (\<lambda>new_frames. ret (Framed new_frames)))
       (\<lambda>mapper'. ret \<lparr>start = start a, area_size = area_size a, area_flags = area_flags a, mapper = mapper'\<rparr>)"

definition area_map :: "MapArea \<Rightarrow> VirtAddr \<Rightarrow> (pmem, PhysAddr \<times> MapArea) cmd" where
  "area_map a vaddr =
     bind (assert_cmd (va_is_aligned vaddr)) (\<lambda>_. case mapper a of
       Offset off \<Rightarrow> ret (pa_new (va_as_usize vaddr - off), a)
     | Framed fs \<Rightarrow> (case btm_get fs vaddr of
         Some e \<Rightarrow> ret (start_paddr e, a)
       | None \<Rightarrow> bind phys_frame_alloc_zero (\<lambda>r. bind (lift (unwrap r)) (\<lambda>f.
           ret (start_paddr f, a\<lparr>mapper := Framed (btm_insert vaddr f fs)\<rparr>)))))"

definition area_unmap :: "MapArea \<Rightarrow> VirtAddr \<Rightarrow> (pmem, MapArea) cmd" where
  "area_unmap a vaddr = (case mapper a of
     Offset off \<Rightarrow> ret a
   | Framed fs \<Rightarrow>
       bind (case btm_get fs vaddr of None \<Rightarrow> ret () | Some f \<Rightarrow> phys_frame_drop f) (\<lambda>_.
       ret (a\<lparr>mapper := Framed (btm_remove vaddr fs)\<rparr>)))"

definition area_drop :: "MapArea \<Rightarrow> (pmem, unit) cmd" where
  "area_drop a = (case mapper a of
     Offset off \<Rightarrow> ret ()
   | Framed fs \<Rightarrow> for_each (map snd fs) phys_frame_drop)"

text \<open>The loop of \<open>write_data\<close>; \<open>data\<close> is what is left to write.  The part written lies in one page.\<close>

definition page_room :: "u64 \<Rightarrow> nat" where
  "page_room start' = unat (PAGE_SIZE - (start' - align_down start' PAGE_SIZE))"

lemma page_room: "page_room start' = 4096 - unat start' mod 4096"
proof -
  have "start' - align_down start' PAGE_SIZE = page_offset start' PAGE_SIZE"
    using align_down_offset [of start'] by (metis add_diff_cancel_left')
  moreover have "unat (PAGE_SIZE - page_offset start' PAGE_SIZE) = 4096 - unat start' mod 4096"
    using unat_sub [of "page_offset start' PAGE_SIZE" PAGE_SIZE]
    by (simp add: unat_page_offset word_le_nat_alt mod_less_divisor [THEN less_imp_le])
  ultimately show ?thesis by (simp add: page_room_def)
qed

lemma page_room_pos [simp]: "0 < page_room start'"
  by (simp add: page_room)

function write_data_loop :: "MapArea \<Rightarrow> u64 \<Rightarrow> bytes \<Rightarrow> (pmem, MapArea) cmd" where
  "write_data_loop a start' data =
     (if data = [] then ret a
      else
        let start_align = align_down start' PAGE_SIZE;
            pgoff = start' - start_align;
            n = min (page_room start') (length data)
        in bind (lift (va_new (va_as_usize (start a) + start_align))) (\<lambda>vaddr.
           bind (area_map a vaddr) (\<lambda>(paddr, a').
           bind (lift (into_kvaddr paddr)) (\<lambda>v. bind (kread v) (\<lambda>bs.
           bind (kwrite v (overwrite bs (unat pgoff) (take n data))) (\<lambda>_.
           write_data_loop a' (start' + of_nat n) (drop n data)))))))"
  by pat_completeness auto
termination by (relation "measure (\<lambda>(a, s, data). length data)") (auto simp: min_def)

definition area_write_data :: "MapArea \<Rightarrow> u64 \<Rightarrow> bytes \<Rightarrow> (pmem, MapArea) cmd" where
  "area_write_data a offset data =
     bind (assert_cmd (offset < area_size a)) (\<lambda>_.
     bind (assert_cmd (offset + of_nat (length data) \<le> area_size a)) (\<lambda>_.
     write_data_loop a offset data))"

section \<open>Areas in a page table\<close>

text \<open>The addresses a loop \<open>while vaddr < end { ...; vaddr += PAGE_SIZE }\<close> visits; the start of an area
  and its size are aligned, so \<open>vaddr\<close> does not wrap before it reaches \<open>end\<close>.\<close>

definition page_range :: "u64 \<Rightarrow> u64 \<Rightarrow> u64 list" where
  "page_range vaddr end' = map (\<lambda>k. vaddr + of_nat k * PAGE_SIZE) [0..<(unat end' - unat vaddr + 4095) div 4096]"

definition area_pages :: "MapArea \<Rightarrow> u64 list" where
  "area_pages a = page_range (va_as_usize (start a)) (va_as_usize (start a) + area_size a)"

fun map_pages :: "PageTable \<Rightarrow> MapArea \<Rightarrow> u64 list \<Rightarrow> (pmem, PageTable \<times> MapArea) cmd" where
  "map_pages t a [] = ret (t, a)"
| "map_pages t a (vaddr # vs) =
     bind (lift (va_new vaddr)) (\<lambda>v. bind (area_map a v) (\<lambda>(paddr, a').
     bind (page_table_map t v paddr (area_flags a')) (\<lambda>t'. map_pages t' a' vs)))"

definition map_area :: "PageTable \<Rightarrow> MapArea \<Rightarrow> (pmem, PageTable \<times> MapArea) cmd" where
  "map_area t a = map_pages t a (area_pages a)"

fun unmap_pages :: "PageTable \<Rightarrow> MapArea \<Rightarrow> u64 list \<Rightarrow> (pmem, MapArea) cmd" where
  "unmap_pages t a [] = ret a"
| "unmap_pages t a (vaddr # vs) =
     bind (lift (va_new vaddr)) (\<lambda>v. bind (area_unmap a v) (\<lambda>a'.
     bind (page_table_unmap t v) (\<lambda>_. unmap_pages t a' vs)))"

definition unmap_area :: "PageTable \<Rightarrow> MapArea \<Rightarrow> (pmem, MapArea) cmd" where
  "unmap_area t a = unmap_pages t a (area_pages a)"

section \<open>Memory sets\<close>

definition memory_set_new :: "(pmem, MemorySet) cmd" where
  "memory_set_new = bind page_table_new (\<lambda>t. ret \<lparr>pt = t, areas = []\<rparr>)"

text \<open>\<open>!area.size > 0\<close> is the bitwise complement of the size compared with zero.\<close>

definition memory_set_insert :: "MemorySet \<Rightarrow> MapArea \<Rightarrow> (pmem, MemorySet) cmd" where
  "memory_set_insert ms area =
     (if NOT (area_size area) > 0 then
        (case btm_get (areas ms) (start area) of
           None \<Rightarrow> bind (map_area (pt ms) area) (\<lambda>(t, area').
             ret (ms\<lparr>pt := t, areas := btm_insert (start area) area' (areas ms)\<rparr>))
         | Some _ \<Rightarrow> fail Explicit_panic)
      else bind (area_drop area) (\<lambda>_. ret ms))"

fun unmap_areas :: "PageTable \<Rightarrow> (VirtAddr, MapArea) btree_map \<Rightarrow> (pmem, (VirtAddr, MapArea) btree_map) cmd" where
  "unmap_areas t [] = ret []"
| "unmap_areas t ((k, a) # m) =
     bind (unmap_area t a) (\<lambda>a'. bind (unmap_areas t m) (\<lambda>m'. ret ((k, a') # m')))"

definition memory_set_clear :: "MemorySet \<Rightarrow> (pmem, MemorySet) cmd" where
  "memory_set_clear ms =
     bind (unmap_areas (pt ms) (areas ms)) (\<lambda>as.
     bind (for_each (map snd as) area_drop) (\<lambda>_. ret (ms\<lparr>areas := []\<rparr>)))"

text \<open>\<open>Drop\<close> clears, then the fields are dropped; the map of areas is empty by then.\<close>

definition memory_set_drop :: "MemorySet \<Rightarrow> (pmem, unit) cmd" where
  "memory_set_drop ms = bind (memory_set_clear ms) (\<lambda>ms'.
     bind (page_table_drop (pt ms')) (\<lambda>_. for_each (map snd (areas ms')) area_drop))"

definition page_table_root :: "MemorySet \<Rightarrow> PhysAddr" where
  "page_table_root ms = root_paddr (pt ms)"

fun clone_areas :: "MemorySet \<Rightarrow> MapArea list \<Rightarrow> (pmem, MemorySet) cmd" where
  "clone_areas ms [] = ret ms"
| "clone_areas ms (a # as) =
     bind (area_clone a) (\<lambda>a'. bind (memory_set_insert ms a') (\<lambda>ms'. clone_areas ms' as))"

definition memory_set_clone :: "MemorySet \<Rightarrow> (pmem, MemorySet) cmd" where
  "memory_set_clone self = bind memory_set_new (\<lambda>ms. clone_areas ms (map snd (areas self)))"

section \<open>Loading a program\<close>

datatype SegmentData = Undefined bytes | Other_data

record ProgramHeader =
  ph_is_load :: bool
  virtual_addr :: u64
  mem_size :: u64
  ph_is_read :: bool
  ph_is_write :: bool
  ph_is_execute :: bool
  ph_get_data :: "SegmentData option"

record ElfFile =
  class_sixty_four :: bool
  type_executable :: bool
  machine_aarch64 :: bool
  entry_point :: u64
  program_iter :: "ProgramHeader list"

definition flags_of_ph :: "ProgramHeader \<Rightarrow> u64" where
  "flags_of_ph f =
     (let ret = MF_USER;
          ret = (if ph_is_read f then ret OR MF_READ else ret);
          ret = (if ph_is_write f then ret OR MF_WRITE else ret);
          ret = (if ph_is_execute f then ret OR MF_EXECUTE else ret)
      in ret)"

definition load_segment :: "MemorySet \<Rightarrow> ProgramHeader \<Rightarrow> (pmem, MemorySet) cmd" where
  "load_segment ms ph =
     (if \<not> ph_is_load ph then ret ms
      else
        bind (lift (va_new (virtual_addr ph))) (\<lambda>vaddr.
        let offset = va_page_offset vaddr; area_start = va_align_down vaddr in
        bind (lift (va_new (virtual_addr ph + mem_size ph))) (\<lambda>e.
        let area_end = va_align_up e in
        bind (lift (unwrap (ph_get_data ph))) (\<lambda>d.
        case d of Other_data \<Rightarrow> fail Explicit_panic
        | Undefined data \<Rightarrow>
            bind (lift (area_new_framed area_start (va_as_usize area_end - va_as_usize area_start) (flags_of_ph ph))) (\<lambda>area.
            bind (area_write_data area offset data) (\<lambda>area'.
            memory_set_insert ms area'))))))"

fun load_segments :: "MemorySet \<Rightarrow> ProgramHeader list \<Rightarrow> (pmem, MemorySet) cmd" where
  "load_segments ms [] = ret ms"
| "load_segments ms (ph # phs) = bind (load_segment ms ph) (\<lambda>ms'. load_segments ms' phs)"

definition load_user :: "(bytes \<Rightarrow> ElfFile option) \<Rightarrow> MemorySet \<Rightarrow> bytes \<Rightarrow> (pmem, (u64 \<times> u64) \<times> MemorySet) cmd" where
  "load_user elf_new ms elf_data =
     bind (lift (unwrap (elf_new elf_data))) (\<lambda>elf.
     bind (assert_cmd (class_sixty_four elf)) (\<lambda>_.
     bind (assert_cmd (type_executable elf)) (\<lambda>_.
     bind (assert_cmd (machine_aarch64 elf)) (\<lambda>_.
     bind (load_segments ms (program_iter elf)) (\<lambda>ms1.
     bind (lift (va_new (USER_STACK_TOP - USER_STACK_SIZE))) (\<lambda>sv.
     bind (lift (area_new_framed sv USER_STACK_SIZE (MF_READ OR MF_WRITE OR MF_USER))) (\<lambda>stack.
     bind (memory_set_insert ms1 stack) (\<lambda>ms2.
     ret ((entry_point elf, USER_STACK_TOP), ms2)))))))))"

section \<open>The kernel's address space\<close>

text \<open>Symbols of the linker script.\<close>

record kernel_image =
  stext :: u64
  etext :: u64
  srodata :: u64
  erodata :: u64
  sdata :: u64
  edata :: u64
  sbss :: u64
  ebss :: u64
  boot_stack :: u64
  boot_stack_top :: u64
  ekernel :: u64

definition MMIO_REGIONS :: "(u64 \<times> u64) list" where
  "MMIO_REGIONS = [(0x0a000000, 0x1000), (0x09000000, 0x1000), (0x08000000, 0x20000)]"

definition map_range :: "MemorySet \<Rightarrow> u64 \<times> u64 \<times> u64 \<Rightarrow> (pmem, MemorySet) cmd" where
  "map_range ms = (\<lambda>(start', end', flags).
     bind (assert_cmd (start' < end')) (\<lambda>_.
     bind (lift (va_new start')) (\<lambda>sv. bind (assert_cmd (va_is_aligned sv)) (\<lambda>_.
     bind (lift (va_new end')) (\<lambda>ev. bind (assert_cmd (va_is_aligned ev)) (\<lambda>_.
     bind (lift (area_new_offset sv (pa_new (virt_to_phys start')) (end' - start') flags)) (\<lambda>a.
     memory_set_insert ms a)))))))"

definition kernel_ranges :: "kernel_image \<Rightarrow> (u64 \<times> u64 \<times> u64) list" where
  "kernel_ranges k =
     [(stext k, etext k, MF_READ OR MF_EXECUTE),
      (srodata k, erodata k, MF_READ),
      (sdata k, edata k, MF_READ OR MF_WRITE),
      (sbss k, ebss k, MF_READ OR MF_WRITE),
      (boot_stack k, boot_stack_top k, MF_READ OR MF_WRITE),
      (ekernel k, phys_to_virt MEMORY_END, MF_READ OR MF_WRITE)] @
     map (\<lambda>(base, sz). (phys_to_virt base, phys_to_virt (base + sz), MF_READ OR MF_WRITE OR MF_DEVICE)) MMIO_REGIONS"

fun map_ranges :: "MemorySet \<Rightarrow> (u64 \<times> u64 \<times> u64) list \<Rightarrow> (pmem, MemorySet) cmd" where
  "map_ranges ms [] = ret ms"
| "map_ranges ms (r # rs) = bind (map_range ms r) (\<lambda>ms'. map_ranges ms' rs)"

text \<open>\<open>init_paging\<close> returns the set it stores in \<open>KERNEL_SPACE\<close> and the arguments of its two calls of
  \<open>activate_paging\<close>.\<close>

definition init_paging :: "kernel_image \<Rightarrow> (pmem, MemorySet \<times> (u64 \<times> bool) list) cmd" where
  "init_paging k =
     bind memory_set_new (\<lambda>ms. bind (map_ranges ms (kernel_ranges k)) (\<lambda>ms.
     ret (ms, [(pa_as_usize (page_table_root ms), True), (0, False)])))"

definition remap_test :: "kernel_image \<Rightarrow> MemorySet \<Rightarrow> (pmem, unit) cmd" where
  "remap_test k KERNEL_SPACE =
     bind (lift (va_new (stext k + (etext k - stext k) div 2))) (\<lambda>mid_text.
     bind (lift (va_new (srodata k + (erodata k - srodata k) div 2))) (\<lambda>mid_rodata.
     bind (lift (va_new (sdata k + (edata k - sdata k) div 2))) (\<lambda>mid_data.
     bind (lift (index_res MMIO_REGIONS 0)) (\<lambda>m.
     bind (lift (va_new (phys_to_virt (fst m)))) (\<lambda>mid_mmio.
     bind (page_table_query (pt KERNEL_SPACE) mid_text) (\<lambda>q. bind (lift (unwrap q)) (\<lambda>q.
     bind (assert_cmd (\<not> bits_contains (snd q) MF_WRITE)) (\<lambda>_.
     bind (page_table_query (pt KERNEL_SPACE) mid_rodata) (\<lambda>q. bind (lift (unwrap q)) (\<lambda>q.
     bind (assert_cmd (\<not> bits_contains (snd q) MF_EXECUTE)) (\<lambda>_.
     bind (page_table_query (pt KERNEL_SPACE) mid_mmio) (\<lambda>q. bind (lift (unwrap q)) (\<lambda>q.
     assert_cmd (bits_contains (snd q) MF_DEVICE))))))))))))))"

end
