(* ===== verification/AreaSpec.thy ===== *)
theory AreaSpec
  imports PageTableSpec MemorySets
begin

text \<open>
  Areas of an address space: the pages of an area, the frame of each page, and what mapping and
  unmapping all pages of an area does to the page table, to physical memory and to the frame
  allocator.
\<close>

section \<open>The pages of an area\<close>

text \<open>An area lies in the lower or in the upper half of the address space, and its bounds are aligned.\<close>

definition in_half :: "nat \<Rightarrow> nat \<Rightarrow> bool" where
  "in_half a n \<longleftrightarrow> a + n < 2 ^ 48 \<or> (2 ^ 64 - 2 ^ 48 \<le> a \<and> a + n < 2 ^ 64)"

definition span_ok :: "u64 \<Rightarrow> u64 \<Rightarrow> bool" where
  "span_ok a n \<longleftrightarrow> is_aligned a PAGE_SIZE \<and> is_aligned n PAGE_SIZE \<and> in_half (unat a) (unat n)"

lemma unat_word_of_nat: "n < 2 ^ 64 \<Longrightarrow> unat (of_nat n :: u64) = n"
  by (simp add: unat_of_nat)

lemma unat_page_step:
  assumes "unat a + k * 4096 < 2 ^ 64"
  shows "unat (a + of_nat k * PAGE_SIZE) = unat a + k * 4096"
proof -
  have "a + of_nat k * PAGE_SIZE = of_nat (unat a + k * 4096)" by simp
  then show ?thesis using unat_word_of_nat [OF assms] by (simp only:)
qed

lemma span_pages:
  assumes "span_ok a n"
  shows "page_range a (a + n) = map (\<lambda>k. a + of_nat k * PAGE_SIZE) [0..<unat n div 4096]"
    and "unat (a + n) = unat a + unat n"
    and "unat n div 4096 * 4096 = unat n" and "unat a div 4096 * 4096 = unat a"
proof -
  show n: "unat n div 4096 * 4096 = unat n" "unat a div 4096 * 4096 = unat a"
    using assms by (simp_all add: span_ok_def is_aligned_page page_of_def)
  have "unat a + unat n < 2 ^ 64" using assms by (auto simp: span_ok_def in_half_def)
  then show u: "unat (a + n) = unat a + unat n" by (subst unat_add_lem [THEN iffD1]) simp_all
  have "(unat n div 4096 * 4096 + 4095) div 4096 = unat n div 4096" by simp
  then have "(unat n + 4095) div 4096 = unat n div 4096" unfolding n(1) .
  then show "page_range a (a + n) = map (\<lambda>k. a + of_nat k * PAGE_SIZE) [0..<unat n div 4096]"
    by (simp add: page_range_def u)
qed

text \<open>The loop over the pages visits \<open>a\<close>, then the pages from \<open>a + PAGE_SIZE\<close> on, until the end.\<close>

lemma page_range_loop:
  assumes "span_ok a n" and "0 < unat n"
  shows "page_range a (a + n) = a # page_range (a + PAGE_SIZE) (a + n)"
proof -
  obtain m where m: "unat n div 4096 = Suc m" and n: "unat n = Suc m * 4096"
    using span_pages(3) [OF assms(1)] assms(2) by (cases "unat n div 4096") (auto dest: sym)
  have lt: "unat a + unat n < 2 ^ 64" using assms by (auto simp: span_ok_def in_half_def)
  have u: "unat (a + PAGE_SIZE) = unat a + 4096" using unat_page_step [of a 1] n lt by simp
  have k: "(unat (a + n) - unat (a + PAGE_SIZE) + 4095) div 4096 = m"
    unfolding u span_pages(2) [OF assms(1)] n by simp
  have "map (\<lambda>k. a + of_nat k * PAGE_SIZE) [0..<Suc m] = a # map (\<lambda>k. (a + PAGE_SIZE) + of_nat k * PAGE_SIZE) [0..<m]"
    unfolding upt_conv_Cons [OF zero_less_Suc] map_Suc_upt [symmetric] by (simp add: algebra_simps)
  then show ?thesis unfolding span_pages(1) [OF assms(1)] m by (simp add: page_range_def k)
qed

lemma page_range_end: "page_range a a = []"
  by (simp add: page_range_def)

lemma in_span:
  assumes "span_ok a n" and "p \<in> set (page_range a (a + n))"
  shows "\<exists>k < unat n div 4096. p = a + of_nat k * PAGE_SIZE \<and> unat p = unat a + k * 4096"
proof -
  from assms obtain k where k: "k < unat n div 4096" "p = a + of_nat k * PAGE_SIZE" by (auto simp: span_pages(1))
  have "unat a + k * 4096 < 2 ^ 64" using k(1) assms(1) by (auto simp: span_ok_def in_half_def)
  from unat_page_step [OF this] k show ?thesis by blast
qed

lemma unat_vpn: "unat (vpn (VirtAddr p)) = unat p div 4096 mod 2 ^ 36"
  by (simp add: vpn_def take_bit_eq_mod drop_bit_eq_div unat_div unat_mod)

lemma va_new_half:
  assumes "in_half (unat p) 0"
  shows "va_new p = Ok (VirtAddr p)"
proof -
  have d: "unat (drop_bit 48 p) = unat p div 2 ^ 48" by (simp add: drop_bit_eq_div unat_div)
  have "unat (drop_bit 48 p) = unat (0 :: u64) \<or> unat (drop_bit 48 p) = unat (0xffff :: u64)"
    unfolding d using assms by (auto simp: in_half_def)
  then have "drop_bit 48 p = 0 \<or> drop_bit 48 p = 0xffff" unfolding word_unat_eq_iff .
  then show ?thesis by (auto simp: va_new_def Let_def)
qed

lemma span_page:
  assumes "span_ok a n" and "p \<in> set (page_range a (a + n))"
  shows "is_aligned p PAGE_SIZE" and "in_half (unat p) 0" and "va_new p = Ok (VirtAddr p)"
proof -
  from in_span [OF assms] obtain k where k: "k < unat n div 4096" "unat p = unat a + k * 4096" by blast
  show "is_aligned p PAGE_SIZE" using assms(1) by (simp add: span_ok_def is_aligned_unat k(2))
  show h: "in_half (unat p) 0" using assms(1) k by (auto simp: span_ok_def in_half_def)
  show "va_new p = Ok (VirtAddr p)" by (rule va_new_half [OF h])
qed

lemma vpn_half:
  assumes "in_half a n" and "a \<le> unat p" and "unat p < a + n" and "a \<le> unat q" and "unat q < a + n"
    and "is_aligned p PAGE_SIZE" and "is_aligned q PAGE_SIZE" and "vpn (VirtAddr p) = vpn (VirtAddr q)"
  shows "p = q"
proof -
  have v: "unat p div 4096 mod 2 ^ 36 = unat q div 4096 mod 2 ^ 36" using unat_vpn [of p] unat_vpn [of q] assms(8) by simp
  have "unat p div 4096 = unat q div 4096"
  proof (cases "a + n < 2 ^ 48")
    case True
    then have "unat p div 4096 < 2 ^ 36" "unat q div 4096 < 2 ^ 36" using assms(3,5) by auto
    then show ?thesis using v by simp
  next
    case False
    then have "2 ^ 64 - 2 ^ 48 \<le> a" "a + n < 2 ^ 64" using assms(1) by (auto simp: in_half_def)
    then have "0xffff * 2 ^ 36 \<le> unat p div 4096" "0xffff * 2 ^ 36 \<le> unat q div 4096"
      "unat p div 4096 < 2 ^ 52" "unat q div 4096 < 2 ^ 52" using assms(2-5) by auto
    then have "unat p div 4096 div 2 ^ 36 = 0xffff" "unat q div 4096 div 2 ^ 36 = 0xffff" by auto
    then show ?thesis using v by (metis div_mult_mod_eq)
  qed
  then show ?thesis using assms(6,7) by (simp add: is_aligned_page page_of_def word_unat_eq_iff)
qed

lemma span_vpn:
  assumes "span_ok a n" and "p \<in> set (page_range a (a + n))" and "q \<in> set (page_range a (a + n))"
    and "vpn (VirtAddr p) = vpn (VirtAddr q)"
  shows "p = q"
proof -
  have b: "unat a \<le> unat x \<and> unat x < unat a + unat n" if x: "x \<in> set (page_range a (a + n))" for x
    using in_span [OF assms(1) x] by auto
  show ?thesis
    by (rule vpn_half [OF _ _ _ _ _ span_page(1) [OF assms(1,2)] span_page(1) [OF assms(1,3)] assms(4), of "unat a" "unat n"])
      (use assms(1) b [OF assms(2)] b [OF assms(3)] in \<open>auto simp: span_ok_def\<close>)
qed

lemma span_distinct:
  assumes "span_ok a n"
  shows "distinct (page_range a (a + n))"
proof -
  have "inj_on (\<lambda>k. a + of_nat k * PAGE_SIZE) {0..<unat n div 4096}"
  proof (rule inj_onI)
    fix i j assume i: "i \<in> {0..<unat n div 4096}" and j: "j \<in> {0..<unat n div 4096}"
      and e: "a + of_nat i * PAGE_SIZE = a + of_nat j * PAGE_SIZE"
    have "unat (a + of_nat k * PAGE_SIZE) = unat a + k * 4096" if "k < unat n div 4096" for k
      using that assms by (intro unat_page_step) (auto simp: span_ok_def in_half_def)
    then show "i = j" using i j e by (metis add_left_cancel atLeastLessThan_iff mult_cancel2 zero_neq_numeral)
  qed
  then show ?thesis by (simp add: span_pages(1) [OF assms] distinct_map)
qed

section \<open>The frames of an area\<close>

definition frame_no :: "PhysFrame \<Rightarrow> nat" where
  "frame_no f = page_of (pa_as_usize (start_paddr f))"

definition owned :: "(VirtAddr, PhysFrame) btree_map \<Rightarrow> nat list" where
  "owned fs = map (\<lambda>e. frame_no (snd e)) fs"

definition area_owned :: "MapArea \<Rightarrow> nat list" where
  "area_owned a = (case mapper a of Offset _ \<Rightarrow> [] | Framed fs \<Rightarrow> owned fs)"

definition framed :: "MapArea \<Rightarrow> bool" where
  "framed a \<longleftrightarrow> (case mapper a of Offset _ \<Rightarrow> False | Framed _ \<Rightarrow> True)"

definition same_area :: "MapArea \<Rightarrow> MapArea \<Rightarrow> bool" where
  "same_area a a' \<longleftrightarrow> start a' = start a \<and> area_size a' = area_size a \<and> area_flags a' = area_flags a"

definition frames_ok :: "pmem \<Rightarrow> (VirtAddr, PhysFrame) btree_map \<Rightarrow> bool" where
  "frames_ok s fs \<longleftrightarrow> btm_ok fs \<and> (\<forall>e\<in>set fs. snd e = frame_at (frame_no (snd e))) \<and>
     distinct (owned fs) \<and> set (owned fs) \<subseteq> live_frames s"

definition area_wf :: "pmem \<Rightarrow> MapArea \<Rightarrow> bool" where
  "area_wf s a \<longleftrightarrow> span_ok (va_as_usize (start a)) (area_size a) \<and> area_flags a AND 31 = area_flags a \<and>
     (case mapper a of
        Offset off \<Rightarrow> is_aligned off PAGE_SIZE
      | Framed fs \<Rightarrow> frames_ok s fs \<and> fst ` set fs \<subseteq> VirtAddr ` set (area_pages a))"

text \<open>The physical address of a page of an area, and the entry that maps it.\<close>

definition area_pa :: "MapArea \<Rightarrow> VirtAddr \<Rightarrow> PhysAddr option" where
  "area_pa a v = (case mapper a of
     Offset off \<Rightarrow> Some (pa_new (va_as_usize v - off))
   | Framed fs \<Rightarrow> map_option start_paddr (btm_get fs v))"

definition area_entry :: "MapArea \<Rightarrow> VirtAddr \<Rightarrow> u64" where
  "area_entry a v = (case area_pa a v of None \<Rightarrow> 0 | Some pa \<Rightarrow> pte_new_page pa (area_flags a) False)"

definition page_bytes :: "pmem \<Rightarrow> MapArea \<Rightarrow> VirtAddr \<Rightarrow> bytes" where
  "page_bytes s a v = (case area_pa a v of None \<Rightarrow> [] | Some pa \<Rightarrow> frames s (pa_as_usize pa))"

lemma frame_no_at [simp]: "n < 2 ^ 28 \<Longrightarrow> frame_no (frame_at n) = n"
  by (simp add: frame_no_def page_of_def unat_frame_pa)

lemma frames_ok_get:
  assumes "pmem_ok s" and "frames_ok s fs" and "btm_get fs v = Some f"
  shows "f = frame_at (frame_no f)" and "frame_no f \<in> set (owned fs)" and "frame_no f < 2 ^ 28" and "frame_no f \<in> live_frames s"
proof -
  have m: "(v, f) \<in> set fs" using assms(3) by (simp add: btm_get_def map_of_SomeD)
  show "f = frame_at (frame_no f)" using assms(2) m by (force simp: frames_ok_def)
  show o: "frame_no f \<in> set (owned fs)" using m by (force simp: owned_def)
  then show l: "frame_no f \<in> live_frames s" using assms(2) by (auto simp: frames_ok_def)
  show "frame_no f < 2 ^ 28" using pmem_okD(1) [OF assms(1) l] .
qed

lemma aligned_diff:
  assumes "is_aligned x PAGE_SIZE" and "is_aligned y PAGE_SIZE"
  shows "is_aligned (x - y) PAGE_SIZE"
proof -
  obtain i j where ij: "unat x = 4096 * i" "unat y = 4096 * j"
    using assms by (auto simp: is_aligned_unat mod_eq_0_iff_dvd dvd_def)
  have "unat (x - y) = (if j \<le> i then 4096 * (i - j) else 4096 * (i + 2 ^ 52 - j))"
    using unat_sub_if' [of x y] unsigned_less [of y, where ?'a = nat] by (simp add: ij diff_mult_distrib2)
  then show ?thesis by (simp add: is_aligned_unat)
qed

lemma area_pa_frame:
  assumes "pmem_ok s" and "area_wf s a" and "va_is_aligned v" and "area_pa a v = Some pa"
  shows "page_frame (pa_as_usize pa)"
proof (cases "mapper a")
  case (Offset off)
  let ?x = "va_as_usize v - off"
  have "is_aligned ?x PAGE_SIZE" using assms(2,3) Offset by (intro aligned_diff) (simp_all add: area_wf_def va_is_aligned_def)
  then have "take_bit 12 (take_bit 40 ?x) = 0" by (simp add: is_aligned_def page_offset_take_bit)
  moreover have "unat (take_bit 40 ?x) < 2 ^ 40" by (simp add: take_bit_eq_mod unat_mod)
  moreover have "pa = PhysAddr (take_bit 40 ?x)" using assms(4) Offset by (simp add: area_pa_def pa_new_take_bit)
  ultimately show ?thesis by (simp add: page_frame_def is_aligned_def page_offset_take_bit)
next
  case (Framed fs)
  then obtain f where f: "btm_get fs v = Some f" "pa = start_paddr f" using assms(4) by (auto simp: area_pa_def)
  have "frames_ok s fs" using assms(2) Framed by (simp add: area_wf_def)
  note F = frames_ok_get [OF assms(1) this f(1)]
  have "pa_as_usize pa = frame_pa (frame_no f)" unfolding f(2) using arg_cong [OF F(1), of "\<lambda>f. pa_as_usize (start_paddr f)"] by simp
  then show ?thesis using page_frame_at [OF F(3)] by simp
qed

lemma area_page:
  assumes "area_wf s a" and "p \<in> set (area_pages a)"
  shows "va_is_aligned (VirtAddr p)" and "va_new p = Ok (VirtAddr p)"
proof -
  have "span_ok (va_as_usize (start a)) (area_size a)" using assms(1) by (simp add: area_wf_def)
  note S = span_page [OF this assms(2) [unfolded area_pages_def]]
  show "va_is_aligned (VirtAddr p)" "va_new p = Ok (VirtAddr p)" using S by (simp_all add: va_is_aligned_def)
qed

lemma area_wf_frame: "area_wf s a \<Longrightarrow> live_frames s \<subseteq> live_frames s' \<Longrightarrow> area_wf s' a"
  by (auto simp: area_wf_def frames_ok_def split: Mapper.splits)

lemma area_owned_live: "area_wf s a \<Longrightarrow> set (area_owned a) \<subseteq> live_frames s"
  by (auto simp: area_wf_def area_owned_def frames_ok_def split: Mapper.splits)

text \<open>A page table depends on the contents of its own frames alone.\<close>

lemma pt_rep_frame:
  assumes rep: "pt_rep s t r ts" and ok: "pmem_ok s'" and lv: "set ts \<subseteq> live_frames s'"
    and fr: "\<And>m. m \<in> set ts \<Longrightarrow> frames s' (frame_pa m) = frames s (frame_pa m)"
  shows "pt_rep s' t r ts" and "leaf s' r v = leaf s r v"
proof -
  note R = pt_repD [OF rep]
  have v32: "valid_path 2 q \<Longrightarrow> valid_path 3 q" for q by (erule valid_path_le) simp
  have tb: "tbl s' m = tbl s m" if "m \<in> set ts" for m using fr [OF that] by (rule tbl_cong)
  have nd: "node s' r p = node s r p" if "valid_path 3 p" for p
    by (rule node_cong [OF _ that]) (use R(6) [OF v32] tb in blast)
  have "tbl s' n ! i = 0 \<or> (\<exists>m\<in>set ts. tbl s' n ! i = pte_new_table (PhysAddr (frame_pa m)))"
    if "valid_path 2 p" "node s' r p = Some n" "i < ENTRY_COUNT" for p n i
  proof -
    have n: "node s r p = Some n" using nd [OF v32 [OF that(1)]] that(2) by simp
    show ?thesis using R(8) [OF that(1) n that(3)] tb [OF R(6) [OF v32 [OF that(1)] n]] by simp
  qed
  then show "pt_rep s' t r ts" unfolding pt_rep_def using rep ok lv nd R(6,7) by (auto simp: pt_rep_def)
  show "leaf s' r v = leaf s r v"
    unfolding leaf_def nd [OF idx_path_valid(1)] using R(6) [OF idx_path_valid(1), of v] tb by (auto split: option.splits)
qed

section \<open>Mapping one page\<close>

text \<open>What \<open>MapArea::map\<close> of page \<open>v\<close> leaves: the area has a frame for it, a fresh zeroed one if it had
  none, and nothing else changes.\<close>

definition area_step :: "pmem \<Rightarrow> MapArea \<Rightarrow> VirtAddr \<Rightarrow> pmem \<Rightarrow> MapArea \<Rightarrow> bool" where
  "area_step s a v s' a' \<longleftrightarrow> pmem_ok s' \<and> area_wf s' a' \<and> same_area a a' \<and> framed a' = framed a \<and> all_frames s' = all_frames s \<and>
     live_frames s' = live_frames s \<union> set (area_owned a') \<and> set (area_owned a) \<subseteq> set (area_owned a') \<and>
     (set (area_owned a') - set (area_owned a)) \<inter> live_frames s = {} \<and> free_count s \<le> free_count s' + 1 \<and>
     area_pa a' v \<noteq> None \<and> (\<forall>v'. v' \<noteq> v \<longrightarrow> area_pa a' v' = area_pa a v') \<and> (\<forall>pa. area_pa a v = Some pa \<longrightarrow> area_pa a' v = Some pa) \<and>
     (area_pa a v = None \<longrightarrow> page_bytes s' a' v = replicate 4096 0) \<and>
     (\<forall>m\<in>all_frames s - (set (area_owned a') - set (area_owned a)). frames s' (frame_pa m) = frames s (frame_pa m))"

lemma area_step_refl:
  assumes "pmem_ok s" and "area_wf s a" and "area_pa a v \<noteq> None"
  shows "area_step s a v s a"
  using area_owned_live [OF assms(2)] assms by (auto simp: area_step_def same_area_def)

lemma owned_btm_insert: "set (owned (btm_insert v f fs)) = insert (frame_no f) (set (owned fs))"
  if "btm_ok fs" and "btm_get fs v = None"
  using set_btm_insert_new [OF that(1), of v f] that(2)
  by (auto simp: owned_def btm_get_def map_of_eq_None_iff)

lemma frames_ok_insert:
  assumes "frames_ok s fs" and "btm_get fs v = None" and "n < 2 ^ 28" and "n \<in> live_frames s'" and "live_frames s \<subseteq> live_frames s'"
    and "n \<notin> live_frames s"
  shows "frames_ok s' (btm_insert v (frame_at n) fs)"
proof -
  have b: "btm_ok fs" and v: "v \<notin> fst ` set fs" using assms(1,2) by (auto simp: frames_ok_def btm_get_def map_of_eq_None_iff)
  have st: "set (btm_insert v (frame_at n) fs) = insert (v, frame_at n) (set fs)" by (rule set_btm_insert_new [OF b v])
  have o: "set (owned (btm_insert v (frame_at n) fs)) = insert n (set (owned fs))"
    using owned_btm_insert [OF b assms(2), of "frame_at n"] assms(3) by simp
  have n: "n \<notin> set (owned fs)" using assms(1,6) by (auto simp: frames_ok_def)
  have ln: "length (btm_insert v f fs) = Suc (length fs)" for f
    using v by (induction v f fs rule: btm_insert.induct) auto
  have "length (owned fs) = length fs" by (simp add: owned_def)
  then have "card (set (owned fs)) = length fs" using assms(1) distinct_card [of "owned fs"] by (simp add: frames_ok_def)
  then have "card (set (owned (btm_insert v (frame_at n) fs))) = length (owned (btm_insert v (frame_at n) fs))"
    unfolding o card_insert_disjoint [OF finite_set n] by (simp add: owned_def ln)
  then have "distinct (owned (btm_insert v (frame_at n) fs))" by (rule card_distinct)
  then show ?thesis using assms st o btm_insert_ok [OF b] by (auto simp: frames_ok_def)
qed

lemma area_map_ok:
  assumes ok: "pmem_ok s" and wf: "area_wf s a" and p: "p \<in> set (area_pages a)" and free: "1 \<le> free_count s"
  shows "runs (area_map a (VirtAddr p)) s (\<lambda>(pa, a') s'. area_pa a' (VirtAddr p) = Some pa \<and> area_step s a (VirtAddr p) s' a')"
proof -
  note al = area_page(1) [OF wf p]
  show ?thesis
  proof (cases "area_pa a (VirtAddr p)")
    case (Some pa)
    from area_step_refl [OF ok wf, of "VirtAddr p"] Some show ?thesis
      by (cases "mapper a") (auto simp: area_map_def al area_pa_def)
  next
    case None
    then obtain fs where m: "mapper a = Framed fs" "btm_get fs (VirtAddr p) = None"
      by (cases "mapper a") (auto simp: area_pa_def)
    have fo: "frames_ok s fs" "fst ` set fs \<subseteq> VirtAddr ` set (area_pages a)" using wf m by (simp_all add: area_wf_def)
    show ?thesis unfolding area_map_def m option.case Mapper.case
    proof (simp only: al assert_cmd_True bind_ret runs_bind, rule runs_mono [OF alloc_zero_ok [OF ok]])
      show "0 < free_count s" using free by simp
    next
      fix q s1 assume "\<exists>n. q = Some (frame_at n) \<and> frame_taken s n s1 \<and> frames s1 (frame_pa n) = replicate 4096 0"
      then obtain n where q: "q = Some (frame_at n)" and t: "frame_taken s n s1" and z: "frames s1 (frame_pa n) = replicate 4096 0" by blast
      have n: "n < 2 ^ 28" "n \<notin> live_frames s" "live_frames s1 = insert n (live_frames s)"
        using t ok by (auto simp: frame_taken_def pmem_ok_def)
      let ?fs = "btm_insert (VirtAddr p) (frame_at n) fs" let ?a = "a\<lparr>mapper := Framed ?fs\<rparr>"
      have b: "btm_ok fs" using fo by (simp add: frames_ok_def)
      have o: "set (owned ?fs) = insert n (set (owned fs))" using owned_btm_insert [OF b m(2), of "frame_at n"] n by simp
      have ol: "set (owned fs) \<subseteq> live_frames s" using fo by (simp add: frames_ok_def)
      have fo': "frames_ok s1 ?fs" by (rule frames_ok_insert [OF fo(1) m(2)]) (use n in auto)
      have g: "btm_get ?fs = (btm_get fs)(VirtAddr p \<mapsto> frame_at n)" by (rule btm.get_ins [OF b])
      have pg: "area_pages ?a = area_pages a" by (simp add: area_pages_def)
      have "area_wf s1 ?a" using wf fo' fo(2) p fst_btm_insert [of "VirtAddr p" "frame_at n" fs] pg by (auto simp: area_wf_def m(1))
      moreover have "area_pa ?a v' = (if v' = VirtAddr p then Some (PhysAddr (frame_pa n)) else area_pa a v')" for v'
        by (simp add: area_pa_def g m)
      moreover have "set (area_owned ?a) = insert n (set (area_owned a))" "set (area_owned a) \<subseteq> live_frames s"
        using o ol by (simp_all add: area_owned_def m)
      ultimately have "area_step s a (VirtAddr p) s1 ?a"
        using t n None z by (auto simp: area_step_def frame_taken_def page_bytes_def framed_def same_area_def m)
      then show "runs (lift (unwrap q)) s1 (\<lambda>f s'. runs (ret (start_paddr f, a\<lparr>mapper := Framed (btm_insert (VirtAddr p) f fs)\<rparr>)) s'
          (\<lambda>(pa, a') s'. area_pa a' (VirtAddr p) = Some pa \<and> area_step s a (VirtAddr p) s' a'))"
        by (simp add: q unwrap_def area_pa_def g)
    qed
  qed
qed

section \<open>Mapping all pages\<close>

definition area_mapped :: "pmem \<Rightarrow> nat \<Rightarrow> nat list \<Rightarrow> MapArea \<Rightarrow> u64 list \<Rightarrow> pmem \<Rightarrow> nat list \<Rightarrow> MapArea \<Rightarrow> bool" where
  "area_mapped s r ts a ps s' ts' a' \<longleftrightarrow> area_wf s' a' \<and> same_area a a' \<and> framed a' = framed a \<and> all_frames s' = all_frames s \<and>
     live_frames s' = live_frames s \<union> set ts' \<union> set (area_owned a') \<and> set ts \<subseteq> set ts' \<and> set (area_owned a) \<subseteq> set (area_owned a') \<and>
     set ts' \<inter> set (area_owned a') = {} \<and> (set ts' - set ts) \<inter> live_frames s = {} \<and>
     (set (area_owned a') - set (area_owned a)) \<inter> live_frames s = {} \<and> free_count s \<le> free_count s' + 4 * length ps \<and>
     (\<forall>v. v \<notin> VirtAddr ` set ps \<longrightarrow> area_pa a' v = area_pa a v) \<and> (\<forall>v\<in>VirtAddr ` set ps. area_pa a' v \<noteq> None) \<and>
     (\<forall>v pa. area_pa a v = Some pa \<longrightarrow> area_pa a' v = Some pa) \<and>
     (\<forall>v\<in>VirtAddr ` set ps. area_pa a v = None \<longrightarrow> page_bytes s' a' v = replicate 4096 0) \<and>
     (\<forall>m\<in>all_frames s - set ts' - (set (area_owned a') - set (area_owned a)). frames s' (frame_pa m) = frames s (frame_pa m)) \<and>
     (\<forall>p\<in>set ps. leaf s' r (VirtAddr p) = area_entry a' (VirtAddr p)) \<and>
     (\<forall>v. vpn v \<notin> vpn ` VirtAddr ` set ps \<longrightarrow> leaf s' r v = leaf s r v)"

lemma area_mappedD:
  assumes "area_mapped s r ts a ps s' ts' a'"
  shows "area_wf s' a'" and "same_area a a'" and "framed a' = framed a" and "all_frames s' = all_frames s"
    and "live_frames s' = live_frames s \<union> set ts' \<union> set (area_owned a')" and "set ts \<subseteq> set ts'"
    and "set (area_owned a) \<subseteq> set (area_owned a')" and "set ts' \<inter> set (area_owned a') = {}"
    and "(set ts' - set ts) \<inter> live_frames s = {}" and "(set (area_owned a') - set (area_owned a)) \<inter> live_frames s = {}"
    and "free_count s \<le> free_count s' + 4 * length ps" and "v \<notin> VirtAddr ` set ps \<Longrightarrow> area_pa a' v = area_pa a v"
    and "v \<in> VirtAddr ` set ps \<Longrightarrow> area_pa a' v \<noteq> None" and "area_pa a v = Some pa \<Longrightarrow> area_pa a' v = Some pa"
    and "v \<in> VirtAddr ` set ps \<Longrightarrow> area_pa a v = None \<Longrightarrow> page_bytes s' a' v = replicate 4096 0"
    and "m \<in> all_frames s - set ts' - (set (area_owned a') - set (area_owned a)) \<Longrightarrow> frames s' (frame_pa m) = frames s (frame_pa m)"
    and "p \<in> set ps \<Longrightarrow> leaf s' r (VirtAddr p) = area_entry a' (VirtAddr p)"
    and "vpn v \<notin> vpn ` VirtAddr ` set ps \<Longrightarrow> leaf s' r v = leaf s r v"
  using assms by (simp_all only: area_mapped_def simp_thms not_False_eq_True)

lemma leaf_vpn: "vpn v = vpn v' \<Longrightarrow> leaf s r v = leaf s r v'"
  using idx_path_vpn [of v v'] by (auto simp: leaf_def split: option.splits)

text \<open>A frame that is owned by an area holds what it held, whatever happens to other frames.\<close>

lemma area_pa_owned:
  assumes "pmem_ok s" and "area_wf s a" and "area_pa a v = Some pa" and "framed a"
  shows "\<exists>n\<in>set (area_owned a). pa = PhysAddr (frame_pa n) \<and> n < 2 ^ 28 \<and> n \<in> live_frames s"
proof -
  obtain fs where m: "mapper a = Framed fs" using assms(4) by (auto simp: framed_def split: Mapper.splits)
  then obtain f where f: "btm_get fs v = Some f" "pa = start_paddr f" using assms(3) by (auto simp: area_pa_def)
  have "frames_ok s fs" using assms(2) m by (simp add: area_wf_def)
  note F = frames_ok_get [OF assms(1) this f(1)]
  have "pa = PhysAddr (frame_pa (frame_no f))" unfolding f(2) using arg_cong [OF F(1), of start_paddr] by simp
  then show ?thesis using F(2-4) m by (auto simp: area_owned_def)
qed

lemma page_bytes_frame:
  assumes ok: "pmem_ok s" and wf: "area_wf s a" and pa: "area_pa a v \<noteq> None" and fr: "framed a"
    and eq: "\<And>n. n \<in> set (area_owned a) \<Longrightarrow> frames s' (frame_pa n) = frames s (frame_pa n)"
  shows "page_bytes s' a v = page_bytes s a v"
proof -
  obtain x where x: "area_pa a v = Some x" using pa by blast
  from area_pa_owned [OF ok wf x fr] obtain n where "n \<in> set (area_owned a)" "x = PhysAddr (frame_pa n)" by blast
  then show ?thesis using eq by (simp add: page_bytes_def x)
qed

lemma area_pa_None: "area_pa a v = None \<Longrightarrow> framed a"
  by (cases "mapper a") (simp_all add: area_pa_def framed_def)

lemma step_page_set:
  assumes rep: "pt_rep s t r ts" and dj: "set ts \<inter> set (area_owned a) = {}" and st: "area_step s a (VirtAddr p) s1 a1"
    and nl: "length new \<le> 3" and ps: "page_set s1 r ts (VirtAddr p) (area_entry a1 (VirtAddr p)) new s2 t'"
    and lf: "\<And>v. leaf s1 r v = leaf s r v"
  shows "area_mapped s r ts a [p] s2 (ts @ new) a1"
proof -
  note R = pt_repD [OF rep]
  have s1: "area_wf s1 a1" "pmem_ok s1" "live_frames s1 = live_frames s \<union> set (area_owned a1)" "all_frames s1 = all_frames s"
    "(set (area_owned a1) - set (area_owned a)) \<inter> live_frames s = {}" "free_count s \<le> free_count s1 + 1"
    using st by (simp_all add: area_step_def)
  have s2: "live_frames s2 = live_frames s1 \<union> set new" "set new \<inter> live_frames s1 = {}" "all_frames s2 = all_frames s1"
    "free_count s1 = free_count s2 + length new" using ps by (simp_all add: page_set_def)
  have fr: "frames s2 (frame_pa m) = frames s1 (frame_pa m)" if "m \<in> all_frames s - set (ts @ new)" for m
    using ps that s1(4) by (simp add: page_set_def)
  have dj1: "set (ts @ new) \<inter> set (area_owned a1) = {}" using dj R(3) s1(3,5) s2(2) by auto
  have wf: "area_wf s2 a1" by (rule area_wf_frame [OF s1(1)]) (simp add: s2)
  have eq: "frames s2 (frame_pa n) = frames s1 (frame_pa n)" if "n \<in> set (area_owned a1)" for n
    using that dj1 fr area_owned_live [OF s1(1)] pmem_okD(2) [OF s1(2)] s1(4) by blast
  have z: "page_bytes s2 a1 (VirtAddr p) = replicate 4096 0" if n: "area_pa a (VirtAddr p) = None"
    using page_bytes_frame [OF s1(2,1) _ _ eq] st area_pa_None [OF n] n by (simp add: area_step_def)
  have keep: "frames s2 (frame_pa m) = frames s (frame_pa m)" if "m \<in> all_frames s - set (ts @ new) - (set (area_owned a1) - set (area_owned a))" for m
    using that fr st by (simp add: area_step_def)
  have le: "leaf s2 r (VirtAddr p) = area_entry a1 (VirtAddr p)" "\<And>v. vpn v \<noteq> vpn (VirtAddr p) \<Longrightarrow> leaf s2 r v = leaf s r v"
    using ps lf by (simp_all add: page_set_def)
  have lv: "live_frames s2 = live_frames s \<union> set (ts @ new) \<union> set (area_owned a1)" using s1(3) s2(1) R(3) by auto
  have nw: "(set (ts @ new) - set ts) \<inter> live_frames s = {}" using s1(3) s2(2) by auto
  have mono: "area_pa a v = Some pa \<Longrightarrow> area_pa a1 v = Some pa" for v pa
    using st by (cases "v = VirtAddr p") (auto simp: area_step_def)
  show ?thesis unfolding area_mapped_def
    using wf s1 s2 dj1 z keep le lv nw nl st mono by (simp add: area_step_def)
qed

lemma map_page_ok:
  assumes rep: "pt_rep s t r ts" and wf: "area_wf s a" and p: "p \<in> set (area_pages a)" and dj: "set ts \<inter> set (area_owned a) = {}"
    and lf: "leaf s r (VirtAddr p) = 0" and free: "4 \<le> free_count s"
  shows "runs (bind (area_map a (VirtAddr p)) (\<lambda>(paddr, a'). bind (page_table_map t (VirtAddr p) paddr (area_flags a')) (\<lambda>t'. ret (t', a')))) s
    (\<lambda>(t', a') s'. \<exists>ts'. pt_rep s' t' r ts' \<and> area_mapped s r ts a [p] s' ts' a')"
proof -
  have f1: "1 \<le> free_count s" using free by simp
  show ?thesis unfolding runs_bind
  proof (rule runs_mono [OF area_map_ok [OF pt_repD(1) [OF rep] wf p f1]], clarify, unfold prod.case runs_bind)
  fix pa a1 s1 assume pa: "area_pa a1 (VirtAddr p) = Some pa" and st: "area_step s a (VirtAddr p) s1 a1"
  note R = pt_repD [OF rep]
  have wf1: "area_wf s1 a1" "pmem_ok s1" "free_count s \<le> free_count s1 + 1" "live_frames s1 = live_frames s \<union> set (area_owned a1)"
    "all_frames s1 = all_frames s" and new1: "(set (area_owned a1) - set (area_owned a)) \<inter> live_frames s = {}"
    and keep1: "\<forall>m\<in>all_frames s - (set (area_owned a1) - set (area_owned a)). frames s1 (frame_pa m) = frames s (frame_pa m)"
    using st by (simp_all add: area_step_def)
  have tsn: "m \<in> all_frames s - (set (area_owned a1) - set (area_owned a))" if "m \<in> set ts" for m
    using that R(3) new1 pmem_okD(2) [OF R(1)] by blast
  have "pt_rep s1 t r ts" and lf1: "\<And>v. leaf s1 r v = leaf s r v"
    using pt_rep_frame [OF rep wf1(2)] R(3) wf1(4) keep1 tsn by blast+
  note rep1 = this(1)
  have pf: "page_frame (pa_as_usize pa)" by (rule area_pa_frame [OF wf1(2,1) area_page(1) [OF wf p] pa])
  have al: "pa_align_down pa = pa" using pf align_down_id by (cases pa) (simp add: pa_align_down_def page_frame_def)
  have l0: "leaf s1 r (VirtAddr p) = 0" "3 \<le> free_count s1" using lf lf1 free wf1(3) by simp_all
  show "runs (page_table_map t (VirtAddr p) pa (area_flags a1)) s1 (\<lambda>t' s'. runs (ret (t', a1)) s'
    (\<lambda>(t', a') s'. \<exists>ts'. pt_rep s' t' r ts' \<and> area_mapped s r ts a [p] s' ts' a'))"
  proof (rule runs_mono [OF page_table_map_ok [OF rep1 l0]], elim exE conjE)
    fix t' s2 new assume nl: "length new \<le> 3" and "page_set s1 r ts (VirtAddr p) (pte_new_page (pa_align_down pa) (area_flags a1) False) new s2 t'"
    then have ps: "page_set s1 r ts (VirtAddr p) (area_entry a1 (VirtAddr p)) new s2 t'" by (simp add: al area_entry_def pa)
    show "runs (ret (t', a1)) s2 (\<lambda>(t', a') s'. \<exists>ts'. pt_rep s' t' r ts' \<and> area_mapped s r ts a [p] s' ts' a')"
      using step_page_set [OF rep dj st nl ps lf1] ps by (auto simp: page_set_def)
  qed
  qed
qed

lemma area_mapped_trans:
  assumes 1: "area_mapped s r ts a [p] s1 ts1 a1" and 2: "area_mapped s1 r ts1 a1 ps s2 ts2 a2" and ok: "pmem_ok s1"
    and dv: "vpn (VirtAddr p) \<notin> vpn ` VirtAddr ` set ps"
  shows "area_mapped s r ts a (p # ps) s2 ts2 a2"
proof -
  note m1 = area_mappedD [OF 1] and m2 = area_mappedD [OF 2]
  have pn: "VirtAddr p \<notin> VirtAddr ` set ps" using dv by blast
  have sets: "live_frames s2 = live_frames s \<union> set ts2 \<union> set (area_owned a2)" "set ts \<subseteq> set ts2"
    "(set ts2 - set ts) \<inter> live_frames s = {}" "(set (area_owned a2) - set (area_owned a)) \<inter> live_frames s = {}"
    using m1(5-10) m2(5-10) by auto
  have mono: "area_pa a v = Some pa \<Longrightarrow> area_pa a2 v = Some pa" for v pa using m1(14) m2(14) by blast
  have p2: "area_pa a2 (VirtAddr p) = area_pa a1 (VirtAddr p)" "area_pa a1 (VirtAddr p) \<noteq> None"
    using m2(12) [OF pn] m1(13) [of "VirtAddr p"] by simp_all
  have fl: "area_flags a2 = area_flags a1" using m2(2) by (simp add: same_area_def)
  have leaf: "leaf s2 r (VirtAddr p) = area_entry a2 (VirtAddr p)"
    using m1(17) [of p] m2(18) [OF dv] p2 fl by (auto simp: area_entry_def)
  have keep: "frames s2 (frame_pa m) = frames s (frame_pa m)" if "m \<in> all_frames s - set ts2 - (set (area_owned a2) - set (area_owned a))" for m
  proof -
    have "m \<in> all_frames s - set ts1 - (set (area_owned a1) - set (area_owned a))"
      "m \<in> all_frames s1 - set ts2 - (set (area_owned a2) - set (area_owned a1))" using that m1(4,7) m2(6,7) by auto
    then show ?thesis using m1(16) m2(16) by metis
  qed
  have own: "frames s2 (frame_pa n) = frames s1 (frame_pa n)" if n: "n \<in> set (area_owned a1)" for n
  proof -
    have "n \<in> all_frames s1" using n area_owned_live [OF m1(1)] pmem_okD(2) [OF ok] by blast
    then have "n \<in> all_frames s1 - set ts2 - (set (area_owned a2) - set (area_owned a1))" using n m2(7,8) by blast
    then show ?thesis by (rule m2(16))
  qed
  have z: "page_bytes s2 a2 v = replicate 4096 0" if v: "v \<in> VirtAddr ` set (p # ps)" "area_pa a v = None" for v
  proof (cases "v = VirtAddr p")
    case True
    have "page_bytes s2 a2 v = page_bytes s2 a1 v" using p2 by (simp add: page_bytes_def True)
    also have "\<dots> = page_bytes s1 a1 v"
      by (rule page_bytes_frame [OF ok m1(1) _ _ own]) (use m1(3) p2 area_pa_None [OF v(2)] in \<open>simp_all add: True\<close>)
    finally show ?thesis using m1(15) [of v] True v(2) by simp
  next
    case False
    then have "area_pa a1 v = None" "v \<in> VirtAddr ` set ps" using m1(12) [of v] v by auto
    then show ?thesis by (simp add: m2(15))
  qed
  have "same_area a a2" using m1(2) m2(2) by (simp add: same_area_def)
  moreover have "framed a2 = framed a" "all_frames s2 = all_frames s" "free_count s \<le> free_count s2 + 4 * length (p # ps)"
    using m1(3,4,11) m2(3,4,11) by simp_all
  moreover have "leaf s2 r v = leaf s r v" if "vpn v \<notin> vpn ` VirtAddr ` set (p # ps)" for v using that m1(18) [of v] m2(18) [of v] by simp
  moreover have "area_pa a2 v = area_pa a v" if "v \<notin> VirtAddr ` set (p # ps)" for v using that m1(12) [of v] m2(12) [of v] by simp
  moreover have "area_pa a2 v \<noteq> None" if "v \<in> VirtAddr ` set (p # ps)" for v using that p2 m2(13) by auto
  moreover have "leaf s2 r (VirtAddr q) = area_entry a2 (VirtAddr q)" if "q \<in> set (p # ps)" for q using that leaf m2(17) by auto
  moreover have "set (area_owned a) \<subseteq> set (area_owned a2)" using m1(7) m2(7) by simp
  ultimately show ?thesis unfolding area_mapped_def using sets mono keep z m2(1,8)
    by (intro conjI allI ballI impI) (simp_all only: simp_thms not_False_eq_True)
qed

lemma area_mapped_refl:
  assumes "pt_rep s t r ts" and "area_wf s a" and "set ts \<inter> set (area_owned a) = {}"
  shows "area_mapped s r ts a [] s ts a"
  using assms pt_repD(3) [OF assms(1)] area_owned_live [OF assms(2)] by (auto simp: area_mapped_def same_area_def)

lemma map_pages_Cons:
  assumes "va_new p = Ok v"
  shows "map_pages t a (p # ps) =
    bind (bind (area_map a v) (\<lambda>(paddr, a'). bind (page_table_map t v paddr (area_flags a')) (\<lambda>t'. ret (t', a'))))
      (\<lambda>(t', a'). map_pages t' a' ps)"
  using assms by (simp add: bind_assoc split_def)

lemma map_pages_ok:
  assumes "pt_rep s t r ts" and "area_wf s a" and "set ps \<subseteq> set (area_pages a)" and "distinct ps"
    and "set ts \<inter> set (area_owned a) = {}" and "\<And>p. p \<in> set ps \<Longrightarrow> leaf s r (VirtAddr p) = 0" and "4 * length ps \<le> free_count s"
  shows "runs (map_pages t a ps) s (\<lambda>(t', a') s'. \<exists>ts'. pt_rep s' t' r ts' \<and> area_mapped s r ts a ps s' ts' a')"
  using assms
proof (induction ps arbitrary: s t ts a)
  case Nil
  then show ?case using area_mapped_refl by auto
next
  case (Cons p ps)
  have p: "p \<in> set (area_pages a)" and f: "4 \<le> free_count s" and l: "leaf s r (VirtAddr p) = 0" using Cons.prems by simp_all
  have sp: "span_ok (va_as_usize (start a)) (area_size a)" using Cons.prems(2) by (simp add: area_wf_def)
  have dv: "vpn (VirtAddr p) \<notin> vpn ` VirtAddr ` set ps"
  proof
    assume "vpn (VirtAddr p) \<in> vpn ` VirtAddr ` set ps"
    then obtain q where q: "q \<in> set ps" "vpn (VirtAddr p) = vpn (VirtAddr q)" by auto
    have "p = q" by (rule span_vpn [OF sp _ _ q(2)]) (use p q Cons.prems(3) in \<open>auto simp: area_pages_def\<close>)
    then show False using q Cons.prems(4) by simp
  qed
  show ?case unfolding map_pages_Cons [OF area_page(2) [OF Cons.prems(2) p]] runs_bind [of "bind _ _"]
  proof (rule runs_mono [OF map_page_ok [OF Cons.prems(1,2) p Cons.prems(5) l f]], clarify)
    fix t1 a1 s1 ts1 assume r1: "pt_rep s1 t1 r ts1" and m1: "area_mapped s r ts a [p] s1 ts1 a1"
    note M = area_mappedD [OF m1]
    have pg: "area_pages a1 = area_pages a" using M(2) by (simp add: same_area_def area_pages_def)
    have l1: "leaf s1 r (VirtAddr q) = 0" if "q \<in> set ps" for q
    proof -
      have "vpn (VirtAddr q) \<noteq> vpn (VirtAddr p)" using that dv by (metis image_eqI)
      then show ?thesis using M(18) [of "VirtAddr q"] Cons.prems(6) [of q] that by simp
    qed
    have "runs (map_pages t1 a1 ps) s1 (\<lambda>(t', a') s'. \<exists>ts'. pt_rep s' t' r ts' \<and> area_mapped s1 r ts1 a1 ps s' ts' a')"
      by (rule Cons.IH [OF r1 M(1) _ _ M(8) l1]) (use Cons.prems(3,4,7) M(11) pg in auto)
    then show "runs (map_pages t1 a1 ps) s1 (\<lambda>(t', a') s'. \<exists>ts'. pt_rep s' t' r ts' \<and> area_mapped s r ts a (p # ps) s' ts' a')"
      by (rule runs_mono) (use area_mapped_trans [OF m1 _ pt_repD(1) [OF r1] dv] in blast)
  qed
qed

section \<open>Unmapping\<close>

definition area_released :: "pmem \<Rightarrow> MapArea \<Rightarrow> u64 list \<Rightarrow> pmem \<Rightarrow> MapArea \<Rightarrow> bool" where
  "area_released s a ps s' a' \<longleftrightarrow> pmem_ok s' \<and> area_wf s' a' \<and> same_area a a' \<and> framed a' = framed a \<and> all_frames s' = all_frames s \<and>
     live_frames s' = live_frames s - (set (area_owned a) - set (area_owned a')) \<and> set (area_owned a') \<subseteq> set (area_owned a) \<and>
     (\<forall>v. v \<notin> VirtAddr ` set ps \<longrightarrow> area_pa a' v = area_pa a v) \<and> (framed a \<longrightarrow> (\<forall>p\<in>set ps. area_pa a' (VirtAddr p) = None))"

lemma area_unmap_ok:
  assumes ok: "pmem_ok s" and wf: "area_wf s a"
  shows "runs (area_unmap a (VirtAddr p)) s (\<lambda>a' s'. area_released s a [p] s' a' \<and> frames s' = frames s)"
proof (cases "mapper a")
  case (Offset off)
  then show ?thesis using assms by (simp add: area_unmap_def area_released_def same_area_def framed_def)
next
  case (Framed fs)
  let ?v = "VirtAddr p" let ?a = "a\<lparr>mapper := Framed (btm_remove ?v fs)\<rparr>"
  have fo: "frames_ok s fs" and keys: "fst ` set fs \<subseteq> VirtAddr ` set (area_pages a)" using wf Framed by (simp_all add: area_wf_def)
  have b: "btm_ok fs" and d: "distinct (owned fs)" and lv: "set (owned fs) \<subseteq> live_frames s" using fo by (simp_all add: frames_ok_def)
  have g: "btm_get (btm_remove ?v fs) = (btm_get fs)(?v := None)" by (rule btm.get_rem [OF b])
  have sub: "set (btm_remove ?v fs) \<subseteq> set fs" by (auto simp: btm_remove_def)
  have pg: "area_pages ?a = area_pages a" by (simp add: area_pages_def)
  have rel: "area_released s a [p] s' ?a" if s': "pmem_ok s'" "all_frames s' = all_frames s"
    "live_frames s' = live_frames s - (set (owned fs) - set (owned (btm_remove ?v fs)))" for s'
  proof -
    have od: "distinct (owned (btm_remove ?v fs))" using d unfolding owned_def btm_remove_def by (rule distinct_map_filter)
    have os: "set (owned (btm_remove ?v fs)) \<subseteq> set (owned fs)" using sub by (auto simp: owned_def)
    have "frames_ok s' (btm_remove ?v fs)" unfolding frames_ok_def
      using od os lv s'(3) sub fo btm_remove_ok [OF b] by (auto simp: frames_ok_def)
    then have "area_wf s' ?a" using wf keys sub by (auto simp: area_wf_def pg Framed)
    then show ?thesis using s' os by (auto simp: area_released_def same_area_def framed_def Framed area_owned_def area_pa_def g)
  qed
  show ?thesis
  proof (cases "btm_get fs ?v")
    case None
    have "btm_remove ?v fs = fs" using None by (force simp: btm_remove_def btm_get_def map_of_eq_None_iff intro!: filter_True)
    then show ?thesis using rel [of s] ok by (simp add: area_unmap_def Framed None)
  next
    case (Some f)
    note F = frames_ok_get [OF ok fo Some]
    have ms: "mset (owned fs) = add_mset (frame_no f) (mset (owned (btm_remove ?v fs)))"
      using arg_cong [OF btm_remove_split [OF b Some], of "image_mset (\<lambda>e. frame_no (snd e))"] by (simp add: owned_def)
    have "set (owned fs) - set (owned (btm_remove ?v fs)) = {frame_no f}"
    proof -
      have st: "set (owned fs) = insert (frame_no f) (set (owned (btm_remove ?v fs)))"
        using arg_cong [OF ms, of set_mset] by simp
      have "frame_no f \<notin> set (owned (btm_remove ?v fs))"
      proof
        assume "frame_no f \<in> set (owned (btm_remove ?v fs))"
        then have "2 \<le> count (mset (owned fs)) (frame_no f)" unfolding ms by (simp add: Suc_le_eq flip: count_greater_zero_iff set_mset_mset)
        then show False using d by (simp add: distinct_count_atmost_1 split: if_splits)
      qed
      then show ?thesis using st by blast
    qed
    then have "area_released s a [p] s' ?a" if "frame_returned s {frame_no f} s'" for s'
      using that by (intro rel) (auto simp: frame_returned_def)
    then show ?thesis unfolding area_unmap_def Framed Mapper.case Some option.case runs_bind
      by (subst F(1)) (rule runs_mono [OF drop_ok [OF ok F(4)]], simp add: frame_returned_def)
  qed
qed

definition area_unmapped :: "pmem \<Rightarrow> nat \<Rightarrow> nat list \<Rightarrow> MapArea \<Rightarrow> u64 list \<Rightarrow> pmem \<Rightarrow> MapArea \<Rightarrow> bool" where
  "area_unmapped s r ts a ps s' a' \<longleftrightarrow> area_released s a ps s' a' \<and>
     (\<forall>m\<in>all_frames s - set ts. frames s' (frame_pa m) = frames s (frame_pa m)) \<and>
     (\<forall>p\<in>set ps. leaf s' r (VirtAddr p) = 0) \<and> (\<forall>v. vpn v \<notin> vpn ` VirtAddr ` set ps \<longrightarrow> leaf s' r v = leaf s r v)"

lemma area_releasedD:
  assumes "area_released s a ps s' a'"
  shows "pmem_ok s'" and "area_wf s' a'" and "same_area a a'" and "framed a' = framed a" and "all_frames s' = all_frames s"
    and "live_frames s' = live_frames s - (set (area_owned a) - set (area_owned a'))" and "set (area_owned a') \<subseteq> set (area_owned a)"
    and "v \<notin> VirtAddr ` set ps \<Longrightarrow> area_pa a' v = area_pa a v" and "framed a \<Longrightarrow> p \<in> set ps \<Longrightarrow> area_pa a' (VirtAddr p) = None"
  using assms by (simp_all only: area_released_def simp_thms not_False_eq_True)

lemma area_released_trans:
  assumes 1: "area_released s a [p] s1 a1" and 2: "area_released s1 a1 ps s2 a2" and wf: "area_wf s a"
  shows "area_released s a (p # ps) s2 a2"
proof -
  note m1 = area_releasedD [OF 1] and m2 = area_releasedD [OF 2]
  have own: "set (area_owned a) \<subseteq> live_frames s" by (rule area_owned_live [OF wf])
  have "live_frames s2 = live_frames s - (set (area_owned a) - set (area_owned a2))" "set (area_owned a2) \<subseteq> set (area_owned a)"
    using m1(6,7) m2(6,7) own by auto
  moreover have "same_area a a2" using m1(3) m2(3) by (simp add: same_area_def)
  moreover have "area_pa a2 v = area_pa a v" if "v \<notin> VirtAddr ` set (p # ps)" for v using that m1(8) [of v] m2(8) [of v] by simp
  moreover have "area_pa a2 (VirtAddr q) = None" if q: "framed a" "q \<in> set (p # ps)" for q
  proof (cases "q \<in> set ps")
    case True
    then show ?thesis using m2(9) q(1) m1(4) by simp
  next
    case False
    then show ?thesis using m2(8) [of "VirtAddr q"] m1(9) [of q] q by auto
  qed
  ultimately show ?thesis unfolding area_released_def using m1(4,5) m2(1,2,4,5) by simp
qed

lemma unmap_page_ok:
  assumes rep: "pt_rep s t r ts" and wf: "area_wf s a" and dj: "set ts \<inter> set (area_owned a) = {}" and lf: "leaf s r (VirtAddr p) \<noteq> 0"
  shows "runs (bind (area_unmap a (VirtAddr p)) (\<lambda>a'. bind (page_table_unmap t (VirtAddr p)) (\<lambda>_. ret a'))) s
    (\<lambda>a' s'. pt_rep s' t r ts \<and> area_unmapped s r ts a [p] s' a')"
  unfolding runs_bind
proof (rule runs_mono [OF area_unmap_ok [OF pt_repD(1) [OF rep] wf]], elim conjE)
  fix a1 s1 assume rl: "area_released s a [p] s1 a1" and fr: "frames s1 = frames s"
  note A = area_releasedD [OF rl] and R = pt_repD [OF rep]
  have "set ts \<subseteq> live_frames s1" using R(3) dj A(6) by auto
  note F = pt_rep_frame [OF rep A(1) this]
  have rep1: "pt_rep s1 t r ts" and lf1: "leaf s1 r v = leaf s r v" for v using F fr by simp_all
  show "runs (page_table_unmap t (VirtAddr p)) s1 (\<lambda>_ s'. runs (ret a1) s' (\<lambda>a' s'. pt_rep s' t r ts \<and> area_unmapped s r ts a [p] s' a'))"
  proof (rule runs_mono [OF page_table_unmap_ok [OF rep1, of "VirtAddr p"]])
    show "leaf s1 r (VirtAddr p) \<noteq> 0" using lf lf1 by simp
  next
    fix u s2 assume ps: "page_set s1 r ts (VirtAddr p) 0 [] s2 t"
    have s2: "all_frames s2 = all_frames s1" "live_frames s2 = live_frames s1" "pt_rep s2 t r ts" using ps by (simp_all add: page_set_def)
    have "area_wf s2 a1" by (rule area_wf_frame [OF A(2)]) (simp add: s2)
    then have "area_released s a [p] s2 a1" using rl s2 pt_repD(1) [OF s2(3)] by (simp add: area_released_def)
    then show "runs (ret a1) s2 (\<lambda>a' s'. pt_rep s' t r ts \<and> area_unmapped s r ts a [p] s' a')"
      using ps s2 A(5) fr lf1 by (simp add: area_unmapped_def page_set_def)
  qed
qed

lemma unmap_pages_Cons:
  assumes "va_new p = Ok v"
  shows "unmap_pages t a (p # ps) = bind (bind (area_unmap a v) (\<lambda>a'. bind (page_table_unmap t v) (\<lambda>_. ret a'))) (\<lambda>a'. unmap_pages t a' ps)"
  using assms by (simp add: bind_assoc)

lemma unmap_pages_ok:
  assumes "pt_rep s t r ts" and "area_wf s a" and "set ps \<subseteq> set (area_pages a)" and "distinct ps"
    and "set ts \<inter> set (area_owned a) = {}" and "\<And>p. p \<in> set ps \<Longrightarrow> leaf s r (VirtAddr p) \<noteq> 0"
  shows "runs (unmap_pages t a ps) s (\<lambda>a' s'. pt_rep s' t r ts \<and> area_unmapped s r ts a ps s' a')"
  using assms
proof (induction ps arbitrary: s a)
  case Nil
  then show ?case using pt_repD(1) area_owned_live [of s a]
    by (auto simp: area_unmapped_def area_released_def same_area_def)
next
  case (Cons p ps)
  have p: "p \<in> set (area_pages a)" and l: "leaf s r (VirtAddr p) \<noteq> 0" using Cons.prems by simp_all
  have sp: "span_ok (va_as_usize (start a)) (area_size a)" using Cons.prems(2) by (simp add: area_wf_def)
  have dv: "vpn (VirtAddr q) \<noteq> vpn (VirtAddr p)" if "q \<in> set ps" for q
    using span_vpn [OF sp, of q p] that p Cons.prems(3,4) by (auto simp: area_pages_def)
  show ?case unfolding unmap_pages_Cons [OF area_page(2) [OF Cons.prems(2) p]] runs_bind [of "bind _ _"]
  proof (rule runs_mono [OF unmap_page_ok [OF Cons.prems(1,2,5) l]], elim conjE)
    fix a1 s1 assume r1: "pt_rep s1 t r ts" and u1: "area_unmapped s r ts a [p] s1 a1"
    note U = u1 [unfolded area_unmapped_def]
    have rl: "area_released s a [p] s1 a1" using U by blast
    note A = area_releasedD [OF rl]
    have pg: "area_pages a1 = area_pages a" using A(3) by (simp add: same_area_def area_pages_def)
    have l1: "leaf s1 r (VirtAddr q) \<noteq> 0" if "q \<in> set ps" for q
      using U dv [OF that] Cons.prems(6) [of q] that by simp
    have "runs (unmap_pages t a1 ps) s1 (\<lambda>a' s'. pt_rep s' t r ts \<and> area_unmapped s1 r ts a1 ps s' a')"
      by (rule Cons.IH [OF r1 A(2) _ _ _ l1]) (use Cons.prems(3,4,5) A(7) pg in auto)
    then show "runs (unmap_pages t a1 ps) s1 (\<lambda>a' s'. pt_rep s' t r ts \<and> area_unmapped s r ts a (p # ps) s' a')"
    proof (rule runs_mono, elim conjE)
      fix a2 s2 assume r2: "pt_rep s2 t r ts" and u2: "area_unmapped s1 r ts a1 ps s2 a2"
      note U2 = u2 [unfolded area_unmapped_def]
      have "leaf s2 r (VirtAddr p) = leaf s1 r (VirtAddr p)" using U2 dv by (metis (no_types, lifting) imageE)
      then have "leaf s2 r (VirtAddr q) = 0" if "q \<in> set (p # ps)" for q using that U U2 by auto
      moreover have "leaf s2 r v = leaf s r v" if "vpn v \<notin> vpn ` VirtAddr ` set (p # ps)" for v using that U U2 by simp
      moreover have "frames s2 (frame_pa m) = frames s (frame_pa m)" if "m \<in> all_frames s - set ts" for m
        using that U U2 A(5) by simp
      moreover have "area_released s a (p # ps) s2 a2" by (rule area_released_trans [OF rl _ Cons.prems(2)]) (use U2 in blast)
      ultimately show "pt_rep s2 t r ts \<and> area_unmapped s r ts a (p # ps) s2 a2" using r2 by (simp add: area_unmapped_def)
    qed
  qed
qed

end
