(* ===== verification/MemorySetSpec.thy ===== *)
theory MemorySetSpec
  imports AreaSpec
begin

text \<open>
  Address spaces as a whole: the invariant of a \<open>MemorySet\<close> (the page table maps exactly the pages of
  its areas, each to the frame the area has for it, and no frame is owned twice), what its operations
  do to the memory a program sees, and which frames they take and give back.
\<close>

section \<open>The invariant\<close>

definition area_vpns :: "MapArea \<Rightarrow> u64 set" where
  "area_vpns a = vpn ` VirtAddr ` set (area_pages a)"

definition area_in :: "pmem \<Rightarrow> nat \<Rightarrow> nat list \<Rightarrow> MapArea \<Rightarrow> bool" where
  "area_in s r ts a \<longleftrightarrow> area_wf s a \<and> set (area_owned a) \<inter> set ts = {} \<and>
     (\<forall>p\<in>set (area_pages a). area_pa a (VirtAddr p) \<noteq> None \<and> leaf s r (VirtAddr p) = area_entry a (VirtAddr p))"

definition areas_apart :: "MapArea set \<Rightarrow> bool" where
  "areas_apart A \<longleftrightarrow> (\<forall>a\<in>A. \<forall>b\<in>A. a \<noteq> b \<longrightarrow> set (area_owned a) \<inter> set (area_owned b) = {} \<and> area_vpns a \<inter> area_vpns b = {})"

abbreviation ms_areas :: "MemorySet \<Rightarrow> MapArea set" where
  "ms_areas ms \<equiv> snd ` set (areas ms)"

definition ms_owned :: "MemorySet \<Rightarrow> nat set" where
  "ms_owned ms = (\<Union>a\<in>ms_areas ms. set (area_owned a))"

definition ms_rep :: "pmem \<Rightarrow> MemorySet \<Rightarrow> nat \<Rightarrow> nat list \<Rightarrow> bool" where
  "ms_rep s ms r ts \<longleftrightarrow> pt_rep s (pt ms) r ts \<and> btm_ok (areas ms) \<and> (\<forall>(k, a)\<in>set (areas ms). k = start a) \<and>
     (\<forall>a\<in>ms_areas ms. area_in s r ts a) \<and> areas_apart (ms_areas ms) \<and>
     (\<forall>v. leaf s r v \<noteq> 0 \<longrightarrow> (\<exists>a\<in>ms_areas ms. vpn v \<in> area_vpns a))"

lemma ms_repD:
  assumes "ms_rep s ms r ts"
  shows "pt_rep s (pt ms) r ts" and "btm_ok (areas ms)" and "(k, a) \<in> set (areas ms) \<Longrightarrow> k = start a"
    and "a \<in> ms_areas ms \<Longrightarrow> area_in s r ts a" and "areas_apart (ms_areas ms)"
    and "leaf s r v \<noteq> 0 \<Longrightarrow> \<exists>a\<in>ms_areas ms. vpn v \<in> area_vpns a"
  using assms unfolding ms_rep_def by blast+

lemma area_entry_nonzero:
  assumes "pmem_ok s" and "area_wf s a" and "p \<in> set (area_pages a)" and "area_pa a (VirtAddr p) \<noteq> None"
  shows "area_entry a (VirtAddr p) \<noteq> 0"
proof -
  obtain x where x: "area_pa a (VirtAddr p) = Some (PhysAddr x)" using assms(4) by (metis PhysAddr.exhaust not_None_eq)
  have "page_frame x" using area_pa_frame [OF assms(1,2) area_page(1) [OF assms(2,3)] x] by simp
  from new_page_paddr(2) [OF this] show ?thesis by (simp add: area_entry_def x)
qed

lemma area_in_leaf:
  assumes "area_in s r ts a" and "pmem_ok s" and "vpn v \<in> area_vpns a"
  shows "leaf s r v \<noteq> 0"
proof -
  obtain p where p: "p \<in> set (area_pages a)" "vpn v = vpn (VirtAddr p)" using assms(3) by (auto simp: area_vpns_def)
  have "leaf s r v = leaf s r (VirtAddr p)" by (rule leaf_vpn [OF p(2)])
  then show ?thesis using area_entry_nonzero [OF assms(2) _ p(1)] assms(1) p(1) by (simp add: area_in_def)
qed

section \<open>Inserting an area\<close>

lemma aligned_not_full: "is_aligned n PAGE_SIZE \<Longrightarrow> NOT n > 0"
proof (rule ccontr)
  assume n: "is_aligned n PAGE_SIZE" and "\<not> NOT n > 0"
  then have "NOT n = 0" by (simp add: word_gt_0)
  then have "n = NOT 0" by (metis bit.double_compl)
  then have "n = - 1" by simp
  then show False using n by (simp add: is_aligned_def page_offset_def)
qed

definition inserted :: "pmem \<Rightarrow> MemorySet \<Rightarrow> nat \<Rightarrow> nat list \<Rightarrow> MapArea \<Rightarrow> pmem \<Rightarrow> MemorySet \<Rightarrow> bool" where
  "inserted s ms r ts a s' ms' \<longleftrightarrow> (\<exists>ts' a'. ms_rep s' ms' r ts' \<and> area_mapped s r ts a (area_pages a) s' ts' a' \<and>
     areas ms' = btm_insert (start a) a' (areas ms) \<and> ms_areas ms' = insert a' (ms_areas ms))"

lemma mapped_other_area:
  assumes b: "area_in s r ts b" and ok: "pmem_ok s" and m: "area_mapped s r ts a (area_pages a) s' ts' a'"
    and z: "\<And>p. p \<in> set (area_pages a) \<Longrightarrow> leaf s r (VirtAddr p) = 0"
  shows "area_in s' r ts' b" and "area_vpns a \<inter> area_vpns b = {}"
proof -
  note M = area_mappedD [OF m]
  show dv: "area_vpns a \<inter> area_vpns b = {}"
  proof (rule ccontr)
    assume "area_vpns a \<inter> area_vpns b \<noteq> {}"
    then obtain p where p: "p \<in> set (area_pages a)" "vpn (VirtAddr p) \<in> area_vpns b" by (auto simp: area_vpns_def)
    show False using area_in_leaf [OF b ok p(2)] z [OF p(1)] by simp
  qed
  have lf: "leaf s' r (VirtAddr p) = leaf s r (VirtAddr p)" if "p \<in> set (area_pages b)" for p
    using that dv by (intro M(18)) (auto simp: area_vpns_def)
  have wb: "area_wf s b" using b by (simp add: area_in_def)
  have "area_wf s' b" by (rule area_wf_frame [OF wb]) (use M(5) in auto)
  moreover have "set (area_owned b) \<inter> set ts' = {}" using b area_owned_live [OF wb] M(9) by (auto simp: area_in_def)
  ultimately show "area_in s' r ts' b" using b lf by (simp add: area_in_def)
qed

lemma memory_set_insert_ok:
  assumes rep: "ms_rep s ms r ts" and wf: "area_wf s a" and dj: "set (area_owned a) \<inter> (set ts \<union> ms_owned ms) = {}"
    and key: "btm_get (areas ms) (start a) = None" and z: "\<And>p. p \<in> set (area_pages a) \<Longrightarrow> leaf s r (VirtAddr p) = 0"
    and free: "4 * length (area_pages a) \<le> free_count s"
  shows "runs (memory_set_insert ms a) s (\<lambda>ms' s'. inserted s ms r ts a s' ms')"
proof -
  note R = ms_repD [OF rep]
  have ok: "pmem_ok s" by (rule pt_repD(1) [OF R(1)])
  have sp: "span_ok (va_as_usize (start a)) (area_size a)" using wf by (simp add: area_wf_def)
  have big: "NOT (area_size a) > 0" using sp aligned_not_full by (simp add: span_ok_def)
  have ds: "distinct (area_pages a)" using span_distinct [OF sp] by (simp add: area_pages_def)
  have kn: "start a \<notin> fst ` set (areas ms)" using key by (simp add: btm_get_def map_of_eq_None_iff)
  have dt: "set ts \<inter> set (area_owned a) = {}" using dj by blast
  have eq: "memory_set_insert ms a = bind (map_pages (pt ms) a (area_pages a)) (\<lambda>(t, area').
      ret (ms\<lparr>pt := t, areas := btm_insert (start a) area' (areas ms)\<rparr>))"
    using big key by (simp add: memory_set_insert_def map_area_def)
  show ?thesis unfolding eq runs_bind
  proof (rule runs_mono [OF map_pages_ok [OF R(1) wf subset_refl ds dt z free]], assumption, clarify, unfold runs_ret)
    fix t' a' s' ts' assume rp: "pt_rep s' t' r ts'" and m: "area_mapped s r ts a (area_pages a) s' ts' a'"
    note M = area_mappedD [OF m]
    let ?ms = "ms\<lparr>pt := t', areas := btm_insert (start a) a' (areas ms)\<rparr>"
    have st: "set (areas ?ms) = insert (start a, a') (set (areas ms))" using set_btm_insert_new [OF R(2) kn] by simp
    then have A: "ms_areas ?ms = insert a' (ms_areas ms)" by simp
    have sm: "start a' = start a" "area_pages a' = area_pages a" using M(2) by (simp_all add: same_area_def area_pages_def)
    have va: "area_vpns a' = area_vpns a" by (simp add: area_vpns_def sm)
    have in': "area_in s' r ts' a'" using M(1,8,13,17) sm by (auto simp: area_in_def)
    have other: "area_in s' r ts' b" "area_vpns a \<inter> area_vpns b = {}" if "b \<in> ms_areas ms" for b
      using mapped_other_area [OF R(4) [OF that] ok m z] by simp_all
    have od: "set (area_owned a') \<inter> set (area_owned b) = {}" if "b \<in> ms_areas ms" for b
    proof -
      have "set (area_owned b) \<subseteq> live_frames s" "set (area_owned a) \<inter> set (area_owned b) = {}"
        using R(4) [OF that] area_owned_live dj that by (auto simp: area_in_def ms_owned_def)
      then show ?thesis using M(10) by blast
    qed
    have "areas_apart (ms_areas ?ms)" unfolding A
      using R(5) od other(2) va by (fastforce simp: areas_apart_def)
    moreover have "\<exists>b\<in>ms_areas ?ms. vpn v \<in> area_vpns b" if "leaf s' r v \<noteq> 0" for v
    proof (cases "vpn v \<in> area_vpns a")
      case False
      then have "leaf s r v \<noteq> 0" using that M(18) [of v] by (simp add: area_vpns_def)
      then show ?thesis using R(6) A by blast
    qed (use A va in blast)
    moreover have "\<forall>(k, b)\<in>set (areas ?ms). k = start b" using R(3) st sm by auto
    ultimately have "ms_rep s' ?ms r ts'"
      unfolding ms_rep_def A using rp btm_insert_ok [OF R(2)] in' other(1) by auto
    then show "inserted s ms r ts a s' ?ms" unfolding inserted_def using m A by auto
  qed
qed

section \<open>Clearing and dropping\<close>

definition space_released :: "pmem \<Rightarrow> nat \<Rightarrow> nat list \<Rightarrow> MapArea set \<Rightarrow> pmem \<Rightarrow> bool" where
  "space_released s r ts A s' \<longleftrightarrow> all_frames s' = all_frames s \<and> live_frames s' = live_frames s - (\<Union>a\<in>A. set (area_owned a)) \<and>
     (\<forall>m\<in>all_frames s - set ts. frames s' (frame_pa m) = frames s (frame_pa m)) \<and>
     (\<forall>v. leaf s' r v = (if \<exists>a\<in>A. vpn v \<in> area_vpns a then 0 else leaf s r v))"

lemma unmap_area_ok:
  assumes rep: "pt_rep s t r ts" and a: "area_in s r ts a"
  shows "runs (unmap_area t a) s (\<lambda>a' s'. pt_rep s' t r ts \<and> area_owned a' = [] \<and> space_released s r ts {a} s')"
proof -
  have wf: "area_wf s a" and dj: "set ts \<inter> set (area_owned a) = {}" using a by (auto simp: area_in_def)
  have sp: "span_ok (va_as_usize (start a)) (area_size a)" using wf by (simp add: area_wf_def)
  have ds: "distinct (area_pages a)" using span_distinct [OF sp] by (simp add: area_pages_def)
  have nz: "leaf s r (VirtAddr p) \<noteq> 0" if "p \<in> set (area_pages a)" for p
    using area_in_leaf [OF a pt_repD(1) [OF rep], of "VirtAddr p"] that by (auto simp: area_vpns_def)
  show ?thesis unfolding unmap_area_def
  proof (rule runs_mono [OF unmap_pages_ok [OF rep wf subset_refl ds dj nz]], assumption, elim conjE)
    fix a' s' assume rp: "pt_rep s' t r ts" and u: "area_unmapped s r ts a (area_pages a) s' a'"
    note U = u [unfolded area_unmapped_def]
    have rl: "area_released s a (area_pages a) s' a'" using U by blast
    note A = area_releasedD [OF rl]
    have pg: "area_pages a' = area_pages a" using A(3) by (simp add: same_area_def area_pages_def)
    have o: "area_owned a' = []"
    proof (cases "mapper a'")
      case (Framed fs)
      have fr: "framed a" using A(4) by (simp add: framed_def Framed)
      have "fs = []"
      proof (rule ccontr)
        assume "fs \<noteq> []"
        then obtain v f where v: "(v, f) \<in> set fs" by (cases fs) auto
        have keys: "fst ` set fs \<subseteq> VirtAddr ` set (area_pages a)" using A(2) by (simp add: area_wf_def Framed pg)
        then obtain p where p: "p \<in> set (area_pages a)" "v = VirtAddr p" using v by force
        have "btm_get fs v \<noteq> None" using weak_map_of_SomeI [OF v] by (auto simp: btm_get_def)
        then show False using A(9) [OF fr p(1)] p(2) by (simp add: area_pa_def Framed)
      qed
      then show ?thesis by (simp add: area_owned_def Framed owned_def)
    qed (simp add: area_owned_def)
    have "leaf s' r v = 0" if v: "vpn v \<in> area_vpns a" for v
    proof -
      from v obtain p where p: "p \<in> set (area_pages a)" "vpn v = vpn (VirtAddr p)" by (auto simp: area_vpns_def)
      show ?thesis using leaf_vpn [OF p(2), of s' r] U p(1) by simp
    qed
    then have "space_released s r ts {a} s'" using U A(5,6) o by (simp add: space_released_def area_vpns_def)
    then show "pt_rep s' t r ts \<and> area_owned a' = [] \<and> space_released s r ts {a} s'" using rp o by blast
  qed
qed

lemma area_drop_empty: "area_owned a = [] \<Longrightarrow> area_drop a = ret ()"
  by (cases "mapper a") (simp_all add: area_drop_def area_owned_def owned_def)

lemma area_in_released:
  assumes b: "area_in s r ts b" and r: "space_released s r ts {a} s'"
    and ap: "set (area_owned a) \<inter> set (area_owned b) = {}" "area_vpns a \<inter> area_vpns b = {}"
  shows "area_in s' r ts b"
proof -
  have "area_wf s' b" using b r ap(1) by (auto simp: area_in_def area_wf_def frames_ok_def space_released_def area_owned_def split: Mapper.splits)
  moreover have "leaf s' r (VirtAddr p) = leaf s r (VirtAddr p)" if "p \<in> set (area_pages b)" for p
  proof -
    have "vpn (VirtAddr p) \<in> area_vpns b" using that by (simp add: area_vpns_def)
    then show ?thesis using r ap(2) by (auto simp: space_released_def)
  qed
  ultimately show ?thesis using b by (simp add: area_in_def)
qed

lemma unmap_areas_ok:
  assumes "pt_rep s t r ts" and "distinct (map snd m)" and "\<And>a. a \<in> snd ` set m \<Longrightarrow> area_in s r ts a" and "areas_apart (snd ` set m)"
  shows "runs (unmap_areas t m) s (\<lambda>m' s'. pt_rep s' t r ts \<and> (\<forall>a\<in>snd ` set m'. area_owned a = []) \<and> space_released s r ts (snd ` set m) s')"
  using assms
proof (induction m arbitrary: s)
  case Nil
  then show ?case by (simp add: space_released_def)
next
  case (Cons e m)
  obtain k a where e: "e = (k, a)" by (cases e)
  have a: "area_in s r ts a" using Cons.prems(3) e by simp
  show ?case unfolding e unmap_areas.simps runs_bind
  proof (rule runs_mono [OF unmap_area_ok [OF Cons.prems(1) a]], elim conjE)
    fix a' s1 assume r1: "pt_rep s1 t r ts" and o: "area_owned a' = []" and rl: "space_released s r ts {a} s1"
    have b1: "area_in s1 r ts b" if b: "b \<in> snd ` set m" for b
    proof -
      have "a \<noteq> b" using b Cons.prems(2) e by auto
      moreover have "a \<in> snd ` set (e # m)" "b \<in> snd ` set (e # m)" using b e by auto
      ultimately show ?thesis using Cons.prems(4) Cons.prems(3) [of b] rl area_in_released unfolding areas_apart_def by blast
    qed
    have "areas_apart (snd ` set m)" "distinct (map snd m)" using Cons.prems(2,4) by (auto simp: areas_apart_def)
    then have "runs (unmap_areas t m) s1 (\<lambda>m' s'. pt_rep s' t r ts \<and> (\<forall>a\<in>snd ` set m'. area_owned a = []) \<and> space_released s1 r ts (snd ` set m) s')"
      using Cons.IH [OF r1 _ b1] by blast
    then show "runs (unmap_areas t m) s1 (\<lambda>m' s'. runs (ret ((k, a') # m')) s' (\<lambda>m' s'. pt_rep s' t r ts \<and> (\<forall>a\<in>snd ` set m'. area_owned a = []) \<and>
        space_released s r ts (snd ` set ((k, a) # m)) s'))"
    proof (rule runs_mono, elim conjE)
      fix m' :: "(VirtAddr \<times> MapArea) list" and s2 assume r2: "pt_rep s2 t r ts" and o2: "\<forall>a\<in>snd ` set m'. area_owned a = []" and rl2: "space_released s1 r ts (snd ` set m) s2"
      have "space_released s r ts (snd ` set ((k, a) # m)) s2" using rl rl2 by (auto simp: space_released_def)
      then show "runs (ret ((k, a') # m')) s2 (\<lambda>m' s'. pt_rep s' t r ts \<and> (\<forall>a\<in>snd ` set m'. area_owned a = []) \<and>
          space_released s r ts (snd ` set ((k, a) # m)) s')" using r2 o2 o by simp
    qed
  qed
qed

lemma memory_set_clear_ok:
  assumes rep: "ms_rep s ms r ts"
  shows "runs (memory_set_clear ms) s (\<lambda>ms' s'. ms' = ms\<lparr>areas := []\<rparr> \<and> pt_rep s' (pt ms) r ts \<and> space_released s r ts (ms_areas ms) s')"
proof -
  note R = ms_repD [OF rep]
  have ds: "distinct (map snd (areas ms))"
  proof -
    have "map fst (areas ms) = map (start \<circ> snd) (areas ms)" using R(3) by auto
    then have "distinct (map start (map snd (areas ms)))" using btm_ok_distinct [OF R(2)] by (simp only: map_map)
    then show ?thesis by (rule distinct_map [THEN iffD1, THEN conjunct1])
  qed
  have drop: "for_each as area_drop = ret ()" if "\<forall>a\<in>set as. area_owned a = []" for as
    using that by (induction as) (simp_all add: area_drop_empty)
  show ?thesis unfolding memory_set_clear_def runs_bind
    by (rule runs_mono [OF unmap_areas_ok [OF R(1) ds R(4,5)]], assumption) (simp add: drop)
qed

lemma memory_set_drop_ok:
  assumes rep: "ms_rep s ms r ts"
  shows "runs (memory_set_drop ms) s (\<lambda>_ s'. pmem_ok s' \<and> all_frames s' = all_frames s \<and>
    live_frames s' = live_frames s - (set ts \<union> ms_owned ms) \<and>
    (\<forall>m\<in>all_frames s - set ts. frames s' (frame_pa m) = frames s (frame_pa m)))"
  unfolding memory_set_drop_def runs_bind
proof (rule runs_mono [OF memory_set_clear_ok [OF rep]], elim conjE)
  fix ms' s1 assume ms': "ms' = ms\<lparr>areas := []\<rparr>" and r1: "pt_rep s1 (pt ms) r ts" and rl: "space_released s r ts (ms_areas ms) s1"
  note P = pt_repD [OF r1]
  have "runs (page_table_drop (pt ms)) s1 (\<lambda>_. frame_returned s1 (set ts))"
    unfolding page_table_drop_def P(10) by (rule drop_all_ok [OF P(1-3)])
  then show "runs (page_table_drop (pt ms')) s1 (\<lambda>_ s'. runs (for_each (map snd (areas ms')) area_drop) s'
    (\<lambda>_ s'. pmem_ok s' \<and> all_frames s' = all_frames s \<and> live_frames s' = live_frames s - (set ts \<union> ms_owned ms) \<and>
       (\<forall>m\<in>all_frames s - set ts. frames s' (frame_pa m) = frames s (frame_pa m))))"
    unfolding ms' by (simp, elim runs_mono) (use rl in \<open>auto simp: frame_returned_def space_released_def ms_owned_def\<close>)
qed

end
