(* ===== verification/SpaceClone.thy ===== *)
theory SpaceClone
  imports MemorySetSpec
begin

text \<open>
  Cloning: every page of every area is copied into a fresh frame, so that the clone shows the same
  memory and shares no frame with the original.
\<close>

section \<open>Cloning the frames of an area\<close>

definition frames_cloned :: "pmem \<Rightarrow> (VirtAddr, PhysFrame) btree_map \<Rightarrow> (VirtAddr, PhysFrame) btree_map \<Rightarrow> pmem \<Rightarrow>
    (VirtAddr, PhysFrame) btree_map \<Rightarrow> bool" where
  "frames_cloned s acc fs s' acc' \<longleftrightarrow> pmem_ok s' \<and> all_frames s' = all_frames s \<and> frames_ok s' acc' \<and>
     set (owned acc) \<subseteq> set (owned acc') \<and> live_frames s' = live_frames s \<union> set (owned acc') \<and>
     (set (owned acc') - set (owned acc)) \<inter> live_frames s = {} \<and> free_count s = free_count s' + length fs \<and>
     fst ` set acc' = fst ` set acc \<union> fst ` set fs \<and> (\<forall>v. v \<notin> fst ` set fs \<longrightarrow> btm_get acc' v = btm_get acc v) \<and>
     (\<forall>(v, f)\<in>set fs. \<exists>f'. btm_get acc' v = Some f' \<and> frames s' (pa_as_usize (start_paddr f')) = frames s (pa_as_usize (start_paddr f))) \<and>
     (\<forall>m\<in>all_frames s - (set (owned acc') - set (owned acc)). frames s' (frame_pa m) = frames s (frame_pa m))"

text \<open>Copying one frame into a fresh one.\<close>

lemma copy_frame_ok:
  assumes ok: "pmem_ok s" and free: "1 \<le> free_count s" and k: "k \<in> live_frames s"
  shows "runs (bind phys_frame_alloc (\<lambda>r. bind (lift (unwrap r)) (\<lambda>new_frame.
     bind (phys_frame_as_slice (frame_at k)) (\<lambda>bs. bind (phys_frame_set_slice new_frame bs) (\<lambda>_. ret new_frame))))) s
   (\<lambda>f s'. \<exists>n. f = frame_at n \<and> frame_taken s n s' \<and> frames s' (frame_pa n) = frames s (frame_pa k))"
proof -
  have f0: "0 < free_count s" using free by simp
  note K = pmem_okD [OF ok k]
  show ?thesis unfolding runs_bind
  proof (rule runs_mono [OF alloc_ok [OF ok f0]], elim exE conjE)
    fix q s1 n assume q: "q = Some (frame_at n)" and t: "frame_taken s n s1"
    have n: "n < 2 ^ 28" "n \<noteq> k" "n \<in> all_frames s" using t ok k by (auto simp: frame_taken_def pmem_ok_def)
    have fk: "frames s1 (frame_pa k) = frames s (frame_pa k)" using t K(2) n(2) by (simp add: frame_taken_def)
    let ?s = "s1\<lparr>frames := (frames s1)(frame_pa n := frames s1 (frame_pa k))\<rparr>"
    have eq: "all_frames ?s = all_frames s1" "live_frames ?s = live_frames s1" "free_count ?s = free_count s1"
      by (simp_all add: all_frames_def live_frames_def free_count_def)
    have "pmem_ok ?s" using t fk K(3) eq(1) by (auto simp: frame_taken_def pmem_ok_def)
    moreover have "frames ?s (frame_pa m) = frames s (frame_pa m)" if m: "m \<in> all_frames s - {n}" for m
    proof -
      have "m < 2 ^ 28" using m ok by (auto simp: pmem_ok_def)
      then show ?thesis using m n t by (simp add: frame_taken_def)
    qed
    ultimately have "frame_taken s n ?s" using t eq by (simp add: frame_taken_def)
    then show "runs (lift (unwrap q)) s1 (\<lambda>new_frame s'. runs (phys_frame_as_slice (frame_at k)) s' (\<lambda>bs s'.
      runs (phys_frame_set_slice new_frame bs) s' (\<lambda>_ s'. runs (ret new_frame) s'
        (\<lambda>f s'. \<exists>n. f = frame_at n \<and> frame_taken s n s' \<and> frames s' (frame_pa n) = frames s (frame_pa k)))))"
      using fk by (auto simp: q unwrap_def runs_as_slice [OF K(1)] runs_set_slice [OF n(1)] runs_lift)
  qed
qed

lemma clone_frames_Cons:
  "clone_frames ((v, f) # fs) acc =
     bind (bind phys_frame_alloc (\<lambda>r. bind (lift (unwrap r)) (\<lambda>new_frame.
       bind (phys_frame_as_slice f) (\<lambda>bs. bind (phys_frame_set_slice new_frame bs) (\<lambda>_. ret new_frame)))))
     (\<lambda>f'. clone_frames fs (btm_insert v f' acc))"
  by (simp add: bind_assoc)

lemma frames_ok_mono: "frames_ok s fs \<Longrightarrow> live_frames s \<subseteq> live_frames s' \<Longrightarrow> frames_ok s' fs"
  by (auto simp: frames_ok_def)

lemma frames_ok_tl: "frames_ok s (e # fs) \<Longrightarrow> frames_ok s fs"
  by (auto simp: frames_ok_def btm_ok_def owned_def)

lemma clone_frames_ok:
  assumes "pmem_ok s" and "frames_ok s fs" and "frames_ok s acc" and "fst ` set acc \<inter> fst ` set fs = {}" and "length fs \<le> free_count s"
  shows "runs (clone_frames fs acc) s (\<lambda>acc' s'. frames_cloned s acc fs s' acc')"
  using assms
proof (induction fs arbitrary: s acc)
  case Nil
  then show ?case by (auto simp: frames_cloned_def frames_ok_def)
next
  case (Cons e fs)
  obtain v f where e: "e = (v, f)" by (cases e)
  define k where "k = frame_no f"
  have dist: "v \<notin> fst ` set fs" using Cons.prems(2) by (auto simp: e frames_ok_def btm_ok_def)
  have vn: "btm_get acc v = None" using Cons.prems(4) by (auto simp: e btm_get_def map_of_eq_None_iff)
  have b: "btm_ok acc" using Cons.prems(3) by (simp add: frames_ok_def)
  have k: "f = frame_at k" "k \<in> live_frames s" using Cons.prems(2) by (auto simp: e frames_ok_def owned_def k_def)
  have free: "1 \<le> free_count s" using Cons.prems(5) by simp
  show ?case unfolding e clone_frames_Cons runs_bind [of "bind _ _"]
  proof (subst k(1), rule runs_mono [OF copy_frame_ok [OF Cons.prems(1) free k(2)]], elim exE conjE)
    fix f' s1 n assume f': "f' = frame_at n" and t: "frame_taken s n s1" and cp: "frames s1 (frame_pa n) = frames s (frame_pa k)"
    have n: "n < 2 ^ 28" "n \<notin> live_frames s" "live_frames s1 = insert n (live_frames s)" "pmem_ok s1" "all_frames s1 = all_frames s"
      "n \<in> all_frames s" "free_count s = Suc (free_count s1)"
      using t Cons.prems(1) by (auto simp: frame_taken_def pmem_ok_def)
    have keep: "frames s1 (frame_pa m) = frames s (frame_pa m)" if "m \<in> all_frames s - {n}" for m using t that by (simp add: frame_taken_def)
    let ?acc = "btm_insert v f' acc"
    have o: "set (owned ?acc) = insert n (set (owned acc))" using owned_btm_insert [OF b vn, of f'] n(1) f' by simp
    have fo: "frames_ok s1 ?acc" unfolding f' by (rule frames_ok_insert [OF Cons.prems(3) vn n(1)]) (use n in auto)
    have fs1: "frames_ok s1 fs" using frames_ok_tl [OF Cons.prems(2)] by (rule frames_ok_mono) (use n in auto)
    have keys: "fst ` set ?acc = insert v (fst ` set acc)" by (rule fst_btm_insert)
    have g: "btm_get ?acc = (btm_get acc)(v \<mapsto> f')" by (rule btm.get_ins [OF b])
    have "runs (clone_frames fs ?acc) s1 (\<lambda>acc' s'. frames_cloned s1 ?acc fs s' acc')"
      by (rule Cons.IH [OF n(4) fs1 fo]) (use keys dist Cons.prems(4,5) n(7) e in auto)
    then show "runs (clone_frames fs ?acc) s1 (\<lambda>acc' s'. frames_cloned s acc ((v, f) # fs) s' acc')"
    proof (rule runs_mono)
      fix acc' s2 assume c: "frames_cloned s1 ?acc fs s2 acc'"
      note C = c [unfolded frames_cloned_def]
      have lv: "live_frames s2 = live_frames s \<union> set (owned acc')" "(set (owned acc') - set (owned acc)) \<inter> live_frames s = {}"
        "set (owned acc) \<subseteq> set (owned acc')" "n \<in> set (owned acc')" using C o n(2,3) by auto
      have gv: "btm_get acc' v = Some f'" using C dist g by simp
      have fn: "frames s2 (frame_pa n) = frames s1 (frame_pa n)" using C o n(5,6) by simp
      have other: "\<exists>f''. btm_get acc' w = Some f'' \<and> frames s2 (pa_as_usize (start_paddr f'')) = frames s (pa_as_usize (start_paddr g'))"
        if w: "(w, g') \<in> set fs" for w g'
      proof -
        have "g' = frame_at (frame_no g')" "frame_no g' \<in> live_frames s"
          using Cons.prems(2) w by (force simp: frames_ok_def owned_def)+
        then obtain j where j: "g' = frame_at j" "j \<in> live_frames s" by blast
        have "frames s1 (frame_pa j) = frames s (frame_pa j)" using keep j(2) n(2) pmem_okD(2) [OF Cons.prems(1)] by blast
        then show ?thesis using C w j(1) by fastforce
      qed
      have keep2: "frames s2 (frame_pa m) = frames s (frame_pa m)" if "m \<in> all_frames s - (set (owned acc') - set (owned acc))" for m
      proof -
        have "m \<in> all_frames s - {n}" using that lv(4) n(2) Cons.prems(3) by (auto simp: frames_ok_def)
        moreover have "frames s2 (frame_pa m) = frames s1 (frame_pa m)" using that C n(5) o by simp
        ultimately show ?thesis using keep by simp
      qed
      have "btm_get acc' w = btm_get acc w" if "w \<notin> fst ` set ((v, f) # fs)" for w using that C g by simp
      moreover have "fst ` set acc' = fst ` set acc \<union> fst ` set ((v, f) # fs)" using C keys by auto
      ultimately show "frames_cloned s acc ((v, f) # fs) s2 acc'" unfolding frames_cloned_def
        using C lv gv fn cp other keep2 n(5,7) k(1) f' by (simp add: case_prod_beta)
    qed
  qed
qed

section \<open>Cloning an area\<close>

definition area_full :: "MapArea \<Rightarrow> bool" where
  "area_full a \<longleftrightarrow> framed a \<and> (\<forall>p\<in>set (area_pages a). area_pa a (VirtAddr p) \<noteq> None)"

definition area_cloned :: "pmem \<Rightarrow> MapArea \<Rightarrow> pmem \<Rightarrow> MapArea \<Rightarrow> bool" where
  "area_cloned s a s' a' \<longleftrightarrow> pmem_ok s' \<and> area_wf s' a' \<and> same_area a a' \<and> area_full a' \<and> all_frames s' = all_frames s \<and>
     live_frames s' = live_frames s \<union> set (area_owned a') \<and> set (area_owned a') \<inter> live_frames s = {} \<and>
     free_count s \<le> free_count s' + length (area_pages a) \<and>
     (\<forall>p\<in>set (area_pages a). page_bytes s' a' (VirtAddr p) = page_bytes s a (VirtAddr p)) \<and>
     (\<forall>m\<in>live_frames s. frames s' (frame_pa m) = frames s (frame_pa m))"

lemma area_clone_ok:
  assumes ok: "pmem_ok s" and wf: "area_wf s a" and full: "area_full a" and free: "length (area_pages a) \<le> free_count s"
  shows "runs (area_clone a) s (\<lambda>a' s'. area_cloned s a s' a')"
proof -
  obtain fs where m: "mapper a = Framed fs" using full by (auto simp: area_full_def framed_def split: Mapper.splits)
  have fo: "frames_ok s fs" and keys: "fst ` set fs \<subseteq> VirtAddr ` set (area_pages a)" using wf m by (simp_all add: area_wf_def)
  have b: "btm_ok fs" using fo by (simp add: frames_ok_def)
  have "length fs = card (fst ` set fs)" using distinct_card [OF btm_ok_distinct [OF b]] by simp
  also have "\<dots> \<le> card (VirtAddr ` set (area_pages a))" using keys by (intro card_mono) simp_all
  also have "\<dots> \<le> length (area_pages a)" using card_image_le [of "set (area_pages a)" VirtAddr] card_length [of "area_pages a"] by simp
  finally have len: "length fs \<le> length (area_pages a)" .
  have e: "frames_ok s []" by (simp add: frames_ok_def btm_ok_def owned_def)
  show ?thesis unfolding area_clone_def m Mapper.case bind_assoc runs_bind
  proof (rule runs_mono [OF clone_frames_ok [OF ok fo e]])
    fix acc s' assume "frames_cloned s [] fs s' acc"
    then have C: "pmem_ok s'" "all_frames s' = all_frames s" "frames_ok s' acc" "live_frames s' = live_frames s \<union> set (owned acc)"
      "set (owned acc) \<inter> live_frames s = {}" "free_count s = free_count s' + length fs" "fst ` set acc = fst ` set fs"
      "\<forall>(v, f)\<in>set fs. \<exists>f'. btm_get acc v = Some f' \<and> frames s' (pa_as_usize (start_paddr f')) = frames s (pa_as_usize (start_paddr f))"
      "\<forall>m\<in>all_frames s - set (owned acc). frames s' (frame_pa m) = frames s (frame_pa m)"
      by (simp_all add: frames_cloned_def owned_def [of "[]"])
    let ?a = "\<lparr>start = start a, area_size = area_size a, area_flags = area_flags a, mapper = Framed acc\<rparr>"
    have pg: "area_pages ?a = area_pages a" by (simp add: area_pages_def)
    have cp: "area_pa ?a (VirtAddr p) \<noteq> None \<and> page_bytes s' ?a (VirtAddr p) = page_bytes s a (VirtAddr p)" if p: "p \<in> set (area_pages a)" for p
    proof -
      obtain f where f: "btm_get fs (VirtAddr p) = Some f" using full p by (auto simp: area_full_def area_pa_def m)
      then have "(VirtAddr p, f) \<in> set fs" by (simp add: btm_get_def map_of_SomeD)
      then obtain f' where "btm_get acc (VirtAddr p) = Some f'" "frames s' (pa_as_usize (start_paddr f')) = frames s (pa_as_usize (start_paddr f))"
        using C(8) by auto
      then show ?thesis using f by (simp add: area_pa_def page_bytes_def m)
    qed
    have "area_wf s' ?a" using wf C(3,7) keys by (simp add: area_wf_def m pg)
    moreover have "area_full ?a" using cp by (simp add: area_full_def framed_def pg)
    moreover have "frames s' (frame_pa m) = frames s (frame_pa m)" if "m \<in> live_frames s" for m
      using that C(5,9) pmem_okD(2) [OF ok that] by blast
    ultimately have "area_cloned s a s' ?a" using C cp len by (simp add: area_cloned_def same_area_def area_owned_def)
    then show "runs (ret (Framed acc)) s' (\<lambda>x s'. runs (ret \<lparr>start = start a, area_size = area_size a, area_flags = area_flags a, mapper = x\<rparr>) s'
      (\<lambda>a' s'. area_cloned s a s' a'))" by simp
  qed (use len free in simp_all)
qed

section \<open>Cloning the areas of a memory set\<close>

lemma ms_rep_frame:
  assumes rep: "ms_rep s ms r ts" and ok: "pmem_ok s'" and lv: "live_frames s \<subseteq> live_frames s'"
    and fr: "\<And>m. m \<in> set ts \<Longrightarrow> frames s' (frame_pa m) = frames s (frame_pa m)"
  shows "ms_rep s' ms r ts"
proof -
  note R = ms_repD [OF rep]
  have "set ts \<subseteq> live_frames s'" using pt_repD(3) [OF R(1)] lv by blast
  note F = pt_rep_frame [OF R(1) ok this fr]
  have "area_in s' r ts a" if "a \<in> ms_areas ms" for a
    using R(4) [OF that] F(2) area_wf_frame [OF _ lv] by (simp add: area_in_def)
  then show ?thesis unfolding ms_rep_def using R F rep by (auto simp: ms_rep_def)
qed

definition areas_cloned :: "pmem \<Rightarrow> MemorySet \<Rightarrow> nat list \<Rightarrow> MapArea list \<Rightarrow> pmem \<Rightarrow> MemorySet \<Rightarrow> nat list \<Rightarrow> bool" where
  "areas_cloned s ms ts as s' ms' ts' \<longleftrightarrow> all_frames s' = all_frames s \<and> set ts \<subseteq> set ts' \<and>
     live_frames s' = live_frames s \<union> set ts' \<union> ms_owned ms' \<and> ((set ts' \<union> ms_owned ms') - (set ts \<union> ms_owned ms)) \<inter> live_frames s = {} \<and>
     (\<forall>m\<in>live_frames s - set ts. frames s' (frame_pa m) = frames s (frame_pa m)) \<and> ms_areas ms \<subseteq> ms_areas ms' \<and>
     (\<forall>b\<in>ms_areas ms'. b \<in> ms_areas ms \<or> (framed b \<and> (\<exists>a\<in>set as. same_area a b))) \<and>
     (\<forall>a\<in>set as. \<exists>b\<in>ms_areas ms'. same_area a b \<and> framed b \<and>
        (\<forall>p\<in>set (area_pages a). page_bytes s' b (VirtAddr p) = page_bytes s a (VirtAddr p)))"

lemma areas_clonedD:
  assumes "areas_cloned s ms ts as s' ms' ts'"
  shows "all_frames s' = all_frames s" and "set ts \<subseteq> set ts'" and "live_frames s' = live_frames s \<union> set ts' \<union> ms_owned ms'"
    and "((set ts' \<union> ms_owned ms') - (set ts \<union> ms_owned ms)) \<inter> live_frames s = {}"
    and "m \<in> live_frames s - set ts \<Longrightarrow> frames s' (frame_pa m) = frames s (frame_pa m)" and "ms_areas ms \<subseteq> ms_areas ms'"
    and "b \<in> ms_areas ms' \<Longrightarrow> b \<in> ms_areas ms \<or> (framed b \<and> (\<exists>a\<in>set as. same_area a b))"
    and "a \<in> set as \<Longrightarrow> \<exists>b\<in>ms_areas ms'. same_area a b \<and> framed b \<and>
        (\<forall>p\<in>set (area_pages a). page_bytes s' b (VirtAddr p) = page_bytes s a (VirtAddr p))"
    and "ms_owned ms \<subseteq> ms_owned ms'"
proof -
  have d: "all_frames s' = all_frames s" "set ts \<subseteq> set ts'" "live_frames s' = live_frames s \<union> set ts' \<union> ms_owned ms'"
    "((set ts' \<union> ms_owned ms') - (set ts \<union> ms_owned ms)) \<inter> live_frames s = {}" "ms_areas ms \<subseteq> ms_areas ms'"
    "\<forall>m\<in>live_frames s - set ts. frames s' (frame_pa m) = frames s (frame_pa m)"
    "\<forall>b\<in>ms_areas ms'. b \<in> ms_areas ms \<or> (framed b \<and> (\<exists>a\<in>set as. same_area a b))"
    "\<forall>a\<in>set as. \<exists>b\<in>ms_areas ms'. same_area a b \<and> framed b \<and>
        (\<forall>p\<in>set (area_pages a). page_bytes s' b (VirtAddr p) = page_bytes s a (VirtAddr p))"
    using assms unfolding areas_cloned_def by - (elim conjE, assumption)+
  show "all_frames s' = all_frames s" "set ts \<subseteq> set ts'" "live_frames s' = live_frames s \<union> set ts' \<union> ms_owned ms'"
    "((set ts' \<union> ms_owned ms') - (set ts \<union> ms_owned ms)) \<inter> live_frames s = {}" "ms_areas ms \<subseteq> ms_areas ms'" by fact+
  show "ms_owned ms \<subseteq> ms_owned ms'" using d(5) unfolding ms_owned_def by blast
  show "frames s' (frame_pa m) = frames s (frame_pa m)" if "m \<in> live_frames s - set ts" by (rule bspec [OF d(6) that])
  show "b \<in> ms_areas ms \<or> (framed b \<and> (\<exists>a\<in>set as. same_area a b))" if "b \<in> ms_areas ms'" by (rule bspec [OF d(7) that])
  show "\<exists>b\<in>ms_areas ms'. same_area a b \<and> framed b \<and> (\<forall>p\<in>set (area_pages a). page_bytes s' b (VirtAddr p) = page_bytes s a (VirtAddr p))"
    if "a \<in> set as" by (rule bspec [OF d(8) that])
qed

lemma ms_owned_live: "ms_rep s ms r ts \<Longrightarrow> ms_owned ms \<subseteq> live_frames s"
  using ms_repD(4) area_owned_live by (fastforce simp: ms_owned_def area_in_def)

lemma ms_owned_tables: "ms_rep s ms r ts \<Longrightarrow> ms_owned ms \<inter> set ts = {}"
  using ms_repD(4) by (fastforce simp: ms_owned_def area_in_def)

text \<open>Inserting the clone of an area.\<close>

lemma page_bytes_keep:
  assumes ok: "pmem_ok s" and wf: "area_wf s a" and full: "area_full a" and p: "p \<in> set (area_pages a)"
    and keep: "\<And>m. m \<in> set (area_owned a) \<Longrightarrow> frames s' (frame_pa m) = frames s (frame_pa m)"
  shows "page_bytes s' a (VirtAddr p) = page_bytes s a (VirtAddr p)"
  using full p by (intro page_bytes_frame [OF ok wf _ _ keep]) (simp_all add: area_full_def)

lemma inserted_cloned:
  assumes rep: "ms_rep s1 ms r ts" and cl: "area_cloned s a s1 a1" and wf: "area_wf s a" and ow: "set ts \<union> ms_owned ms \<subseteq> live_frames s"
    and ins: "inserted s1 ms r ts a1 s2 ms2"
  shows "\<exists>ts2. ms_rep s2 ms2 r ts2 \<and> areas_cloned s ms ts [a] s2 ms2 ts2 \<and> free_count s1 \<le> free_count s2 + 4 * length (area_pages a) \<and>
    (\<forall>v. vpn v \<notin> area_vpns a \<longrightarrow> leaf s2 r v = leaf s1 r v) \<and> (\<forall>k. k \<noteq> start a \<longrightarrow> btm_get (areas ms2) k = btm_get (areas ms) k)"
proof -
  obtain ts2 a2 where rep2: "ms_rep s2 ms2 r ts2" and m: "area_mapped s1 r ts a1 (area_pages a1) s2 ts2 a2"
    and ar: "areas ms2 = btm_insert (start a1) a2 (areas ms)" and A: "ms_areas ms2 = insert a2 (ms_areas ms)"
    using ins by (auto simp: inserted_def)
  note M = area_mappedD [OF m] and C = cl [unfolded area_cloned_def]
  have same: "same_area a a2" "same_area a a1" using C M(2) by (simp_all add: same_area_def)
  have pg: "area_pages a1 = area_pages a" "area_pages a2 = area_pages a" using same by (simp_all add: same_area_def area_pages_def)
  have ok1: "pmem_ok s1" and wf1: "area_wf s1 a1" and full1: "area_full a1" using C by blast+
  have fr2: "framed a2" using full1 M(3) by (simp add: area_full_def)
  have own: "frames s2 (frame_pa n) = frames s1 (frame_pa n)" if n: "n \<in> set (area_owned a1)" for n
  proof -
    have "n \<in> all_frames s1" using n area_owned_live [OF wf1] pmem_okD(2) [OF ok1] by blast
    then have "n \<in> all_frames s1 - set ts2 - (set (area_owned a2) - set (area_owned a1))" using n M(7,8) by blast
    then show ?thesis by (rule M(16))
  qed
  have bytes: "page_bytes s2 a2 (VirtAddr p) = page_bytes s a (VirtAddr p)" if p: "p \<in> set (area_pages a)" for p
  proof -
    obtain x where x: "area_pa a1 (VirtAddr p) = Some x" using full1 p pg by (auto simp: area_full_def)
    have "page_bytes s2 a2 (VirtAddr p) = page_bytes s2 a1 (VirtAddr p)" using x M(14) [OF x] by (simp add: page_bytes_def)
    also have "\<dots> = page_bytes s1 a1 (VirtAddr p)" by (rule page_bytes_keep [OF ok1 wf1 full1 _ own]) (use p pg in simp_all)
    finally show ?thesis using C p by simp
  qed
  have mo: "ms_owned ms2 = set (area_owned a2) \<union> ms_owned ms" using A by (simp add: ms_owned_def)
  have keep: "frames s2 (frame_pa n) = frames s (frame_pa n)" if n: "n \<in> live_frames s - set ts" for n
  proof -
    have l1: "n \<in> live_frames s1" using n C by blast
    then have "n \<in> all_frames s1 - set ts2 - (set (area_owned a2) - set (area_owned a1))"
      using n M(9,10) pmem_okD(2) [OF ok1 l1] by blast
    from M(16) [OF this] show ?thesis using n C by simp
  qed
  have lv: "live_frames s2 = live_frames s \<union> set ts2 \<union> ms_owned ms2"
    "((set ts2 \<union> ms_owned ms2) - (set ts \<union> ms_owned ms)) \<inter> live_frames s = {}"
    using M(5,7,9,10) C ow unfolding mo by auto
  have "areas_cloned s ms ts [a] s2 ms2 ts2" unfolding areas_cloned_def
    using M(4,6) C lv keep same(1) bytes fr2 A by auto
  moreover have "leaf s2 r v = leaf s1 r v" if "vpn v \<notin> area_vpns a" for v using that by (intro M(18)) (simp add: area_vpns_def pg)
  moreover have "btm_get (areas ms2) k = btm_get (areas ms) k" if "k \<noteq> start a" for k
    using that same(2) by (simp add: ar btm.get_ins [OF ms_repD(2) [OF rep]] same_area_def)
  ultimately show ?thesis using rep2 M(11) pg by auto
qed

lemma areas_cloned_trans:
  assumes 1: "areas_cloned s ms ts [a] s1 ms1 ts1" and 2: "areas_cloned s1 ms1 ts1 as s2 ms2 ts2" and rep1: "ms_rep s1 ms1 r ts1"
    and ow: "set ts \<union> ms_owned ms \<subseteq> live_frames s"
    and bytes: "\<And>b p. b \<in> set as \<Longrightarrow> p \<in> set (area_pages b) \<Longrightarrow> page_bytes s1 b (VirtAddr p) = page_bytes s b (VirtAddr p)"
  shows "areas_cloned s ms ts (a # as) s2 ms2 ts2"
proof -
  note C1 = areas_clonedD [OF 1] and C2 = areas_clonedD [OF 2]
  have ok1: "pmem_ok s1" using pt_repD(1) [OF ms_repD(1) [OF rep1]] .
  have lv: "live_frames s2 = live_frames s \<union> set ts2 \<union> ms_owned ms2"
    "((set ts2 \<union> ms_owned ms2) - (set ts \<union> ms_owned ms)) \<inter> live_frames s = {}" using C1(2-4,9) C2(2-4,9) ow by auto
  have keep: "frames s2 (frame_pa n) = frames s (frame_pa n)" if n: "n \<in> live_frames s - set ts" for n
  proof -
    have "n \<notin> set ts1" using n C1(4,9) ms_owned_tables [OF rep1] by blast
    then have "n \<in> live_frames s1 - set ts1" using n C1(3) by blast
    from C2(5) [OF this] C1(5) [OF n] show ?thesis by simp
  qed
  obtain b where b: "b \<in> ms_areas ms1" "same_area a b" "framed b" "\<And>p. p \<in> set (area_pages a) \<Longrightarrow> page_bytes s1 b (VirtAddr p) = page_bytes s a (VirtAddr p)"
    using C1(8) [of a] by auto
  have bi: "area_in s1 r ts1 b" using ms_repD(4) [OF rep1 b(1)] .
  have pgb: "area_pages b = area_pages a" using b(2) by (simp add: same_area_def area_pages_def)
  have bb: "page_bytes s2 b (VirtAddr p) = page_bytes s a (VirtAddr p)" if p: "p \<in> set (area_pages a)" for p
  proof -
    have "page_bytes s2 b (VirtAddr p) = page_bytes s1 b (VirtAddr p)"
    proof (rule page_bytes_keep [OF ok1])
      show "area_wf s1 b" "area_full b" using bi b(3) by (simp_all add: area_in_def area_full_def)
      show "p \<in> set (area_pages b)" using p pgb by simp
      fix m assume m: "m \<in> set (area_owned b)"
      then have "m \<in> live_frames s1 - set ts1" using bi area_owned_live by (auto simp: area_in_def)
      then show "frames s2 (frame_pa m) = frames s1 (frame_pa m)" by (rule C2(5))
    qed
    then show ?thesis using b(4) p by simp
  qed
  have view: "\<exists>d\<in>ms_areas ms2. same_area c d \<and> framed d \<and> (\<forall>p\<in>set (area_pages c). page_bytes s2 d (VirtAddr p) = page_bytes s c (VirtAddr p))"
    if c: "c \<in> set (a # as)" for c
  proof (cases "c = a")
    case True
    then show ?thesis using b(1-3) C2(6) bb by blast
  next
    case False
    then have "c \<in> set as" using c by simp
    from C2(8) [OF this] bytes [OF this] show ?thesis by auto
  qed
  have src: "d \<in> ms_areas ms \<or> (framed d \<and> (\<exists>c\<in>set (a # as). same_area c d))" if "d \<in> ms_areas ms2" for d
    using C2(7) [OF that] C1(7) [of d] by auto
  have "all_frames s2 = all_frames s" "set ts \<subseteq> set ts2" "ms_areas ms \<subseteq> ms_areas ms2" using C1(1,2,6) C2(1,2,6) by simp_all
  then show ?thesis unfolding areas_cloned_def by (intro conjI ballI lv keep src view)
qed

definition clone_pre :: "pmem \<Rightarrow> MemorySet \<Rightarrow> nat \<Rightarrow> nat list \<Rightarrow> MapArea \<Rightarrow> bool" where
  "clone_pre s ms r ts a \<longleftrightarrow> area_wf s a \<and> area_full a \<and> set (area_owned a) \<inter> set ts = {} \<and> btm_get (areas ms) (start a) = None \<and>
     (\<forall>p\<in>set (area_pages a). leaf s r (VirtAddr p) = 0)"

definition pages_total :: "MapArea list \<Rightarrow> nat" where
  "pages_total as = sum_list (map (\<lambda>a. length (area_pages a)) as)"

lemma clone_areas_ok:
  assumes "ms_rep s ms r ts" and "\<And>a. a \<in> set as \<Longrightarrow> clone_pre s ms r ts a" and "distinct (map start as)" and "areas_apart (set as)"
    and "5 * pages_total as \<le> free_count s"
  shows "runs (clone_areas ms as) s (\<lambda>ms' s'. \<exists>ts'. ms_rep s' ms' r ts' \<and> areas_cloned s ms ts as s' ms' ts')"
  using assms
proof (induction as arbitrary: s ms ts)
  case Nil
  then show ?case using ms_owned_live [OF Nil(1)] pt_repD(3) [OF ms_repD(1) [OF Nil(1)]]
    by (auto simp: areas_cloned_def)
next
  case (Cons a as)
  note R = ms_repD [OF Cons.prems(1)]
  have ok: "pmem_ok s" and tl: "set ts \<subseteq> live_frames s" using pt_repD(1,3) [OF R(1)] .
  have pre: "clone_pre s ms r ts a" using Cons.prems(2) by simp
  have a: "area_wf s a" "area_full a" "set (area_owned a) \<inter> set ts = {}" "btm_get (areas ms) (start a) = None"
    "\<And>p. p \<in> set (area_pages a) \<Longrightarrow> leaf s r (VirtAddr p) = 0" using pre by (simp_all add: clone_pre_def)
  have ow: "set ts \<union> ms_owned ms \<subseteq> live_frames s" using tl ms_owned_live [OF Cons.prems(1)] by blast
  have f1: "length (area_pages a) \<le> free_count s" using Cons.prems(5) by (simp add: pages_total_def)
  show ?case unfolding clone_areas.simps runs_bind
  proof (rule runs_mono [OF area_clone_ok [OF ok a(1,2) f1]])
    fix a1 s1 assume cl: "area_cloned s a s1 a1"
    note C = cl [unfolded area_cloned_def]
    have keep1: "frames s1 (frame_pa m) = frames s (frame_pa m)" if "m \<in> live_frames s" for m using C that by blast
    have rep1: "ms_rep s1 ms r ts" by (rule ms_rep_frame [OF Cons.prems(1)]) (use C keep1 tl in blast)+
    have l1: "leaf s1 r v = leaf s r v" for v
      by (rule pt_rep_frame(2) [OF R(1)]) (use C keep1 tl in blast)+
    have pg: "area_pages a1 = area_pages a" "start a1 = start a" using C by (simp_all add: same_area_def area_pages_def)
    have "runs (memory_set_insert ms a1) s1 (\<lambda>ms' s'. inserted s1 ms r ts a1 s' ms')"
      by (rule memory_set_insert_ok [OF rep1]) (use C ow a(4,5) l1 pg Cons.prems(5) in \<open>auto simp: pages_total_def\<close>)
    then show "runs (memory_set_insert ms a1) s1 (\<lambda>ms' s'. runs (clone_areas ms' as) s' (\<lambda>ms' s'. \<exists>ts'. ms_rep s' ms' r ts' \<and> areas_cloned s ms ts (a # as) s' ms' ts'))"
    proof (rule runs_mono)
      fix ms2 s2 assume "inserted s1 ms r ts a1 s2 ms2"
      from inserted_cloned [OF rep1 cl a(1) ow this] obtain ts2 where rep2: "ms_rep s2 ms2 r ts2" and ac: "areas_cloned s ms ts [a] s2 ms2 ts2"
        and fc: "free_count s1 \<le> free_count s2 + 4 * length (area_pages a)" and lf: "\<And>v. vpn v \<notin> area_vpns a \<Longrightarrow> leaf s2 r v = leaf s1 r v"
        and gt: "\<And>k. k \<noteq> start a \<Longrightarrow> btm_get (areas ms2) k = btm_get (areas ms) k" by blast
      note AC = areas_clonedD [OF ac]
      have ob: "set (area_owned b) \<subseteq> live_frames s - set ts" if "b \<in> set as" for b
        using Cons.prems(2) [of b] that area_owned_live by (auto simp: clone_pre_def)
      have pre2: "clone_pre s2 ms2 r ts2 b" if b: "b \<in> set as" for b
      proof -
        have pb: "clone_pre s ms r ts b" using Cons.prems(2) b by simp
        have "start b \<in> start ` set as" using b by simp
        then have ne: "start b \<noteq> start a" using Cons.prems(3) by auto
        then have "b \<noteq> a" by blast
        then have dv: "area_vpns a \<inter> area_vpns b = {}" using Cons.prems(4) b unfolding areas_apart_def by auto
        have "leaf s2 r (VirtAddr p) = 0" if p: "p \<in> set (area_pages b)" for p
        proof -
          have "vpn (VirtAddr p) \<in> area_vpns b" using p by (simp add: area_vpns_def)
          then have "vpn (VirtAddr p) \<notin> area_vpns a" using dv by blast
          from lf [OF this] show ?thesis unfolding l1 using pb p by (simp add: clone_pre_def)
        qed
        moreover have wb: "area_wf s b" "live_frames s \<subseteq> live_frames s2" using pb AC(3) by (simp_all add: clone_pre_def Un_assoc)
        moreover have "area_wf s2 b" by (rule area_wf_frame [OF wb])
        moreover have "set (area_owned b) \<inter> set ts2 = {}"
          using ob [OF b] AC(4,9) ms_owned_tables [OF rep2] by blast
        ultimately show ?thesis using pb gt [OF ne] by (simp add: clone_pre_def)
      qed
      have f2: "5 * pages_total as \<le> free_count s2" using Cons.prems(5) fc C by (simp add: pages_total_def)
      have "distinct (map start as)" "areas_apart (set as)" using Cons.prems(3,4) by (auto simp: areas_apart_def)
      note IH = Cons.IH [OF rep2 pre2 this f2]
      have bytes: "page_bytes s2 b (VirtAddr p) = page_bytes s b (VirtAddr p)" if b: "b \<in> set as" "p \<in> set (area_pages b)" for b p
        using Cons.prems(2) [of b] b ob AC(5) by (intro page_bytes_keep [OF ok]) (auto simp: clone_pre_def)
      show "runs (clone_areas ms2 as) s2 (\<lambda>ms' s'. \<exists>ts'. ms_rep s' ms' r ts' \<and> areas_cloned s ms ts (a # as) s' ms' ts')"
        by (rule runs_mono [OF IH]) (use areas_cloned_trans [OF ac _ rep2 ow bytes] in blast)+
    qed
  qed
qed

end
