(* ===== verification/WriteData.thy ===== *)
theory WriteData
  imports AreaSpec
begin

text \<open>
  \<open>MapArea::write_data\<close>: the bytes of an area, by offset, and that writing changes exactly the bytes
  written, allocating the frames of the pages it touches.
\<close>

definition area_page_at :: "MapArea \<Rightarrow> nat \<Rightarrow> VirtAddr" where
  "area_page_at a k = VirtAddr (va_as_usize (start a) + of_nat (k div 4096) * PAGE_SIZE)"

text \<open>A page without a frame reads as zeros: that is what its frame will hold.\<close>

definition area_byte :: "pmem \<Rightarrow> MapArea \<Rightarrow> nat \<Rightarrow> u8" where
  "area_byte s a k = (case area_pa a (area_page_at a k) of None \<Rightarrow> 0 | Some pa \<Rightarrow> frames s (pa_as_usize pa) ! (k mod 4096))"

definition area_wrote :: "pmem \<Rightarrow> MapArea \<Rightarrow> pmem \<Rightarrow> MapArea \<Rightarrow> bool" where
  "area_wrote s a s' a' \<longleftrightarrow> pmem_ok s' \<and> area_wf s' a' \<and> same_area a a' \<and> framed a' = framed a \<and> all_frames s' = all_frames s \<and>
     live_frames s' = live_frames s \<union> set (area_owned a') \<and> set (area_owned a) \<subseteq> set (area_owned a') \<and>
     (set (area_owned a') - set (area_owned a)) \<inter> live_frames s = {} \<and>
     (\<forall>m\<in>all_frames s - set (area_owned a'). frames s' (frame_pa m) = frames s (frame_pa m))"

lemma area_pages_span: "area_wf s a \<Longrightarrow> span_ok (va_as_usize (start a)) (area_size a)"
  by (simp add: area_wf_def)

lemma area_page_at_in:
  assumes "area_wf s a" and "k < unat (area_size a)"
  shows "\<exists>p\<in>set (area_pages a). area_page_at a k = VirtAddr p"
proof -
  note S = span_pages [OF area_pages_span [OF assms(1)]]
  have "k div 4096 < unat (area_size a) div 4096"
    using assms(2) S(3) by (metis less_mult_imp_div_less)
  then show ?thesis unfolding area_pages_def S(1) by (auto simp: area_page_at_def)
qed

lemma area_page_at_inj:
  assumes "area_wf s a" and "k < unat (area_size a)" and "j < unat (area_size a)"
  shows "area_page_at a k = area_page_at a j \<longleftrightarrow> k div 4096 = j div 4096"
proof
  note S = span_pages [OF area_pages_span [OF assms(1)]]
  have b: "unat (va_as_usize (start a) + of_nat (i div 4096) * PAGE_SIZE) = unat (va_as_usize (start a)) + i div 4096 * 4096"
    if "i < unat (area_size a)" for i
  proof (rule unat_page_step)
    have "i div 4096 * 4096 \<le> i" by simp
    then show "unat (va_as_usize (start a)) + i div 4096 * 4096 < 2 ^ 64"
      using that area_pages_span [OF assms(1)] by (auto simp: span_ok_def in_half_def)
  qed
  assume "area_page_at a k = area_page_at a j"
  then have "va_as_usize (start a) + of_nat (k div 4096) * PAGE_SIZE = va_as_usize (start a) + of_nat (j div 4096) * PAGE_SIZE"
    unfolding area_page_at_def VirtAddr.inject .
  from arg_cong [OF this, of unat] have "k div 4096 * 4096 = j div 4096 * 4096"
    unfolding b [OF assms(2)] b [OF assms(3)] by (rule add_left_imp_eq)
  then show "k div 4096 = j div 4096" unfolding mult_cancel2 by simp
qed (simp add: area_page_at_def)

lemma area_pa_inj:
  assumes "area_wf s a" and "framed a" and "pmem_ok s" and "area_pa a v = Some pa" and "area_pa a w = Some pa"
  shows "v = w"
proof -
  obtain fs where m: "mapper a = Framed fs" using assms(2) by (auto simp: framed_def split: Mapper.splits)
  have fo: "frames_ok s fs" using assms(1) m by (simp add: area_wf_def)
  obtain f g where f: "btm_get fs v = Some f" "pa = start_paddr f" and g: "btm_get fs w = Some g" "pa = start_paddr g"
    using assms(4,5) m by (auto simp: area_pa_def)
  have mem: "(v, f) \<in> set fs" "(w, g) \<in> set fs" using f g by (simp_all add: btm_get_def map_of_SomeD)
  have inj: "inj_on (\<lambda>e. frame_no (snd e)) (set fs)" using fo by (simp add: frames_ok_def owned_def distinct_map)
  have "frame_no f = frame_no g" using f g by (simp add: frame_no_def)
  with inj_onD [OF inj _ mem] show ?thesis by simp
qed

lemma free_count_grow:
  assumes "all_frames s' = all_frames s" and "live_frames s' = live_frames s \<union> N" and "N \<inter> live_frames s = {}" and "N \<subseteq> all_frames s"
  shows "free_count s = free_count s' + card N"
proof -
  have "all_frames s - live_frames s = (all_frames s' - live_frames s') \<union> N" using assms by auto
  moreover have "(all_frames s' - live_frames s') \<inter> N = {}" using assms(2) by auto
  moreover have "finite N" using assms(4) finite_frames finite_subset by blast
  ultimately show ?thesis using finite_frames [of s'] by (simp add: free_count_def card_Un_disjoint)
qed

lemma area_wrote_free:
  assumes "area_wrote s a s' a'" and "area_wf s a"
  shows "free_count s + card (set (area_owned a)) = free_count s' + card (set (area_owned a'))"
proof -
  note W = assms(1) [unfolded area_wrote_def]
  have ok: "pmem_ok s'" "area_wf s' a'" using W by blast+
  have N: "set (area_owned a') - set (area_owned a) \<subseteq> all_frames s"
    using area_owned_live [OF ok(2)] pmem_okD(2) [OF ok(1)] W by auto
  have "live_frames s' = live_frames s \<union> (set (area_owned a') - set (area_owned a))"
    using W area_owned_live [OF assms(2)] by auto
  then have "free_count s = free_count s' + card (set (area_owned a') - set (area_owned a))"
    using W N by (intro free_count_grow) auto
  moreover have "card (set (area_owned a')) = card (set (area_owned a)) + card (set (area_owned a') - set (area_owned a))"
    using W by (metis List.finite_set card_Diff_subset card_mono le_add_diff_inverse)
  ultimately show ?thesis by simp
qed

lemma area_owned_bound:
  assumes "area_wf s a"
  shows "card (set (area_owned a)) \<le> length (area_pages a)"
proof (cases "mapper a")
  case (Framed fs)
  have keys: "fst ` set fs \<subseteq> VirtAddr ` set (area_pages a)" and b: "btm_ok fs" using assms by (simp_all add: area_wf_def frames_ok_def Framed)
  have "card (set (owned fs)) \<le> length fs" using card_length [of "owned fs"] by (simp add: owned_def)
  also have "\<dots> = card (fst ` set fs)" using distinct_card [OF btm_ok_distinct [OF b]] by simp
  also have "\<dots> \<le> card (VirtAddr ` set (area_pages a))" using keys by (intro card_mono) simp_all
  also have "\<dots> \<le> length (area_pages a)" using card_image_le [of "set (area_pages a)" VirtAddr] card_length [of "area_pages a"] by simp
  finally show ?thesis by (simp add: area_owned_def Framed)
qed (simp add: area_owned_def)

section \<open>Writing within one page\<close>

lemma area_owned_frame_inj:
  assumes "pmem_ok s" and "area_wf s a" and "framed a" and "area_pa a v = Some x" and "area_pa a w = Some y" and "v \<noteq> w"
  shows "pa_as_usize x \<noteq> pa_as_usize y"
  using area_pa_inj [OF assms(2,3,1) assms(4), of w] assms(5,6) by (metis PhysAddr.expand)

lemma area_step_bytes:
  assumes st: "area_step s a v s1 a1" and wf: "area_wf s a" "framed a" "pmem_ok s" and k: "k < unat (area_size a)"
  shows "area_byte s1 a1 k = area_byte s a k"
proof -
  have S: "area_wf s1 a1" "pmem_ok s1" "same_area a a1" "framed a1" "area_pa a1 v \<noteq> None" "\<And>w. w \<noteq> v \<Longrightarrow> area_pa a1 w = area_pa a w"
    "\<And>pa. area_pa a v = Some pa \<Longrightarrow> area_pa a1 v = Some pa" "area_pa a v = None \<Longrightarrow> page_bytes s1 a1 v = replicate 4096 0"
    "(set (area_owned a1) - set (area_owned a)) \<inter> live_frames s = {}"
    "\<And>m. m \<in> all_frames s - (set (area_owned a1) - set (area_owned a)) \<Longrightarrow> frames s1 (frame_pa m) = frames s (frame_pa m)"
    using st wf(2) by (simp_all add: area_step_def)
  have at: "area_page_at a1 k = area_page_at a k" using S(3) by (simp add: area_page_at_def same_area_def)
  show ?thesis
  proof (cases "area_pa a (area_page_at a k)")
    case (Some x)
    then have x1: "area_pa a1 (area_page_at a k) = Some x" using S(6,7) by (cases "area_page_at a k = v") auto
    obtain n where n: "n \<in> set (area_owned a)" "x = PhysAddr (frame_pa n)" "n \<in> live_frames s" using area_pa_owned [OF wf(3,1) Some wf(2)] by blast
    have "frames s1 (frame_pa n) = frames s (frame_pa n)" by (rule S(10)) (use n S(9) pmem_okD(2) [OF wf(3) n(3)] in blast)
    then show ?thesis using Some x1 n(2) by (simp add: area_byte_def at)
  next
    case None
    show ?thesis
    proof (cases "area_page_at a k = v")
      case True
      obtain x where x: "area_pa a1 v = Some x" using S(5) by blast
      have "frames s1 (pa_as_usize x) = replicate 4096 0" using S(8) None True x by (simp add: page_bytes_def)
      then show ?thesis using None True x by (simp add: area_byte_def at)
    next
      case False
      then show ?thesis using None S(6) by (simp add: area_byte_def at)
    qed
  qed
qed

lemma area_step_wrote: "area_step s a v s' a' \<Longrightarrow> area_wrote s a s' a'"
  by (auto simp: area_step_def area_wrote_def)

lemma page_write_bytes:
  assumes ok: "pmem_ok s" and wf: "area_wf s a" "framed a" and pa: "area_pa a (area_page_at a k) = Some pa" and k: "k < unat (area_size a)"
    and d: "k mod 4096 + length d \<le> 4096" and e: "k + length d \<le> unat (area_size a)"
  defines "s' \<equiv> s\<lparr>frames := (frames s)(pa_as_usize pa := overwrite (frames s (pa_as_usize pa)) (k mod 4096) d)\<rparr>"
  shows "pmem_ok s'" and "area_wrote s a s' a"
    and "j < unat (area_size a) \<Longrightarrow> area_byte s' a j = (if k \<le> j \<and> j < k + length d then d ! (j - k) else area_byte s a j)"
proof -
  obtain n where n: "n \<in> set (area_owned a)" "pa = PhysAddr (frame_pa n)" "n < 2 ^ 28" "n \<in> live_frames s" using area_pa_owned [OF ok wf(1) pa wf(2)] by blast
  have len: "length (frames s (frame_pa n)) = 4096" by (rule pmem_okD(3) [OF ok n(4)])
  have same: "all_frames s' = all_frames s" "live_frames s' = live_frames s" by (simp_all add: s'_def all_frames_def live_frames_def)
  have lo: "length (overwrite (frames s (frame_pa n)) (k mod 4096) d) = 4096" using len d by simp
  show ok': "pmem_ok s'" using ok lo n(2) by (auto simp: pmem_ok_def s'_def all_frames_def)
  have "area_wf s' a" by (rule area_wf_frame [OF wf(1)]) (simp add: same)
  moreover have "frames s' (frame_pa m) = frames s (frame_pa m)" if "m \<in> all_frames s - set (area_owned a)" for m
  proof -
    have "m < 2 ^ 28" "m \<noteq> n" using that ok n(1) by (auto simp: pmem_ok_def)
    then show ?thesis using n(2,3) by (simp add: s'_def)
  qed
  ultimately show "area_wrote s a s' a" using ok' same area_owned_live [OF wf(1)] by (auto simp: area_wrote_def same_area_def)
  show "area_byte s' a j = (if k \<le> j \<and> j < k + length d then d ! (j - k) else area_byte s a j)" if j: "j < unat (area_size a)"
  proof (cases "area_page_at a j = area_page_at a k")
    case True
    then have q: "j div 4096 = k div 4096" using area_page_at_inj [OF wf(1) j k] by simp
    define b where "b = k div 4096 * 4096"
    have jb: "j = b + j mod 4096" "k = b + k mod 4096" "j mod 4096 < 4096" using q div_mult_mod_eq [of j 4096] div_mult_mod_eq [of k 4096] by (simp_all add: b_def)
    have "area_byte s' a j = overwrite (frames s (frame_pa n)) (k mod 4096) d ! (j mod 4096)"
      using True pa n(2) by (simp add: area_byte_def s'_def)
    also have "\<dots> = (if k mod 4096 \<le> j mod 4096 \<and> j mod 4096 < k mod 4096 + length d then d ! (j mod 4096 - k mod 4096) else frames s (frame_pa n) ! (j mod 4096))"
      using len d jb(3) by (subst nth_overwrite) simp_all
    also have "\<dots> = (if k \<le> j \<and> j < k + length d then d ! (j - k) else frames s (frame_pa n) ! (j mod 4096))"
    proof -
      have "(k \<le> j) = (k mod 4096 \<le> j mod 4096)" "(j < k + length d) = (j mod 4096 < k mod 4096 + length d)" "j - k = j mod 4096 - k mod 4096"
        using jb(1,2) by linarith+
      then show ?thesis by simp
    qed
    finally show ?thesis using True pa n(2) by (simp add: area_byte_def)
  next
    case False
    then have q: "j div 4096 \<noteq> k div 4096" using area_page_at_inj [OF wf(1) j k] by simp
    have out: "\<not> (k \<le> j \<and> j < k + length d)"
    proof
      assume b: "k \<le> j \<and> j < k + length d"
      have "k = k div 4096 * 4096 + k mod 4096" by simp
      then have "k div 4096 * 4096 \<le> j" "j < k div 4096 * 4096 + 4096" using b d by linarith+
      then have "j div 4096 = k div 4096" by (intro div_nat_eqI) simp_all
      then show False using q by simp
    qed
    show ?thesis
    proof (cases "area_pa a (area_page_at a j)")
      case (Some y)
      have "pa_as_usize y \<noteq> pa_as_usize pa" by (rule area_owned_frame_inj [OF ok wf Some pa False])
      then show ?thesis using out Some by (auto simp: area_byte_def s'_def)
    qed (use out in \<open>auto simp: area_byte_def\<close>)
  qed
qed

lemma align_down_div: "align_down x PAGE_SIZE = of_nat (unat x div 4096) * PAGE_SIZE"
proof -
  have "unat x < 2 ^ 64" using unsigned_less [of x, where ?'a = nat] by simp
  then have "unat (0 :: u64) + unat x div 4096 * 4096 < 2 ^ 64" using div_times_less_eq_dividend [of "unat x" 4096] by simp
  from unat_page_step [OF this] have "unat (of_nat (unat x div 4096) * PAGE_SIZE) = unat x div 4096 * 4096" by simp
  then show ?thesis by (simp only: word_unat_eq_iff unat_align_down page_of_def)
qed

lemma area_wrote_trans:
  assumes "area_wrote s a s1 a1" and "area_wrote s1 a1 s2 a2" and "area_wf s a"
  shows "area_wrote s a s2 a2"
proof -
  have own: "set (area_owned a) \<subseteq> live_frames s" by (rule area_owned_live [OF assms(3)])
  have "\<forall>m\<in>all_frames s - set (area_owned a2). frames s2 (frame_pa m) = frames s (frame_pa m)"
    using assms(1,2) by (auto simp: area_wrote_def)
  moreover have "live_frames s2 = live_frames s \<union> set (area_owned a2)" "(set (area_owned a2) - set (area_owned a)) \<inter> live_frames s = {}"
    using assms(1,2) own by (auto simp: area_wrote_def)
  moreover have "same_area a a2" "set (area_owned a) \<subseteq> set (area_owned a2)" using assms(1,2) by (auto simp: area_wrote_def same_area_def)
  ultimately show ?thesis using assms(1,2) by (simp add: area_wrote_def)
qed

text \<open>The postcondition of writing \<open>data\<close> at offset \<open>k\<close>.\<close>

definition data_written :: "pmem \<Rightarrow> MapArea \<Rightarrow> nat \<Rightarrow> bytes \<Rightarrow> pmem \<Rightarrow> MapArea \<Rightarrow> bool" where
  "data_written s a k data s' a' \<longleftrightarrow> area_wrote s a s' a' \<and>
     (\<forall>j < unat (area_size a). area_byte s' a' j = (if k \<le> j \<and> j < k + length data then data ! (j - k) else area_byte s a j))"

lemma page_offset_eq: "x - align_down x PAGE_SIZE = page_offset x PAGE_SIZE"
  using align_down_offset [of x] by (metis add_diff_cancel_left')

lemma write_page_ok:
  assumes ok: "pmem_ok s" and wf: "area_wf s a" "framed a" and o: "unat x < unat (area_size a)"
    and d: "unat x mod 4096 + length d \<le> 4096" "unat x + length d \<le> unat (area_size a)" and free: "1 \<le> free_count s"
  shows "runs (bind (lift (va_new (va_as_usize (start a) + align_down x PAGE_SIZE))) (\<lambda>vaddr.
     bind (area_map a vaddr) (\<lambda>(paddr, a'). bind (lift (into_kvaddr paddr)) (\<lambda>v. bind (kread v) (\<lambda>bs.
     bind (kwrite v (overwrite bs (unat (x - align_down x PAGE_SIZE)) d)) (\<lambda>_. ret a')))))) s
   (\<lambda>a' s'. data_written s a (unat x) d s' a')"
proof -
  have at: "VirtAddr (va_as_usize (start a) + align_down x PAGE_SIZE) = area_page_at a (unat x)" by (simp add: area_page_at_def align_down_div)
  obtain p where p: "p \<in> set (area_pages a)" "area_page_at a (unat x) = VirtAddr p" using area_page_at_in [OF wf(1) o] by blast
  have v: "va_new (va_as_usize (start a) + align_down x PAGE_SIZE) = Ok (VirtAddr p)" using area_page(2) [OF wf(1) p(1)] at p(2) by simp
  show ?thesis unfolding v lift_Ok bind_ret runs_bind [of "area_map a (VirtAddr p)"]
  proof (rule runs_mono [OF area_map_ok [OF ok wf(1) p(1) free]], clarify)
    fix pa a1 s1 assume pa: "area_pa a1 (VirtAddr p) = Some pa" and st: "area_step s a (VirtAddr p) s1 a1"
    have S: "pmem_ok s1" "area_wf s1 a1" "framed a1" "same_area a a1" using st wf(2) by (simp_all add: area_step_def)
    have sz: "area_size a1 = area_size a" "area_page_at a1 = area_page_at a" using S(4) by (auto simp: same_area_def area_page_at_def)
    obtain n where n: "pa = PhysAddr (frame_pa n)" "n < 2 ^ 28" using area_pa_owned [OF S(1,2) pa S(3)] by blast
    have pa1: "area_pa a1 (area_page_at a1 (unat x)) = Some pa" using pa p(2) sz by simp
    have of: "unat (x - align_down x PAGE_SIZE) = unat x mod 4096" by (simp add: page_offset_eq unat_page_offset)
    let ?s = "s1\<lparr>frames := (frames s1)(pa_as_usize pa := overwrite (frames s1 (pa_as_usize pa)) (unat x mod 4096) d)\<rparr>"
    have pre: "unat x < unat (area_size a1)" "unat x + length d \<le> unat (area_size a1)" using o d sz by simp_all
    note P = page_write_bytes [OF S(1-3) pa1 pre(1) d(1) pre(2)]
    have "area_wrote s a ?s a1" by (rule area_wrote_trans [OF area_step_wrote [OF st] P(2) wf(1)])
    moreover have "area_byte ?s a1 j = (if unat x \<le> j \<and> j < unat x + length d then d ! (j - unat x) else area_byte s a j)" if "j < unat (area_size a)" for j
      using P(3) [of j] that sz area_step_bytes [OF st wf(1,2) ok that] by simp
    ultimately have "data_written s a (unat x) d ?s a1" by (simp add: data_written_def)
    then show "runs (bind (lift (into_kvaddr pa)) (\<lambda>v. bind (kread v) (\<lambda>bs. bind (kwrite v (overwrite bs (unat (x - align_down x PAGE_SIZE)) d)) (\<lambda>_. ret a1)))) s1
      (\<lambda>a' s'. data_written s a (unat x) d s' a')"
      by (simp add: n(1) frame_kvaddr [OF n(2)] kread_def kwrite_def runs_def bind_def ret_def of)
  qed
qed

lemma write_data_loop_ok:
  assumes "pmem_ok s" and "area_wf s a" and "framed a" and "unat x + length data \<le> unat (area_size a)"
    and "length (area_pages a) + 1 \<le> free_count s + card (set (area_owned a))"
  shows "runs (write_data_loop a x data) s (\<lambda>a' s'. data_written s a (unat x) data s' a')"
  using assms
proof (induction "length data" arbitrary: s a x data rule: less_induct)
  case less
  show ?case
  proof (cases "data = []")
    case True
    have "area_wrote s a s a" using less.prems(1,2) area_owned_live [OF less.prems(2)] by (auto simp: area_wrote_def same_area_def)
    then show ?thesis using True by (auto simp: data_written_def)
  next
    case False
    define n where "n = min (page_room x) (length data)"
    have n: "0 < n" "n \<le> length data" "unat x mod 4096 + n \<le> 4096" using False by (simp_all add: n_def page_room)
    have free: "1 \<le> free_count s" using less.prems(5) area_owned_bound [OF less.prems(2)] by simp
    have eq: "write_data_loop a x data = bind (bind (lift (va_new (va_as_usize (start a) + align_down x PAGE_SIZE))) (\<lambda>vaddr.
       bind (area_map a vaddr) (\<lambda>(paddr, a'). bind (lift (into_kvaddr paddr)) (\<lambda>v. bind (kread v) (\<lambda>bs.
       bind (kwrite v (overwrite bs (unat (x - align_down x PAGE_SIZE)) (take n data))) (\<lambda>_. ret a'))))))
       (\<lambda>a'. write_data_loop a' (x + of_nat n) (drop n data))"
      using False by (simp add: bind_assoc Let_def split_def n_def del: write_data_loop.simps) (simp add: Let_def split_def)
    have un: "unat (x + of_nat n) = unat x + n"
    proof -
      have "unat (area_size a) < 2 ^ 64" using unsigned_less [of "area_size a", where ?'a = nat] by simp
      then have b: "unat x + n < 2 ^ 64" using less.prems(4) n(2) by linarith
      have "x + of_nat n = of_nat (unat x + n)" by simp
      then show ?thesis using unat_word_of_nat [OF b] by (simp only:)
    qed
    have pre: "unat x < unat (area_size a)" "unat x mod 4096 + length (take n data) \<le> 4096" "unat x + length (take n data) \<le> unat (area_size a)"
      using n less.prems(4) by simp_all
    show ?thesis unfolding eq runs_bind [of "bind _ _"]
    proof (rule runs_mono [OF write_page_ok [OF less.prems(1-3) pre free]])
      fix a1 s1 assume w: "data_written s a (unat x) (take n data) s1 a1"
      have W: "area_wrote s a s1 a1" using w by (simp add: data_written_def)
      then have S: "pmem_ok s1" "area_wf s1 a1" "framed a1" "same_area a a1" using less.prems(3) by (simp_all add: area_wrote_def)
      have sz: "area_size a1 = area_size a" "area_pages a1 = area_pages a" using S(4) by (simp_all add: same_area_def area_pages_def)
      have "runs (write_data_loop a1 (x + of_nat n) (drop n data)) s1 (\<lambda>a' s'. data_written s1 a1 (unat (x + of_nat n)) (drop n data) s' a')"
        by (rule less.hyps) (use S n less.prems(4,5) un sz area_wrote_free [OF W less.prems(2)] in simp_all)
      then show "runs (write_data_loop a1 (x + of_nat n) (drop n data)) s1 (\<lambda>a' s'. data_written s a (unat x) data s' a')"
      proof (rule runs_mono)
        fix a2 s2 assume w2: "data_written s1 a1 (unat (x + of_nat n)) (drop n data) s2 a2"
        have "area_byte s2 a2 j = (if unat x \<le> j \<and> j < unat x + length data then data ! (j - unat x) else area_byte s a j)" if j: "j < unat (area_size a)" for j
        proof -
          have "area_byte s2 a2 j = (if unat x + n \<le> j \<and> j < unat x + length data then data ! (j - unat x) else area_byte s1 a1 j)"
            using w2 j sz(1) n(2) by (auto simp: data_written_def un)
          moreover have "area_byte s1 a1 j = (if unat x \<le> j \<and> j < unat x + n then data ! (j - unat x) else area_byte s a j)"
            using w j n(2) by (auto simp: data_written_def)
          ultimately show ?thesis using n(2) by auto
        qed
        moreover have "area_wrote s a s2 a2" using area_wrote_trans [OF W _ less.prems(2)] w2 by (simp add: data_written_def)
        ultimately show "data_written s a (unat x) data s2 a2" by (simp add: data_written_def)
      qed
    qed
  qed
qed

section \<open>Property\<close>

text \<open>C25. \<open>MapArea::write_data\<close> writes exactly the given bytes at the given offset of a framed area, across
  page boundaries: every other byte of the area is as before (zero where the page had no frame yet), no
  frame of another owner is touched, and the frames it takes were free.\<close>

theorem write_data_correct:
  assumes "pmem_ok s" and "area_wf s a" and "framed a" and "offset < area_size a"
    and "unat offset + length data \<le> unat (area_size a)" and "length (area_pages a) + 1 \<le> free_count s + card (set (area_owned a))"
  shows "runs (area_write_data a offset data) s (\<lambda>a' s'. data_written s a (unat offset) data s' a')"
proof -
  have "unat (area_size a) < 2 ^ 64" using unsigned_less [of "area_size a", where ?'a = nat] by simp
  then have b: "unat offset + length data < 2 ^ 64" using assms(5) by linarith
  have "offset + of_nat (length data) = of_nat (unat offset + length data)" by simp
  then have "unat (offset + of_nat (length data)) = unat offset + length data" using unat_word_of_nat [OF b] by (simp only:)
  then have "offset + of_nat (length data) \<le> area_size a" using assms(5) by (simp add: word_le_nat_alt)
  then show ?thesis using write_data_loop_ok [OF assms(1-3,5,6)] assms(4)
    by (simp add: area_write_data_def del: write_data_loop.simps)
qed

theorem write_data_correct_witness:
  "runs (area_write_data \<lparr>start = VirtAddr 0x1000, area_size = 0x2000, area_flags = 11, mapper = Framed []\<rparr> 0xffe [1, 2, 3, 4]) sample_pmem
     (\<lambda>a' s'. data_written sample_pmem \<lparr>start = VirtAddr 0x1000, area_size = 0x2000, area_flags = 11, mapper = Framed []\<rparr> (unat (0xffe :: u64)) [1, 2, 3, 4] s' a')"
proof -
  let ?a = "\<lparr>start = VirtAddr 0x1000, area_size = 0x2000, area_flags = 11, mapper = Framed []\<rparr>"
  have sp: "span_ok 0x1000 0x2000" by (simp add: span_ok_def is_aligned_unat in_half_def)
  have wf: "area_wf sample_pmem ?a" using sp by (simp add: area_wf_def frames_ok_def btm_ok_def owned_def)
  have "length (area_pages ?a) = 2" unfolding area_pages_def using span_pages(1) [OF sp] by simp
  then have "length (area_pages ?a) + 1 \<le> free_count sample_pmem + card (set (area_owned ?a))" by (simp add: sample_pmem_ok)
  then show ?thesis by (intro write_data_correct [OF sample_pmem_ok(1) wf]) (simp_all add: framed_def)
qed

end
