(* ===== verification/SpaceProps.thy ===== *)
theory SpaceProps
  imports SpaceClone WriteData
begin

text \<open>
  The contract of an address space: what \<open>new\<close>, \<open>insert\<close>, \<open>clone\<close> and \<open>drop\<close> do to the memory a
  program sees and to the frames of the machine.
\<close>

section \<open>A new memory set\<close>

lemma memory_set_new_ok:
  assumes "pmem_ok s" and "0 < free_count s"
  shows "runs memory_set_new s (\<lambda>ms s'. \<exists>r. frame_taken s r s' \<and> ms_rep s' ms r [r] \<and> areas ms = [] \<and> (\<forall>v. leaf s' r v = 0))"
  unfolding memory_set_new_def runs_bind
  by (rule runs_mono [OF page_table_new_ok [OF assms]]) (auto simp: ms_rep_def btm_ok_def areas_apart_def)

lemma new_framed_ok:
  assumes "span_ok a n" and "f AND 31 = f"
  shows "area_new_framed (VirtAddr a) n f = Ok \<lparr>start = VirtAddr a, area_size = n, area_flags = f, mapper = Framed []\<rparr>"
    and "area_wf s \<lparr>start = VirtAddr a, area_size = n, area_flags = f, mapper = Framed []\<rparr>"
  using assms
  by (simp_all add: area_new_framed_def assert_res_def va_is_aligned_def span_ok_def area_wf_def frames_ok_def btm_ok_def owned_def)

section \<open>Cloning\<close>

definition ms_framed :: "MemorySet \<Rightarrow> bool" where
  "ms_framed ms \<longleftrightarrow> (\<forall>a\<in>ms_areas ms. framed a)"

definition ms_pages :: "MemorySet \<Rightarrow> nat" where
  "ms_pages ms = pages_total (map snd (areas ms))"

lemma ms_starts_distinct:
  assumes "ms_rep s ms r ts"
  shows "distinct (map start (map snd (areas ms)))"
proof -
  note R = ms_repD [OF assms]
  have "map fst (areas ms) = map (start \<circ> snd) (areas ms)" using R(3) by auto
  then show ?thesis using btm_ok_distinct [OF R(2)] by (simp only: map_map)
qed

definition cloned_view :: "pmem \<Rightarrow> MemorySet \<Rightarrow> pmem \<Rightarrow> MemorySet \<Rightarrow> bool" where
  "cloned_view s ms s' ms' \<longleftrightarrow>
     (\<forall>a\<in>ms_areas ms. \<exists>b\<in>ms_areas ms'. same_area a b \<and> (\<forall>p\<in>set (area_pages a). page_bytes s' b (VirtAddr p) = page_bytes s a (VirtAddr p))) \<and>
     (\<forall>b\<in>ms_areas ms'. \<exists>a\<in>ms_areas ms. same_area a b)"

lemma memory_set_clone_ok:
  assumes rep: "ms_rep s ms r ts" and fr: "ms_framed ms" and free: "5 * ms_pages ms + 1 \<le> free_count s"
  shows "runs (memory_set_clone ms) s (\<lambda>ms' s'. \<exists>r' ts'. ms_rep s' ms' r' ts' \<and> ms_rep s' ms r ts \<and>
    cloned_view s ms s' ms' \<and> ms_framed ms' \<and>
    (set ts' \<union> ms_owned ms') \<inter> live_frames s = {} \<and> live_frames s' = live_frames s \<union> set ts' \<union> ms_owned ms' \<and>
    (\<forall>m\<in>live_frames s. frames s' (frame_pa m) = frames s (frame_pa m)))"
proof -
  note R = ms_repD [OF rep]
  have ok: "pmem_ok s" by (rule pt_repD(1) [OF R(1)])
  have f0: "0 < free_count s" using free by simp
  show ?thesis unfolding memory_set_clone_def runs_bind
  proof (rule runs_mono [OF memory_set_new_ok [OF ok f0]], elim exE conjE)
    fix ms0 s1 r' assume t: "frame_taken s r' s1" and rep0: "ms_rep s1 ms0 r' [r']" and e: "areas ms0 = []" and z: "\<forall>v. leaf s1 r' v = 0"
    have T: "r' \<notin> live_frames s" "live_frames s1 = insert r' (live_frames s)" "pmem_ok s1" "free_count s = Suc (free_count s1)" "all_frames s1 = all_frames s"
      "\<And>m. m \<in> all_frames s - {r'} \<Longrightarrow> frames s1 (frame_pa m) = frames s (frame_pa m)"
      using t by (auto simp: frame_taken_def)
    have keep1: "frames s1 (frame_pa m) = frames s (frame_pa m)" if "m \<in> live_frames s" for m
      by (rule T(6)) (use that T(1) pmem_okD(2) [OF ok that] in auto)
    have pre: "clone_pre s1 ms0 r' [r'] a" if a: "a \<in> set (map snd (areas ms))" for a
    proof -
      have i: "area_in s r ts a" using R(4) a by simp
      have w: "area_wf s a" using i by (simp add: area_in_def)
      have "framed a" using fr a by (auto simp: ms_framed_def)
      then have "area_full a" using i by (simp add: area_full_def area_in_def)
      moreover have "area_wf s1 a" by (rule area_wf_frame [OF w]) (use T(2) in auto)
      moreover have "set (area_owned a) \<inter> set [r'] = {}" using area_owned_live [OF w] T(1) by auto
      ultimately show ?thesis using z by (simp add: clone_pre_def e btm_get_def)
    qed
    have fr1: "5 * pages_total (map snd (areas ms)) \<le> free_count s1" using free T(4) by (simp add: ms_pages_def)
    have ap: "areas_apart (set (map snd (areas ms)))" using R(5) by simp
    show "runs (clone_areas ms0 (map snd (areas ms))) s1 (\<lambda>ms' s'. \<exists>r' ts'. ms_rep s' ms' r' ts' \<and> ms_rep s' ms r ts \<and>
      cloned_view s ms s' ms' \<and> ms_framed ms' \<and>
      (set ts' \<union> ms_owned ms') \<inter> live_frames s = {} \<and> live_frames s' = live_frames s \<union> set ts' \<union> ms_owned ms' \<and>
      (\<forall>m\<in>live_frames s. frames s' (frame_pa m) = frames s (frame_pa m)))"
    proof (rule runs_mono [OF clone_areas_ok [OF rep0 pre ms_starts_distinct [OF rep] ap fr1]], assumption, elim exE conjE)
      fix ms' s' ts' assume rep': "ms_rep s' ms' r' ts'" and c: "areas_cloned s1 ms0 [r'] (map snd (areas ms)) s' ms' ts'"
      note C = areas_clonedD [OF c]
      have o0: "ms_owned ms0 = {}" by (simp add: ms_owned_def e)
      have dj: "(set ts' \<union> ms_owned ms') \<inter> live_frames s = {}" using C(4) T(1,2) o0 by auto
      have keep: "frames s' (frame_pa m) = frames s (frame_pa m)" if "m \<in> live_frames s" for m
      proof -
        have "m \<in> live_frames s1 - set [r']" using that T(1,2) by auto
        from C(5) [OF this] keep1 [OF that] show ?thesis by simp
      qed
      have lv: "live_frames s' = live_frames s \<union> set ts' \<union> ms_owned ms'" using C(2,3) T(2) by auto
      have "ms_rep s' ms r ts"
        by (rule ms_rep_frame [OF rep pt_repD(1) [OF ms_repD(1) [OF rep']]]) (use lv keep pt_repD(3) [OF R(1)] in auto)
      moreover have "cloned_view s ms s' ms'" unfolding cloned_view_def
      proof (intro conjI ballI)
        fix a assume a: "a \<in> ms_areas ms"
        then obtain b where b: "b \<in> ms_areas ms'" "same_area a b" "\<forall>p\<in>set (area_pages a). page_bytes s' b (VirtAddr p) = page_bytes s1 a (VirtAddr p)"
          using C(8) [of a] by auto
        have i: "area_in s r ts a" by (rule R(4) [OF a])
        then have w: "area_wf s a" "area_full a" using a fr by (auto simp: area_in_def area_full_def ms_framed_def)
        have "page_bytes s1 a (VirtAddr p) = page_bytes s a (VirtAddr p)" if "p \<in> set (area_pages a)" for p
          by (rule page_bytes_keep [OF ok w that]) (use keep1 area_owned_live [OF w(1)] in blast)
        then show "\<exists>b\<in>ms_areas ms'. same_area a b \<and> (\<forall>p\<in>set (area_pages a). page_bytes s' b (VirtAddr p) = page_bytes s a (VirtAddr p))"
          using b by auto
      next
        fix b assume "b \<in> ms_areas ms'"
        from C(7) [OF this] show "\<exists>a\<in>ms_areas ms. same_area a b" by (auto simp: e)
      qed
      moreover have "ms_framed ms'" using C(7) by (auto simp: ms_framed_def e)
      ultimately show "\<exists>r' ts'. ms_rep s' ms' r' ts' \<and> ms_rep s' ms r ts \<and>
        cloned_view s ms s' ms' \<and> ms_framed ms' \<and>
        (set ts' \<union> ms_owned ms') \<inter> live_frames s = {} \<and> live_frames s' = live_frames s \<union> set ts' \<union> ms_owned ms' \<and>
        (\<forall>m\<in>live_frames s. frames s' (frame_pa m) = frames s (frame_pa m))" using rep' dj lv keep by blast
    qed
  qed
qed

section \<open>The memory a program sees\<close>

text \<open>The byte and the access rights at a virtual address, if it is mapped.\<close>

definition user_view :: "pmem \<Rightarrow> nat \<Rightarrow> VirtAddr \<Rightarrow> (u8 \<times> u64) option" where
  "user_view s r v = map_option (\<lambda>(pa, f). (frames s (align_down (pa_as_usize pa) PAGE_SIZE) ! unat (va_page_offset v), f)) (translate s r v)"

lemma align_down_page:
  assumes "page_frame a"
  shows "align_down (a + va_page_offset v) PAGE_SIZE = a"
proof -
  have o: "unat (va_page_offset v) < 4096" by (simp add: va_page_offset_def unat_page_offset)
  have a: "unat a = page_of a * 4096" using assms by (simp add: page_frame_def is_aligned_page)
  have "page_of (a + va_page_offset v) = page_of a" using a o page_offset_bound(1) [OF assms, of v] by (simp add: page_of_def)
  then show ?thesis using a by (simp add: word_unat_eq_iff unat_align_down)
qed

lemma area_view:
  assumes a: "area_in s r ts a" and ok: "pmem_ok s" and p: "p \<in> set (area_pages a)" and v: "vpn v = vpn (VirtAddr p)"
  shows "user_view s r v = Some (page_bytes s a (VirtAddr p) ! unat (va_page_offset v), area_flags a)"
proof -
  have w: "area_wf s a" "area_flags a AND 31 = area_flags a" using a by (simp_all add: area_in_def area_wf_def)
  obtain x where x: "area_pa a (VirtAddr p) = Some (PhysAddr x)" using a p by (metis PhysAddr.exhaust area_in_def not_None_eq)
  have f: "page_frame x" using area_pa_frame [OF ok w(1) area_page(1) [OF w(1) p] x] by simp
  have "leaf s r v = pte_new_page (PhysAddr x) (area_flags a) False"
    using a p x leaf_vpn [OF v, of s r] by (simp add: area_in_def area_entry_def)
  from translate_page [OF f w(2) this] show ?thesis
    by (simp add: user_view_def align_down_page [OF f] page_bytes_def x)
qed

lemma user_view_None: "leaf s r v = 0 \<Longrightarrow> user_view s r v = None"
  by (simp add: user_view_def translate_def)

lemma cloned_user_view:
  assumes rep: "ms_rep s ms r ts" and rep': "ms_rep s' ms' r' ts'" and c: "cloned_view s ms s' ms'"
  shows "user_view s' r' v = user_view s r v"
proof (cases "leaf s r v = 0")
  case True
  have "leaf s' r' v = 0"
  proof (rule ccontr)
    assume "leaf s' r' v \<noteq> 0"
    then obtain b where b: "b \<in> ms_areas ms'" "vpn v \<in> area_vpns b" using ms_repD(6) [OF rep'] by blast
    then obtain a where a: "a \<in> ms_areas ms" "same_area a b" using c unfolding cloned_view_def by blast
    have "vpn v \<in> area_vpns a" using a(2) b(2) by (simp add: same_area_def area_vpns_def area_pages_def)
    with area_in_leaf [OF ms_repD(4) [OF rep a(1)] pt_repD(1) [OF ms_repD(1) [OF rep]]] True show False by blast
  qed
  then show ?thesis using True by (simp add: user_view_None)
next
  case False
  then obtain a where a: "a \<in> ms_areas ms" "vpn v \<in> area_vpns a" using ms_repD(6) [OF rep] by blast
  then obtain p where p: "p \<in> set (area_pages a)" "vpn v = vpn (VirtAddr p)" by (auto simp: area_vpns_def)
  obtain b where b: "b \<in> ms_areas ms'" "same_area a b" "page_bytes s' b (VirtAddr p) = page_bytes s a (VirtAddr p)"
    using c a(1) p(1) by (fastforce simp: cloned_view_def)
  have pb: "p \<in> set (area_pages b)" "area_flags b = area_flags a" using b(2) p(1) by (simp_all add: same_area_def area_pages_def)
  show ?thesis
    using area_view [OF ms_repD(4) [OF rep a(1)] pt_repD(1) [OF ms_repD(1) [OF rep]] p]
      area_view [OF ms_repD(4) [OF rep' b(1)] pt_repD(1) [OF ms_repD(1) [OF rep']] pb(1) p(2)] b(3) pb(2) by simp
qed

section \<open>Writes of a program\<close>

text \<open>An address space looks the same as long as its tables and its pages are left alone.\<close>

lemma view_kept:
  assumes rep: "ms_rep s ms r ts" and fr: "ms_framed ms" and ok: "pmem_ok s'" and lv: "live_frames s \<subseteq> live_frames s'"
    and keep: "\<And>m. m \<in> set ts \<union> ms_owned ms \<Longrightarrow> frames s' (frame_pa m) = frames s (frame_pa m)"
  shows "ms_rep s' ms r ts" and "user_view s' r v = user_view s r v"
proof -
  show rep': "ms_rep s' ms r ts" by (rule ms_rep_frame [OF rep ok lv keep]) simp
  have "cloned_view s ms s' ms" unfolding cloned_view_def
  proof (intro conjI ballI)
    fix a assume a: "a \<in> ms_areas ms"
    note i = ms_repD(4) [OF rep a]
    then have w: "area_wf s a" "area_full a" using a fr by (auto simp: area_in_def area_full_def ms_framed_def)
    have "page_bytes s' a (VirtAddr p) = page_bytes s a (VirtAddr p)" if "p \<in> set (area_pages a)" for p
      by (rule page_bytes_keep [OF pt_repD(1) [OF ms_repD(1) [OF rep]] w that], rule keep) (use a in \<open>auto simp: ms_owned_def\<close>)
    then show "\<exists>b\<in>ms_areas ms. same_area a b \<and> (\<forall>p\<in>set (area_pages a). page_bytes s' b (VirtAddr p) = page_bytes s a (VirtAddr p))"
      using a by (auto simp: same_area_def)
  qed (auto simp: same_area_def)
  from cloned_user_view [OF rep rep' this] show "user_view s' r v = user_view s r v" .
qed

text \<open>A store of the byte \<open>b\<close> at the virtual address \<open>v\<close>, through the tables with root \<open>r\<close>.\<close>

definition user_write :: "nat \<Rightarrow> VirtAddr \<times> u8 \<Rightarrow> pmem \<Rightarrow> pmem" where
  "user_write r w s = (case translate s r (fst w) of
     None \<Rightarrow> s
   | Some (pa, f) \<Rightarrow> let base = align_down (pa_as_usize pa) PAGE_SIZE in
       s\<lparr>frames := (frames s)(base := (frames s base)[unat (va_page_offset (fst w)) := snd w])\<rparr>)"

lemma translate_owned:
  assumes rep: "ms_rep s ms r ts" and fr: "ms_framed ms" and t: "translate s r v = Some (pa, f)"
  obtains n where "n \<in> ms_owned ms" and "align_down (pa_as_usize pa) PAGE_SIZE = frame_pa n"
proof -
  have "leaf s r v \<noteq> 0" using t by (auto simp: translate_def)
  then obtain a where a: "a \<in> ms_areas ms" "vpn v \<in> area_vpns a" using ms_repD(6) [OF rep] by blast
  then obtain p where p: "p \<in> set (area_pages a)" "vpn v = vpn (VirtAddr p)" by (auto simp: area_vpns_def)
  note i = ms_repD(4) [OF rep a(1)] and ok = pt_repD(1) [OF ms_repD(1) [OF rep]]
  have w: "area_wf s a" "area_flags a AND 31 = area_flags a" using i by (simp_all add: area_in_def area_wf_def)
  have fa: "framed a" using fr a(1) by (auto simp: ms_framed_def)
  obtain y where y: "area_pa a (VirtAddr p) = Some y" using i p by (auto simp: area_in_def)
  from area_pa_owned [OF ok w(1) y fa] obtain n where n: "n \<in> set (area_owned a)" "y = PhysAddr (frame_pa n)" by blast
  have f: "page_frame (frame_pa n)" using area_pa_frame [OF ok w(1) area_page(1) [OF w(1) p(1)] y] n(2) by simp
  have "leaf s r v = pte_new_page (PhysAddr (frame_pa n)) (area_flags a) False"
    using i p y n(2) leaf_vpn [OF p(2), of s r] by (simp add: area_in_def area_entry_def)
  from translate_page [OF f w(2) this] t have "pa_as_usize pa = frame_pa n + va_page_offset v" by auto
  then have "align_down (pa_as_usize pa) PAGE_SIZE = frame_pa n" by (simp add: align_down_page [OF f])
  then show thesis using that n(1) a(1) by (auto simp: ms_owned_def)
qed

lemma user_write_frames:
  assumes rep: "ms_rep s ms r ts" and fr: "ms_framed ms"
  shows "FRAME_ALLOCATOR (user_write r w s) = FRAME_ALLOCATOR s" and "pmem_ok (user_write r w s)"
    and "m \<in> live_frames s \<Longrightarrow> m \<notin> ms_owned ms \<Longrightarrow> frames (user_write r w s) (frame_pa m) = frames s (frame_pa m)"
proof -
  have ok: "pmem_ok s" by (rule pt_repD(1) [OF ms_repD(1) [OF rep]])
  show al: "FRAME_ALLOCATOR (user_write r w s) = FRAME_ALLOCATOR s" by (simp add: user_write_def Let_def split: option.splits prod.splits)
  have len: "length (frames (user_write r w s) x) = length (frames s x)" for x by (simp add: user_write_def Let_def split: option.splits prod.splits)
  then show "pmem_ok (user_write r w s)" using ok al by (simp add: pmem_ok_def all_frames_def)
  assume m: "m \<in> live_frames s" "m \<notin> ms_owned ms"
  show "frames (user_write r w s) (frame_pa m) = frames s (frame_pa m)"
  proof (cases "translate s r (fst w)")
    case (Some q)
    obtain pa f where q: "q = (pa, f)" by (cases q)
    obtain n where n: "n \<in> ms_owned ms" "align_down (pa_as_usize pa) PAGE_SIZE = frame_pa n"
      by (rule translate_owned [OF rep fr Some [unfolded q]])
    have "n \<in> live_frames s" "n \<noteq> m" using ms_owned_live [OF rep] n(1) m(2) by auto
    then have "frame_pa m \<noteq> frame_pa n" using pmem_okD(1) [OF ok] m(1) by simp
    then show ?thesis using Some q n(2) by (simp add: user_write_def Let_def)
  qed (simp add: user_write_def)
qed

lemma user_write_rep:
  assumes rep: "ms_rep s ms r ts" and fr: "ms_framed ms"
  shows "ms_rep (user_write r w s) ms r ts"
proof -
  note U = user_write_frames [OF rep fr, where w = w]
  have "frames (user_write r w s) (frame_pa m) = frames s (frame_pa m)" if "m \<in> set ts" for m
    by (rule U(3)) (use that pt_repD(3) [OF ms_repD(1) [OF rep]] ms_owned_tables [OF rep] in auto)
  then show ?thesis using U(1,2) by (intro ms_rep_frame [OF rep]) (simp_all add: live_frames_def)
qed

lemma user_write_seen:
  assumes rep: "ms_rep s ms r ts" and fr: "ms_framed ms" and v: "user_view s r v = Some (c, f)"
  shows "user_view (user_write r (v, b) s) r v = Some (b, f)"
proof -
  obtain pa where t: "translate s r v = Some (pa, f)" using v by (auto simp: user_view_def)
  obtain n where n: "n \<in> ms_owned ms" "align_down (pa_as_usize pa) PAGE_SIZE = frame_pa n" by (rule translate_owned [OF rep fr t])
  have "n \<in> live_frames s" using ms_owned_live [OF rep] n(1) by auto
  then have len: "length (frames s (frame_pa n)) = 4096" by (rule pmem_okD(3) [OF pt_repD(1) [OF ms_repD(1) [OF rep]]])
  note U = user_write_frames [OF rep fr, where w = "(v, b)"]
  have "leaf (user_write r (v, b) s) r v = leaf s r v"
  proof (rule pt_rep_frame(2) [OF ms_repD(1) [OF rep] U(2)])
    show "set ts \<subseteq> live_frames (user_write r (v, b) s)" using pt_repD(3) [OF ms_repD(1) [OF rep]] U(1) by (simp add: live_frames_def)
    show "frames (user_write r (v, b) s) (frame_pa m) = frames s (frame_pa m)" if "m \<in> set ts" for m
      by (rule U(3)) (use that pt_repD(3) [OF ms_repD(1) [OF rep]] ms_owned_tables [OF rep] in auto)
  qed
  then have "translate (user_write r (v, b) s) r v = Some (pa, f)" using t translate_cong [of "user_write r (v, b) s" r v s] by simp
  moreover have "frames (user_write r (v, b) s) (frame_pa n) = (frames s (frame_pa n))[unat (va_page_offset v) := b]"
    using t n(2) by (simp add: user_write_def Let_def)
  moreover have "unat (va_page_offset v) < 4096" by (simp add: va_page_offset_def unat_page_offset)
  ultimately show ?thesis using n(2) len by (simp add: user_view_def)
qed

text \<open>No sequence of writes through one root shows through the other.\<close>

definition isolated :: "pmem \<Rightarrow> nat \<Rightarrow> nat \<Rightarrow> bool" where
  "isolated s r r' \<longleftrightarrow> (\<forall>ws v. user_view (fold (user_write r) ws s) r' v = user_view s r' v)"

lemma writes_isolated:
  assumes "ms_rep s ms r ts" and "ms_framed ms" and "ms_rep s ms' r' ts'" and "ms_framed ms'"
    and "(set ts' \<union> ms_owned ms') \<inter> ms_owned ms = {}"
  shows "isolated s r r'"
  unfolding isolated_def
proof (intro allI)
  fix ws v
  show "user_view (fold (user_write r) ws s) r' v = user_view s r' v" using assms(1,3)
  proof (induction ws arbitrary: s)
    case (Cons w ws)
    note U = user_write_frames [OF Cons.prems(1) assms(2), where w = w]
    have keep: "frames (user_write r w s) (frame_pa m) = frames s (frame_pa m)" if "m \<in> set ts' \<union> ms_owned ms'" for m
      by (rule U(3)) (use that assms(5) pt_repD(3) [OF ms_repD(1) [OF Cons.prems(2)]] ms_owned_live [OF Cons.prems(2)] in auto)
    have "live_frames s \<subseteq> live_frames (user_write r w s)" using U(1) by (simp add: live_frames_def)
    note K = view_kept [OF Cons.prems(2) assms(4) U(2) this keep]
    show ?case using Cons.IH [OF user_write_rep [OF Cons.prems(1) assms(2)] K(1)] K(2) by simp
  qed simp
qed

section \<open>A sample address space\<close>

definition sample_area :: MapArea where
  "sample_area = \<lparr>start = VirtAddr 0x1000, area_size = 0x1000, area_flags = 11, mapper = Framed []\<rparr>"

definition sample_ms :: "MemorySet \<times> pmem" where
  "sample_ms = (case bind memory_set_new (\<lambda>ms. memory_set_insert ms sample_area) sample_pmem of
     Ok r \<Rightarrow> r | Panic _ \<Rightarrow> (\<lparr>pt = fst sample_pt, areas = []\<rparr>, sample_pmem))"

lemma sample_span: "span_ok 0x1000 0x1000"
  by (simp add: span_ok_def is_aligned_unat in_half_def)

lemma sample_area_pages: "area_pages sample_area = [0x1000]"
proof -
  have "area_pages sample_area = page_range 0x1000 (0x1000 + 0x1000)" by (simp add: area_pages_def sample_area_def)
  also have "\<dots> = map (\<lambda>k. 0x1000 + of_nat k * PAGE_SIZE) [0..<1]" by (simp only: span_pages(1) [OF sample_span]) simp
  finally show ?thesis by simp
qed

lemma sample_area_owned: "area_owned sample_area = []"
  by (simp add: area_owned_def owned_def sample_area_def)

lemma sample_area_wf: "area_wf s sample_area"
  using new_framed_ok(2) [OF sample_span, of 11] by (simp add: sample_area_def)

lemma sample_ms_new:
  obtains ms s r where "memory_set_new sample_pmem = Ok (ms, s)" "ms_rep s ms r [r]" "areas ms = []" "\<And>v. leaf s r v = 0" "free_count s = 15"
proof -
  have "0 < free_count sample_pmem" by (simp add: sample_pmem_ok)
  from memory_set_new_ok [OF sample_pmem_ok(1) this] obtain ms s r where
    "memory_set_new sample_pmem = Ok (ms, s)" "frame_taken sample_pmem r s" "ms_rep s ms r [r]" "areas ms = []" "\<forall>v. leaf s r v = 0"
    by (auto simp: runs_iff)
  then show thesis using that [of ms s r] sample_pmem_ok(3) by (simp add: frame_taken_def)
qed

lemma sample_ms_ok:
  obtains r ts where "ms_rep (snd sample_ms) (fst sample_ms) r ts" "ms_framed (fst sample_ms)" "ms_pages (fst sample_ms) = 1" "11 \<le> free_count (snd sample_ms)"
proof -
  obtain ms s r where new: "memory_set_new sample_pmem = Ok (ms, s)" "ms_rep s ms r [r]" "areas ms = []" "\<And>v. leaf s r v = 0" "free_count s = 15"
    by (rule sample_ms_new) blast
  have "runs (memory_set_insert ms sample_area) s (\<lambda>ms' s'. inserted s ms r [r] sample_area s' ms')"
    by (rule memory_set_insert_ok [OF new(2) sample_area_wf]) (use new(3-5) sample_area_owned in \<open>simp_all add: sample_area_pages btm_get_def\<close>)
  then obtain ms' s' where ins: "memory_set_insert ms sample_area s = Ok (ms', s')" "inserted s ms r [r] sample_area s' ms'" by (auto simp: runs_iff)
  then obtain ts' a' where i: "ms_rep s' ms' r ts'" "area_mapped s r [r] sample_area (area_pages sample_area) s' ts' a'" "areas ms' = [(start sample_area, a')]"
    by (auto simp: inserted_def new(3))
  note M = area_mappedD [OF i(2)]
  have "framed a'" "length (area_pages a') = 1" using M(2,3) by (simp_all add: framed_def sample_area_def same_area_def area_pages_def sample_area_pages [unfolded area_pages_def sample_area_def, simplified])
  moreover have "fst sample_ms = ms'" "snd sample_ms = s'" using new(1) ins(1) by (simp_all add: sample_ms_def bind_def)
  moreover have "11 \<le> free_count s'" using M(11) new(5) by (simp add: sample_area_pages)
  ultimately show thesis using i(1,3) by (intro that [of r ts']) (simp_all add: ms_framed_def ms_pages_def pages_total_def)
qed

section \<open>Properties\<close>

lemma own_live: "ms_rep s ms r ts \<Longrightarrow> set ts \<union> ms_owned ms \<subseteq> live_frames s"
  using pt_repD(3) [OF ms_repD(1)] ms_owned_live by blast

lemma cloned_isolated:
  assumes rep: "ms_rep s' ms r ts" "ms_framed ms" and rep': "ms_rep s' ms' r' ts'" "ms_framed ms'"
    and old: "set ts \<union> ms_owned ms \<subseteq> live_frames s" and new: "(set ts' \<union> ms_owned ms') \<inter> live_frames s = {}"
  shows "isolated s' r r'" and "isolated s' r' r"
  by (rule writes_isolated [OF rep rep'], use old new in auto) (rule writes_isolated [OF rep' rep], use old new in auto)

text \<open>C2. \<open>MemorySet::clone\<close> (the memory of \<open>fork\<close>) gives an address space in which every virtual address
  reads as in the original, with the same rights, all of whose tables and pages are newly allocated frames of
  its own.  The original keeps its tables, its areas and its contents.  From then on no sequence of writes
  through one of the two spaces shows in the other, while each write shows in its own.\<close>

theorem clone_isolated:
  assumes "ms_rep s ms r ts" and "ms_framed ms" and "5 * ms_pages ms + 1 \<le> free_count s"
  shows "runs (memory_set_clone ms) s (\<lambda>ms' s'. \<exists>r' ts'. ms_rep s' ms' r' ts' \<and> ms_rep s' ms r ts \<and> ms_framed ms' \<and>
    (\<forall>v. user_view s' r' v = user_view s r v \<and> user_view s' r v = user_view s r v) \<and>
    (set ts' \<union> ms_owned ms') \<inter> live_frames s = {} \<and> live_frames s' = live_frames s \<union> set ts' \<union> ms_owned ms' \<and>
    isolated s' r r' \<and> isolated s' r' r \<and>
    (\<forall>v b c f. user_view s' r' v = Some (c, f) \<longrightarrow> user_view (user_write r' (v, b) s') r' v = Some (b, f)))"
proof (rule runs_mono [OF memory_set_clone_ok [OF assms]], elim exE conjE)
  fix ms' s' r' ts' assume r': "ms_rep s' ms' r' ts'" and r: "ms_rep s' ms r ts" and c: "cloned_view s ms s' ms'" and fr: "ms_framed ms'"
    and rest: "(set ts' \<union> ms_owned ms') \<inter> live_frames s = {}" "live_frames s' = live_frames s \<union> set ts' \<union> ms_owned ms'"
    and keep: "\<forall>m\<in>live_frames s. frames s' (frame_pa m) = frames s (frame_pa m)"
  note old = own_live [OF assms(1)]
  have "user_view s' r v = user_view s r v" for v
    by (rule view_kept(2) [OF assms(1,2) pt_repD(1) [OF ms_repD(1) [OF r]]]) (use rest keep old in auto)
  then show "\<exists>r' ts'. ms_rep s' ms' r' ts' \<and> ms_rep s' ms r ts \<and> ms_framed ms' \<and>
    (\<forall>v. user_view s' r' v = user_view s r v \<and> user_view s' r v = user_view s r v) \<and>
    (set ts' \<union> ms_owned ms') \<inter> live_frames s = {} \<and> live_frames s' = live_frames s \<union> set ts' \<union> ms_owned ms' \<and>
    isolated s' r r' \<and> isolated s' r' r \<and>
    (\<forall>v b c f. user_view s' r' v = Some (c, f) \<longrightarrow> user_view (user_write r' (v, b) s') r' v = Some (b, f))"
    using r r' fr rest cloned_user_view [OF assms(1) r' c] cloned_isolated [OF r assms(2) r' fr old rest(1)] user_write_seen [OF r' fr]
    by (intro exI [of _ r'] exI [of _ ts'] conjI) simp_all
qed

theorem clone_isolated_witness:
  "\<exists>r ts. runs (memory_set_clone (fst sample_ms)) (snd sample_ms) (\<lambda>ms' s'. \<exists>r' ts'. ms_rep s' ms' r' ts' \<and> ms_rep s' (fst sample_ms) r ts \<and>
    isolated s' r r' \<and> isolated s' r' r)"
proof -
  obtain r ts where r: "ms_rep (snd sample_ms) (fst sample_ms) r ts" "ms_framed (fst sample_ms)" "ms_pages (fst sample_ms) = 1" "11 \<le> free_count (snd sample_ms)"
    by (rule sample_ms_ok)
  have "5 * ms_pages (fst sample_ms) + 1 \<le> free_count (snd sample_ms)" using r(3,4) by simp
  from clone_isolated [OF r(1,2) this] have "runs (memory_set_clone (fst sample_ms)) (snd sample_ms) (\<lambda>ms' s'. \<exists>r' ts'. ms_rep s' ms' r' ts' \<and>
    ms_rep s' (fst sample_ms) r ts \<and> isolated s' r r' \<and> isolated s' r' r)" by (rule runs_mono) blast
  then show ?thesis by blast
qed

text \<open>C19. \<open>MemorySet::insert\<close> of a framed area over unmapped pages keeps the invariant of the address space
  (one owner per frame, the page table maps exactly the pages of the areas) and shows zeros, with the
  flags of the area, at every address of the area; every other address is as before.\<close>

theorem insert_view:
  assumes rep: "ms_rep s ms r ts" and sp: "span_ok a n" and f: "f AND 31 = f" and key: "btm_get (areas ms) (VirtAddr a) = None"
    and z: "\<And>p. p \<in> set (page_range a (a + n)) \<Longrightarrow> leaf s r (VirtAddr p) = 0" and free: "4 * length (page_range a (a + n)) \<le> free_count s"
  shows "runs (bind (lift (area_new_framed (VirtAddr a) n f)) (memory_set_insert ms)) s (\<lambda>ms' s'. \<exists>ts'. ms_rep s' ms' r ts' \<and>
    (\<forall>v. if vpn v \<in> vpn ` VirtAddr ` set (page_range a (a + n)) then user_view s' r v = Some (0, f) else leaf s' r v = leaf s r v))"
proof -
  let ?A = "\<lparr>start = VirtAddr a, area_size = n, area_flags = f, mapper = Framed []\<rparr>"
  have pg: "area_pages ?A = page_range a (a + n)" by (simp add: area_pages_def)
  have "runs (memory_set_insert ms ?A) s (\<lambda>ms' s'. inserted s ms r ts ?A s' ms')"
    by (rule memory_set_insert_ok [OF rep new_framed_ok(2) [OF sp f]]) (use key z free pg in \<open>simp_all add: area_owned_def owned_def\<close>)
  then show ?thesis unfolding new_framed_ok(1) [OF sp f] lift_Ok bind_ret
  proof (rule runs_mono)
    fix ms' s' assume "inserted s ms r ts ?A s' ms'"
    then obtain ts' a' where r': "ms_rep s' ms' r ts'" and m: "area_mapped s r ts ?A (area_pages ?A) s' ts' a'" and A: "ms_areas ms' = insert a' (ms_areas ms)"
      by (auto simp: inserted_def)
    note M = area_mappedD [OF m]
    have i: "area_in s' r ts' a'" using ms_repD(4) [OF r'] A by blast
    have pg': "area_pages a' = page_range a (a + n)" "area_flags a' = f" using M(2) by (simp_all add: same_area_def area_pages_def)
    have "user_view s' r v = Some (0, f)" if v: "vpn v \<in> vpn ` VirtAddr ` set (page_range a (a + n))" for v
    proof -
      from v obtain p where p: "p \<in> set (page_range a (a + n))" "vpn v = vpn (VirtAddr p)" by auto
      have "page_bytes s' a' (VirtAddr p) = replicate 4096 0" by (rule M(15)) (use p pg in \<open>auto simp: area_pa_def btm_get_def\<close>)
      moreover have "unat (va_page_offset v) < 4096" by (simp add: va_page_offset_def unat_page_offset)
      ultimately show ?thesis using area_view [OF i pt_repD(1) [OF ms_repD(1) [OF r']] _ p(2)] p(1) pg' by simp
    qed
    moreover have "leaf s' r v = leaf s r v" if "vpn v \<notin> vpn ` VirtAddr ` set (page_range a (a + n))" for v
      using that pg by (intro M(18)) simp
    ultimately show "\<exists>ts'. ms_rep s' ms' r ts' \<and> (\<forall>v. if vpn v \<in> vpn ` VirtAddr ` set (page_range a (a + n))
        then user_view s' r v = Some (0, f) else leaf s' r v = leaf s r v)" using r' by auto
  qed
qed

theorem insert_view_witness:
  "\<exists>ms s r. memory_set_new sample_pmem = Ok (ms, s) \<and>
    runs (bind (lift (area_new_framed (VirtAddr 0x1000) 0x1000 11)) (memory_set_insert ms)) s (\<lambda>ms' s'. \<exists>ts'. ms_rep s' ms' r ts' \<and>
    (\<forall>v. if vpn v \<in> vpn ` VirtAddr ` set (page_range 0x1000 (0x1000 + 0x1000)) then user_view s' r v = Some (0, 11) else leaf s' r v = leaf s r v))"
proof -
  obtain ms s r where new: "memory_set_new sample_pmem = Ok (ms, s)" "ms_rep s ms r [r]" "areas ms = []" "\<And>v. leaf s r v = 0" "free_count s = 15"
    by (rule sample_ms_new) blast
  have "length (page_range 0x1000 (0x1000 + 0x1000)) = 1" by (simp only: span_pages(1) [OF sample_span]) simp
  then have "4 * length (page_range 0x1000 (0x1000 + 0x1000)) \<le> free_count s" using new(5) by simp
  note res = insert_view [OF new(2) sample_span _ _ new(4) this, of 11]
  show ?thesis by (intro exI conjI, rule new(1), rule res) (simp_all add: btm_get_def new(3))
qed

text \<open>C8. No frame leaks.  Dropping an address space, with any number of areas, gives back exactly the frames of its
  page table and of its areas, and changes no frame but its tables; so cloning an address space and dropping
  the clone leaves the live frames and their contents as they were.\<close>

theorem drop_no_leak:
  assumes rep: "ms_rep s ms r ts"
  shows "runs (memory_set_drop ms) s (\<lambda>_ s'. live_frames s' = live_frames s - (set ts \<union> ms_owned ms) \<and> all_frames s' = all_frames s \<and>
      (\<forall>m\<in>all_frames s - set ts. frames s' (frame_pa m) = frames s (frame_pa m))) \<and>
    (ms_framed ms \<longrightarrow> 5 * ms_pages ms + 1 \<le> free_count s \<longrightarrow>
      runs (bind (memory_set_clone ms) memory_set_drop) s (\<lambda>_ s'. live_frames s' = live_frames s \<and>
        (\<forall>m\<in>live_frames s. frames s' (frame_pa m) = frames s (frame_pa m))))"
proof (intro conjI impI)
  show "runs (memory_set_drop ms) s (\<lambda>_ s'. live_frames s' = live_frames s - (set ts \<union> ms_owned ms) \<and> all_frames s' = all_frames s \<and>
      (\<forall>m\<in>all_frames s - set ts. frames s' (frame_pa m) = frames s (frame_pa m)))"
    by (rule runs_mono [OF memory_set_drop_ok [OF rep]]) simp
  assume fr: "ms_framed ms" "5 * ms_pages ms + 1 \<le> free_count s"
  have ok: "pmem_ok s" by (rule pt_repD(1) [OF ms_repD(1) [OF rep]])
  show "runs (bind (memory_set_clone ms) memory_set_drop) s (\<lambda>_ s'. live_frames s' = live_frames s \<and>
      (\<forall>m\<in>live_frames s. frames s' (frame_pa m) = frames s (frame_pa m)))"
    unfolding runs_bind
  proof (rule runs_mono [OF memory_set_clone_ok [OF rep fr]], elim exE conjE)
    fix ms' s1 r' ts' assume r': "ms_rep s1 ms' r' ts'" and new: "(set ts' \<union> ms_owned ms') \<inter> live_frames s = {}"
      and lv: "live_frames s1 = live_frames s \<union> set ts' \<union> ms_owned ms'" and keep: "\<forall>m\<in>live_frames s. frames s1 (frame_pa m) = frames s (frame_pa m)"
    have "m \<in> all_frames s1 - set ts'" if "m \<in> live_frames s" for m
      using that lv new pmem_okD(2) [OF pt_repD(1) [OF ms_repD(1) [OF r']], of m] by blast
    then show "runs (memory_set_drop ms') s1 (\<lambda>_ s'. live_frames s' = live_frames s \<and> (\<forall>m\<in>live_frames s. frames s' (frame_pa m) = frames s (frame_pa m)))"
      by (intro runs_mono [OF memory_set_drop_ok [OF r']]) (use new lv keep in auto)
  qed
qed

theorem drop_no_leak_witness:
  "\<exists>r ts. ms_rep (snd sample_ms) (fst sample_ms) r ts \<and>
    runs (memory_set_drop (fst sample_ms)) (snd sample_ms) (\<lambda>_ s'. live_frames s' = live_frames (snd sample_ms) - (set ts \<union> ms_owned (fst sample_ms))) \<and>
    runs (bind (memory_set_clone (fst sample_ms)) memory_set_drop) (snd sample_ms) (\<lambda>_ s'. live_frames s' = live_frames (snd sample_ms))"
proof -
  obtain r ts where r: "ms_rep (snd sample_ms) (fst sample_ms) r ts" "ms_framed (fst sample_ms)" "ms_pages (fst sample_ms) = 1" "11 \<le> free_count (snd sample_ms)"
    by (rule sample_ms_ok)
  have f: "5 * ms_pages (fst sample_ms) + 1 \<le> free_count (snd sample_ms)" using r(3,4) by simp
  note D = drop_no_leak [OF r(1)]
  have "runs (memory_set_drop (fst sample_ms)) (snd sample_ms) (\<lambda>_ s'. live_frames s' = live_frames (snd sample_ms) - (set ts \<union> ms_owned (fst sample_ms)))"
    by (rule runs_mono [OF conjunct1 [OF D]]) simp
  moreover have "runs (bind (memory_set_clone (fst sample_ms)) memory_set_drop) (snd sample_ms) (\<lambda>_ s'. live_frames s' = live_frames (snd sample_ms))"
    by (rule runs_mono [OF conjunct2 [OF D, rule_format, OF r(2) f]]) simp
  ultimately show ?thesis using r(1) by blast
qed

end
