(* ===== verification/Contexts.thy ===== *)
theory Contexts
  imports Address
begin

text \<open>
  Register contexts: the saved context of a kernel task and its switch (src/os/src/task/switch.rs), and
  the trap frame of a user task (src/os/src/trap/context.rs).  The two assembly routines are written
  instruction by instruction over the registers they name and over the \<open>repr(C)\<close> words of the structures.
\<close>

section \<open>Structures\<close>

record TaskContext =
  c_sp :: u64
  c_tpidr_el0 :: u64
  c_r19 :: u64
  c_r20 :: u64
  c_r21 :: u64
  c_r22 :: u64
  c_r23 :: u64
  c_r24 :: u64
  c_r25 :: u64
  c_r26 :: u64
  c_r27 :: u64
  c_r28 :: u64
  c_r29 :: u64
  c_lr :: u64
  c_ttbr0_el1 :: u64

definition ctx_words :: "TaskContext \<Rightarrow> u64 list" where
  "ctx_words c = [c_sp c, c_tpidr_el0 c, c_r19 c, c_r20 c, c_r21 c, c_r22 c, c_r23 c, c_r24 c, c_r25 c, c_r26 c,
     c_r27 c, c_r28 c, c_r29 c, c_lr c, c_ttbr0_el1 c]"

definition ctx_of_words :: "u64 list \<Rightarrow> TaskContext" where
  "ctx_of_words w = \<lparr>c_sp = w ! 0, c_tpidr_el0 = w ! 1, c_r19 = w ! 2, c_r20 = w ! 3, c_r21 = w ! 4, c_r22 = w ! 5,
     c_r23 = w ! 6, c_r24 = w ! 7, c_r25 = w ! 8, c_r26 = w ! 9, c_r27 = w ! 10, c_r28 = w ! 11, c_r29 = w ! 12,
     c_lr = w ! 13, c_ttbr0_el1 = w ! 14\<rparr>"

definition task_context_default :: TaskContext where
  "task_context_default = ctx_of_words (replicate 15 0)"

definition task_context_init :: "TaskContext \<Rightarrow> u64 \<Rightarrow> u64 \<Rightarrow> PhysAddr \<Rightarrow> TaskContext" where
  "task_context_init c entry kstack_top page_table_root =
     c\<lparr>c_sp := kstack_top, c_lr := entry, c_ttbr0_el1 := pa_as_usize page_table_root\<rparr>"

record TrapFrame =
  tf_r :: "u64 list"
  tf_usp :: u64
  tf_elr :: u64
  tf_spsr :: u64

text \<open>EL0t with debug, SError and FIQ masked and IRQ unmasked: bits 9, 8 and 6.\<close>

definition SPSR_user :: u64 where
  "SPSR_user = push_bit 9 1 OR push_bit 8 1 OR push_bit 6 1"

definition trap_frame_new_user :: "u64 \<Rightarrow> u64 \<Rightarrow> TrapFrame" where
  "trap_frame_new_user entry ustack_top =
     \<lparr>tf_r = replicate 31 0, tf_usp = ustack_top, tf_elr = entry, tf_spsr = SPSR_user\<rparr>"

definition trap_frame_new_user_arg :: "u64 \<Rightarrow> u64 \<Rightarrow> u64 \<Rightarrow> u64 \<Rightarrow> TrapFrame" where
  "trap_frame_new_user_arg entry ustack_top arg0 arg1 =
     (let tf = trap_frame_new_user entry ustack_top in tf\<lparr>tf_r := (tf_r tf)[0 := arg0, 1 := arg1]\<rparr>)"

definition trap_frame_new_fork :: "TrapFrame \<Rightarrow> TrapFrame" where
  "trap_frame_new_fork tf = tf\<lparr>tf_r := (tf_r tf)[0 := 0]\<rparr>"

section \<open>The processor\<close>

text \<open>General registers \<open>x0\<close> to \<open>x30\<close> and the system registers that the routines name; \<open>pc\<close> is where
  execution continues.\<close>

record cpu =
  x :: "nat \<Rightarrow> u64"
  sp :: u64
  tpidr_el0 :: u64
  ttbr0_el1 :: u64
  ttbr1_el1 :: u64
  sp_el0 :: u64
  elr_el1 :: u64
  spsr_el1 :: u64
  pc :: u64

text \<open>\<open>stp xa, xb, [base, off * 8]\<close> and \<open>ldp xa, xb, [base, off * 8]\<close>.\<close>

definition stp :: "cpu \<Rightarrow> nat \<Rightarrow> nat \<Rightarrow> nat \<Rightarrow> u64 list \<Rightarrow> u64 list" where
  "stp c a b off m = m[off := x c a, off + 1 := x c b]"

definition ldp :: "nat \<Rightarrow> nat \<Rightarrow> u64 list \<Rightarrow> nat \<Rightarrow> cpu \<Rightarrow> cpu" where
  "ldp a b m off c = c\<lparr>x := (x c)(a := m ! off, b := m ! (off + 1))\<rparr>"

definition context_switch :: "TaskContext \<Rightarrow> TaskContext \<Rightarrow> cpu \<Rightarrow> TaskContext \<times> cpu" where
  "context_switch current_task next_task c0 =
     (let m = ctx_words current_task;
          m = stp c0 29 30 12 m;
          m = stp c0 27 28 10 m;
          m = stp c0 25 26 8 m;
          m = stp c0 23 24 6 m;
          m = stp c0 21 22 4 m;
          m = stp c0 19 20 2 m;
          c = c0\<lparr>x := (x c0)(19 := sp c0)\<rparr>;
          c = c\<lparr>x := (x c)(20 := tpidr_el0 c)\<rparr>;
          m = stp c 19 20 0 m;
          n = ctx_words next_task;
          c = ldp 19 20 n 0 c;
          c = c\<lparr>sp := x c 19\<rparr>;
          c = c\<lparr>tpidr_el0 := x c 20\<rparr>;
          c = ldp 19 20 n 2 c;
          c = ldp 21 22 n 4 c;
          c = ldp 23 24 n 6 c;
          c = ldp 25 26 n 8 c;
          c = ldp 27 28 n 10 c;
          c = ldp 29 30 n 12 c
      in (ctx_of_words m, c\<lparr>pc := x c 30\<rparr>))"

definition activate_paging :: "u64 \<Rightarrow> bool \<Rightarrow> cpu \<Rightarrow> cpu" where
  "activate_paging page_table_root is_kernel c =
     (if is_kernel then c\<lparr>ttbr1_el1 := page_table_root\<rparr> else c\<lparr>ttbr0_el1 := page_table_root\<rparr>)"

definition task_context_switch_to :: "TaskContext \<Rightarrow> TaskContext \<Rightarrow> cpu \<Rightarrow> TaskContext \<times> cpu" where
  "task_context_switch_to self next_ctx c =
     context_switch self next_ctx (activate_paging (c_ttbr0_el1 next_ctx) False c)"

text \<open>\<open>TrapFrame::exec\<close>: \<open>x0\<close> is the trap frame, \<open>x1\<close> the top of the kernel stack.\<close>

definition tf_words :: "TrapFrame \<Rightarrow> u64 list" where
  "tf_words tf = tf_r tf @ [tf_usp tf, tf_elr tf, tf_spsr tf]"

definition trap_frame_exec :: "TrapFrame \<Rightarrow> u64 \<Rightarrow> cpu \<Rightarrow> cpu" where
  "trap_frame_exec self kstack_top c =
     (let m = tf_words self;
          c = c\<lparr>sp := kstack_top\<rparr>;
          c = ldp 30 9 m 30 c;
          c = ldp 10 11 m 32 c;
          c = c\<lparr>sp_el0 := x c 9\<rparr>;
          c = c\<lparr>elr_el1 := x c 10\<rparr>;
          c = c\<lparr>spsr_el1 := x c 11\<rparr>;
          c = ldp 28 29 m 28 c;
          c = ldp 26 27 m 26 c;
          c = ldp 24 25 m 24 c;
          c = ldp 22 23 m 22 c;
          c = ldp 20 21 m 20 c;
          c = ldp 18 19 m 18 c;
          c = ldp 16 17 m 16 c;
          c = ldp 14 15 m 14 c;
          c = ldp 12 13 m 12 c;
          c = ldp 10 11 m 10 c;
          c = ldp 8 9 m 8 c;
          c = ldp 6 7 m 6 c;
          c = ldp 4 5 m 4 c;
          c = ldp 2 3 m 2 c;
          c = ldp 0 1 m 0 c
      in c\<lparr>pc := elr_el1 c\<rparr>)"

section \<open>What is saved and what is restored\<close>

lemma ctx_words_inverse [simp]: "ctx_of_words (ctx_words c) = c"
  by (simp add: ctx_words_def ctx_of_words_def)

text \<open>The registers a context stands for: what the calling convention requires a call to preserve.\<close>

definition cpu_context :: "cpu \<Rightarrow> TaskContext" where
  "cpu_context c = \<lparr>c_sp = sp c, c_tpidr_el0 = tpidr_el0 c, c_r19 = x c 19, c_r20 = x c 20, c_r21 = x c 21, c_r22 = x c 22,
     c_r23 = x c 23, c_r24 = x c 24, c_r25 = x c 25, c_r26 = x c 26, c_r27 = x c 27, c_r28 = x c 28, c_r29 = x c 29,
     c_lr = x c 30, c_ttbr0_el1 = ttbr0_el1 c\<rparr>"

lemma context_switch_saves:
  "fst (context_switch a b c) = (cpu_context c)\<lparr>c_ttbr0_el1 := c_ttbr0_el1 a\<rparr>"
  by (simp add: context_switch_def ctx_words_def ctx_of_words_def cpu_context_def stp_def ldp_def Let_def)

lemma context_switch_restores:
  "cpu_context (snd (context_switch a b c)) = b\<lparr>c_ttbr0_el1 := ttbr0_el1 c\<rparr>" "pc (snd (context_switch a b c)) = c_lr b"
  by (simp_all add: context_switch_def ctx_words_def cpu_context_def stp_def ldp_def Let_def)

section \<open>Properties\<close>

text \<open>C24. A context switch is transparent: when a task that was switched away from (with the page table root
  it runs under) is later switched back to, from whatever state the other task left the processor in, its
  stack pointer, thread pointer, callee-saved registers and page table root are as they were, and it
  continues where it called the switch.\<close>

theorem switch_round_trip:
  assumes "c_ttbr0_el1 a = ttbr0_el1 c" and "fst (task_context_switch_to a b c) = a'"
  shows "cpu_context (snd (task_context_switch_to b' a' c')) = cpu_context c \<and> pc (snd (task_context_switch_to b' a' c')) = x c 30"
proof -
  have a': "a' = cpu_context c" using assms
    by (simp add: task_context_switch_to_def activate_paging_def context_switch_saves flip: assms(2)) (simp add: cpu_context_def)
  have "pc (snd (task_context_switch_to b' a' c')) = c_lr a'" unfolding task_context_switch_to_def by (rule context_switch_restores(2))
  moreover have "cpu_context (snd (task_context_switch_to b' a' c')) = a'"
    unfolding task_context_switch_to_def context_switch_restores(1) by (simp add: activate_paging_def)
  ultimately show ?thesis by (simp add: a') (simp add: cpu_context_def)
qed

theorem switch_round_trip_witness:
  "cpu_context (snd (task_context_switch_to task_context_default
      (fst (task_context_switch_to task_context_default task_context_default
        \<lparr>x = (\<lambda>i. of_nat i), sp = 100, tpidr_el0 = 7, ttbr0_el1 = 0, ttbr1_el1 = 1, sp_el0 = 2, elr_el1 = 3, spsr_el1 = 4, pc = 5\<rparr>))
      \<lparr>x = (\<lambda>_. 0), sp = 0, tpidr_el0 = 0, ttbr0_el1 = 9, ttbr1_el1 = 1, sp_el0 = 2, elr_el1 = 3, spsr_el1 = 4, pc = 5\<rparr>)) =
    cpu_context \<lparr>x = (\<lambda>i. of_nat i), sp = 100, tpidr_el0 = 7, ttbr0_el1 = 0, ttbr1_el1 = 1, sp_el0 = 2, elr_el1 = 3, spsr_el1 = 4, pc = 5\<rparr>"
  by (rule switch_round_trip [THEN conjunct1, OF _ refl]) (simp add: task_context_default_def ctx_of_words_def)

text \<open>C38. \<open>TrapFrame::exec\<close> enters user mode with exactly the frame: registers \<open>x0\<close> to \<open>x30\<close>, the user stack
  pointer, the entry point and the status word.\<close>

theorem exec_loads_frame:
  assumes "length (tf_r tf) = 31"
  shows "let c' = trap_frame_exec tf kstack_top c
    in map (x c') [0..<31] = tf_r tf \<and> sp_el0 c' = tf_usp tf \<and> pc c' = tf_elr tf \<and> spsr_el1 c' = tf_spsr tf \<and> sp c' = kstack_top"
proof -
  have m: "tf_words tf ! i = tf_r tf ! i" if "i < 31" for i using that assms by (simp add: tf_words_def nth_append)
  have s: "tf_words tf ! 31 = tf_usp tf" "tf_words tf ! 32 = tf_elr tf" "tf_words tf ! 33 = tf_spsr tf"
    using assms by (simp_all add: tf_words_def nth_append)
  have "map (x (trap_frame_exec tf kstack_top c)) [0..<31] = map (\<lambda>i. tf_words tf ! i) [0..<31]"
    by (simp add: trap_frame_exec_def ldp_def Let_def upt_rec numeral_eq_Suc)
  also have "\<dots> = map (\<lambda>i. tf_r tf ! i) [0..<31]" by (simp add: m)
  also have "\<dots> = tf_r tf" using assms map_nth [of "tf_r tf"] by simp
  finally show ?thesis using s by (simp add: trap_frame_exec_def ldp_def Let_def)
qed

theorem exec_loads_frame_witness:
  "length (tf_r (trap_frame_new_user_arg 0x1000 0x8000 3 0x7ff0)) = 31 \<and>
   (let c' = trap_frame_exec (trap_frame_new_user_arg 0x1000 0x8000 3 0x7ff0) 64
       \<lparr>x = (\<lambda>_. 0), sp = 0, tpidr_el0 = 0, ttbr0_el1 = 9, ttbr1_el1 = 1, sp_el0 = 2, elr_el1 = 3, spsr_el1 = 4, pc = 5\<rparr>
    in map (x c') [0..<31] = tf_r (trap_frame_new_user_arg 0x1000 0x8000 3 0x7ff0) \<and> sp_el0 c' = tf_usp (trap_frame_new_user_arg 0x1000 0x8000 3 0x7ff0) \<and>
       pc c' = tf_elr (trap_frame_new_user_arg 0x1000 0x8000 3 0x7ff0) \<and> spsr_el1 c' = tf_spsr (trap_frame_new_user_arg 0x1000 0x8000 3 0x7ff0) \<and> sp c' = 64)"
proof -
  have l: "length (tf_r (trap_frame_new_user_arg 0x1000 0x8000 3 0x7ff0)) = 31"
    by (simp add: trap_frame_new_user_arg_def trap_frame_new_user_def Let_def)
  from l exec_loads_frame [OF l] show ?thesis by blast
qed

end
