(* ===== verification/Signals.thy ===== *)
theory Signals
  imports Contexts
begin

text \<open>
  Signals (src/os/src/task/signal.rs, the signal methods of task/structs.rs, and the signal system
  calls of syscall/signal.rs that act on one task).  The state of a task is its \<open>SignalInner\<close> and,
  while a trap is handled, its trap frame; the actions belong to its process.
\<close>

section \<open>Flags and actions\<close>

abbreviation MAX_SIG :: nat where "MAX_SIG \<equiv> 31"

text \<open>\<open>1 << n\<close> on a 32-bit word; the release build takes the shift count modulo 32.\<close>

definition SIG :: "nat \<Rightarrow> u32" where
  "SIG n = push_bit (n mod 32) 1"

abbreviation "SIGDEF \<equiv> SIG 0"
abbreviation "SIGINT \<equiv> SIG 2"
abbreviation "SIGQUIT \<equiv> SIG 3"
abbreviation "SIGILL \<equiv> SIG 4"
abbreviation "SIGTRAP \<equiv> SIG 5"
abbreviation "SIGABRT \<equiv> SIG 6"
abbreviation "SIGFPE \<equiv> SIG 8"
abbreviation "SIGKILL \<equiv> SIG 9"
abbreviation "SIGSEGV \<equiv> SIG 11"
abbreviation "SIGCONT \<equiv> SIG 18"
abbreviation "SIGSTOP \<equiv> SIG 19"

text \<open>Every one of the 32 bits is a signal.\<close>

definition SIG_all :: u32 where
  "SIG_all = foldr (\<lambda>n a. SIG n OR a) [0..<32] 0"

definition KERNEL_SIGNAL :: u32 where
  "KERNEL_SIGNAL = SIGKILL OR SIGSTOP OR SIGCONT OR SIGDEF"

definition TRAP_QUIT :: u32 where
  "TRAP_QUIT = SIGQUIT OR SIGTRAP"

definition sig_contains :: "u32 \<Rightarrow> u32 \<Rightarrow> bool" where
  "sig_contains a b \<longleftrightarrow> a AND b = b"

definition sig_from_bits :: "u32 \<Rightarrow> u32 option" where
  "sig_from_bits bits = (if bits AND NOT SIG_all = 0 then Some bits else None)"

definition check_error :: "u32 \<Rightarrow> (int \<times> string) option" where
  "check_error s =
     (if sig_contains s SIGINT then Some (-2, ''Killed, SIGINT=2'')
      else if sig_contains s SIGILL then Some (-4, ''Illegal Instruction, SIGILL=4'')
      else if sig_contains s SIGABRT then Some (-6, ''Aborted, SIGABRT=6'')
      else if sig_contains s SIGFPE then Some (-8, ''Erroneous Arithmetic Operation, SIGFPE=8'')
      else if sig_contains s SIGKILL then Some (-9, ''Killed, SIGKILL=9'')
      else if sig_contains s SIGSEGV then Some (-11, ''Segmentation Fault, SIGSEGV=11'')
      else None)"

record SignalAction =
  handler :: u64
  act_mask :: u32

definition signal_action_default :: "SignalAction res" where
  "signal_action_default = bind_res (unwrap (sig_from_bits 40)) (\<lambda>m. Ok \<lparr>handler = 0, act_mask = m\<rparr>)"

type_synonym SignalActions = "SignalAction list"

definition signal_actions_default :: "SignalActions res" where
  "signal_actions_default = bind_res signal_action_default (\<lambda>a. Ok (replicate (MAX_SIG + 1) a))"

section \<open>The signals of a task\<close>

record SignalInner =
  signals :: u32
  signal_mask :: u32
  handling_sig :: "nat option"
  killed :: bool
  frozen :: bool
  mask_backup :: "u32 option"
  trapframe_backup :: "TrapFrame option"

definition signal_inner_new :: SignalInner where
  "signal_inner_new = \<lparr>signals = 0, signal_mask = 0, handling_sig = None, killed = False, frozen = False,
     mask_backup = None, trapframe_backup = None\<rparr>"

definition set_singal :: "SignalInner \<Rightarrow> u32 \<Rightarrow> SignalInner" where
  "set_singal inner signal = inner\<lparr>signals := signals inner OR signal\<rparr>"

definition singal_metadata :: "SignalActions \<Rightarrow> SignalInner \<Rightarrow> (u32 \<times> u32 option) res" where
  "singal_metadata actions inner =
     (let masked_signal = signals inner AND signal_mask inner in
      case handling_sig inner of
        Some sig \<Rightarrow> bind_res (index_res actions sig) (\<lambda>action. Ok (masked_signal, Some (act_mask action)))
      | None \<Rightarrow> Ok (masked_signal, None))"

definition kernel_signal_handler :: "SignalInner \<Rightarrow> u32 \<Rightarrow> SignalInner" where
  "kernel_signal_handler inner signal =
     (if signal = SIGSTOP then inner\<lparr>frozen := True, signals := signals inner XOR SIGSTOP\<rparr>
      else if signal = SIGCONT then
        (if sig_contains (signals inner) SIGCONT
         then inner\<lparr>signals := signals inner XOR SIGCONT, frozen := False\<rparr> else inner)
      else inner\<lparr>killed := True\<rparr>)"

definition user_signal_handler :: "SignalActions \<Rightarrow> nat \<Rightarrow> SignalInner \<Rightarrow> TrapFrame \<Rightarrow> (SignalInner \<times> TrapFrame) res" where
  "user_signal_handler actions sig inner tf =
     bind_res (index_res actions sig) (\<lambda>action.
     if handler action \<noteq> 0 then
       bind_res (unwrap (sig_from_bits (SIG sig))) (\<lambda>bit.
       bind_res (update_res (tf_r tf) 0 (of_nat sig)) (\<lambda>r.
       Ok (inner\<lparr>mask_backup := Some (signal_mask inner), signal_mask := act_mask action, handling_sig := Some sig,
             signals := signals inner XOR bit, trapframe_backup := Some tf\<rparr>,
           tf\<lparr>tf_elr := handler action, tf_r := r\<rparr>)))
     else Ok (inner, tf))"

fun check_pending_from :: "SignalActions \<Rightarrow> nat list \<Rightarrow> SignalInner \<Rightarrow> TrapFrame \<Rightarrow> (u32 option \<times> SignalInner \<times> TrapFrame) res" where
  "check_pending_from actions [] inner tf = Ok (None, inner, tf)"
| "check_pending_from actions (sig # sigs) inner tf =
     bind_res (singal_metadata actions inner) (\<lambda>(masked_singal, handling_sig_mask).
     bind_res (unwrap (sig_from_bits (SIG sig))) (\<lambda>signal.
     if sig_contains masked_singal signal \<and>
        (case handling_sig_mask of None \<Rightarrow> True | Some m \<Rightarrow> sig_contains m signal) then
       (if sig_contains KERNEL_SIGNAL signal then Ok (Some signal, kernel_signal_handler inner signal, tf)
        else bind_res (user_signal_handler actions sig inner tf) (\<lambda>(inner, tf). Ok (Some signal, inner, tf)))
     else check_pending_from actions sigs inner tf))"

definition check_pending_signals :: "SignalActions \<Rightarrow> SignalInner \<Rightarrow> TrapFrame \<Rightarrow> (u32 option \<times> SignalInner \<times> TrapFrame) res" where
  "check_pending_signals actions inner tf = check_pending_from actions [0..<MAX_SIG + 1] inner tf"

text \<open>One round of the loop of \<open>handle_signals\<close>: it ends with the error of the pending signals, or the task
  is frozen, blocks, and starts the loop again when it is next scheduled.\<close>

datatype signal_round = Handled "(int \<times> string) option" | Frozen

definition handle_signals_round :: "SignalActions \<Rightarrow> SignalInner \<Rightarrow> TrapFrame \<Rightarrow> (signal_round \<times> SignalInner \<times> TrapFrame) res" where
  "handle_signals_round actions inner tf =
     bind_res (check_pending_signals actions inner tf) (\<lambda>(_, inner, tf).
     Ok (if killed inner then Handled (check_error (signals inner))
         else if frozen inner then Frozen
         else Handled (check_error (signals inner)), inner, tf))"

section \<open>System calls on the current task\<close>

definition sys_sigprocmask :: "u32 \<Rightarrow> SignalInner \<Rightarrow> int \<times> SignalInner" where
  "sys_sigprocmask new_mask inner =
     (let old_mask = signal_mask inner in
      case sig_from_bits new_mask of
        Some flag \<Rightarrow> (uint old_mask, inner\<lparr>signal_mask := flag\<rparr>)
      | None \<Rightarrow> (-1, inner))"

definition sys_sigretrun :: "SignalInner \<Rightarrow> TrapFrame \<Rightarrow> (int \<times> SignalInner \<times> TrapFrame) res" where
  "sys_sigretrun inner tf = (case trapframe_backup inner of
     Some backup \<Rightarrow>
       bind_res (unwrap (mask_backup inner)) (\<lambda>m.
       Ok (0, inner\<lparr>trapframe_backup := None, handling_sig := None, mask_backup := None, signal_mask := m\<rparr>, backup))
   | None \<Rightarrow> Ok (-1, inner, tf))"

section \<open>Facts\<close>

lemma SIG_bit: "bit (SIG n) k \<longleftrightarrow> k = n mod 32"
  unfolding SIG_def bit_push_bit_iff bit_1_iff using mod_less_divisor [of 32 n] by auto

lemma SIG_all: "SIG_all = - 1"
proof (rule bit_word_eqI)
  fix k assume "k < LENGTH(32)"
  then have k: "k < 32" by simp
  have "bit (foldr (\<lambda>n a. SIG n OR a) ns 0) k \<longleftrightarrow> (\<exists>n\<in>set ns. k = n mod 32)" for ns
    by (induction ns) (auto simp: bit_or_iff SIG_bit)
  then have "bit SIG_all k \<longleftrightarrow> (\<exists>n\<in>set [0..<32]. k = n mod 32)" unfolding SIG_all_def .
  moreover have "k \<in> set [0..<32] \<and> k = k mod 32" using k by simp
  ultimately show "bit SIG_all k = bit (- 1 :: u32) k" using k by auto
qed

lemma sig_from_bits_Some [simp]: "sig_from_bits b = Some b"
  by (simp add: sig_from_bits_def SIG_all)

lemma sig_contains_SIG: "sig_contains a (SIG n) \<longleftrightarrow> bit a (n mod 32)"
proof -
  have "a AND SIG n = (if bit a (n mod 32) then SIG n else 0)" by (rule bit_word_eqI) (auto simp: bit_and_iff SIG_bit)
  moreover have "SIG n \<noteq> 0" using SIG_bit [of n "n mod 32"] by (metis bit_0_eq bot_apply bot_bool_def)
  ultimately show ?thesis by (simp add: sig_contains_def)
qed

text \<open>The default mask of an action is the one \<open>sigaction\<close> treats as special.\<close>

lemma default_action_mask: "signal_action_default = Ok \<lparr>handler = 0, act_mask = TRAP_QUIT\<rparr>"
proof -
  have "(40 :: u32) = TRAP_QUIT" by (simp add: TRAP_QUIT_def SIG_def)
  then show ?thesis by (simp add: signal_action_default_def unwrap_def)
qed

text \<open>Which signals reach a handler: pending, in the mask, and in the mask of the action being handled.\<close>

definition deliverable :: "SignalActions \<Rightarrow> SignalInner \<Rightarrow> nat \<Rightarrow> bool" where
  "deliverable actions inner sig \<longleftrightarrow> bit (signals inner) sig \<and> bit (signal_mask inner) sig \<and>
     (case handling_sig inner of None \<Rightarrow> True | Some h \<Rightarrow> bit (act_mask (actions ! h)) sig)"

definition actions_ok :: "SignalActions \<Rightarrow> SignalInner \<Rightarrow> bool" where
  "actions_ok actions inner \<longleftrightarrow> length actions = MAX_SIG + 1 \<and> (\<forall>h. handling_sig inner = Some h \<longrightarrow> h \<le> MAX_SIG)"

lemma metadata_ok:
  assumes "actions_ok actions inner"
  shows "singal_metadata actions inner =
    Ok (signals inner AND signal_mask inner, map_option (\<lambda>h. act_mask (actions ! h)) (handling_sig inner))"
  using assms by (auto simp: actions_ok_def singal_metadata_def index_res_def Let_def split: option.splits)

lemma check_pending_skip:
  assumes "actions_ok actions inner" and "\<forall>n\<in>set ns. n < 32 \<and> \<not> deliverable actions inner n"
  shows "check_pending_from actions (ns @ ms) inner tf = check_pending_from actions ms inner tf"
  using assms(2)
proof (induction ns)
  case (Cons n ns)
  then show ?case
    by (auto simp: metadata_ok [OF assms(1)] sig_contains_SIG deliverable_def bit_and_iff unwrap_def split: option.splits)
qed simp

lemma check_pending_hit:
  assumes "actions_ok actions inner" and "n < 32" and "deliverable actions inner n"
  shows "check_pending_from actions (n # ms) inner tf =
    (if sig_contains KERNEL_SIGNAL (SIG n) then Ok (Some (SIG n), kernel_signal_handler inner (SIG n), tf)
     else bind_res (user_signal_handler actions n inner tf) (\<lambda>(inner, tf). Ok (Some (SIG n), inner, tf)))"
  using assms(2,3)
  by (auto simp: metadata_ok [OF assms(1)] sig_contains_SIG deliverable_def bit_and_iff unwrap_def split: option.splits)

lemma KERNEL_SIGNAL_bits: "n < 32 \<Longrightarrow> sig_contains KERNEL_SIGNAL (SIG n) \<longleftrightarrow> n \<in> {0, 9, 18, 19}"
  by (auto simp: sig_contains_SIG KERNEL_SIGNAL_def bit_or_iff SIG_bit)

lemma SIG_eq: "m < 32 \<Longrightarrow> n < 32 \<Longrightarrow> SIG m = SIG n \<longleftrightarrow> m = n"
  by (metis SIG_bit mod_less)

lemma XOR_SIG: "n < 32 \<Longrightarrow> bit w n \<Longrightarrow> w XOR SIG n = unset_bit n w"
  by (rule bit_word_eqI) (auto simp: bit_xor_iff SIG_bit bit_unset_bit_iff)

text \<open>What the delivery of signal \<open>n\<close> does: 19 freezes the task, 18 lets it go on, 0 and 9 kill it, and any other
  starts the handler of the process, if it has one.\<close>

definition delivered :: "SignalActions \<Rightarrow> nat \<Rightarrow> SignalInner \<Rightarrow> TrapFrame \<Rightarrow> SignalInner \<times> TrapFrame" where
  "delivered actions n inner tf =
     (if n = 19 then (inner\<lparr>frozen := True, signals := unset_bit 19 (signals inner)\<rparr>, tf)
      else if n = 18 then (inner\<lparr>frozen := False, signals := unset_bit 18 (signals inner)\<rparr>, tf)
      else if n = 0 \<or> n = 9 then (inner\<lparr>killed := True\<rparr>, tf)
      else if handler (actions ! n) = 0 then (inner, tf)
      else (inner\<lparr>signals := unset_bit n (signals inner), handling_sig := Some n, signal_mask := act_mask (actions ! n),
              mask_backup := Some (signal_mask inner), trapframe_backup := Some tf\<rparr>,
            tf\<lparr>tf_elr := handler (actions ! n), tf_r := (tf_r tf)[0 := of_nat n]\<rparr>))"

lemma check_pending_delivers:
  assumes ok: "actions_ok actions inner" and n: "n < 32" "deliverable actions inner n" "\<forall>m<n. \<not> deliverable actions inner m"
    and r: "length (tf_r tf) = 31"
  shows "check_pending_signals actions inner tf = Ok (Some (SIG n), delivered actions n inner tf)"
proof -
  have split: "[0..<MAX_SIG + 1] = [0..<n] @ n # [Suc n..<MAX_SIG + 1]"
    using n(1) upt_add_eq_append [of 0 n "32 - n"] upt_conv_Cons [of n 32] by simp
  have len: "length actions = 32" using ok by (simp add: actions_ok_def)
  have b: "bit (signals inner) n" using n(2) by (simp add: deliverable_def)
  have "check_pending_signals actions inner tf = check_pending_from actions (n # [Suc n..<MAX_SIG + 1]) inner tf"
    unfolding check_pending_signals_def split by (rule check_pending_skip [OF ok]) (use n in auto)
  also have "\<dots> = Ok (Some (SIG n), delivered actions n inner tf)"
  proof (cases "n \<in> {0, 9, 18, 19}")
    case True
    have x: "signals inner XOR SIG n = unset_bit n (signals inner)" "sig_contains (signals inner) (SIG n)"
      using XOR_SIG [OF n(1) b] b n(1) by (simp_all add: sig_contains_SIG)
    have "kernel_signal_handler inner (SIG n) = fst (delivered actions n inner tf)" "snd (delivered actions n inner tf) = tf"
      using True x n(1) by (auto simp: kernel_signal_handler_def delivered_def SIG_eq)
    then show ?thesis using True by (simp only: check_pending_hit [OF ok n(1,2)] KERNEL_SIGNAL_bits [OF n(1)] if_True prod.collapse) (metis prod.collapse)
  next
    case False
    then have "check_pending_from actions (n # [Suc n..<MAX_SIG + 1]) inner tf =
      bind_res (user_signal_handler actions n inner tf) (\<lambda>(inner, tf). Ok (Some (SIG n), inner, tf))"
      by (simp only: check_pending_hit [OF ok n(1,2)] KERNEL_SIGNAL_bits [OF n(1)] if_False)
    then show ?thesis using False n(1) r len XOR_SIG [OF n(1) b]
      by (simp add: user_signal_handler_def delivered_def index_res_def update_res_def unwrap_def)
  qed
  finally show ?thesis .
qed

lemma check_pending_none:
  assumes "actions_ok actions inner" and "\<forall>n<32. \<not> deliverable actions inner n"
  shows "check_pending_signals actions inner tf = Ok (None, inner, tf)"
  using check_pending_skip [OF assms(1), of "[0..<32]" "[]"] assms(2) by (simp add: check_pending_signals_def)

section \<open>Properties\<close>


definition sample_actions :: SignalActions where
  "sample_actions = (replicate 32 \<lparr>handler = 0, act_mask = TRAP_QUIT\<rparr>)[10 := \<lparr>handler = 0x4000, act_mask = 0\<rparr>]"

definition sample_inner :: SignalInner where
  "sample_inner = signal_inner_new\<lparr>signals := SIG 10 OR SIG 12, signal_mask := - 1\<rparr>"

lemma sample_signal:
  "actions_ok sample_actions sample_inner" "deliverable sample_actions sample_inner 10" "\<forall>m<10. \<not> deliverable sample_actions sample_inner m"
  "handler (sample_actions ! 10) \<noteq> 0"
  by (simp_all add: actions_ok_def sample_actions_def sample_inner_def signal_inner_new_def deliverable_def bit_or_iff SIG_bit)




end
