(* ===== verification/Spin.thy ===== *)
theory Spin
  imports Prelude
begin

text \<open>
  The kernel's lock and its once-initialised cells (src/os/src/sync/spin.rs, sync/lazy_init.rs).  The
  kernel runs on one processor (\<open>MAX_CPUS\<close> is 1) and a lock is taken with interrupts masked, so while
  \<open>lock\<close> spins no other code can run: the lock bit changes only by the operations below.  The only
  choice left is the spurious failure of \<open>compare_exchange_weak\<close>, an argument here.
\<close>

section \<open>The lock\<close>

record 't SpinNoIrqLock =
  lock_bit :: bool
  lock_data :: 't

record SpinNoIrqLockGuard =
  irq_enabled_before :: bool

definition spin_new :: "'t \<Rightarrow> 't SpinNoIrqLock" where
  "spin_new d = \<lparr>lock_bit = False, lock_data = d\<rparr>"

definition spin_is_locked :: "'t SpinNoIrqLock \<Rightarrow> bool" where
  "spin_is_locked l = lock_bit l"

definition spin_force_unlock :: "'t SpinNoIrqLock \<Rightarrow> 't SpinNoIrqLock" where
  "spin_force_unlock l = l\<lparr>lock_bit := False\<rparr>"

text \<open>The loop of \<open>lock\<close>: \<open>weak i\<close> says whether the \<open>i\<close>-th exchange succeeds when the lock is free.\<close>

partial_function (option) spin_acquire :: "(nat \<Rightarrow> bool) \<Rightarrow> nat \<Rightarrow> 't SpinNoIrqLock \<Rightarrow> 't SpinNoIrqLock option" where
  "spin_acquire weak i l =
     (if \<not> lock_bit l \<and> weak i then Some (l\<lparr>lock_bit := True\<rparr>)
      else if spin_is_locked l then spin_acquire weak i l
      else spin_acquire weak (Suc i) l)"

definition spin_lock :: "(nat \<Rightarrow> bool) \<Rightarrow> 't SpinNoIrqLock \<Rightarrow> bool \<Rightarrow> (SpinNoIrqLockGuard \<times> 't SpinNoIrqLock \<times> bool) option" where
  "spin_lock weak l irqs_disabled =
     (let irq_before = \<not> irqs_disabled; irqs_disabled = True in
      map_option (\<lambda>l'. (\<lparr>irq_enabled_before = irq_before\<rparr>, l', irqs_disabled)) (spin_acquire weak 0 l))"

definition spin_try_lock :: "'t SpinNoIrqLock \<Rightarrow> bool \<Rightarrow> SpinNoIrqLockGuard option \<times> 't SpinNoIrqLock \<times> bool" where
  "spin_try_lock l irqs_disabled =
     (let irq_before = \<not> irqs_disabled; irqs_disabled = True in
      if \<not> lock_bit l then (Some \<lparr>irq_enabled_before = irq_before\<rparr>, l\<lparr>lock_bit := True\<rparr>, irqs_disabled)
      else if irq_before then (None, l, False) else (None, l, irqs_disabled))"

definition spin_guard_drop :: "SpinNoIrqLockGuard \<Rightarrow> 't SpinNoIrqLock \<Rightarrow> bool \<Rightarrow> 't SpinNoIrqLock \<times> bool" where
  "spin_guard_drop g l irqs_disabled =
     (l\<lparr>lock_bit := False\<rparr>, if irq_enabled_before g then False else irqs_disabled)"

section \<open>Lazily initialised cells\<close>

record 't LazyInit =
  inited :: bool
  lazy_data :: "'t option"

definition lazy_new :: "'t LazyInit" where
  "lazy_new = \<lparr>inited = False, lazy_data = None\<rparr>"

definition lazy_is_init :: "'t LazyInit \<Rightarrow> bool" where
  "lazy_is_init c = inited c"

definition lazy_init_by :: "'t LazyInit \<Rightarrow> 't \<Rightarrow> 't LazyInit res" where
  "lazy_init_by c d = bind_res (assert_res (\<not> lazy_is_init c)) (\<lambda>_. Ok (c\<lparr>lazy_data := Some d, inited := True\<rparr>))"

text \<open>Reading the cell before it is written would be undefined.\<close>

definition lazy_cell :: "'t LazyInit \<Rightarrow> 't res" where
  "lazy_cell c = (case lazy_data c of None \<Rightarrow> Panic Undefined_behaviour | Some d \<Rightarrow> Ok d)"

definition lazy_try_get :: "'t LazyInit \<Rightarrow> 't option res" where
  "lazy_try_get c = (if lazy_is_init c then bind_res (lazy_cell c) (\<lambda>d. Ok (Some d)) else Ok None)"

definition lazy_get :: "'t LazyInit \<Rightarrow> 't res" where
  "lazy_get c = bind_res (assert_res (lazy_is_init c)) (\<lambda>_. lazy_cell c)"

definition lazy_get_mut :: "'t LazyInit \<Rightarrow> ('t \<Rightarrow> 't) \<Rightarrow> 't LazyInit res" where
  "lazy_get_mut c f = bind_res (assert_res (lazy_is_init c)) (\<lambda>_. bind_res (lazy_cell c) (\<lambda>d. Ok (c\<lparr>lazy_data := Some (f d)\<rparr>)))"

section \<open>Properties\<close>

lemma spin_acquire_free: "\<not> lock_bit l \<Longrightarrow> weak (i + n) \<Longrightarrow> spin_acquire weak i l = Some (l\<lparr>lock_bit := True\<rparr>)"
proof (induction n arbitrary: i)
  case (Suc n)
  then show ?case by (cases "weak i") (simp_all add: spin_acquire.simps [of weak i] spin_is_locked_def)
qed (simp add: spin_acquire.simps)

lemma spin_acquire_result: "spin_acquire weak i l = Some l' \<Longrightarrow> \<not> lock_bit l \<and> l' = l\<lparr>lock_bit := True\<rparr> \<and> (\<exists>n. weak n)"
proof -
  assume a: "spin_acquire weak i l = Some l'"
  show ?thesis
    by (rule spin_acquire.raw_induct [of "\<lambda>weak i l l'. \<not> lock_bit l \<and> l' = l\<lparr>lock_bit := True\<rparr> \<and> (\<exists>n. weak n)", OF _ a])
      (auto simp: spin_is_locked_def split: if_splits)
qed

text \<open>C34. \<open>SpinNoIrqLock::lock\<close> returns exactly when the lock is free and some exchange succeeds, and then with the lock
  taken, its data untouched, interrupts masked and the former interrupt state in the guard.  On a lock that is
  held it spins for ever: with interrupts masked on the one processor nobody can release it, so no part of the
  kernel may take a lock twice.\<close>

theorem spin_lock_returns:
  "spin_lock weak l irqs_disabled =
     (if \<not> lock_bit l \<and> (\<exists>n. weak n) then Some (\<lparr>irq_enabled_before = (\<not> irqs_disabled)\<rparr>, l\<lparr>lock_bit := True\<rparr>, True) else None)"
proof (cases "spin_acquire weak 0 l")
  case None
  then have "\<not> (\<not> lock_bit l \<and> (\<exists>n. weak n))" using spin_acquire_free [of l weak 0] by fastforce
  then show ?thesis using None by (simp add: spin_lock_def Let_def)
next
  case (Some l')
  then show ?thesis using spin_acquire_result [OF Some] by (auto simp: spin_lock_def Let_def)
qed

text \<open>C35. A critical section is entered with interrupts masked and the lock held, protects the data, and when the
  guard is dropped the lock is free again and the interrupt mask is what it was; a failed \<open>try_lock\<close> changes
  nothing.\<close>

theorem spin_section:
  assumes "spin_lock weak l irqs_disabled = Some (g, l', masked)"
  shows "masked \<and> lock_bit l' \<and> lock_data l' = lock_data l \<and> fst (spin_try_lock l' masked) = None \<and> snd (spin_try_lock l' masked) = (l', masked) \<and>
    spin_guard_drop g (l'\<lparr>lock_data := d\<rparr>) masked = (l\<lparr>lock_data := d\<rparr>, irqs_disabled)"
proof -
  from assms obtain l1 where a: "spin_acquire weak 0 l = Some l1" and g: "g = \<lparr>irq_enabled_before = (\<not> irqs_disabled)\<rparr>" "l' = l1" "masked"
    by (auto simp: spin_lock_def Let_def)
  from spin_acquire_result [OF a] have "\<not> lock_bit l" "l' = l\<lparr>lock_bit := True\<rparr>" using g by auto
  moreover from this(1) have "l\<lparr>lock_bit := False, lock_data := d\<rparr> = l\<lparr>lock_data := d\<rparr>" by (cases l) simp
  ultimately show ?thesis using g by (simp add: spin_try_lock_def spin_guard_drop_def Let_def)
qed

theorem spin_section_witness:
  "spin_lock (\<lambda>i. i = 2) (spin_new (5 :: nat)) False = Some (\<lparr>irq_enabled_before = True\<rparr>, \<lparr>lock_bit = True, lock_data = 5\<rparr>, True) \<and>
   spin_guard_drop \<lparr>irq_enabled_before = True\<rparr> (\<lparr>lock_bit = True, lock_data = 5 :: nat\<rparr>\<lparr>lock_data := 6\<rparr>) True = ((spin_new 5)\<lparr>lock_data := 6\<rparr>, False)"
proof -
  have l: "spin_lock (\<lambda>i. i = 2) (spin_new (5 :: nat)) False = Some (\<lparr>irq_enabled_before = True\<rparr>, \<lparr>lock_bit = True, lock_data = 5\<rparr>, True)"
    using spin_acquire_free [of "spin_new (5 :: nat)" "\<lambda>i. i = 2" 0 2] by (simp add: spin_lock_def spin_new_def)
  from l spin_section [OF l, of 6] show ?thesis by simp
qed

end
