(* ===== verification/Pipes.thy ===== *)
theory Pipes
  imports Prelude
begin

text \<open>
  Pipes (src/os/src/fs/pipe.rs): the ring buffer, and reading and writing a pipe.  \<open>read\<close> and \<open>write\<close>
  loop, giving up the processor when the buffer is empty or full; one round of the loop, made with the
  buffer locked, is one step here, and the reader and the writer take their rounds in any order.
\<close>

section \<open>The ring buffer\<close>

abbreviation RING_BUFFER_SIZE :: nat where "RING_BUFFER_SIZE \<equiv> 256"

datatype RingBufferStatus = Full | Empty | Normal

text \<open>The weak reference to the write end is the number of the pipe object it was made from.\<close>

record PipeRingBuffer =
  arr :: bytes
  head :: nat
  tail :: nat
  status :: RingBufferStatus
  write_end :: "nat option"

definition ring_new :: PipeRingBuffer where
  "ring_new = \<lparr>arr = replicate RING_BUFFER_SIZE 0, head = 0, tail = 0, status = Empty, write_end = None\<rparr>"

definition set_write_end :: "PipeRingBuffer \<Rightarrow> nat \<Rightarrow> PipeRingBuffer" where
  "set_write_end rb p = rb\<lparr>write_end := Some p\<rparr>"

definition write_byte :: "PipeRingBuffer \<Rightarrow> u8 \<Rightarrow> PipeRingBuffer res" where
  "write_byte rb byte =
     (let rb = rb\<lparr>status := Normal\<rparr> in
      bind_res (update_res (arr rb) (tail rb) byte) (\<lambda>a.
      let rb = rb\<lparr>arr := a, tail := (tail rb + 1) mod RING_BUFFER_SIZE\<rparr> in
      Ok (if tail rb = head rb then rb\<lparr>status := Full\<rparr> else rb)))"

definition read_byte :: "PipeRingBuffer \<Rightarrow> (u8 \<times> PipeRingBuffer) res" where
  "read_byte rb =
     (let rb = rb\<lparr>status := Normal\<rparr> in
      bind_res (index_res (arr rb) (head rb)) (\<lambda>c.
      let rb = rb\<lparr>head := (head rb + 1) mod RING_BUFFER_SIZE\<rparr> in
      Ok (c, if head rb = tail rb then rb\<lparr>status := Empty\<rparr> else rb)))"

definition available_read :: "PipeRingBuffer \<Rightarrow> nat" where
  "available_read rb =
     (if status rb = Empty then 0
      else if tail rb > head rb then tail rb - head rb
      else tail rb + RING_BUFFER_SIZE - head rb)"

definition available_write :: "PipeRingBuffer \<Rightarrow> nat" where
  "available_write rb = (if status rb = Full then 0 else RING_BUFFER_SIZE - available_read rb)"

text \<open>\<open>alive p\<close>: some strong reference to pipe object \<open>p\<close> is left.\<close>

definition all_write_ends_closed :: "(nat \<Rightarrow> bool) \<Rightarrow> PipeRingBuffer \<Rightarrow> bool res" where
  "all_write_ends_closed alive rb = bind_res (unwrap (write_end rb)) (\<lambda>p. Ok (\<not> alive p))"

section \<open>The two ends\<close>

text \<open>A pipe end refers to the buffer by the number it has among the kernel's buffers.\<close>

record Pipe =
  readable :: bool
  writable :: bool
  buffer :: nat

definition read_end_with_buffer :: "nat \<Rightarrow> Pipe" where
  "read_end_with_buffer b = \<lparr>readable = True, writable = False, buffer = b\<rparr>"

definition write_end_with_buffer :: "nat \<Rightarrow> Pipe" where
  "write_end_with_buffer b = \<lparr>readable = False, writable = True, buffer = b\<rparr>"

text \<open>\<open>b\<close> is the number of the new buffer, \<open>p\<close> that of the new write end.\<close>

definition make_pipe :: "nat \<Rightarrow> nat \<Rightarrow> Pipe \<times> Pipe \<times> PipeRingBuffer" where
  "make_pipe b p = (read_end_with_buffer b, write_end_with_buffer b, set_write_end ring_new p)"

text \<open>How a round ends: \<open>return\<close>, \<open>yield_now\<close> and round again, or round again at once.\<close>

datatype round_end = Return | Yield | Continue

text \<open>The inner \<open>for\<close> of \<open>read\<close>: at most \<open>k\<close> bytes, into a buffer with \<open>n\<close> places left; \<open>got\<close> is what the
  buffer holds.\<close>

fun read_for :: "nat \<Rightarrow> nat \<Rightarrow> bytes \<Rightarrow> PipeRingBuffer \<Rightarrow> (round_end \<times> nat \<times> bytes \<times> PipeRingBuffer) res" where
  "read_for 0 n got rb = Ok (Continue, n, got, rb)"
| "read_for (Suc k) 0 got rb = Ok (Return, 0, got, rb)"
| "read_for (Suc k) (Suc n) got rb = bind_res (read_byte rb) (\<lambda>(c, rb). read_for k n (got @ [c]) rb)"

definition pipe_read_round :: "Pipe \<Rightarrow> (nat \<Rightarrow> bool) \<Rightarrow> nat \<Rightarrow> bytes \<Rightarrow> PipeRingBuffer \<Rightarrow> (round_end \<times> nat \<times> bytes \<times> PipeRingBuffer) res" where
  "pipe_read_round self alive n got rb =
     bind_res (assert_res (readable self)) (\<lambda>_.
     let loop_read = available_read rb in
     if loop_read = 0 then
       bind_res (all_write_ends_closed alive rb) (\<lambda>closed. Ok (if closed then Return else Yield, n, got, rb))
     else read_for loop_read n got rb)"

fun write_for :: "nat \<Rightarrow> bytes \<Rightarrow> PipeRingBuffer \<Rightarrow> (round_end \<times> bytes \<times> PipeRingBuffer) res" where
  "write_for 0 bs rb = Ok (Continue, bs, rb)"
| "write_for (Suc k) [] rb = Ok (Return, [], rb)"
| "write_for (Suc k) (b # bs) rb = bind_res (write_byte rb b) (\<lambda>rb. write_for k bs rb)"

definition pipe_write_round :: "Pipe \<Rightarrow> bytes \<Rightarrow> PipeRingBuffer \<Rightarrow> (round_end \<times> bytes \<times> PipeRingBuffer) res" where
  "pipe_write_round self bs rb =
     bind_res (assert_res (writable self)) (\<lambda>_.
     let loop_write = available_write rb in
     if loop_write = 0 then Ok (Yield, bs, rb) else write_for loop_write bs rb)"

section \<open>The buffer as a bounded queue\<close>

locale byte_queue =
  fixes ok :: "'q \<Rightarrow> bool"
    and contents :: "'q \<Rightarrow> bytes"
    and capacity :: nat
    and put :: "'q \<Rightarrow> u8 \<Rightarrow> 'q res"
    and get :: "'q \<Rightarrow> (u8 \<times> 'q) res"
  assumes put_ok: "ok q \<Longrightarrow> length (contents q) < capacity \<Longrightarrow> \<exists>q'. put q b = Ok q' \<and> ok q' \<and> contents q' = contents q @ [b]"
    and get_ok: "ok q \<Longrightarrow> contents q = c # cs \<Longrightarrow> \<exists>q'. get q = Ok (c, q') \<and> ok q' \<and> contents q' = cs"
    and bounded: "ok q \<Longrightarrow> length (contents q) \<le> capacity"
begin

fun put_all :: "'q \<Rightarrow> bytes \<Rightarrow> 'q res" where
  "put_all q [] = Ok q"
| "put_all q (b # bs) = bind_res (put q b) (\<lambda>q. put_all q bs)"

fun get_all :: "'q \<Rightarrow> nat \<Rightarrow> (bytes \<times> 'q) res" where
  "get_all q 0 = Ok ([], q)"
| "get_all q (Suc n) = bind_res (get q) (\<lambda>(c, q). bind_res (get_all q n) (\<lambda>(cs, q). Ok (c # cs, q)))"

lemma put_all_ok:
  "ok q \<Longrightarrow> length (contents q) + length bs \<le> capacity \<Longrightarrow> \<exists>q'. put_all q bs = Ok q' \<and> ok q' \<and> contents q' = contents q @ bs"
proof (induction bs arbitrary: q)
  case (Cons b bs)
  then obtain q1 where q1: "put q b = Ok q1" "ok q1" "contents q1 = contents q @ [b]" using put_ok [of q b] by auto
  then obtain q2 where "put_all q1 bs = Ok q2" "ok q2" "contents q2 = contents q1 @ bs" using Cons.IH [of q1] Cons.prems(2) by auto
  then show ?case using q1 by simp
qed simp

lemma get_all_ok:
  "ok q \<Longrightarrow> n \<le> length (contents q) \<Longrightarrow> \<exists>q'. get_all q n = Ok (take n (contents q), q') \<and> ok q' \<and> contents q' = drop n (contents q)"
proof (induction n arbitrary: q)
  case (Suc n)
  then obtain c cs where c: "contents q = c # cs" by (cases "contents q") auto
  then obtain q1 where q1: "get q = Ok (c, q1)" "ok q1" "contents q1 = cs" using get_ok Suc.prems(1) by blast
  then obtain q2 where "get_all q1 n = Ok (take n cs, q2)" "ok q2" "contents q2 = drop n cs" using Suc.IH [of q1] Suc.prems(2) c by auto
  then show ?case using q1 c by simp
qed simp

end

definition ring_ok :: "PipeRingBuffer \<Rightarrow> bool" where
  "ring_ok rb \<longleftrightarrow> length (arr rb) = RING_BUFFER_SIZE \<and> head rb < RING_BUFFER_SIZE \<and> tail rb < RING_BUFFER_SIZE \<and>
     (status rb = Normal \<longleftrightarrow> head rb \<noteq> tail rb)"

definition ring_contents :: "PipeRingBuffer \<Rightarrow> bytes" where
  "ring_contents rb = map (\<lambda>i. arr rb ! ((head rb + i) mod RING_BUFFER_SIZE)) [0..<available_read rb]"

lemma length_ring_contents [simp]: "length (ring_contents rb) = available_read rb"
  by (simp add: ring_contents_def)

lemma ring_nth: "i < available_read rb \<Longrightarrow> ring_contents rb ! i = arr rb ! ((head rb + i) mod RING_BUFFER_SIZE)"
  by (simp add: ring_contents_def)

lemma ring_tail:
  assumes "ring_ok rb"
  shows "available_read rb \<le> RING_BUFFER_SIZE" and "(head rb + available_read rb) mod RING_BUFFER_SIZE = tail rb"
    and "available_read rb = RING_BUFFER_SIZE \<longleftrightarrow> status rb = Full" and "available_read rb = 0 \<longleftrightarrow> status rb = Empty"
    and "available_write rb = RING_BUFFER_SIZE - available_read rb"
  using assms by (cases "status rb"; auto simp: ring_ok_def available_read_def available_write_def)+

lemma ring_write:
  assumes ok: "ring_ok rb" and room: "available_read rb < RING_BUFFER_SIZE"
  shows "\<exists>rb'. write_byte rb b = Ok rb' \<and> ring_ok rb' \<and> ring_contents rb' = ring_contents rb @ [b] \<and> write_end rb' = write_end rb"
proof -
  have nf: "status rb \<noteq> Full" using ring_tail(3) [OF ok] room by simp
  let ?t = "(tail rb + 1) mod RING_BUFFER_SIZE"
  define rb' where "rb' = rb\<lparr>status := if ?t = head rb then Full else Normal, arr := (arr rb)[tail rb := b], tail := ?t\<rparr>"
  have w: "write_byte rb b = Ok rb'" using ok by (auto simp: write_byte_def update_res_def ring_ok_def rb'_def Let_def)
  have ok': "ring_ok rb'" using ok by (auto simp: ring_ok_def rb'_def)
  have av: "available_read rb' = Suc (available_read rb)"
    using ok nf by (cases "status rb"; cases "tail rb = 255"; auto simp: ring_ok_def available_read_def rb'_def)
  have nth: "arr rb' ! ((head rb' + i) mod RING_BUFFER_SIZE) = (if i = available_read rb then b else arr rb ! ((head rb + i) mod RING_BUFFER_SIZE))"
    if i: "i \<le> available_read rb" for i
  proof -
    have len: "length (arr rb) = RING_BUFFER_SIZE" "tail rb < RING_BUFFER_SIZE" using ok by (simp_all add: ring_ok_def)
    have "(head rb + i) mod RING_BUFFER_SIZE = tail rb \<longleftrightarrow> i = available_read rb"
    proof
      assume "(head rb + i) mod RING_BUFFER_SIZE = tail rb"
      then have "(head rb + i) mod RING_BUFFER_SIZE = (head rb + available_read rb) mod RING_BUFFER_SIZE" using ring_tail(2) [OF ok] by simp
      then have "(available_read rb - i) mod RING_BUFFER_SIZE = 0" using i
        by (metis add_diff_cancel_left mod_eq_dvd_iff_nat add_le_cancel_left dvd_imp_mod_0)
      then show "i = available_read rb" using i room by simp
    qed (use ring_tail(2) [OF ok] in simp)
    then show ?thesis using len by (auto simp: rb'_def nth_list_update)
  qed
  have "ring_contents rb' = map (\<lambda>i. if i = available_read rb then b else arr rb ! ((head rb + i) mod RING_BUFFER_SIZE)) [0..<Suc (available_read rb)]"
    unfolding ring_contents_def av by (rule map_cong) (use nth in auto)
  also have "\<dots> = ring_contents rb @ [b]" by (simp add: ring_contents_def)
  finally show ?thesis using w ok' by (simp add: rb'_def)
qed

lemma ring_read:
  assumes ok: "ring_ok rb" and c: "ring_contents rb = c # cs"
  shows "\<exists>rb'. read_byte rb = Ok (c, rb') \<and> ring_ok rb' \<and> ring_contents rb' = cs \<and> write_end rb' = write_end rb"
proof -
  have pos: "0 < available_read rb" using arg_cong [OF c, of length] by simp
  then have ne: "status rb \<noteq> Empty" using ring_tail(4) [OF ok] by simp
  let ?h = "(head rb + 1) mod RING_BUFFER_SIZE"
  define rb' where "rb' = rb\<lparr>status := if ?h = tail rb then Empty else Normal, head := ?h\<rparr>"
  have hd: "head rb < RING_BUFFER_SIZE" "length (arr rb) = RING_BUFFER_SIZE" using ok by (simp_all add: ring_ok_def)
  have "c = ring_contents rb ! 0" using c by simp
  then have c0: "c = arr rb ! head rb" using pos hd by (simp add: ring_contents_def)
  have r: "read_byte rb = Ok (c, rb')" using hd c0 by (auto simp: read_byte_def index_res_def rb'_def Let_def)
  have ok': "ring_ok rb'" using ok by (auto simp: ring_ok_def rb'_def)
  have av: "available_read rb = Suc (available_read rb')"
    using ok ne by (cases "status rb"; cases "head rb = 255"; auto simp: ring_ok_def available_read_def rb'_def)
  have "ring_contents rb' = tl (ring_contents rb)"
    by (rule nth_equalityI) (simp_all add: av nth_tl ring_nth, simp add: rb'_def mod_simps)
  then show ?thesis using r ok' c by (simp add: rb'_def)
qed

interpretation rq: byte_queue ring_ok ring_contents RING_BUFFER_SIZE write_byte read_byte
  by unfold_locales (use ring_write ring_read ring_tail(1) in \<open>fastforce+\<close>)

section \<open>Rounds\<close>

lemma bind_res_assoc: "bind_res (bind_res m f) g = bind_res m (\<lambda>x. bind_res (f x) g)"
  by (cases m) simp_all

lemma write_for_put_all:
  "write_for k bs rb = bind_res (rq.put_all rb (take k bs)) (\<lambda>rb. Ok (if length bs < k then Return else Continue, drop k bs, rb))"
proof (induction k bs rb rule: write_for.induct)
  case (3 k b bs rb)
  then show ?case by (cases "write_byte rb b") simp_all
qed simp_all

lemma read_for_get_all:
  "read_for k n got rb = bind_res (rq.get_all rb (min k n)) (\<lambda>(cs, rb). Ok (if n < k then Return else Continue, n - k, got @ cs, rb))"
proof (induction k n got rb rule: read_for.induct)
  case (3 k n got rb)
  then show ?case by (cases "read_byte rb") (simp_all add: case_prod_beta bind_res_assoc)
qed simp_all

lemma write_byte_end: "write_byte rb b = Ok rb' \<Longrightarrow> write_end rb' = write_end rb"
  by (auto simp: write_byte_def Let_def update_res_def split: if_splits)

lemma read_byte_end: "read_byte rb = Ok (c, rb') \<Longrightarrow> write_end rb' = write_end rb"
  by (auto simp: read_byte_def Let_def index_res_def split: if_splits)

lemma put_all_end: "rq.put_all rb bs = Ok rb' \<Longrightarrow> write_end rb' = write_end rb"
  by (induction bs arbitrary: rb) (auto simp: bind_res_eq_Ok dest: write_byte_end)

lemma get_all_end: "rq.get_all rb n = Ok (cs, rb') \<Longrightarrow> write_end rb' = write_end rb"
  by (induction n arbitrary: rb cs) (auto simp: bind_res_eq_Ok dest!: read_byte_end)

lemma write_round_ok:
  assumes "ring_ok rb" and "writable self"
  shows "\<exists>rb'. pipe_write_round self bs rb =
      Ok (if available_write rb = 0 then Yield else if length bs < available_write rb then Return else Continue,
          drop (available_write rb) bs, rb') \<and>
    ring_ok rb' \<and> ring_contents rb' = ring_contents rb @ take (available_write rb) bs \<and> write_end rb' = write_end rb"
proof (cases "available_write rb = 0")
  case False
  have "length (ring_contents rb) + length (take (available_write rb) bs) \<le> RING_BUFFER_SIZE"
    using ring_tail(1,5) [OF assms(1)] by simp
  from rq.put_all_ok [OF assms(1) this] obtain rb' where
    p: "rq.put_all rb (take (available_write rb) bs) = Ok rb'" "ring_ok rb'"
       "ring_contents rb' = ring_contents rb @ take (available_write rb) bs" by blast
  then show ?thesis using False assms(2) put_all_end [OF p(1)]
    by (simp add: pipe_write_round_def write_for_put_all assert_res_def)
qed (use assms in \<open>simp add: pipe_write_round_def assert_res_def\<close>)

lemma read_round_ok:
  assumes "ring_ok rb" and "readable self" and "write_end rb = Some p"
  shows "\<exists>rb'. pipe_read_round self alive n got rb =
      Ok (if available_read rb = 0 then if alive p then Yield else Return
          else if n < available_read rb then Return else Continue,
          n - available_read rb, got @ take n (ring_contents rb), rb') \<and>
    ring_ok rb' \<and> ring_contents rb' = drop n (ring_contents rb) \<and> write_end rb' = Some p"
proof (cases "available_read rb = 0")
  case True
  then have "ring_contents rb = []" by (simp flip: length_ring_contents del: length_ring_contents)
  then show ?thesis using True assms
    by (simp add: pipe_read_round_def assert_res_def all_write_ends_closed_def unwrap_def)
next
  case False
  have "min (available_read rb) n \<le> length (ring_contents rb)" by simp
  from rq.get_all_ok [OF assms(1) this] obtain rb' where
    p: "rq.get_all rb (min (available_read rb) n) = Ok (take (min (available_read rb) n) (ring_contents rb), rb')" "ring_ok rb'"
       "ring_contents rb' = drop (min (available_read rb) n) (ring_contents rb)" by blast
  have "take (min (available_read rb) n) (ring_contents rb) = take n (ring_contents rb)"
    "drop (min (available_read rb) n) (ring_contents rb) = drop n (ring_contents rb)"
    by (simp_all add: min_def)
  then show ?thesis using False assms p get_all_end [OF p(1)]
    by (simp add: pipe_read_round_def read_for_get_all assert_res_def)
qed

section \<open>A reader and a writer\<close>

text \<open>One task makes \<open>write\<close> calls, another \<open>read\<close> calls, and their rounds alternate in any order.  \<open>outgoing\<close> is
  the rest of the buffer of the \<open>write\<close> in progress, \<open>incoming\<close> the free places and the bytes of the \<open>read\<close> in
  progress; \<open>written\<close> and \<open>received\<close> record the bytes handed to \<open>write\<close> and returned by \<open>read\<close> so far.\<close>

record pipe_sys =
  ring :: PipeRingBuffer
  writer_open :: bool
  outgoing :: "bytes option"
  incoming :: "(nat \<times> bytes) option"
  written :: bytes
  received :: bytes

definition pipe_start :: pipe_sys where
  "pipe_start = \<lparr>ring = snd (snd (make_pipe 0 0)), writer_open = True, outgoing = None, incoming = None, written = [], received = []\<rparr>"

inductive pipe_step :: "pipe_sys \<Rightarrow> pipe_sys \<Rightarrow> bool" where
  call_write: "writer_open s \<Longrightarrow> outgoing s = None \<Longrightarrow> pipe_step s (s\<lparr>outgoing := Some bs, written := written s @ bs\<rparr>)"
| write_more: "outgoing s = Some bs \<Longrightarrow> pipe_write_round (fst (snd (make_pipe 0 0))) bs (ring s) = Ok (e, bs', rb') \<Longrightarrow> e \<noteq> Return \<Longrightarrow>
    pipe_step s (s\<lparr>ring := rb', outgoing := Some bs'\<rparr>)"
| write_return: "outgoing s = Some bs \<Longrightarrow> pipe_write_round (fst (snd (make_pipe 0 0))) bs (ring s) = Ok (Return, bs', rb') \<Longrightarrow>
    pipe_step s (s\<lparr>ring := rb', outgoing := None\<rparr>)"
| close_write: "outgoing s = None \<Longrightarrow> pipe_step s (s\<lparr>writer_open := False\<rparr>)"
| call_read: "incoming s = None \<Longrightarrow> pipe_step s (s\<lparr>incoming := Some (n, [])\<rparr>)"
| read_more: "incoming s = Some (n, got) \<Longrightarrow> pipe_read_round (fst (make_pipe 0 0)) (\<lambda>_. writer_open s) n got (ring s) = Ok (e, n', got', rb') \<Longrightarrow> e \<noteq> Return \<Longrightarrow>
    pipe_step s (s\<lparr>ring := rb', incoming := Some (n', got')\<rparr>)"
| read_return: "incoming s = Some (n, got) \<Longrightarrow> pipe_read_round (fst (make_pipe 0 0)) (\<lambda>_. writer_open s) n got (ring s) = Ok (Return, n', got', rb') \<Longrightarrow>
    pipe_step s (s\<lparr>ring := rb', incoming := None, received := received s @ got'\<rparr>)"

inductive pipe_reach :: "pipe_sys \<Rightarrow> bool" where
  start: "pipe_reach pipe_start"
| step: "pipe_reach s \<Longrightarrow> pipe_step s t \<Longrightarrow> pipe_reach t"

definition pipe_inv :: "pipe_sys \<Rightarrow> bool" where
  "pipe_inv s \<longleftrightarrow> ring_ok (ring s) \<and> write_end (ring s) = Some 0 \<and>
     written s = received s @ (case incoming s of None \<Rightarrow> [] | Some (n, got) \<Rightarrow> got) @ ring_contents (ring s) @
       (case outgoing s of None \<Rightarrow> [] | Some bs \<Rightarrow> bs)"

lemma make_pipe_ends [simp]:
  "readable (fst (make_pipe b p))" "writable (fst (snd (make_pipe b p)))" "\<not> writable (fst (make_pipe b p))" "\<not> readable (fst (snd (make_pipe b p)))"
  by (simp_all add: make_pipe_def read_end_with_buffer_def write_end_with_buffer_def)

lemma make_pipe_ring:
  "ring_ok (snd (snd (make_pipe b p)))" "ring_contents (snd (snd (make_pipe b p))) = []" "write_end (snd (snd (make_pipe b p))) = Some p"
  by (simp_all add: make_pipe_def set_write_end_def ring_new_def ring_ok_def ring_contents_def available_read_def)

lemma write_round_inv:
  assumes "pipe_inv s" and "outgoing s = Some bs" and "pipe_write_round (fst (snd (make_pipe 0 0))) bs (ring s) = Ok (e, bs', rb')"
  shows "ring_ok rb'" "write_end rb' = Some 0" "ring_contents rb' @ bs' = ring_contents (ring s) @ bs" "e = Return \<Longrightarrow> bs' = []"
  using write_round_ok [of "ring s" "fst (snd (make_pipe 0 0))" bs] assms by (auto simp: pipe_inv_def split: if_splits)

lemma read_round_inv:
  assumes "pipe_inv s" and "incoming s = Some (n, got)" and "pipe_read_round (fst (make_pipe 0 0)) alive n got (ring s) = Ok (e, n', got', rb')"
  shows "ring_ok rb'" "write_end rb' = Some 0" "got' @ ring_contents rb' = got @ ring_contents (ring s)"
  using read_round_ok [of "ring s" "fst (make_pipe 0 0)" 0 alive n got] assms by (auto simp: pipe_inv_def split: if_splits)

lemma pipe_step_inv: "pipe_step s t \<Longrightarrow> pipe_inv s \<Longrightarrow> pipe_inv t"
proof (induction rule: pipe_step.induct)
  case (write_more s bs e bs' rb')
  then show ?case using write_round_inv [OF write_more(4,1,2)] by (simp add: pipe_inv_def)
next
  case (write_return s bs bs' rb')
  then show ?case using write_round_inv [OF write_return(3,1,2)] by (simp add: pipe_inv_def)
next
  case (read_more s n got e n' got' rb')
  then show ?case using read_round_inv [OF read_more(4,1,2)] by (simp add: pipe_inv_def)
next
  case (read_return s n got n' got' rb')
  then show ?case using read_round_inv [OF read_return(3,1,2)] by (simp add: pipe_inv_def)
qed (auto simp: pipe_inv_def)

lemma pipe_reach_inv: "pipe_reach s \<Longrightarrow> pipe_inv s"
proof (induction rule: pipe_reach.induct)
  case start
  show ?case by (simp add: pipe_start_def pipe_inv_def make_pipe_ring)
next
  case (step s t)
  then show ?case by (blast intro: pipe_step_inv)
qed

text \<open>C10.  Whatever the order of the rounds, a pipe neither loses, duplicates nor reorders a byte: the bytes
  handed to \<open>write\<close> are the bytes \<open>read\<close> has returned, then those the \<open>read\<close> in progress holds, then those in
  the ring buffer, then those the \<open>write\<close> in progress has left; and the buffer never holds more than 256.\<close>

theorem pipe_fifo:
  assumes "pipe_reach s"
  shows "written s = received s @ (case incoming s of None \<Rightarrow> [] | Some (n, got) \<Rightarrow> got) @ ring_contents (ring s) @
      (case outgoing s of None \<Rightarrow> [] | Some bs \<Rightarrow> bs) \<and>
    available_read (ring s) \<le> RING_BUFFER_SIZE \<and> available_read (ring s) + available_write (ring s) = RING_BUFFER_SIZE"
  using pipe_reach_inv [OF assms] ring_tail(1,5) [of "ring s"] by (auto simp: pipe_inv_def)

text \<open>A pipe into which the bytes 7 and 8 have been written.\<close>

lemma sample_ring:
  obtains rb where "pipe_write_round (fst (snd (make_pipe 0 0))) [7, 8] (snd (snd (make_pipe 0 0))) = Ok (Return, [], rb)"
    "ring_ok rb" "ring_contents rb = [7, 8]" "write_end rb = Some 0"
proof -
  let ?r = "snd (snd (make_pipe 0 0))"
  have "available_write ?r = 256" by (simp add: make_pipe_def set_write_end_def ring_new_def available_write_def available_read_def)
  then obtain rb where "pipe_write_round (fst (snd (make_pipe 0 0))) [7, 8] ?r = Ok (Return, [], rb)" "ring_ok rb" "ring_contents rb = ring_contents ?r @ [7, 8]"
    "write_end rb = write_end ?r" using write_round_ok [OF make_pipe_ring(1) make_pipe_ends(2), of 0 0 "[7, 8]" 0 0] by auto
  then show thesis using that make_pipe_ring(2,3) by simp
qed

lemma sample_pipe_reach:
  obtains s where "pipe_reach s" "written s = [7, 8]" "outgoing s = None" "incoming s = Some (5, [])" "received s = []"
proof -
  let ?s = "pipe_start\<lparr>outgoing := Some [7, 8], written := [7, 8]\<rparr>"
  obtain rb where rb: "pipe_write_round (fst (snd (make_pipe 0 0))) [7, 8] (ring ?s) = Ok (Return, [], rb)"
    by (rule sample_ring) (simp add: pipe_start_def)
  have "pipe_step pipe_start (pipe_start\<lparr>outgoing := Some [7, 8], written := written pipe_start @ [7, 8]\<rparr>)"
    by (rule call_write) (simp_all add: pipe_start_def)
  then have "pipe_step pipe_start ?s" by (simp add: pipe_start_def)
  then have r1: "pipe_reach ?s" by (rule pipe_reach.step [OF pipe_reach.start])
  have "pipe_step ?s (?s\<lparr>ring := rb, outgoing := None\<rparr>)" by (rule write_return [OF _ rb]) simp
  then have "pipe_reach (?s\<lparr>ring := rb, outgoing := None\<rparr>)" by (rule pipe_reach.step [OF r1])
  then have "pipe_reach (?s\<lparr>ring := rb, outgoing := None, incoming := Some (5, [])\<rparr>)"
    by (rule pipe_reach.step) (use call_read [of "?s\<lparr>ring := rb, outgoing := None\<rparr>" 5] in \<open>simp add: pipe_start_def\<close>)
  then show thesis by (rule that) (simp_all add: pipe_start_def)
qed

theorem pipe_fifo_witness:
  "\<exists>s. pipe_reach s \<and> written s = [7, 8] \<and> outgoing s = None \<and> incoming s = Some (5, []) \<and> ring_contents (ring s) = [7, 8] \<and>
    available_write (ring s) = 254"
proof -
  obtain s where s: "pipe_reach s" "written s = [7, 8]" "outgoing s = None" "incoming s = Some (5, [])" "received s = []"
    by (rule sample_pipe_reach)
  note F = pipe_fifo [OF s(1)]
  have c: "ring_contents (ring s) = [7, 8]" using F s(2-5) by simp
  have "available_read (ring s) = length (ring_contents (ring s))" by simp
  also have "\<dots> = 2" unfolding c by simp
  finally have "available_read (ring s) = 2" .
  then show ?thesis using F s c by (intro exI [of _ s]) simp
qed

text \<open>Rounds made one after the other until one returns, at most \<open>fuel\<close> of them.\<close>

fun pipe_read_rounds :: "nat \<Rightarrow> Pipe \<Rightarrow> (nat \<Rightarrow> bool) \<Rightarrow> nat \<Rightarrow> bytes \<Rightarrow> PipeRingBuffer \<Rightarrow> (bytes \<times> PipeRingBuffer) option res" where
  "pipe_read_rounds 0 self alive n got rb = Ok None"
| "pipe_read_rounds (Suc fuel) self alive n got rb = bind_res (pipe_read_round self alive n got rb) (\<lambda>(e, n, got, rb).
     if e = Return then Ok (Some (got, rb)) else pipe_read_rounds fuel self alive n got rb)"

text \<open>C36.  Once no write end is left, \<open>read\<close> returns after at most two rounds, without yielding: it delivers the
  first \<open>n\<close> bytes the buffer held, fewer when it held fewer, and leaves the others for the next call.\<close>

theorem pipe_read_closed:
  assumes "ring_ok rb" and "readable self" and "write_end rb = Some p" and "\<not> alive p"
  shows "\<exists>rb'. pipe_read_rounds 2 self alive n [] rb = Ok (Some (take n (ring_contents rb), rb')) \<and>
    ring_ok rb' \<and> ring_contents rb' = drop n (ring_contents rb)"
proof -
  obtain r1 where r1: "pipe_read_round self alive n [] rb =
      Ok (if available_read rb = 0 then Return else if n < available_read rb then Return else Continue,
          n - available_read rb, take n (ring_contents rb), r1)"
    "ring_ok r1" "ring_contents r1 = drop n (ring_contents rb)" "write_end r1 = Some p"
    using read_round_ok [OF assms(1-3), of alive n "[]"] assms(4) by auto
  obtain r2 where r2: "pipe_read_round self alive (n - available_read rb) (take n (ring_contents rb)) r1 =
      Ok (if available_read r1 = 0 then Return else if n - available_read rb < available_read r1 then Return else Continue,
          n - available_read rb - available_read r1, take n (ring_contents rb) @ take (n - available_read rb) (ring_contents r1), r2)"
    "ring_ok r2" "ring_contents r2 = drop (n - available_read rb) (ring_contents r1)"
    using read_round_ok [OF r1(2) assms(2) r1(4), of alive "n - available_read rb" "take n (ring_contents rb)"] assms(4) by auto
  have "available_read r1 = available_read rb - n" using arg_cong [OF r1(3), of length] by simp
  then show ?thesis using r1 r2 by (auto simp: numeral_2_eq_2)
qed

theorem pipe_read_closed_witness:
  "\<exists>rb rb'. ring_contents rb = [7, 8] \<and> pipe_read_rounds 2 (read_end_with_buffer 0) (\<lambda>_. False) 5 [] rb = Ok (Some ([7, 8], rb')) \<and> ring_contents rb' = []"
proof -
  obtain rb where rb: "ring_ok rb" "ring_contents rb = [7, 8]" "write_end rb = Some 0" by (rule sample_ring)
  then show ?thesis using pipe_read_closed [OF rb(1) _ rb(3), of "read_end_with_buffer 0" "\<lambda>_. False" 5]
    by (auto simp: read_end_with_buffer_def)
qed

text \<open>C39.  A \<open>write\<close> of exactly as many bytes as are free does not return when they are written: it starts
  another round, finds the buffer full and yields, with nothing left to write.  It returns only after a reader
  has taken a byte.\<close>

theorem pipe_write_exact_yields:
  assumes "ring_ok rb" and "writable self" and "length bs = available_write rb" and "bs \<noteq> []"
  shows "\<exists>rb'. pipe_write_round self bs rb = Ok (Continue, [], rb') \<and> ring_contents rb' = ring_contents rb @ bs \<and>
    pipe_write_round self [] rb' = Ok (Yield, [], rb')"
proof -
  have nz: "available_write rb \<noteq> 0" using assms(3,4) by (metis length_0_conv)
  obtain rb' where rb': "pipe_write_round self bs rb = Ok (Continue, [], rb')" "ring_ok rb'" "ring_contents rb' = ring_contents rb @ bs"
    using write_round_ok [OF assms(1,2), of bs] assms(3) nz by auto
  have "available_read rb' = available_read rb + available_write rb" using arg_cong [OF rb'(3), of length] assms(3) by simp
  then have "available_write rb' = 0" using ring_tail(1,5) [OF assms(1)] ring_tail(5) [OF rb'(2)] by simp
  then have "pipe_write_round self [] rb' = Ok (Yield, [], rb')" using assms(2) by (simp add: pipe_write_round_def assert_res_def)
  then show ?thesis using rb' by blast
qed

theorem pipe_write_exact_yields_witness:
  "\<exists>rb'. pipe_write_round (write_end_with_buffer 0) (replicate 256 1) (snd (snd (make_pipe 0 0))) = Ok (Continue, [], rb') \<and>
    pipe_write_round (write_end_with_buffer 0) [] rb' = Ok (Yield, [], rb')"
proof -
  have "available_write (snd (snd (make_pipe 0 0))) = 256"
    by (simp add: make_pipe_def set_write_end_def ring_new_def available_write_def available_read_def)
  then show ?thesis
    using pipe_write_exact_yields [of "snd (snd (make_pipe 0 0))" "write_end_with_buffer 0" "replicate 256 1"]
    by (auto simp: make_pipe_ring write_end_with_buffer_def)
qed

end
