(* ===== verification/UAccess.thy ===== *)
theory UAccess
  imports Address Layout
begin

text \<open>
  Access to the memory of user programs (src/os/src/mm/uaccess.rs).  The memory the processor sees through
  the active page tables is a partial map from addresses to a byte and whether it may be written; reading an
  unmapped address or writing one that is unmapped or read-only is a \<open>Data_abort\<close>.  A value of a Rust type
  \<open>T\<close> is its bytes; the size and the alignment of \<open>T\<close> are arguments.
\<close>

section \<open>Memory\<close>

type_synonym umem = "u64 \<Rightarrow> (u8 \<times> bool) option"

fun load_bytes :: "u64 \<Rightarrow> nat \<Rightarrow> (umem, bytes) cmd" where
  "load_bytes a 0 = ret []"
| "load_bytes a (Suc n) = (\<lambda>m. case m a of
     None \<Rightarrow> Panic Data_abort
   | Some (b, _) \<Rightarrow> bind (load_bytes (a + 1) n) (\<lambda>bs. ret (b # bs)) m)"

fun store_bytes :: "u64 \<Rightarrow> bytes \<Rightarrow> (umem, unit) cmd" where
  "store_bytes a [] = ret ()"
| "store_bytes a (b # bs) = (\<lambda>m. case m a of
     Some (_, True) \<Rightarrow> store_bytes (a + 1) bs (m(a \<mapsto> (b, True)))
   | _ \<Rightarrow> Panic Data_abort)"

section \<open>Checked copies\<close>

definition uaccess_ok :: "u64 \<Rightarrow> u64 \<Rightarrow> bool" where
  "uaccess_ok vaddr size' \<longleftrightarrow> vaddr \<noteq> 0 \<and> USER_ASPACE_START \<le> vaddr \<and> vaddr \<le> USER_ASPACE_END - size'"

definition copy_from_user :: "u64 \<Rightarrow> u64 \<Rightarrow> u64 \<Rightarrow> (umem, bytes) cmd" where
  "copy_from_user size_T usrc len =
     bind (assert_cmd (uaccess_ok usrc (len * size_T))) (\<lambda>_. load_bytes usrc (unat len * unat size_T))"

definition copy_to_user :: "u64 \<Rightarrow> u64 \<Rightarrow> bytes \<Rightarrow> u64 \<Rightarrow> (umem, unit) cmd" where
  "copy_to_user size_T udst ksrc len =
     bind (assert_cmd (uaccess_ok udst (len * size_T))) (\<lambda>_. store_bytes udst (take (unat len * unat size_T) ksrc))"

text \<open>The loop of \<open>copy_from_user_str\<close>, with \<open>n\<close> bytes still allowed: the characters before the terminator.\<close>

fun str_loop :: "nat \<Rightarrow> u64 \<Rightarrow> (umem, bytes) cmd" where
  "str_loop 0 usrc = ret []"
| "str_loop (Suc n) usrc =
     bind (assert_cmd (usrc < USER_ASPACE_END)) (\<lambda>_. bind (load_bytes usrc 1) (\<lambda>bs.
     let c = hd bs in
     if c = 0 then ret [] else bind (str_loop n (usrc + 1)) (\<lambda>cs. ret (c # cs))))"

text \<open>\<open>kdst\<close> is the kernel buffer; the result is the buffer with the copied string and its length.\<close>

definition copy_from_user_str :: "bytes \<Rightarrow> u64 \<Rightarrow> nat \<Rightarrow> (umem, bytes \<times> nat) cmd" where
  "copy_from_user_str kdst usrc max_len =
     bind (assert_cmd (uaccess_ok usrc 1)) (\<lambda>_. bind (str_loop max_len usrc) (\<lambda>cs.
     bind (lift (copy_slice_res kdst 0 (length cs + 1) (cs @ [0]))) (\<lambda>kdst. ret (kdst, length cs))))"

section \<open>User pointers\<close>

datatype UserPtr = UserPtr (ptr: u64)

definition user_ptr_from :: "u64 \<Rightarrow> UserPtr" where
  "user_ptr_from user_vaddr = UserPtr user_vaddr"

definition ptr_is_null :: "UserPtr \<Rightarrow> bool" where
  "ptr_is_null p \<longleftrightarrow> ptr p = 0"

definition ptr_check :: "u64 \<Rightarrow> UserPtr \<Rightarrow> bool" where
  "ptr_check align_T p \<longleftrightarrow> uaccess_ok (ptr p) 1 \<and> ptr p mod align_T = 0"

definition ptr_as_slice :: "u64 \<Rightarrow> UserPtr \<Rightarrow> u64 \<Rightarrow> (umem, bytes) cmd" where
  "ptr_as_slice size_T p len =
     (if len = 0 then ret []
      else bind (assert_cmd (uaccess_ok (ptr p) len)) (\<lambda>_. load_bytes (ptr p) (unat len * unat size_T)))"

definition ptr_add :: "u64 \<Rightarrow> UserPtr \<Rightarrow> u64 \<Rightarrow> UserPtr" where
  "ptr_add size_T p count = UserPtr (ptr p + count * size_T)"

definition ptr_read :: "u64 \<Rightarrow> u64 \<Rightarrow> UserPtr \<Rightarrow> (umem, bytes) cmd" where
  "ptr_read size_T align_T p = bind (assert_cmd (ptr_check align_T p)) (\<lambda>_. copy_from_user size_T (ptr p) 1)"

text \<open>\<open>uninit\<close> is what the array of \<open>N\<close> elements holds before the copy.\<close>

definition ptr_read_array :: "bytes \<Rightarrow> u64 \<Rightarrow> u64 \<Rightarrow> u64 \<Rightarrow> UserPtr \<Rightarrow> u64 \<Rightarrow> (umem, bytes) cmd" where
  "ptr_read_array uninit N size_T align_T p max_len =
     bind (assert_cmd (ptr_check align_T p)) (\<lambda>_.
     bind (copy_from_user size_T (ptr p) (min max_len N)) (\<lambda>bs. ret (overwrite uninit 0 bs)))"

definition ptr_read_str :: "bytes \<Rightarrow> UserPtr \<Rightarrow> (umem, bytes \<times> nat) cmd" where
  "ptr_read_str uninit p =
     bind (assert_cmd (ptr_check 1 p)) (\<lambda>_. copy_from_user_str uninit (ptr p) (length uninit - 1))"

text \<open>\<open>from_utf8(..).map_err(..)\<close>: an error is the value \<open>None\<close>.\<close>

definition ptr_as_str :: "UserPtr \<Rightarrow> u64 \<Rightarrow> (umem, bytes option) cmd" where
  "ptr_as_str p len =
     bind (assert_cmd (ptr_check 1 p)) (\<lambda>_. bind (ptr_as_slice 1 p len) (\<lambda>bs.
     ret (if utf8_valid bs then Some bs else None)))"

text \<open>The search of \<open>as_c_str\<close> for the terminator.  It has no bound: it ends at a zero byte or at an unmapped
  address, and \<open>None\<close> is a search that does neither.\<close>

partial_function (option) find_nul :: "umem \<Rightarrow> u64 \<Rightarrow> u64 \<Rightarrow> u64 res option" where
  "find_nul m p i = (case m (p + i) of
     None \<Rightarrow> Some (Panic Data_abort)
   | Some (b, _) \<Rightarrow> if b = 0 then Some (Ok i) else find_nul m p (i + 1))"

definition ptr_as_c_str :: "UserPtr \<Rightarrow> umem \<Rightarrow> bytes option res option" where
  "ptr_as_c_str p m = (case find_nul m (ptr p) 0 of
     None \<Rightarrow> None
   | Some r \<Rightarrow> Some (bind_res r (\<lambda>len. bind_res (ptr_as_str p len m) (\<lambda>(s, _). Ok s))))"

definition ptr_read_c_str :: "UserPtr \<Rightarrow> umem \<Rightarrow> bytes option res option" where
  "ptr_read_c_str p m = ptr_as_c_str p m"

definition ptr_write :: "u64 \<Rightarrow> u64 \<Rightarrow> UserPtr \<Rightarrow> bytes \<Rightarrow> (umem, unit) cmd" where
  "ptr_write size_T align_T p v = bind (assert_cmd (ptr_check align_T p)) (\<lambda>_. copy_to_user size_T (ptr p) v 1)"

text \<open>\<open>buf\<close> holds the bytes of \<open>n\<close> elements.\<close>

definition ptr_write_buf :: "u64 \<Rightarrow> u64 \<Rightarrow> UserPtr \<Rightarrow> bytes \<Rightarrow> u64 \<Rightarrow> (umem, unit) cmd" where
  "ptr_write_buf size_T align_T p buf n =
     bind (assert_cmd (ptr_check align_T p)) (\<lambda>_. copy_to_user size_T (ptr p) buf n)"

section \<open>Facts\<close>

text \<open>Where an access of \<open>n\<close> bytes at \<open>a\<close> goes, when it does not run past the end of the address space.\<close>

definition readable_at :: "umem \<Rightarrow> u64 \<Rightarrow> nat \<Rightarrow> bool" where
  "readable_at m a n \<longleftrightarrow> (\<forall>i<n. m (a + of_nat i) \<noteq> None)"

definition writable_at :: "umem \<Rightarrow> u64 \<Rightarrow> nat \<Rightarrow> bool" where
  "writable_at m a n \<longleftrightarrow> (\<forall>i<n. \<exists>b. m (a + of_nat i) = Some (b, True))"

definition bytes_at :: "umem \<Rightarrow> u64 \<Rightarrow> nat \<Rightarrow> bytes" where
  "bytes_at m a n = map (\<lambda>i. fst (the (m (a + of_nat i)))) [0..<n]"

lemma bytes_at_Suc: "bytes_at m a (Suc n) = fst (the (m a)) # bytes_at m (a + 1) n"
proof -
  have "map (\<lambda>i. fst (the (m (a + of_nat i)))) [0..<Suc n] =
    fst (the (m (a + of_nat 0))) # map (\<lambda>i. fst (the (m (a + of_nat (Suc i))))) [0..<n]"
    by (simp only: upt_conv_Cons zero_less_Suc list.map map_Suc_upt [symmetric] map_map o_def)
  then show ?thesis by (simp add: bytes_at_def add.assoc add.commute add.left_commute del: upt_Suc)
qed

lemma all_less_Suc0: "(\<forall>i<Suc n. P i) \<longleftrightarrow> P 0 \<and> (\<forall>i<n. P (Suc i))"
  by (metis All_less_Suc2)

lemma load_bytes_ok: "readable_at m a n \<Longrightarrow> load_bytes a n m = Ok (bytes_at m a n, m)"
proof (induction n arbitrary: a)
  case 0
  then show ?case by (simp add: ret_def bytes_at_def)
next
  case (Suc n)
  then have "m a \<noteq> None" "readable_at m (a + 1) n" by (simp_all add: readable_at_def all_less_Suc0 algebra_simps)
  then show ?case using Suc.IH by (auto simp: bind_def ret_def bytes_at_Suc)
qed

lemma store_bytes_ok:
  assumes "writable_at m a (length bs)" and "length bs < 2 ^ 64"
  shows "\<exists>m'. store_bytes a bs m = Ok ((), m') \<and> bytes_at m' a (length bs) = bs \<and>
    (\<forall>x. x \<notin> (\<lambda>i. a + of_nat i) ` {..<length bs} \<longrightarrow> m' x = m x)"
  using assms
proof (induction bs arbitrary: a m)
  case Nil
  then show ?case by (simp add: ret_def bytes_at_def)
next
  case (Cons b bs)
  obtain b0 where b0: "m a = Some (b0, True)" using Cons.prems(1) by (auto simp: writable_at_def all_less_Suc0)
  let ?m = "m(a \<mapsto> (b, True))"
  have "writable_at ?m (a + 1) (length bs)" using Cons.prems(1) by (auto simp: writable_at_def all_less_Suc0 algebra_simps)
  moreover have "length bs < 2 ^ 64" using Cons.prems(2) by simp
  ultimately obtain m' where
    m': "store_bytes (a + 1) bs ?m = Ok ((), m')" "bytes_at m' (a + 1) (length bs) = bs"
      "\<forall>x. x \<notin> (\<lambda>i. (a + 1) + of_nat i) ` {..<length bs} \<longrightarrow> m' x = ?m x" using Cons.IH by blast
  have fresh: "a \<notin> (\<lambda>i. (a + 1) + of_nat i) ` {..<length bs}"
  proof
    assume "a \<in> (\<lambda>i. (a + 1) + of_nat i) ` {..<length bs}"
    then obtain i where i: "i < length bs" "a = a + 1 + of_nat i" by auto
    then have "(of_nat (Suc i) :: u64) = 0" by (simp add: algebra_simps)
    then have "2 ^ 64 dvd Suc i" by (simp add: word_of_nat_eq_0_iff del: of_nat_Suc)
    then show False using i(1) Cons.prems(2) by (auto dest: dvd_imp_le)
  qed
  then have "m' a = Some (b, True)" using m'(3) by simp
  then have bs: "bytes_at m' a (length (b # bs)) = b # bs" using m'(2) by (simp add: bytes_at_Suc)
  have "m' x = m x" if x: "x \<notin> (\<lambda>i. a + of_nat i) ` {..<length (b # bs)}" for x
  proof -
    have "x \<noteq> a" using x by force
    moreover have "x \<notin> (\<lambda>i. (a + 1) + of_nat i) ` {..<length bs}"
    proof
      assume "x \<in> (\<lambda>i. (a + 1) + of_nat i) ` {..<length bs}"
      then obtain i where "i < length bs" "x = a + of_nat (Suc i)" by (auto simp: algebra_simps)
      then have "x \<in> (\<lambda>i. a + of_nat i) ` {..<length (b # bs)}" by (intro image_eqI [of _ _ "Suc i"]) auto
      then show False using x by blast
    qed
    ultimately show ?thesis using m'(3) by simp
  qed
  then show ?case using b0 m'(1) bs by auto
qed

lemma store_bytes_abort: "\<not> writable_at m a (length bs) \<Longrightarrow> store_bytes a bs m = Panic Data_abort"
proof (induction bs arbitrary: a m)
  case Nil
  then show ?case by (simp add: writable_at_def)
next
  case (Cons b bs)
  show ?case
  proof (cases "\<exists>c. m a = Some (c, True)")
    case True
    then have "\<not> writable_at m (a + 1) (length bs)" using Cons.prems by (auto simp: writable_at_def all_less_Suc0 algebra_simps)
    moreover have "writable_at m (a + 1) (length bs)" if w: "writable_at (m(a \<mapsto> (b, True))) (a + 1) (length bs)"
      unfolding writable_at_def
    proof (intro allI impI)
      fix i assume "i < length bs"
      then have "\<exists>c. (m(a \<mapsto> (b, True))) (a + 1 + of_nat i) = Some (c, True)" using w by (simp add: writable_at_def)
      then show "\<exists>c. m (a + 1 + of_nat i) = Some (c, True)"
      proof (cases "a + 1 + of_nat i = a")
        case eq: True
        show ?thesis unfolding eq by (rule True)
      qed (simp add: fun_upd_apply)
    qed
    ultimately have "\<not> writable_at (m(a \<mapsto> (b, True))) (a + 1) (length bs)" by blast
    then show ?thesis using True Cons.IH by auto
  next
    case False
    then show ?thesis by (auto split: option.splits bool.splits)
  qed
qed

lemma in_range_unat:
  assumes "unat p + n < 2 ^ 64"
  shows "x \<in> (\<lambda>i. p + of_nat i) ` {..<n} \<longleftrightarrow> unat p \<le> unat x \<and> unat x < unat (p :: u64) + n"
proof
  assume "x \<in> (\<lambda>i. p + of_nat i) ` {..<n}"
  then obtain i where i: "i < n" "x = p + of_nat i" by blast
  then have "unat x = unat p + i" using assms by (simp add: unat_word_ariths unat_of_nat)
  then show "unat p \<le> unat x \<and> unat x < unat p + n" using i(1) by simp
next
  assume x: "unat p \<le> unat x \<and> unat x < unat p + n"
  then have "x = p + of_nat (unat x - unat p)" by (simp add: word_unat_eq_iff unat_word_ariths unat_of_nat)
  then show "x \<in> (\<lambda>i. p + of_nat i) ` {..<n}" using x by (intro image_eqI [of _ _ "unat x - unat p"]) auto
qed

text \<open>The check, for every size: from \<open>2 ^ 48\<close> on the subtraction wraps.\<close>

lemma uaccess_ok_iff:
  "uaccess_ok p n \<longleftrightarrow> p \<noteq> 0 \<and> unat p + unat n \<le> (if unat n \<le> 2 ^ 48 then 2 ^ 48 else 2 ^ 64 + 2 ^ 48)"
proof (cases "unat n \<le> 2 ^ 48")
  case True
  then show ?thesis by (auto simp: uaccess_ok_def USER_ASPACE_START_def word_le_nat_alt unat_sub)
next
  case False
  have "unat (USER_ASPACE_END - n) = 2 ^ 64 + 2 ^ 48 - unat n"
    using False unsigned_less [of n, where 'a = nat] by (simp add: unat_sub_if' word_le_nat_alt)
  then show ?thesis using False unsigned_less [of n, where 'a = nat] by (auto simp: uaccess_ok_def USER_ASPACE_START_def word_le_nat_alt)
qed

text \<open>C22.  A checked copy of at most \<open>2 ^ 48\<close> bytes to user memory either stores them all and changes nothing outside
  the destination, which lies in the user range and does not include the null address; or it stops the kernel
  at the assertion, when the destination does not lie so; or it faults, when some byte of it may not be
  written.  For a larger size the bound of the check wraps around: then every destination that ends at most
  \<open>2 ^ 48\<close> bytes past the end of memory passes, addresses of the kernel included.\<close>

theorem copy_to_user_bounds:
  assumes "length v = unat len * unat size_T" and "length v < 2 ^ 64"
  shows "if length v \<le> 2 ^ 48 then
      (case copy_to_user size_T p v len m of
        Ok (_, m') \<Rightarrow> p \<noteq> 0 \<and> unat p + length v \<le> 2 ^ 48 \<and> bytes_at m' p (length v) = v \<and>
          (\<forall>x. m' x \<noteq> m x \<longrightarrow> unat p \<le> unat x \<and> unat x < unat p + length v)
      | Panic e \<Rightarrow> if p = 0 \<or> 2 ^ 48 < unat p + length v then e = Assert_failed else e = Data_abort \<and> \<not> writable_at m p (length v))
    else copy_to_user size_T p v len m = (if p \<noteq> 0 \<and> unat p + length v \<le> 2 ^ 64 + 2 ^ 48 then store_bytes p v m else Panic Assert_failed)"
proof -
  have sz: "unat (len * size_T) = length v" using assms by (simp add: unat_mult_lem [THEN iffD1])
  have eq: "copy_to_user size_T p v len m = (if uaccess_ok p (len * size_T) then store_bytes p v m else Panic Assert_failed)"
    using assms(1) by (simp add: copy_to_user_def assert_cmd_def bind_def ret_def fail_def)
  show ?thesis
  proof (cases "length v \<le> 2 ^ 48")
    case True
    then have ok: "uaccess_ok p (len * size_T) \<longleftrightarrow> p \<noteq> 0 \<and> unat p + length v \<le> 2 ^ 48" by (simp add: uaccess_ok_iff sz)
    show ?thesis
    proof (cases "uaccess_ok p (len * size_T) \<and> writable_at m p (length v)")
      case True
      from store_bytes_ok [OF _ assms(2)] True obtain m' where st: "store_bytes p v m = Ok ((), m')" "bytes_at m' p (length v) = v"
        "\<forall>x. x \<notin> (\<lambda>i. p + of_nat i) ` {..<length v} \<longrightarrow> m' x = m x" by blast
      have "unat p + length v < 2 ^ 64" using True ok by simp
      from in_range_unat [OF this] st True show ?thesis unfolding eq using ok \<open>length v \<le> 2 ^ 48\<close> by auto
    next
      case False
      then show ?thesis unfolding eq using ok \<open>length v \<le> 2 ^ 48\<close> store_bytes_abort [of m p v] by auto
    qed
  next
    case False
    then show ?thesis unfolding eq by (simp add: uaccess_ok_iff sz)
  qed
qed

definition sample_umem :: umem where
  "sample_umem a = (if a = 0x1000 then Some (0x61, True) else if a = 0x1001 then Some (0, True) else None)"

theorem copy_to_user_bounds_witness:
  "case copy_to_user 1 0x1000 [5] 1 sample_umem of Ok (_, m') \<Rightarrow> bytes_at m' 0x1000 1 = [5] | Panic e \<Rightarrow> False"
proof -
  have h: "length [5 :: u8] = unat (1 :: u64) * unat (1 :: u64)" "length [5 :: u8] < 2 ^ 64" by simp_all
  have w: "writable_at sample_umem 0x1000 1" by (simp add: writable_at_def sample_umem_def)
  from copy_to_user_bounds [OF h, of "0x1000" sample_umem] w show ?thesis by (simp split: res.splits prod.splits)
qed

section \<open>C strings\<close>

text \<open>A terminated string \<open>cs\<close> lies at \<open>a\<close>.\<close>

definition c_str_at :: "umem \<Rightarrow> u64 \<Rightarrow> bytes \<Rightarrow> bool" where
  "c_str_at m a cs \<longleftrightarrow> readable_at m a (length cs + 1) \<and> bytes_at m a (length cs + 1) = cs @ [0] \<and> 0 \<notin> set cs"

lemma c_str_at_Cons: "c_str_at m a (c # cs) \<longleftrightarrow> c \<noteq> 0 \<and> (\<exists>w. m a = Some (c, w)) \<and> c_str_at m (a + 1) cs"
  by (auto simp: c_str_at_def bytes_at_Suc readable_at_def all_less_Suc0 algebra_simps)

lemma c_str_at_Nil: "c_str_at m a [] \<longleftrightarrow> (\<exists>w. m a = Some (0, w))"
  by (auto simp: c_str_at_def bytes_at_def readable_at_def)

lemma find_nul_at: "c_str_at m (p + i) cs \<Longrightarrow> find_nul m p i = Some (Ok (i + of_nat (length cs)))"
proof (induction cs arbitrary: i)
  case Nil
  then show ?case by (subst find_nul.simps) (auto simp: c_str_at_Nil)
next
  case (Cons c cs)
  then show ?case using Cons.IH [of "i + 1"] by (subst find_nul.simps) (auto simp: c_str_at_Cons algebra_simps)
qed

lemma str_loop_at:
  "c_str_at m a cs \<Longrightarrow> unat a + length cs < 2 ^ 48 \<Longrightarrow> str_loop n a m = Ok (take n cs, m)"
proof (induction cs arbitrary: a n)
  case Nil
  then show ?case by (cases n) (auto simp: c_str_at_Nil bind_def ret_def assert_cmd_def word_less_nat_alt)
next
  case (Cons c cs)
  show ?case
  proof (cases n)
    case (Suc k)
    have "unat (a + 1) = unat a + 1" using Cons.prems(2) by (simp add: unat_word_ariths)
    with Cons.IH [of "a + 1" k] Cons.prems have "str_loop k (a + 1) m = Ok (take k cs, m)" by (simp add: c_str_at_Cons)
    then show ?thesis using Cons.prems Suc by (auto simp: c_str_at_Cons bind_def ret_def assert_cmd_def word_less_nat_alt)
  qed (simp add: ret_def)
qed

text \<open>C27.  The two ways the kernel reads a path, on a terminated string inside the user range: the unbounded search of
  \<open>as_c_str\<close> ends and gives the whole string, or the error if it is not UTF-8; \<open>read_str\<close> copies the string into
  its buffer, terminated, cut off after as many bytes as fit.  So they agree on the strings that are shorter
  than the buffer.\<close>

theorem c_str_reads_agree:
  assumes "c_str_at m a cs" and "a \<noteq> 0" and "unat a + length cs < 2 ^ 48" and "length buf = Suc n"
  shows "ptr_as_c_str (UserPtr a) m = Some (Ok (if utf8_valid cs then Some cs else None)) \<and>
    ptr_read_str buf (UserPtr a) m = Ok ((take n cs @ [0] @ drop (Suc (length (take n cs))) buf, length (take n cs)), m)"
proof -
  have ok: "uaccess_ok a 1" "uaccess_ok a (of_nat (length cs))"
    using assms(2,3) by (simp_all add: uaccess_ok_iff unat_of_nat)
  have sl: "ptr_as_slice 1 (UserPtr a) (of_nat (length cs)) m = Ok (cs, m)"
  proof -
    have r: "readable_at m a (length cs)" "bytes_at m a (length cs) = cs"
      using assms(1) by (auto simp: c_str_at_def readable_at_def bytes_at_def)
    have "unat (of_nat (length cs) :: u64) = length cs" using assms(3) by (simp add: unat_of_nat)
    then show ?thesis using ok(2) r load_bytes_ok [OF r(1)]
      by (auto simp: ptr_as_slice_def bind_def ret_def assert_cmd_def)
  qed
  have "ptr_as_c_str (UserPtr a) m = Some (Ok (if utf8_valid cs then Some cs else None))"
    using find_nul_at [of m a 0 cs] assms(1) ok(1) sl
    by (simp add: ptr_as_c_str_def ptr_as_str_def ptr_check_def bind_def ret_def assert_cmd_def)
  moreover have "ptr_read_str buf (UserPtr a) m = Ok ((take n cs @ [0] @ drop (Suc (length (take n cs))) buf, length (take n cs)), m)"
    using str_loop_at [OF assms(1,3), of n] ok(1) assms(4)
    by (simp add: ptr_read_str_def copy_from_user_str_def ptr_check_def bind_def ret_def lift_def assert_cmd_def copy_slice_res_def overwrite_def)
  ultimately show ?thesis by blast
qed

theorem c_str_reads_agree_witness:
  "ptr_as_c_str (UserPtr 0x1000) sample_umem = Some (Ok (Some [0x61])) \<and>
   ptr_read_str (replicate 4 0) (UserPtr 0x1000) sample_umem = Ok (([0x61, 0, 0, 0], 1), sample_umem)"
proof -
  have c: "c_str_at sample_umem 0x1000 [0x61]" by (auto simp: c_str_at_Cons c_str_at_Nil sample_umem_def)
  have h: "(0x1000 :: u64) \<noteq> 0" "unat (0x1000 :: u64) + length [0x61 :: u8] < 2 ^ 48" "length (replicate 4 (0 :: u8)) = Suc 3" by simp_all
  have u: "utf8_valid [0x61]" by simp
  have e: "take 3 [0x61 :: u8] = [0x61]" "drop (Suc (length [0x61 :: u8])) (replicate 4 (0 :: u8)) = [0, 0]" by (simp_all add: numeral_eq_Suc)
  show ?thesis using c_str_reads_agree [OF c h] unfolding e if_P [OF u] by simp
qed

end
