(* ===== verification/Tasks.thy ===== *)
theory Tasks
  imports Signals MemorySets
begin

text \<open>
  Processes and tasks (src/os/src/task/structs.rs, schedule.rs, manager.rs, percpu.rs, mod.rs).  An
  \<open>Arc<Process>\<close> is a process id, an \<open>Arc<Task>\<close> a pair of process id and task id; the objects live in the
  kernel state.  The strong counts that the code asserts are computed from the places that hold
  references.  System calls run with interrupts off on the one processor, so each is a command on the
  kernel state; a command that switches tasks ends in the state in which the next task goes on.  The lock
  of the task manager is held across a switch and released by the task that goes on, so its own
  assertions (\<open>TaskLockedCell::as_ptr\<close>, \<open>set_current_task\<close>) hold there.  The type of files is a parameter.
\<close>

section \<open>Data\<close>

type_synonym i32 = "32 word"
datatype tref = TRef (ref_pid: nat) (ref_tid: nat)

datatype EntryState = Kernel u64 u64 | User TrapFrame

datatype TaskState = Ready | Running | TZombie | Blocking
datatype ProcState = PNormal | PStop | PZombie

definition task_state_as_u8 :: "TaskState \<Rightarrow> u8" where
  "task_state_as_u8 s = (case s of Ready \<Rightarrow> 1 | Running \<Rightarrow> 2 | TZombie \<Rightarrow> 3 | Blocking \<Rightarrow> 4)"

definition task_state_from :: "u8 \<Rightarrow> TaskState res" where
  "task_state_from b = (if b = 1 then Ok Ready else if b = 2 then Ok Running else if b = 3 then Ok TZombie
     else if b = 4 then Ok Blocking else Panic Explicit_panic)"

definition proc_state_as_u8 :: "ProcState \<Rightarrow> u8" where
  "proc_state_as_u8 s = (case s of PNormal \<Rightarrow> 1 | PStop \<Rightarrow> 2 | PZombie \<Rightarrow> 3)"

definition proc_state_from :: "u8 \<Rightarrow> ProcState res" where
  "proc_state_from b = (if b = 1 then Ok PNormal else if b = 2 then Ok PStop else if b = 3 then Ok PZombie
     else Panic Explicit_panic)"

record Task =
  tid :: nat
  t_is_kernel :: bool
  process :: nat
  t_state :: TaskState
  entry :: EntryState
  t_exit_code :: i32
  kstack_top :: u64
  ctx :: TaskContext
  t_signal :: SignalInner

datatype UserMutex = MutexSpin bool | MutexBlocking bool "tref list"

record Semaphore =
  sem_count :: u64
  sem_wait_queue :: "tref list"

record Condvar =
  cv_wait_queue :: "tref list"

record 'f Process =
  proc_id :: nat
  p_is_kernel :: bool
  p_state :: ProcState
  p_exit_code :: i32
  vm :: "MemorySet option"
  tasks :: "(nat, tref) btree_map"
  tid_allocator :: nat
  parent :: "nat option"
  children :: "nat list"
  fd_table :: "'f option list"
  signal_actions :: SignalActions
  mutex_list :: "UserMutex option list"
  semaphore_list :: "Semaphore option list"
  condvar_list :: "Condvar option list"

record TimerCondVar =
  expire_ms :: u64
  timer_task :: tref

record 'f kernel =
  kmem :: pmem
  kcpu :: cpu
  task_heap :: "tref \<Rightarrow> Task option"
  procs :: "(nat, 'f Process) btree_map"
  PID_ALLOCATOR :: nat
  PROC_MAP :: "(nat, nat) btree_map"
  ROOT_PROC :: "nat option"
  idle_proc :: nat
  ready_queue :: "tref list"
  current_task :: tref
  TIMERS :: "TimerCondVar list"

section \<open>Access to the objects\<close>

definition gets :: "('s \<Rightarrow> 'a) \<Rightarrow> ('s, 'a) cmd" where
  "gets f = (\<lambda>s. Ok (f s, s))"

definition modifies :: "('s \<Rightarrow> 's) \<Rightarrow> ('s, unit) cmd" where
  "modifies f = (\<lambda>s. Ok ((), f s))"

definition get_task :: "tref \<Rightarrow> ('f kernel, Task) cmd" where
  "get_task t = (\<lambda>k. case task_heap k t of Some T \<Rightarrow> Ok (T, k) | None \<Rightarrow> Panic Undefined_behaviour)"

definition modify_task :: "tref \<Rightarrow> (Task \<Rightarrow> Task) \<Rightarrow> ('f kernel, unit) cmd" where
  "modify_task t f = bind (get_task t) (\<lambda>T. modifies (\<lambda>k. k\<lparr>task_heap := (task_heap k)(t \<mapsto> f T)\<rparr>))"

definition get_proc :: "nat \<Rightarrow> ('f kernel, 'f Process) cmd" where
  "get_proc p = (\<lambda>k. case btm_get (procs k) p of Some P \<Rightarrow> Ok (P, k) | None \<Rightarrow> Panic Undefined_behaviour)"

definition modify_proc :: "nat \<Rightarrow> ('f Process \<Rightarrow> 'f Process) \<Rightarrow> ('f kernel, unit) cmd" where
  "modify_proc p f = bind (get_proc p) (\<lambda>P. modifies (\<lambda>k. k\<lparr>procs := btm_insert p (f P) (procs k)\<rparr>))"

definition with_mem :: "(pmem, 'a) cmd \<Rightarrow> ('f kernel, 'a) cmd" where
  "with_mem m = (\<lambda>k. case m (kmem k) of Ok (a, s) \<Rightarrow> Ok (a, k\<lparr>kmem := s\<rparr>) | Panic e \<Rightarrow> Panic e)"

text \<open>References held by a process, and the strong counts.\<close>

definition waiting_in :: "'f Process \<Rightarrow> tref list" where
  "waiting_in P =
     concat (map (\<lambda>m. case m of Some (MutexBlocking l q) \<Rightarrow> q | _ \<Rightarrow> []) (mutex_list P)) @
     concat (map (\<lambda>s. case s of Some s \<Rightarrow> sem_wait_queue s | None \<Rightarrow> []) (semaphore_list P)) @
     concat (map (\<lambda>c. case c of Some c \<Rightarrow> cv_wait_queue c | None \<Rightarrow> []) (condvar_list P))"

definition task_strong_count :: "'f kernel \<Rightarrow> tref \<Rightarrow> nat" where
  "task_strong_count k t =
     count_list [current_task k] t + count_list (ready_queue k) t + count_list (map timer_task (TIMERS k)) t +
     sum_list (map (\<lambda>(_, P). count_list (map snd (tasks P)) t + count_list (waiting_in P) t) (procs k))"

definition proc_strong_count :: "'f kernel \<Rightarrow> nat \<Rightarrow> nat" where
  "proc_strong_count k p =
     count_list (map snd (PROC_MAP k)) p + sum_list (map (\<lambda>(_, P). count_list (children P) p) (procs k)) +
     count_list (idle_proc k # (case ROOT_PROC k of None \<Rightarrow> [] | Some r \<Rightarrow> [r])) p"

text \<open>\<open>Task::proc\<close>: the weak reference is upgraded while the process exists.\<close>

definition task_proc :: "tref \<Rightarrow> ('f kernel, nat) cmd" where
  "task_proc t = bind (get_task t) (\<lambda>T. bind (gets procs) (\<lambda>ps.
     if btm_get ps (process T) = None then fail Unwrap_none else ret (process T)))"

definition proc_is_idle :: "nat \<Rightarrow> bool" where
  "proc_is_idle p \<longleftrightarrow> p = 0"

definition proc_is_root :: "nat \<Rightarrow> bool" where
  "proc_is_root p \<longleftrightarrow> p = 1"

definition task_is_root :: "tref \<Rightarrow> ('f kernel, bool) cmd" where
  "task_is_root t = bind (task_proc t) (\<lambda>p. bind (get_task t) (\<lambda>T. ret (proc_is_root p \<and> tid T = 0)))"

definition task_is_idle :: "tref \<Rightarrow> ('f kernel, bool) cmd" where
  "task_is_idle t = bind (task_proc t) (\<lambda>p. bind (get_task t) (\<lambda>T. ret (proc_is_idle p \<and> tid T = 0)))"

definition task_state :: "tref \<Rightarrow> ('f kernel, TaskState) cmd" where
  "task_state t = bind (get_task t) (\<lambda>T. ret (t_state T))"

definition set_state :: "tref \<Rightarrow> TaskState \<Rightarrow> ('f kernel, unit) cmd" where
  "set_state t s = modify_task t (\<lambda>T. T\<lparr>t_state := s\<rparr>)"

definition set_exit_code :: "tref \<Rightarrow> i32 \<Rightarrow> ('f kernel, unit) cmd" where
  "set_exit_code t c = modify_task t (\<lambda>T. T\<lparr>t_exit_code := c\<rparr>)"

definition first_task :: "nat \<Rightarrow> ('f kernel, tref option) cmd" where
  "first_task p = bind (get_proc p) (\<lambda>P. ret (case tasks P of [] \<Rightarrow> None | (_, t) # _ \<Rightarrow> Some t))"

definition idle_task :: "('f kernel, tref) cmd" where
  "idle_task = bind (gets idle_proc) (\<lambda>p. bind (first_task p) (\<lambda>t. lift (unwrap t)))"

section \<open>The scheduler and the task manager\<close>

definition add_ready_task :: "tref \<Rightarrow> ('f kernel, unit) cmd" where
  "add_ready_task t = modifies (\<lambda>k. k\<lparr>ready_queue := ready_queue k @ [t]\<rparr>)"

fun pick_loop :: "(tref \<Rightarrow> Task option) \<Rightarrow> tref list \<Rightarrow> (tref option \<times> tref list) res" where
  "pick_loop h [] = Ok (None, [])"
| "pick_loop h (t # q) = (case h t of
     None \<Rightarrow> Panic Undefined_behaviour
   | Some T \<Rightarrow> (case t_state T of
       Ready \<Rightarrow> Ok (Some t, q)
     | Running \<Rightarrow> Panic Explicit_panic
     | TZombie \<Rightarrow> pick_loop h q
     | Blocking \<Rightarrow> pick_loop h q))"

definition pick_next_task :: "('f kernel, tref option) cmd" where
  "pick_next_task = (\<lambda>k. case pick_loop (task_heap k) (ready_queue k) of
     Ok (r, q) \<Rightarrow> Ok (r, k\<lparr>ready_queue := q\<rparr>) | Panic e \<Rightarrow> Panic e)"

definition block_task :: "tref \<Rightarrow> ('f kernel, unit) cmd" where
  "block_task t = set_state t Blocking"

definition manager_spawn :: "tref \<Rightarrow> ('f kernel, unit) cmd" where
  "manager_spawn t = bind (task_state t) (\<lambda>s. bind (assert_cmd (s = Ready)) (\<lambda>_. add_ready_task t))"

definition set_current_task :: "tref \<Rightarrow> ('f kernel, unit) cmd" where
  "set_current_task t = modifies (\<lambda>k. k\<lparr>current_task := t\<rparr>)"

text \<open>\<open>next_task\<close> is held by a local variable besides the places that are counted.\<close>

definition switch_to :: "tref \<Rightarrow> tref \<Rightarrow> ('f kernel, unit) cmd" where
  "switch_to curr_task next_task =
     bind (set_state next_task Running) (\<lambda>_.
     if curr_task = next_task then ret ()
     else
       bind (gets (\<lambda>k. task_strong_count k curr_task)) (\<lambda>n. bind (assert_cmd (n > 1)) (\<lambda>_.
       bind (gets (\<lambda>k. task_strong_count k next_task)) (\<lambda>n. bind (assert_cmd (n + 1 > 1)) (\<lambda>_.
       bind (set_current_task next_task) (\<lambda>_.
       bind (get_task curr_task) (\<lambda>C. bind (get_task next_task) (\<lambda>N. bind (gets kcpu) (\<lambda>c.
       let (saved, c') = task_context_switch_to (ctx C) (ctx N) c in
       bind (modify_task curr_task (\<lambda>T. T\<lparr>ctx := saved\<rparr>)) (\<lambda>_.
       modifies (\<lambda>k. k\<lparr>kcpu := c'\<rparr>)))))))))))"

definition resched :: "tref \<Rightarrow> ('f kernel, unit) cmd" where
  "resched curr_task =
     bind (task_state curr_task) (\<lambda>s. bind (assert_cmd (s \<noteq> Running)) (\<lambda>_.
     bind pick_next_task (\<lambda>r. case r of
       Some next_task \<Rightarrow> switch_to curr_task next_task
     | None \<Rightarrow> bind idle_task (\<lambda>i. switch_to curr_task i))))"

definition yield_current :: "tref \<Rightarrow> ('f kernel, unit) cmd" where
  "yield_current curr_task =
     bind (task_state curr_task) (\<lambda>s. bind (assert_cmd (s = Running)) (\<lambda>_.
     bind (set_state curr_task Ready) (\<lambda>_.
     bind (task_is_idle curr_task) (\<lambda>idle.
     bind (if \<not> idle then add_ready_task curr_task else ret ()) (\<lambda>_.
     resched curr_task)))))"

definition block_current :: "tref \<Rightarrow> ('f kernel, unit) cmd" where
  "block_current curr_task = bind (set_state curr_task Blocking) (\<lambda>_. resched curr_task)"

text \<open>Coming back from \<open>resched\<close> would mean that no other task was switched to.\<close>

definition exit_current :: "tref \<Rightarrow> i32 \<Rightarrow> ('f kernel, unit) cmd" where
  "exit_current curr_task exit_code =
     bind (task_state curr_task) (\<lambda>s. bind (assert_cmd (s = Running \<or> s = TZombie)) (\<lambda>_.
     bind (set_state curr_task TZombie) (\<lambda>_.
     bind (set_exit_code curr_task exit_code) (\<lambda>_.
     bind (resched curr_task) (\<lambda>_.
     bind (gets current_task) (\<lambda>c. if c = curr_task then fail Explicit_panic else ret ()))))))"

definition yield_now :: "('f kernel, unit) cmd" where
  "yield_now = bind (gets current_task) yield_current"

definition block_and_yield :: "('f kernel, unit) cmd" where
  "block_and_yield = bind (gets current_task) block_current"

definition task_resume :: "tref \<Rightarrow> ('f kernel, unit) cmd" where
  "task_resume t =
     bind (task_state t) (\<lambda>s. bind (assert_cmd (s = Blocking)) (\<lambda>_.
     bind (set_state t Ready) (\<lambda>_. manager_spawn t)))"

text \<open>The states of tasks and processes survive their storage in an atomic byte, and a byte that is no
  state stops the kernel.\<close>

theorem states_round_trip:
  "task_state_from (task_state_as_u8 s) = Ok s \<and> proc_state_from (proc_state_as_u8 p) = Ok p \<and>
   (task_state_from b = Panic Explicit_panic \<longleftrightarrow> b \<notin> range task_state_as_u8) \<and>
   (proc_state_from b = Panic Explicit_panic \<longleftrightarrow> b \<notin> range proc_state_as_u8)"
proof -
  have t: "UNIV = {Ready, Running, TZombie, Blocking}" using TaskState.exhaust by blast
  have p: "UNIV = {PNormal, PStop, PZombie}" using ProcState.exhaust by blast
  have "range task_state_as_u8 = {1, 2, 3, 4}" unfolding t by (simp add: task_state_as_u8_def)
  moreover have "range proc_state_as_u8 = {1, 2, 3}" unfolding p by (simp add: proc_state_as_u8_def)
  ultimately show ?thesis
    by (cases s; cases p) (auto simp: task_state_from_def task_state_as_u8_def proc_state_from_def proc_state_as_u8_def)
qed

end
