(* ===== verification/Procs.thy ===== *)
theory Procs
  imports Tasks
begin

text \<open>
  Creation, execution and end of processes and tasks (src/os/src/task/structs.rs, mod.rs).  The kernel
  stacks come from the heap: the address of the top of a new stack is an argument.  \<open>task_entry\<close> is the
  address of that function; \<open>elf_new\<close> is the ELF parser (an external crate), and a program file is its
  contents, or \<open>None\<close> when there is no such file.
\<close>

section \<open>Identifiers and new objects\<close>

definition id_alloc :: "nat \<Rightarrow> nat \<times> nat" where
  "id_alloc next = (next, usize_add next 1)"

definition proc_id_alloc :: "('f kernel, nat) cmd" where
  "proc_id_alloc = bind (gets (\<lambda>k. id_alloc (PID_ALLOCATOR k))) (\<lambda>(i, n).
     bind (modifies (\<lambda>k. k\<lparr>PID_ALLOCATOR := n\<rparr>)) (\<lambda>_. ret i))"

definition alloc_tid :: "nat \<Rightarrow> ('f kernel, nat) cmd" where
  "alloc_tid p = bind (get_proc p) (\<lambda>P. case id_alloc (tid_allocator P) of (i, n) \<Rightarrow>
     bind (modify_proc p (\<lambda>P. P\<lparr>tid_allocator := n\<rparr>)) (\<lambda>_. ret i))"

text \<open>\<open>stdin\<close> and \<open>stdout\<close> are the two standard files.\<close>

definition process_new_common :: "'f \<Rightarrow> 'f \<Rightarrow> nat \<Rightarrow> bool \<Rightarrow> 'f Process res" where
  "process_new_common stdin stdout pid is_kernel = bind_res signal_actions_default (\<lambda>acts.
     Ok \<lparr>proc_id = pid, p_is_kernel = is_kernel, p_state = PNormal, p_exit_code = 0, vm = None, tasks = [],
       tid_allocator = 0, parent = None, children = [], fd_table = [Some stdin, Some stdout, Some stdout],
       signal_actions = acts, mutex_list = [], semaphore_list = [], condvar_list = []\<rparr>)"

definition process_alloc :: "'f Process \<Rightarrow> ('f kernel, nat) cmd" where
  "process_alloc P = bind (modifies (\<lambda>k. k\<lparr>procs := btm_insert (proc_id P) P (procs k)\<rparr>)) (\<lambda>_. ret (proc_id P))"

definition task_new_common :: "u64 \<Rightarrow> nat \<Rightarrow> bool \<Rightarrow> nat \<Rightarrow> Task" where
  "task_new_common kst t is_kernel p = \<lparr>tid = t, t_is_kernel = is_kernel, process = p, t_state = Ready, entry = Kernel 0 0,
     t_exit_code = 0, kstack_top = kst, ctx = task_context_default, t_signal = signal_inner_new\<rparr>"

definition task_alloc :: "Task \<Rightarrow> ('f kernel, tref) cmd" where
  "task_alloc T = bind (modifies (\<lambda>k. k\<lparr>task_heap := (task_heap k)(TRef (process T) (tid T) \<mapsto> T)\<rparr>)) (\<lambda>_. ret (TRef (process T) (tid T)))"

definition task_new_kernel :: "u64 \<Rightarrow> u64 \<Rightarrow> nat \<Rightarrow> nat \<Rightarrow> u64 \<Rightarrow> u64 \<Rightarrow> ('f kernel, tref) cmd" where
  "task_new_kernel task_entry kst t p fn arg =
     (let T = task_new_common kst t True p in
      task_alloc (T\<lparr>entry := Kernel fn arg, ctx := task_context_init (ctx T) task_entry kst (PhysAddr 0)\<rparr>))"

definition proc_page_table_root :: "nat \<Rightarrow> ('f kernel, PhysAddr) cmd" where
  "proc_page_table_root p = bind (get_proc p) (\<lambda>P. bind (lift (unwrap (vm P))) (\<lambda>ms. ret (page_table_root ms)))"

definition task_new_user :: "u64 \<Rightarrow> u64 \<Rightarrow> nat \<Rightarrow> nat \<Rightarrow> u64 \<Rightarrow> u64 \<Rightarrow> u64 \<Rightarrow> ('f kernel, tref) cmd" where
  "task_new_user task_entry kst t p fn ustack_top arg =
     bind (assert_cmd (t \<le> 16)) (\<lambda>_.
     let T = task_new_common kst t True p in
     bind (proc_page_table_root p) (\<lambda>r.
     task_alloc (T\<lparr>entry := User (trap_frame_new_user_arg fn ustack_top arg 0),
       ctx := task_context_init (ctx T) task_entry kst r\<rparr>)))"

definition add_task :: "nat \<Rightarrow> tref \<Rightarrow> ('f kernel, unit) cmd" where
  "add_task p t =
     bind (task_proc t) (\<lambda>q. bind (assert_cmd (p = q)) (\<lambda>_.
     bind (get_task t) (\<lambda>T. bind (get_proc p) (\<lambda>P.
     bind (modify_proc p (\<lambda>P. P\<lparr>tasks := btm_insert (tid T) t (tasks P)\<rparr>)) (\<lambda>_.
     assert_cmd (btm_get (tasks P) (tid T) = None))))))"

definition add_child :: "nat \<Rightarrow> nat \<Rightarrow> ('f kernel, unit) cmd" where
  "add_child p child =
     bind (modify_proc child (\<lambda>P. P\<lparr>parent := Some p\<rparr>)) (\<lambda>_.
     modify_proc p (\<lambda>P. P\<lparr>children := children P @ [child]\<rparr>))"

definition task_count :: "nat \<Rightarrow> ('f kernel, nat) cmd" where
  "task_count p = bind (get_proc p) (\<lambda>P.
     gets (\<lambda>k. length (filter (\<lambda>(_, t). case task_heap k t of Some T \<Rightarrow> t_state T \<noteq> TZombie | None \<Rightarrow> False) (tasks P))))"

definition proc_task :: "nat \<Rightarrow> ('f kernel, tref) cmd" where
  "proc_task p = bind (task_count p) (\<lambda>n. bind (assert_cmd (n = 1)) (\<lambda>_.
     bind (get_proc p) (\<lambda>P. lift (unwrap (btm_get (tasks P) 0)))))"

section \<open>New processes and threads\<close>

definition process_new_idle :: "'f \<Rightarrow> 'f \<Rightarrow> u64 \<Rightarrow> ('f kernel, nat) cmd" where
  "process_new_idle stdin stdout kst =
     bind (lift (process_new_common stdin stdout 0 True)) (\<lambda>P. bind (process_alloc P) (\<lambda>p.
     bind proc_id_alloc (\<lambda>i. bind (assert_cmd (i = 0)) (\<lambda>_.
     bind (alloc_tid p) (\<lambda>t. bind (task_alloc (task_new_common kst t True p)) (\<lambda>tr.
     bind (set_state tr Running) (\<lambda>_.
     bind (add_task p tr) (\<lambda>_. ret p))))))))"

definition process_new_kernel :: "'f \<Rightarrow> 'f \<Rightarrow> u64 \<Rightarrow> u64 \<Rightarrow> u64 \<Rightarrow> u64 \<Rightarrow> ('f kernel, nat) cmd" where
  "process_new_kernel stdin stdout task_entry kst fn arg =
     bind proc_id_alloc (\<lambda>i. bind (lift (process_new_common stdin stdout i True)) (\<lambda>P. bind (process_alloc P) (\<lambda>p.
     bind (alloc_tid p) (\<lambda>t. bind (task_new_kernel task_entry kst t p fn arg) (\<lambda>tr.
     bind (add_task p tr) (\<lambda>_.
     bind (if \<not> proc_is_root p then bind (gets ROOT_PROC) (\<lambda>r. bind (lift (unwrap r)) (\<lambda>r. add_child r p)) else ret ()) (\<lambda>_.
     ret p)))))))"

definition process_new_user :: "'f \<Rightarrow> 'f \<Rightarrow> u64 \<Rightarrow> (bytes \<Rightarrow> ElfFile option) \<Rightarrow> u64 \<Rightarrow> bytes option \<Rightarrow> ('f kernel, nat) cmd" where
  "process_new_user stdin stdout task_entry elf_new kst elf_data =
     bind proc_id_alloc (\<lambda>i. bind (lift (process_new_common stdin stdout i False)) (\<lambda>P. bind (process_alloc P) (\<lambda>p.
     bind (lift (unwrap elf_data)) (\<lambda>elf.
     bind (with_mem memory_set_new) (\<lambda>ms. bind (with_mem (load_user elf_new ms elf)) (\<lambda>((ent, ustack_top), ms).
     bind (alloc_tid p) (\<lambda>t.
     let T = task_new_common kst t False p in
     bind (task_alloc (T\<lparr>entry := User (trap_frame_new_user ent ustack_top),
       ctx := task_context_init (ctx T) task_entry kst (page_table_root ms)\<rparr>)) (\<lambda>tr.
     bind (modify_proc p (\<lambda>P. P\<lparr>vm := Some ms\<rparr>)) (\<lambda>_.
     bind (add_task p tr) (\<lambda>_.
     bind (gets ROOT_PROC) (\<lambda>r. bind (lift (unwrap r)) (\<lambda>r. bind (add_child r p) (\<lambda>_.
     ret p)))))))))))))"

definition user_stack :: "u64 \<Rightarrow> u64 \<times> u64" where
  "user_stack t = (let top = USER_STACK_TOP - t * (USER_STACK_SIZE + PAGE_SIZE); bottom = top - USER_STACK_SIZE in (bottom, top))"

definition new_user_task :: "u64 \<Rightarrow> u64 \<Rightarrow> nat \<Rightarrow> u64 \<Rightarrow> u64 \<Rightarrow> ('f kernel, tref) cmd" where
  "new_user_task task_entry kst p fn arg =
     bind (alloc_tid p) (\<lambda>t. case user_stack (of_nat t) of (ustack_bottom, ustack_top) \<Rightarrow>
     bind (get_proc p) (\<lambda>P. bind (lift (unwrap (vm P))) (\<lambda>ms.
     bind (lift (va_new ustack_bottom)) (\<lambda>v.
     bind (lift (area_new_framed v USER_STACK_SIZE (MF_READ OR MF_WRITE OR MF_USER))) (\<lambda>a.
     bind (with_mem (memory_set_insert ms a)) (\<lambda>ms.
     bind (modify_proc p (\<lambda>P. P\<lparr>vm := Some ms\<rparr>)) (\<lambda>_.
     bind (task_new_user task_entry kst t p fn ustack_top arg) (\<lambda>tr.
     bind (modify_proc p (\<lambda>P. P\<lparr>tasks := btm_insert t tr (tasks P)\<rparr>)) (\<lambda>_.
     ret tr)))))))))"

definition new_fork :: "'f \<Rightarrow> 'f \<Rightarrow> u64 \<Rightarrow> u64 \<Rightarrow> nat \<Rightarrow> TrapFrame \<Rightarrow> ('f kernel, nat) cmd" where
  "new_fork stdin stdout task_entry kst self tf =
     bind (get_proc self) (\<lambda>S. bind (assert_cmd (\<not> p_is_kernel S)) (\<lambda>_.
     bind proc_id_alloc (\<lambda>i. bind (lift (process_new_common stdin stdout i False)) (\<lambda>P. bind (process_alloc P) (\<lambda>p.
     bind (lift (unwrap (vm S))) (\<lambda>ms0. bind (with_mem (memory_set_clone ms0)) (\<lambda>ms.
     bind (alloc_tid p) (\<lambda>t.
     let T = task_new_common kst t False p in
     bind (task_alloc (T\<lparr>entry := User (trap_frame_new_fork tf),
       ctx := task_context_init (ctx T) task_entry kst (page_table_root ms)\<rparr>)) (\<lambda>tr.
     bind (modify_proc p (\<lambda>P. P\<lparr>tasks := btm_insert t tr (tasks P)\<rparr>)) (\<lambda>_.
     bind (modify_proc p (\<lambda>P. P\<lparr>vm := Some ms\<rparr>)) (\<lambda>_.
     bind (modify_proc p (\<lambda>P. P\<lparr>fd_table := fd_table S\<rparr>)) (\<lambda>_.
     bind (add_child self p) (\<lambda>_.
     ret p)))))))))))))"

section \<open>Files\<close>

definition lowest_free :: "'a option list \<Rightarrow> nat option" where
  "lowest_free xs = find_index (\<lambda>e. e = None) xs"

definition alloc_fd :: "nat \<Rightarrow> 'f option \<Rightarrow> ('f kernel, nat) cmd" where
  "alloc_fd p file =
     bind (get_proc p) (\<lambda>P.
     let (fd, tab) = (case lowest_free (fd_table P) of
           Some fd \<Rightarrow> (fd, fd_table P)
         | None \<Rightarrow> (length (fd_table P @ [None]) - 1, fd_table P @ [None])) in
     bind (case file of
             Some f \<Rightarrow> bind (lift (update_res tab fd (Some f))) (\<lambda>tab. modify_proc p (\<lambda>P. P\<lparr>fd_table := tab\<rparr>))
           | None \<Rightarrow> modify_proc p (\<lambda>P. P\<lparr>fd_table := tab\<rparr>)) (\<lambda>_.
     ret fd))"

section \<open>The end of tasks and processes\<close>

fun reparent :: "nat \<Rightarrow> nat list \<Rightarrow> ('f kernel, unit) cmd" where
  "reparent r [] = ret ()"
| "reparent r (c # cs) = bind (add_child r c) (\<lambda>_. reparent r cs)"

definition kill_task :: "tref \<Rightarrow> ('f kernel, unit) cmd" where
  "kill_task t = bind (get_task t) (\<lambda>T.
     if t_state T \<noteq> TZombie then
       (if \<not> sig_contains (signals (t_signal T)) SIGKILL
        then modify_task t (\<lambda>T. T\<lparr>t_signal := set_singal (t_signal T) SIGKILL\<rparr>) else ret ())
     else ret ())"

definition process_stop :: "nat \<Rightarrow> i32 \<Rightarrow> ('f kernel, unit) cmd" where
  "process_stop p exit_code =
     bind (assert_cmd (\<not> proc_is_idle p)) (\<lambda>_. bind (assert_cmd (\<not> proc_is_root p)) (\<lambda>_.
     bind (get_proc p) (\<lambda>P.
     bind (if children P = [] then ret ()
           else bind (gets ROOT_PROC) (\<lambda>r. bind (lift (unwrap r)) (\<lambda>r. reparent r (children P)))) (\<lambda>_.
     bind (modify_proc p (\<lambda>P. P\<lparr>children := []\<rparr>)) (\<lambda>_.
     bind (for_each (map snd (tasks P)) kill_task) (\<lambda>_.
     modify_proc p (\<lambda>P. P\<lparr>p_state := PStop, p_exit_code := exit_code\<rparr>)))))))"

definition process_exit :: "nat \<Rightarrow> ('f kernel, unit) cmd" where
  "process_exit p =
     bind (modify_proc p (\<lambda>P. P\<lparr>p_state := PZombie\<rparr>)) (\<lambda>_.
     bind (get_proc p) (\<lambda>P.
     bind (case vm P of None \<Rightarrow> ret () | Some ms \<Rightarrow> with_mem (memory_set_drop ms)) (\<lambda>_.
     modify_proc p (\<lambda>P. P\<lparr>vm := None\<rparr>))))"

definition task_exit :: "nat \<Rightarrow> i32 \<Rightarrow> ('f kernel, unit) cmd" where
  "task_exit p exit_code =
     bind (task_count p) (\<lambda>n.
     if n = 0 then
       bind (get_proc p) (\<lambda>P.
       bind (if p_state P = PNormal then modify_proc p (\<lambda>P. P\<lparr>p_exit_code := exit_code\<rparr>) else ret ()) (\<lambda>_.
       process_exit p))
     else ret ())"

definition current_exit :: "i32 \<Rightarrow> ('f kernel, unit) cmd" where
  "current_exit exit_code =
     bind (gets current_task) (\<lambda>t.
     bind (set_state t TZombie) (\<lambda>_.
     bind (set_exit_code t exit_code) (\<lambda>_.
     bind (task_proc t) (\<lambda>p. bind (task_exit p exit_code) (\<lambda>_.
     exit_current t exit_code)))))"

text \<open>The loop of \<open>waitpid\<close> over the children: the index of the first zombie child that matches, or whether
  some child matches.\<close>

definition wait_matches :: "int \<Rightarrow> nat \<Rightarrow> bool" where
  "wait_matches pid c \<longleftrightarrow> pid = -1 \<or> int c = pid mod 2 ^ 64"

fun wait_loop :: "int \<Rightarrow> nat \<Rightarrow> bool \<Rightarrow> nat list \<Rightarrow> ('f kernel, bool \<times> (nat \<times> nat) option) cmd" where
  "wait_loop pid idx found [] = ret (found, None)"
| "wait_loop pid idx found (c # cs) =
     bind (get_proc c) (\<lambda>C.
     if wait_matches pid (proc_id C) then
       (if p_state C = PZombie then ret (True, Some (idx, c)) else wait_loop pid (idx + 1) True cs)
     else wait_loop pid (idx + 1) found cs)"

text \<open>The result and the exit code, if one is reported.  The reference to the child is dropped on return, and
  with it the process.\<close>

definition waitpid :: "nat \<Rightarrow> int \<Rightarrow> ('f kernel, int \<times> i32 option) cmd" where
  "waitpid self pid =
     bind (get_proc self) (\<lambda>S. bind (wait_loop pid 0 False (children S)) (\<lambda>(found_pid, r). case r of
       Some (idx, c) \<Rightarrow>
         bind (modify_proc self (\<lambda>S. S\<lparr>children := take idx (children S) @ drop (idx + 1) (children S)\<rparr>)) (\<lambda>_.
         bind (get_proc c) (\<lambda>C.
         bind (modifies (\<lambda>k. k\<lparr>PROC_MAP := btm_remove (proc_id C) (PROC_MAP k)\<rparr>)) (\<lambda>_.
         bind (gets (\<lambda>k. proc_strong_count k c)) (\<lambda>n. bind (assert_cmd (n + 1 = 1)) (\<lambda>_.
         bind (modifies (\<lambda>k. k\<lparr>procs := btm_remove c (procs k)\<rparr>)) (\<lambda>_.
         ret (int (proc_id C), Some (p_exit_code C))))))))
     | None \<Rightarrow> ret (if found_pid then -2 else -1, None)))"

definition waittid :: "nat \<Rightarrow> nat \<Rightarrow> ('f kernel, int) cmd" where
  "waittid self t =
     bind (get_proc self) (\<lambda>S. case btm_get (tasks S) t of
       Some tr \<Rightarrow> bind (get_task tr) (\<lambda>T.
         if t_state T = TZombie then
           bind (modify_proc self (\<lambda>S. S\<lparr>tasks := btm_remove t (tasks S)\<rparr>)) (\<lambda>_. ret (sint (t_exit_code T)))
         else ret (-2))
     | None \<Rightarrow> ret (-1))"

section \<open>Start\<close>

definition pid2proc :: "nat \<Rightarrow> ('f kernel, nat option) cmd" where
  "pid2proc i = gets (\<lambda>k. btm_get (PROC_MAP k) i)"

definition spawn_proc :: "nat \<Rightarrow> ('f kernel, unit) cmd" where
  "spawn_proc p = bind (get_proc p) (\<lambda>P. modifies (\<lambda>k. k\<lparr>PROC_MAP := btm_insert (proc_id P) p (PROC_MAP k)\<rparr>))"

definition spawn_task :: "tref \<Rightarrow> ('f kernel, unit) cmd" where
  "spawn_task t = manager_spawn t"

definition init_percpu :: "'f \<Rightarrow> 'f \<Rightarrow> u64 \<Rightarrow> ('f kernel, unit) cmd" where
  "init_percpu stdin stdout kst =
     bind (process_new_idle stdin stdout kst) (\<lambda>p. bind (proc_task p) (\<lambda>t.
     modifies (\<lambda>k. k\<lparr>idle_proc := p, current_task := t\<rparr>)))"

definition manager_init :: "('f kernel, unit) cmd" where
  "manager_init = modifies (\<lambda>k. k\<lparr>ready_queue := [], PROC_MAP := []\<rparr>)"

text \<open>\<open>root_fn\<close> and \<open>test_fn\<close> are the addresses of the two closures, \<open>kst i\<close> the stack of process \<open>i\<close>.\<close>

definition task_init :: "'f \<Rightarrow> 'f \<Rightarrow> u64 \<Rightarrow> u64 \<Rightarrow> u64 \<Rightarrow> (nat \<Rightarrow> u64) \<Rightarrow> (bytes \<Rightarrow> ElfFile option) \<Rightarrow> bytes option \<Rightarrow> ('f kernel, unit) cmd" where
  "task_init stdin stdout task_entry root_fn test_fn kst elf_new user_shell =
     bind (init_percpu stdin stdout (kst 0)) (\<lambda>_. bind manager_init (\<lambda>_.
     bind (process_new_kernel stdin stdout task_entry (kst 1) root_fn 0) (\<lambda>r.
     bind (modifies (\<lambda>k. k\<lparr>ROOT_PROC := Some r\<rparr>)) (\<lambda>_.
     bind (proc_task r) (\<lambda>root_task. bind (task_is_root root_task) (\<lambda>b. bind (assert_cmd b) (\<lambda>_.
     bind (manager_spawn root_task) (\<lambda>_.
     bind (process_new_kernel stdin stdout task_entry (kst 2) test_fn 0xdead) (\<lambda>p. bind (proc_task p) (\<lambda>t. bind (manager_spawn t) (\<lambda>_.
     bind (process_new_kernel stdin stdout task_entry (kst 3) test_fn 0xbeef) (\<lambda>p. bind (proc_task p) (\<lambda>t. bind (manager_spawn t) (\<lambda>_.
     bind (process_new_user stdin stdout task_entry elf_new (kst 4) user_shell) (\<lambda>p. bind (proc_task p) (\<lambda>t. manager_spawn t))))))))))))))))"

section \<open>System calls on processes and threads\<close>

text \<open>src/os/src/syscall/process.rs and thread.rs, as far as they do not touch user memory.\<close>

definition sys_exit :: "i32 \<Rightarrow> ('f kernel, unit) cmd" where
  "sys_exit exit_code = current_exit exit_code"

definition sys_exit_group :: "i32 \<Rightarrow> ('f kernel, unit) cmd" where
  "sys_exit_group exit_code =
     bind (gets current_task) (\<lambda>t. bind (task_proc t) (\<lambda>p.
     bind (process_stop p exit_code) (\<lambda>_. current_exit exit_code)))"

definition sys_yield :: "('f kernel, int) cmd" where
  "sys_yield = bind yield_now (\<lambda>_. ret 0)"

definition sys_getpid :: "('f kernel, int) cmd" where
  "sys_getpid = bind (gets current_task) (\<lambda>t. bind (task_proc t) (\<lambda>p. bind (get_proc p) (\<lambda>P. ret (int (proc_id P)))))"

definition sys_fork :: "'f \<Rightarrow> 'f \<Rightarrow> u64 \<Rightarrow> u64 \<Rightarrow> TrapFrame \<Rightarrow> ('f kernel, int) cmd" where
  "sys_fork stdin stdout task_entry kst tf =
     bind (gets current_task) (\<lambda>t. bind (task_proc t) (\<lambda>p.
     bind (new_fork stdin stdout task_entry kst p tf) (\<lambda>new_proc.
     bind (get_proc new_proc) (\<lambda>N.
     bind (spawn_proc new_proc) (\<lambda>_. bind (proc_task new_proc) (\<lambda>t. bind (spawn_task t) (\<lambda>_.
     ret (int (proc_id N)))))))))"

definition sys_thread_create :: "u64 \<Rightarrow> u64 \<Rightarrow> u64 \<Rightarrow> u64 \<Rightarrow> ('f kernel, int) cmd" where
  "sys_thread_create task_entry kst fn arg =
     bind (gets current_task) (\<lambda>t. bind (task_proc t) (\<lambda>p.
     bind (new_user_task task_entry kst p fn arg) (\<lambda>new_task.
     bind (get_task new_task) (\<lambda>N. bind (spawn_task new_task) (\<lambda>_. ret (int (tid N)))))))"

definition sys_gettid :: "('f kernel, int) cmd" where
  "sys_gettid = bind (gets current_task) (\<lambda>t. bind (get_task t) (\<lambda>T. ret (int (tid T))))"

definition sys_waittid :: "nat \<Rightarrow> ('f kernel, int) cmd" where
  "sys_waittid i =
     bind (gets current_task) (\<lambda>t. bind (task_proc t) (\<lambda>p. bind (get_task t) (\<lambda>T.
     if tid T = i then ret (-1) else waittid p i)))"

end
