(* ===== verification/SchedSpec.thy ===== *)
theory SchedSpec
  imports Procs
begin

text \<open>
  The contract of the scheduler: exactly one task runs, the ready queue holds every other ready task once,
  the queue is served in turn, and the idle task, whose code ends in \<open>unreachable!\<close>, never runs again
  because the root task never leaves the queue for good.
\<close>

section \<open>Rules for the kernel state\<close>

lemma runs_gets [simp]: "runs (gets f) k Q \<longleftrightarrow> Q (f k) k"
  by (simp add: gets_def runs_def)

lemma runs_modifies [simp]: "runs (modifies f) k Q \<longleftrightarrow> Q () (f k)"
  by (simp add: modifies_def runs_def)

lemma runs_get_task: "runs (get_task t) k Q \<longleftrightarrow> (\<exists>T. task_heap k t = Some T \<and> Q T k)"
  by (auto simp: get_task_def runs_def split: option.splits)

lemma runs_modify_task: "runs (modify_task t f) k Q \<longleftrightarrow> (\<exists>T. task_heap k t = Some T \<and> Q () (k\<lparr>task_heap := (task_heap k)(t \<mapsto> f T)\<rparr>))"
  by (auto simp: modify_task_def runs_bind runs_get_task)

lemma runs_get_proc: "runs (get_proc p) k Q \<longleftrightarrow> (\<exists>P. btm_get (procs k) p = Some P \<and> Q P k)"
  by (auto simp: get_proc_def runs_def split: option.splits)

lemma runs_modify_proc: "runs (modify_proc p f) k Q \<longleftrightarrow> (\<exists>P. btm_get (procs k) p = Some P \<and> Q () (k\<lparr>procs := btm_insert p (f P) (procs k)\<rparr>))"
  by (auto simp: modify_proc_def runs_bind runs_get_proc)

lemmas kernel_runs = runs_bind runs_get_task runs_modify_task runs_get_proc runs_modify_proc runs_lift runs_assert

section \<open>The state the scheduler sees\<close>

definition st :: "'f kernel \<Rightarrow> tref \<Rightarrow> TaskState option" where
  "st k t = map_option t_state (task_heap k t)"

text \<open>A task is at home when it knows its process and its process lists it.\<close>

definition at_home :: "'f kernel \<Rightarrow> tref \<Rightarrow> bool" where
  "at_home k t \<longleftrightarrow> map_option (\<lambda>T. TRef (process T) (tid T)) (task_heap k t) = Some t \<and>
     (\<exists>P. btm_get (procs k) (ref_pid t) = Some P \<and> t \<in> snd ` set (tasks P))"

lemma at_homeD:
  assumes "at_home k t"
  obtains T where "task_heap k t = Some T" "process T = ref_pid t" "tid T = ref_tid t"
  using assms unfolding at_home_def by (cases "task_heap k t") auto

abbreviation idle_ref :: tref where "idle_ref \<equiv> TRef 0 0"
abbreviation root_ref :: tref where "root_ref \<equiv> TRef 1 0"

definition idle_home :: "'f kernel \<Rightarrow> bool" where
  "idle_home k \<longleftrightarrow> at_home k idle_ref \<and> idle_proc k = 0 \<and> (\<exists>P. btm_get (procs k) 0 = Some P \<and> tasks P = [(0, idle_ref)]) \<and>
     btm_ok (procs k)"

definition sched_inv :: "'f kernel \<Rightarrow> bool" where
  "sched_inv k \<longleftrightarrow>
     {t. st k t = Some Running} = {current_task k} \<and>
     distinct (ready_queue k) \<and>
     {t. st k t = Some Ready} = set (ready_queue k) \<union> (if current_task k = idle_ref then {} else {idle_ref}) \<and>
     idle_ref \<notin> set (ready_queue k) \<and>
     (\<forall>t\<in>insert (current_task k) (set (ready_queue k)). at_home k t) \<and> idle_home k"

text \<open>What a scheduling operation leaves alone.\<close>

definition task_frame :: "Task \<Rightarrow> Task" where
  "task_frame T = T\<lparr>t_state := Ready, ctx := task_context_default\<rparr>"

definition same_objects :: "'f kernel \<Rightarrow> 'f kernel \<Rightarrow> bool" where
  "same_objects k k' \<longleftrightarrow>
     map_option task_frame \<circ> task_heap k' = map_option task_frame \<circ> task_heap k \<and>
     kmem k' = kmem k \<and> procs k' = procs k \<and> PID_ALLOCATOR k' = PID_ALLOCATOR k \<and> PROC_MAP k' = PROC_MAP k \<and>
     ROOT_PROC k' = ROOT_PROC k \<and> idle_proc k' = idle_proc k \<and> TIMERS k' = TIMERS k"

lemma same_objects_refl: "same_objects k k"
  by (simp add: same_objects_def)

lemma same_objects_trans: "same_objects k1 k2 \<Longrightarrow> same_objects k2 k3 \<Longrightarrow> same_objects k1 k3"
  by (simp add: same_objects_def)

lemma task_frame_sel [simp]:
  "process (task_frame T) = process T" "tid (task_frame T) = tid T"
  "task_frame (T\<lparr>t_state := s\<rparr>) = task_frame T" "task_frame (T\<lparr>ctx := c\<rparr>) = task_frame T"
  by (simp_all add: task_frame_def)

lemma at_home_same:
  assumes "same_objects k k'"
  shows "at_home k' t = at_home k t"
proof -
  let ?g = "map_option (\<lambda>T. TRef (process T) (tid T))"
  have g: "?g m = ?g (map_option task_frame m)" for m by (cases m) simp_all
  have f: "map_option task_frame (task_heap k' t) = map_option task_frame (task_heap k t)" and p: "procs k' = procs k"
    using assms unfolding same_objects_def by (metis comp_apply) (use assms in \<open>simp add: same_objects_def\<close>)
  have "?g (task_heap k' t) = ?g (task_heap k t)" using g [of "task_heap k' t"] g [of "task_heap k t"] f by simp
  then show ?thesis unfolding at_home_def p by simp
qed

lemma idle_home_same: "same_objects k k' \<Longrightarrow> idle_home k' = idle_home k"
  using at_home_same [of k k' idle_ref] by (simp add: idle_home_def) (simp add: same_objects_def)

lemma set_state_ok:
  "runs (set_state t s) k Q \<longleftrightarrow> (\<exists>T. task_heap k t = Some T \<and> Q () (k\<lparr>task_heap := (task_heap k)(t \<mapsto> T\<lparr>t_state := s\<rparr>)\<rparr>))"
  by (simp add: set_state_def runs_modify_task)

lemma set_state_same:
  assumes "task_heap k t = Some T"
  shows "same_objects k (k\<lparr>task_heap := (task_heap k)(t \<mapsto> T\<lparr>t_state := s\<rparr>)\<rparr>)"
    and "st (k\<lparr>task_heap := (task_heap k)(t \<mapsto> T\<lparr>t_state := s\<rparr>)\<rparr>) = (st k)(t := Some s)"
proof -
  show "st (k\<lparr>task_heap := (task_heap k)(t \<mapsto> T\<lparr>t_state := s\<rparr>)\<rparr>) = (st k)(t := Some s)" by (rule ext) (simp add: st_def)
  show "same_objects k (k\<lparr>task_heap := (task_heap k)(t \<mapsto> T\<lparr>t_state := s\<rparr>)\<rparr>)"
    unfolding same_objects_def by (simp add: fun_eq_iff assms)
qed

lemma strong_home: "at_home (k :: 'a kernel) t \<Longrightarrow> count_list [current_task k] t < task_strong_count k t"
proof -
  assume "at_home k t"
  then obtain P where P: "btm_get (procs k) (ref_pid t) = Some P" "t \<in> snd ` set (tasks P)" by (auto simp: at_home_def)
  define f where "f = (\<lambda>(_ :: nat, P :: 'a Process). count_list (map snd (tasks P)) t + count_list (waiting_in P) t)"
  have "(ref_pid t, P) \<in> set (procs k)" using P(1) by (simp add: btm_get_def map_of_SomeD)
  then have "f (ref_pid t, P) \<in> set (map f (procs k))" by (metis image_eqI set_map)
  then have le: "f (ref_pid t, P) \<le> sum_list (map f (procs k))" by (rule member_le_sum_list) simp
  have "t \<in> set (map snd (tasks P))" using P(2) by simp
  then have "0 < count_list (map snd (tasks P)) t" by (metis count_list_0_iff gr0I)
  then have "0 < f (ref_pid t, P)" unfolding f_def by simp
  then show ?thesis using le unfolding task_strong_count_def f_def [symmetric] by linarith
qed

lemma switch_to_ok:
  assumes "current_task k = c" and "at_home k c" and "at_home k n"
  shows "runs (switch_to c n) k (\<lambda>_ k'. same_objects k k' \<and> current_task k' = n \<and> ready_queue k' = ready_queue k \<and> st k' = (st k)(n := Some Running))"
proof -
  obtain C where C: "task_heap k c = Some C" using assms(2) by (rule at_homeD)
  obtain N where N: "task_heap k n = Some N" using assms(3) by (rule at_homeD)
  let ?k = "k\<lparr>task_heap := (task_heap k)(n \<mapsto> N\<lparr>t_state := Running\<rparr>)\<rparr>"
  have same: "same_objects k ?k" and st: "st ?k = (st k)(n := Some Running)" by (rule set_state_same [OF N])+
  show ?thesis
  proof (cases "c = n")
    case True
    then show ?thesis using N same st assms(1) by (simp add: switch_to_def runs_bind set_state_ok)
  next
    case False
    have "count_list [current_task ?k] c < task_strong_count ?k c" by (rule strong_home) (use at_home_same [OF same] assms(2) in simp)
    then have r1: "1 < task_strong_count ?k c" using assms(1) by simp
    have r2: "0 < task_strong_count ?k n" using strong_home [of ?k n] at_home_same [OF same] assms(3) by simp
    have CN: "task_heap ?k c = Some C" "task_heap ?k n = Some (N\<lparr>t_state := Running\<rparr>)" using C False by auto
    show ?thesis
      using False N r1 r2 C
      by (auto simp: switch_to_def kernel_runs set_state_ok set_current_task_def case_prod_beta same_objects_def st_def fun_eq_iff)
  qed
qed

section \<open>Picking the next task\<close>

lemma pick_ready:
  assumes "\<forall>t\<in>set (ready_queue k). st k t = Some Ready"
  shows "pick_next_task k = Ok (case ready_queue k of [] \<Rightarrow> None | t # _ \<Rightarrow> Some t, k\<lparr>ready_queue := tl (ready_queue k)\<rparr>)"
  using assms by (cases "ready_queue k") (auto simp: pick_next_task_def st_def split: option.splits)

definition next_of :: "tref list \<Rightarrow> tref" where
  "next_of q = (case q of [] \<Rightarrow> idle_ref | t # _ \<Rightarrow> t)"

lemma idle_task_ok: "idle_home k \<Longrightarrow> runs idle_task k (\<lambda>t k'. t = idle_ref \<and> k' = k)"
  by (auto simp: idle_home_def idle_task_def first_task_def kernel_runs unwrap_def)

lemma resched_ok:
  assumes c: "current_task k = c" "at_home k c" "st k c \<noteq> Some Running"
    and q: "\<forall>t\<in>set (ready_queue k). st k t = Some Ready \<and> at_home k t" and i: "idle_home k"
  shows "runs (resched c) k (\<lambda>_ k'. same_objects k k' \<and> current_task k' = next_of (ready_queue k) \<and> ready_queue k' = tl (ready_queue k) \<and>
    st k' = (st k)(next_of (ready_queue k) := Some Running))"
proof -
  obtain C where C: "task_heap k c = Some C" using c(2) by (rule at_homeD)
  have Cs: "t_state C \<noteq> Running" using C c(3) by (simp add: st_def)
  let ?k = "k\<lparr>ready_queue := tl (ready_queue k)\<rparr>"
  have same: "same_objects k ?k" and st: "st ?k = st k" by (simp_all add: same_objects_def st_def fun_eq_iff)
  have home: "at_home ?k c" "at_home ?k (next_of (ready_queue k))"
    using c(2) q i at_home_same [OF same] by (auto simp: next_of_def idle_home_def split: list.splits)
  have sw: "runs (switch_to c (next_of (ready_queue k))) ?k (\<lambda>_ k'. same_objects k k' \<and> current_task k' = next_of (ready_queue k) \<and>
      ready_queue k' = tl (ready_queue k) \<and> st k' = (st k)(next_of (ready_queue k) := Some Running))"
    by (rule runs_mono [OF switch_to_ok [OF _ home]]) (use c(1) same st same_objects_trans in auto)
  have p: "runs pick_next_task k Q \<longleftrightarrow> Q (case ready_queue k of [] \<Rightarrow> None | t # _ \<Rightarrow> Some t) ?k" for Q :: "tref option \<Rightarrow> _ \<Rightarrow> bool"
    using pick_ready [of k] q by (simp add: runs_def)
  have idl: "runs idle_task ?k (\<lambda>t k'. t = idle_ref \<and> k' = ?k)" by (rule idle_task_ok) (use i idle_home_same [OF same] in simp)
  show ?thesis
  proof (cases "ready_queue k")
    case Nil
    have "runs (bind idle_task (\<lambda>i. switch_to c i)) ?k (\<lambda>_ k'. same_objects k k' \<and> current_task k' = next_of (ready_queue k) \<and>
      ready_queue k' = tl (ready_queue k) \<and> st k' = (st k)(next_of (ready_queue k) := Some Running))"
      unfolding runs_bind by (rule runs_mono [OF idl]) (use sw Nil in \<open>auto simp: next_of_def\<close>)
    then show ?thesis using C Cs Nil by (simp add: resched_def kernel_runs task_state_def p)
  next
    case (Cons t q)
    then show ?thesis using C Cs sw by (simp add: resched_def kernel_runs task_state_def p next_of_def)
  qed
qed

section \<open>The operations of the task manager\<close>

definition queue_after :: "TaskState \<Rightarrow> 'f kernel \<Rightarrow> tref list" where
  "queue_after s k = ready_queue k @ (if s = Ready \<and> current_task k \<noteq> idle_ref then [current_task k] else [])"

text \<open>The current task has gone into state \<open>s\<close> and the next one runs.\<close>

definition handed_over :: "TaskState \<Rightarrow> 'f kernel \<Rightarrow> 'f kernel \<Rightarrow> bool" where
  "handed_over s k k' \<longleftrightarrow> current_task k' = next_of (queue_after s k) \<and> ready_queue k' = tl (queue_after s k) \<and>
     st k' = (st k)(current_task k := Some s, next_of (queue_after s k) := Some Running)"

lemma sched_invD:
  assumes "sched_inv k"
  shows "st k t = Some Running \<longleftrightarrow> t = current_task k" "distinct (ready_queue k)"
    "st k t = Some Ready \<longleftrightarrow> t \<in> set (ready_queue k) \<or> t = idle_ref \<and> current_task k \<noteq> idle_ref"
    "idle_ref \<notin> set (ready_queue k)" "at_home k (current_task k)" "t \<in> set (ready_queue k) \<Longrightarrow> at_home k t" "idle_home k"
proof -
  note i = assms [unfolded sched_inv_def]
  have "t \<in> {t. st k t = Some Running} \<longleftrightarrow> t \<in> {current_task k}" using i by (elim conjE) (simp only:)
  then show "st k t = Some Running \<longleftrightarrow> t = current_task k" by simp
  have "t \<in> {t. st k t = Some Ready} \<longleftrightarrow> t \<in> set (ready_queue k) \<union> (if current_task k = idle_ref then {} else {idle_ref})"
    using i by (elim conjE) (simp only:)
  then show "st k t = Some Ready \<longleftrightarrow> t \<in> set (ready_queue k) \<or> t = idle_ref \<and> current_task k \<noteq> idle_ref" by (simp split: if_splits)
qed (use assms in \<open>simp_all add: sched_inv_def\<close>)

lemma current_not_queued: "sched_inv k \<Longrightarrow> current_task k \<notin> set (ready_queue k)"
  using sched_invD(1,3) [of k "current_task k"] by auto

lemma idle_home_at: "idle_home k \<Longrightarrow> at_home k idle_ref"
  by (simp add: idle_home_def)

lemma queue_after_facts:
  assumes "sched_inv k"
  shows "distinct (queue_after s k)" "idle_ref \<notin> set (queue_after s k)" "t \<in> set (queue_after s k) \<Longrightarrow> at_home k t"
  using sched_invD(2,4-) [OF assms] current_not_queued [OF assms] by (auto simp: queue_after_def split: if_splits)

lemma sched_inv_handed_over:
  assumes i: "sched_inv k" and s: "s \<noteq> Running" "current_task k = idle_ref \<Longrightarrow> s = Ready"
    and h: "handed_over s k k'" and home: "\<And>t. at_home k' t = at_home k t" "idle_home k'"
  shows "sched_inv k'"
proof -
  note D = sched_invD [OF i] and Q = queue_after_facts [OF i, where s = s]
  let ?q = "queue_after s k" and ?c = "current_task k"
  have cur: "current_task k' = next_of ?q" and rq: "ready_queue k' = tl ?q"
    and st: "st k' = (st k)(?c := Some s, next_of ?q := Some Running)" using h by (simp_all add: handed_over_def)
  have nq: "?q = [] \<and> next_of ?q = idle_ref \<or> (\<exists>r. ?q = next_of ?q # r)" by (cases ?q) (simp_all add: next_of_def)
  have mem: "t \<in> set ?q \<longleftrightarrow> t \<in> set (ready_queue k) \<or> s = Ready \<and> t = ?c \<and> ?c \<noteq> idle_ref" for t by (auto simp: queue_after_def)
  have "{t. st k' t = Some Running} = {current_task k'}" unfolding cur st using D(1) s(1) by auto
  moreover have "distinct (ready_queue k')" unfolding rq by (rule distinct_tl [OF Q(1)])
  moreover have "{t. st k' t = Some Ready} = set (ready_queue k') \<union> (if current_task k' = idle_ref then {} else {idle_ref})"
  proof (rule set_eqI)
    fix t
    have a: "st k' t = Some Ready \<longleftrightarrow> t \<noteq> next_of ?q \<and> (t = ?c \<and> s = Ready \<or> t \<noteq> ?c \<and> st k t = Some Ready)" by (simp add: st)
    have b: "t \<noteq> ?c \<and> st k t = Some Ready \<or> t = ?c \<and> s = Ready \<longleftrightarrow> t \<in> set ?q \<or> t = idle_ref"
      using D(3) [of t] mem [of t] s(2) current_not_queued [OF i] by (cases "t = ?c"; cases "?c = idle_ref") auto
    have c: "t \<in> set (tl ?q) \<longleftrightarrow> t \<in> set ?q \<and> t \<noteq> next_of ?q" using nq Q(1,2) by (cases ?q) (auto simp: next_of_def)
    show "t \<in> {t. st k' t = Some Ready} \<longleftrightarrow> t \<in> set (ready_queue k') \<union> (if current_task k' = idle_ref then {} else {idle_ref})"
      using a b c Q(2) unfolding rq cur by (simp split: if_splits) blast
  qed
  moreover have "idle_ref \<notin> set (ready_queue k')" using Q(2) unfolding rq by (cases ?q) simp_all
  moreover have "\<forall>t\<in>insert (current_task k') (set (ready_queue k')). at_home k' t"
    using Q(3) nq idle_home_at [OF D(7)] unfolding home rq cur by (cases ?q) (auto simp: next_of_def)
  ultimately show ?thesis using home(2) unfolding sched_inv_def by blast
qed

text \<open>\<open>resched\<close> after the current task was put in state \<open>s\<close> and, when ready, queued.\<close>

lemma resched_hands_over:
  assumes i: "sched_inv k" and s: "s \<noteq> Running" and T: "task_heap k (current_task k) = Some T"
  shows "runs (resched (current_task k)) (k\<lparr>task_heap := (task_heap k)(current_task k \<mapsto> T\<lparr>t_state := s\<rparr>), ready_queue := queue_after s k\<rparr>)
    (\<lambda>_ k'. same_objects k k' \<and> handed_over s k k')"
proof -
  note D = sched_invD [OF i] and Q = queue_after_facts [OF i, where s = s]
  let ?c = "current_task k"
  let ?k = "k\<lparr>task_heap := (task_heap k)(?c \<mapsto> T\<lparr>t_state := s\<rparr>), ready_queue := queue_after s k\<rparr>"
  have same: "same_objects k ?k" using set_state_same(1) [OF T, of s] by (simp add: same_objects_def)
  have stk: "st ?k = (st k)(?c := Some s)" by (rule ext) (simp add: st_def)
  have "\<forall>t\<in>set (queue_after s k). ((st k)(?c := Some s)) t = Some Ready"
    using D(3) by (auto simp: queue_after_def split: if_splits) (use current_not_queued [OF i] in blast)+
  then have q: "\<forall>t\<in>set (ready_queue ?k). st ?k t = Some Ready \<and> at_home ?k t"
    unfolding stk at_home_same [OF same] using Q(3) by simp
  have "runs (resched ?c) ?k (\<lambda>_ k'. same_objects ?k k' \<and> current_task k' = next_of (ready_queue ?k) \<and> ready_queue k' = tl (ready_queue ?k) \<and>
    st k' = (st ?k)(next_of (ready_queue ?k) := Some Running))"
    by (rule resched_ok) (use s D(5,7) at_home_same [OF same] idle_home_same [OF same] q stk in simp_all)
  then show ?thesis by (rule runs_mono) (use same_objects_trans [OF same] stk in \<open>auto simp: handed_over_def\<close>)
qed

lemma home_task_proc:
  assumes "at_home k t"
  shows "runs (task_proc t) k (\<lambda>p k'. p = ref_pid t \<and> k' = k)" "runs (task_is_idle t) k (\<lambda>b k'. b = (t = idle_ref) \<and> k' = k)"
proof -
  obtain T where T: "task_heap k t = Some T" "process T = ref_pid t" "tid T = ref_tid t" using assms by (rule at_homeD)
  moreover obtain P where "btm_get (procs k) (ref_pid t) = Some P" using assms by (auto simp: at_home_def)
  ultimately show "runs (task_proc t) k (\<lambda>p k'. p = ref_pid t \<and> k' = k)" "runs (task_is_idle t) k (\<lambda>b k'. b = (t = idle_ref) \<and> k' = k)"
    by (auto simp: task_proc_def task_is_idle_def kernel_runs proc_is_idle_def tref.expand)
qed

lemma yield_hands_over:
  assumes i: "sched_inv k"
  shows "runs yield_now k (\<lambda>_ k'. same_objects k k' \<and> handed_over Ready k k')"
proof -
  note D = sched_invD [OF i]
  obtain T where T: "task_heap k (current_task k) = Some T" using D(5) by (rule at_homeD)
  have r: "t_state T = Running" using D(1) [of "current_task k"] T by (simp add: st_def)
  let ?c = "current_task k" and ?k = "k\<lparr>task_heap := (task_heap k)(current_task k \<mapsto> T\<lparr>t_state := Ready\<rparr>)\<rparr>"
  have "same_objects k ?k" by (rule set_state_same [OF T])
  then have "at_home ?k ?c" using at_home_same D(5) by blast
  note idle = home_task_proc(2) [OF this]
  have n: "runs (bind (if \<not> ?c = idle_ref then add_ready_task ?c else ret ()) (\<lambda>_. resched ?c)) ?k (\<lambda>_ k'. same_objects k k' \<and> handed_over Ready k k')"
    using resched_hands_over [OF i _ T, of Ready] by (simp add: runs_bind add_ready_task_def queue_after_def split: if_splits)
  have "runs (bind (task_is_idle ?c) (\<lambda>b. bind (if \<not> b then add_ready_task ?c else ret ()) (\<lambda>_. resched ?c))) ?k
      (\<lambda>_ k'. same_objects k k' \<and> handed_over Ready k k')"
    unfolding runs_bind [of "task_is_idle ?c"] by (rule runs_mono [OF idle]) (use n in blast)
  then show ?thesis using T r by (simp add: yield_now_def yield_current_def kernel_runs task_state_def set_state_ok)
qed

lemma block_hands_over:
  assumes i: "sched_inv k"
  shows "runs block_and_yield k (\<lambda>_ k'. same_objects k k' \<and> handed_over Blocking k k')"
proof -
  obtain T where T: "task_heap k (current_task k) = Some T" using sched_invD(5) [OF i] by (rule at_homeD)
  have "k\<lparr>task_heap := h, ready_queue := queue_after Blocking k\<rparr> = k\<lparr>task_heap := h\<rparr>" for h by (simp add: queue_after_def)
  then show ?thesis using resched_hands_over [OF i _ T, of Blocking] T
    by (simp add: block_and_yield_def block_current_def kernel_runs set_state_ok)
qed

lemma resume_ok:
  assumes i: "sched_inv k" and b: "st k t = Some Blocking" and h: "at_home k t"
  shows "runs (task_resume t) k (\<lambda>_ k'. same_objects k k' \<and> sched_inv k' \<and> current_task k' = current_task k \<and>
    ready_queue k' = ready_queue k @ [t] \<and> st k' = (st k)(t := Some Ready))"
proof -
  obtain T where T: "task_heap k t = Some T" using h by (rule at_homeD)
  have bT: "t_state T = Blocking" using b T by (simp add: st_def)
  let ?k = "k\<lparr>task_heap := (task_heap k)(t \<mapsto> T\<lparr>t_state := Ready\<rparr>), ready_queue := ready_queue k @ [t]\<rparr>"
  have same: "same_objects k ?k" using set_state_same(1) [OF T, of Ready] by (simp add: same_objects_def)
  have stk: "st ?k = (st k)(t := Some Ready)" by (rule ext) (simp add: st_def)
  note D = sched_invD [OF i]
  have new: "t \<noteq> current_task k" "t \<notin> set (ready_queue k)" "t \<noteq> idle_ref" using D(1,3) [of t] b by auto
  have ready: "{u. st ?k u = Some Ready} = insert t {u. st k u = Some Ready}"
    and running: "{u. st ?k u = Some Running} = {u. st k u = Some Running}" using b unfolding stk by auto
  have "sched_inv ?k" unfolding sched_inv_def running ready idle_home_same [OF same] at_home_same [OF same]
    using i new h by (simp add: sched_inv_def insert_commute)
  then show ?thesis using T bT same stk
    by (simp add: task_resume_def manager_spawn_def add_ready_task_def task_state_def kernel_runs set_state_ok)
qed

section \<open>The end of a task\<close>

lemma btm_get_insert [simp]: "btm_ok m \<Longrightarrow> btm_get (btm_insert p v m) q = (if q = p then Some v else btm_get m q)"
  by (simp add: btm_get_def map_of_btm_insert)

text \<open>The processes keep their tasks.\<close>

definition same_tasks :: "'f kernel \<Rightarrow> 'f kernel \<Rightarrow> bool" where
  "same_tasks k k' \<longleftrightarrow> task_heap k' = task_heap k \<and> ready_queue k' = ready_queue k \<and> current_task k' = current_task k \<and>
     idle_proc k' = idle_proc k \<and> PID_ALLOCATOR k' = PID_ALLOCATOR k \<and> (btm_ok (procs k) \<longrightarrow> btm_ok (procs k')) \<and>
     (btm_ok (procs k) \<longrightarrow> (\<forall>p. map_option tasks (btm_get (procs k') p) = map_option tasks (btm_get (procs k) p)))"

lemma same_tasks_refl: "same_tasks k k"
  by (simp add: same_tasks_def)

lemma same_tasks_trans: "same_tasks k1 k2 \<Longrightarrow> same_tasks k2 k3 \<Longrightarrow> same_tasks k1 k3"
  unfolding same_tasks_def by (intro conjI impI allI; elim conjE; metis)

lemma same_tasks_procs:
  assumes "btm_get (procs k) p = Some P" and "tasks (f P) = tasks P"
  shows "same_tasks k (k\<lparr>procs := btm_insert p (f P) (procs k)\<rparr>)"
  using assms by (simp add: same_tasks_def btm_insert_ok)

lemma modify_proc_tasks:
  assumes "\<And>P. tasks (f P) = tasks P" and "runs (modify_proc p f) k Q"
  shows "\<exists>k'. same_tasks k k' \<and> Q () k'"
proof -
  obtain P where P: "btm_get (procs k) p = Some P" "Q () (k\<lparr>procs := btm_insert p (f P) (procs k)\<rparr>)"
    using assms(2) by (auto simp: runs_modify_proc)
  then show ?thesis using same_tasks_procs [where f = f, OF P(1) assms(1)] by blast
qed

lemma with_mem_tasks: "runs (with_mem m) k Q \<Longrightarrow> \<exists>a k'. same_tasks k k' \<and> Q a k'"
proof -
  assume "runs (with_mem m) k Q"
  then obtain a s where "Q a (k\<lparr>kmem := s\<rparr>)" by (auto simp: with_mem_def runs_def split: res.splits prod.splits)
  moreover have "same_tasks k (k\<lparr>kmem := s\<rparr>)" by (simp add: same_tasks_def)
  ultimately show ?thesis by blast
qed

lemma process_exit_tasks:
  fixes k :: "'f kernel"
  assumes "runs (process_exit p) k Q"
  shows "\<exists>k'. same_tasks k k' \<and> Q () k'"
proof -
  have "runs (modify_proc p (\<lambda>P. P\<lparr>p_state := PZombie\<rparr>)) k (\<lambda>_ k1. runs (get_proc p) k1 (\<lambda>P k2.
      runs (case vm P of None \<Rightarrow> ret () | Some ms \<Rightarrow> with_mem (memory_set_drop ms)) k2 (\<lambda>_ k3.
      runs (modify_proc p (\<lambda>P. P\<lparr>vm := None\<rparr>)) k3 Q)))"
    using assms by (simp add: process_exit_def runs_bind)
  from modify_proc_tasks [OF _ this] obtain k1 and P :: "'f Process" where k1: "same_tasks k k1"
    "runs (case vm P of None \<Rightarrow> ret () | Some ms \<Rightarrow> with_mem (memory_set_drop ms)) k1 (\<lambda>_ k3. runs (modify_proc p (\<lambda>P. P\<lparr>vm := None\<rparr>)) k3 Q)"
    by (auto simp: runs_get_proc)
  have "\<exists>k2. same_tasks k1 k2 \<and> runs (modify_proc p (\<lambda>P. P\<lparr>vm := None\<rparr>)) k2 Q"
    using k1(2) same_tasks_refl by (cases "vm P") (auto dest!: with_mem_tasks)
  then obtain k2 where k2: "same_tasks k1 k2" "runs (modify_proc p (\<lambda>P. P\<lparr>vm := None\<rparr>)) k2 Q" by blast
  obtain k3 where "same_tasks k2 k3" "Q () k3" using modify_proc_tasks [OF _ k2(2)] by auto
  then show ?thesis using same_tasks_trans [OF k1(1) same_tasks_trans [OF k2(1)]] by blast
qed

lemma task_exit_tasks:
  fixes k :: "'f kernel"
  assumes "runs (task_exit p c) k Q"
  shows "\<exists>k'. same_tasks k k' \<and> Q () k'"
proof -
  obtain n :: nat where n: "runs (if n = 0 then bind (get_proc p) (\<lambda>P.
       bind (if p_state P = PNormal then modify_proc p (\<lambda>P. P\<lparr>p_exit_code := c\<rparr>) else ret ()) (\<lambda>_. process_exit p)) else ret ()) k Q"
    using assms unfolding task_exit_def task_count_def runs_bind [of "get_proc p"] runs_bind [of "bind _ _"] runs_get_proc runs_gets by blast
  show ?thesis
  proof (cases "n = 0")
    case True
    then obtain P :: "'f Process" where "runs (if p_state P = PNormal then modify_proc p (\<lambda>P. P\<lparr>p_exit_code := c\<rparr>) else ret ()) k (\<lambda>_ k'. runs (process_exit p) k' Q)"
      using n by (auto simp: runs_bind runs_get_proc)
    then obtain k1 where "same_tasks k k1" "runs (process_exit p) k1 Q"
      using modify_proc_tasks [of "\<lambda>P. P\<lparr>p_exit_code := c\<rparr>" p k] same_tasks_refl by (cases "p_state P = PNormal") auto
    then show ?thesis using process_exit_tasks same_tasks_trans by blast
  qed (use n same_tasks_refl in auto)
qed

lemma same_view_inv:
  assumes "sched_inv k" and "st k' = st k" and "current_task k' = current_task k" and "ready_queue k' = ready_queue k"
    and "\<And>t. at_home k' t = at_home k t" and "idle_home k'"
  shows "sched_inv k'"
  using assms unfolding sched_inv_def by simp

lemma same_tasks_home:
  assumes s: "same_tasks k k'" and i: "idle_home k"
  shows "at_home k' t = at_home k t" "idle_home k'"
proof -
  have ok: "btm_ok (procs k)" using i by (simp add: idle_home_def)
  have p: "map_option tasks (btm_get (procs k') p) = map_option tasks (btm_get (procs k) p)" for p using s ok by (simp add: same_tasks_def)
  have e: "(\<exists>P. btm_get (procs k') q = Some P \<and> R (tasks P)) \<longleftrightarrow> (\<exists>P. btm_get (procs k) q = Some P \<and> R (tasks P))" for q R
    using p [of q] by (cases "btm_get (procs k) q"; cases "btm_get (procs k') q") auto
  have h: "task_heap k' = task_heap k" "idle_proc k' = idle_proc k" "btm_ok (procs k')" using s ok by (simp_all add: same_tasks_def)
  show a: "at_home k' t = at_home k t" for t unfolding at_home_def h using e [of "ref_pid t" "\<lambda>ts. t \<in> snd ` set ts"] by simp
  show "idle_home k'" using i e [of 0 "\<lambda>ts. ts = [(0, idle_ref)]"] h unfolding idle_home_def a by simp
qed

lemma same_tasks_inv: "same_tasks k k' \<Longrightarrow> sched_inv k \<Longrightarrow> sched_inv k'"
  using same_tasks_home [of k k'] sched_invD(7) [of k]
  by (intro same_view_inv [of k k']) (auto simp: same_tasks_def st_def fun_eq_iff)

lemma exit_code_inv:
  assumes "sched_inv k" and "task_heap k t = Some T"
  shows "sched_inv (k\<lparr>task_heap := (task_heap k)(t \<mapsto> T\<lparr>t_exit_code := c\<rparr>)\<rparr>)"
proof (rule same_view_inv [OF assms(1)])
  let ?k = "k\<lparr>task_heap := (task_heap k)(t \<mapsto> T\<lparr>t_exit_code := c\<rparr>)\<rparr>"
  show "st ?k = st k" using assms(2) by (auto simp: st_def fun_eq_iff)
  show a: "at_home ?k u = at_home k u" for u using assms(2) by (simp add: at_home_def)
  show "idle_home ?k" using sched_invD(7) [OF assms(1)] unfolding idle_home_def a by simp
qed simp_all

lemma exit_current_ok:
  assumes i: "sched_inv k0" and n: "current_task k0 \<noteq> idle_ref" and T: "task_heap k0 (current_task k0) = Some T" and c: "t_exit_code T = c"
  shows "runs (exit_current (current_task k0) c) (k0\<lparr>task_heap := (task_heap k0)(current_task k0 \<mapsto> T\<lparr>t_state := TZombie\<rparr>)\<rparr>)
    (\<lambda>_ k'. same_objects k0 k' \<and> handed_over TZombie k0 k')"
proof -
  let ?t = "current_task k0"
  let ?k = "k0\<lparr>task_heap := (task_heap k0)(?t \<mapsto> T\<lparr>t_state := TZombie\<rparr>)\<rparr>"
  have q: "?k = k0\<lparr>task_heap := (task_heap k0)(?t \<mapsto> T\<lparr>t_state := TZombie\<rparr>), ready_queue := queue_after TZombie k0\<rparr>"
    by (simp add: queue_after_def)
  let ?F = "\<lambda>_. bind (gets current_task) (\<lambda>u. if u = ?t then fail Explicit_panic else ret ())"
  have eq: "T\<lparr>t_state := TZombie, t_exit_code := c\<rparr> = T\<lparr>t_state := TZombie\<rparr>" using c by (cases T) simp
  have ev: "exit_current ?t c ?k = bind (resched ?t) ?F ?k"
    unfolding exit_current_def task_state_def set_state_def set_exit_code_def modify_task_def get_task_def modifies_def assert_cmd_def bind_def ret_def
    by (simp add: eq)
  have "?t \<notin> set (ready_queue k0)" using sched_invD(1,3) [OF i, of ?t] by auto
  then have ne: "next_of (queue_after TZombie k0) \<noteq> ?t"
    using n by (cases "ready_queue k0") (auto simp: queue_after_def next_of_def)
  have "runs (resched ?t) ?k (\<lambda>_ k'. same_objects k0 k' \<and> handed_over TZombie k0 k')"
    by (subst q) (rule resched_hands_over [OF i _ T], simp)
  then have "runs (bind (resched ?t) ?F) ?k (\<lambda>_ k'. same_objects k0 k' \<and> handed_over TZombie k0 k')"
    unfolding runs_bind [of "resched ?t"] by (rule runs_mono) (use ne in \<open>simp add: kernel_runs handed_over_def\<close>)
  then show ?thesis unfolding runs_def ev .
qed

text \<open>\<open>current_exit\<close> first makes its task a zombie and changes the process, which gives \<open>k2\<close>, and then hands
  over.\<close>

definition exiting :: "'f kernel \<Rightarrow> Task \<Rightarrow> i32 \<Rightarrow> 'f kernel" where
  "exiting k T c = k\<lparr>task_heap := (task_heap k)(current_task k \<mapsto> T\<lparr>t_state := TZombie, t_exit_code := c\<rparr>)\<rparr>"

lemma current_exit_runs:
  assumes i: "sched_inv k" and T: "task_heap k (current_task k) = Some T"
  shows "runs (current_exit c) k Q \<longleftrightarrow>
    runs (task_exit (ref_pid (current_task k)) c) (exiting k T c) (\<lambda>_ s. runs (exit_current (current_task k) c) s Q)"
proof -
  have "at_home k (current_task k)" by (rule sched_invD(5) [OF i])
  then have "process T = ref_pid (current_task k)" and "\<exists>P. btm_get (procs k) (ref_pid (current_task k)) = Some P"
    using T by (auto simp: at_home_def dest: sym)
  then show ?thesis using T by (auto simp: current_exit_def kernel_runs set_state_ok set_exit_code_def task_proc_def exiting_def)
qed

lemma exit_hands_over:
  assumes i: "sched_inv k" and n: "current_task k \<noteq> idle_ref" and T: "task_heap k (current_task k) = Some T" and k2: "same_tasks (exiting k T c) k2"
  shows "runs (exit_current (current_task k) c) k2 (\<lambda>_ k'. sched_inv k' \<and> handed_over TZombie k k' \<and>
    same_objects (k2\<lparr>task_heap := (task_heap k)(current_task k \<mapsto> T\<lparr>t_exit_code := c\<rparr>)\<rparr>) k')"
proof -
  let ?t = "current_task k"
  let ?R = "k\<lparr>task_heap := (task_heap k)(?t \<mapsto> T\<lparr>t_exit_code := c\<rparr>)\<rparr>"
  let ?k0 = "k2\<lparr>task_heap := task_heap ?R\<rparr>"
  have "same_tasks ?R ?k0" using k2 by (simp add: same_tasks_def exiting_def)
  then have i0: "sched_inv ?k0" by (rule same_tasks_inv [OF _ exit_code_inv [OF i T]])
  have heap: "task_heap k2 = task_heap (exiting k T c)" and cur: "current_task k2 = ?t" and rq: "ready_queue k2 = ready_queue k"
    using k2 by (simp_all add: same_tasks_def exiting_def)
  have comm: "T\<lparr>t_exit_code := c, t_state := TZombie\<rparr> = T\<lparr>t_state := TZombie, t_exit_code := c\<rparr>" by (cases T) simp
  have T0: "task_heap ?k0 (current_task ?k0) = Some (T\<lparr>t_exit_code := c\<rparr>)" by (simp add: cur)
  have "?k0\<lparr>task_heap := (task_heap ?k0)(current_task ?k0 \<mapsto> T\<lparr>t_exit_code := c, t_state := TZombie\<rparr>)\<rparr> = k2\<lparr>task_heap := task_heap (exiting k T c)\<rparr>"
    by (simp add: cur comm exiting_def)
  also have "\<dots> = k2" by (simp flip: heap)
  finally have "runs (exit_current ?t c) k2 (\<lambda>_ k'. same_objects ?k0 k' \<and> handed_over TZombie ?k0 k')"
    using exit_current_ok [OF i0 _ T0] n cur by simp
  then show ?thesis
  proof (rule runs_mono, elim conjE)
    fix k' assume h: "same_objects ?k0 k'" "handed_over TZombie ?k0 k'"
    have "sched_inv k'"
      by (rule sched_inv_handed_over [OF i0 _ _ h(2)])
        (use n cur at_home_same [OF h(1)] idle_home_same [OF h(1)] sched_invD(7) [OF i0] in simp_all)
    moreover have "st ?k0 = st k" using T by (auto simp: st_def fun_eq_iff)
    then have "handed_over TZombie k k'" using h(2) cur rq by (simp add: handed_over_def queue_after_def)
    ultimately show "sched_inv k' \<and> handed_over TZombie k k' \<and> same_objects (k2\<lparr>task_heap := (task_heap k)(?t \<mapsto> T\<lparr>t_exit_code := c\<rparr>)\<rparr>) k'"
      using h(1) by simp
  qed
qed

lemma exit_steps:
  assumes i: "sched_inv k" and n: "current_task k \<noteq> idle_ref" and e: "current_exit c k = Ok ((), k')"
  shows "\<exists>k0. same_objects k0 k' \<and> sched_inv k' \<and> handed_over TZombie k k' \<and> PID_ALLOCATOR k0 = PID_ALLOCATOR k \<and>
    (\<forall>t. task_heap k0 t = None \<longleftrightarrow> task_heap k t = None) \<and> (\<forall>p. btm_get (procs k0) p = None \<longleftrightarrow> btm_get (procs k) p = None)"
proof -
  obtain T where T: "task_heap k (current_task k) = Some T" using sched_invD(5) [OF i] by (rule at_homeD)
  have "runs (current_exit c) k (\<lambda>_ s. s = k')" using e by (simp add: runs_def)
  from task_exit_tasks [OF this [unfolded current_exit_runs [OF i T]]] obtain k2 where
    k2: "same_tasks (exiting k T c) k2" "runs (exit_current (current_task k) c) k2 (\<lambda>_ s. s = k')" by blast
  let ?k0 = "k2\<lparr>task_heap := (task_heap k)(current_task k \<mapsto> T\<lparr>t_exit_code := c\<rparr>)\<rparr>"
  have h: "sched_inv k'" "handed_over TZombie k k'" "same_objects ?k0 k'"
    using exit_hands_over [OF i n T k2(1)] k2(2) by (auto simp: runs_iff)
  have "task_heap ?k0 t = None \<longleftrightarrow> task_heap k t = None" for t using T by simp
  moreover have "btm_ok (procs k)" using sched_invD(7) [OF i] by (simp add: idle_home_def)
  then have "map_option tasks (btm_get (procs ?k0) p) = map_option tasks (btm_get (procs k) p)" for p
    using k2(1) by (simp add: same_tasks_def exiting_def)
  then have "btm_get (procs ?k0) p = None \<longleftrightarrow> btm_get (procs k) p = None" for p by (metis option.map_disc_iff)
  moreover have "PID_ALLOCATOR ?k0 = PID_ALLOCATOR k" using k2(1) by (simp add: same_tasks_def exiting_def)
  ultimately show ?thesis using h by blast
qed

end
