(* ===== verification/SyncPrims.thy ===== *)
theory SyncPrims
  imports SchedSpec
begin

text \<open>
  Mutexes, semaphores and condition variables for programs (src/os/src/sync/user_mutex.rs, semaphore.rs,
  condvar.rs) and their system calls (syscall/sync.rs).  Each operation first changes the object, under its
  kernel lock, and then resumes a waiting task, yields or blocks.
\<close>

section \<open>Mutexes\<close>

definition mutex_spin_new :: UserMutex where
  "mutex_spin_new = MutexSpin False"

definition mutex_blocking_new :: UserMutex where
  "mutex_blocking_new = MutexBlocking False []"

text \<open>How a round of \<open>lock\<close> ends: with the lock; with a yield after which it is tried again; or asleep in the
  queue, to return with the lock when it is resumed.\<close>

datatype lock_round = Acquired | Retry | Asleep

definition mutex_spin_lock :: "bool \<Rightarrow> lock_round \<times> bool" where
  "mutex_spin_lock locked = (if locked then (Retry, locked) else (Acquired, True))"

definition mutex_spin_unlock :: "bool \<Rightarrow> bool" where
  "mutex_spin_unlock locked = False"

definition mutex_blocking_lock :: "bool \<Rightarrow> tref list \<Rightarrow> tref \<Rightarrow> lock_round \<times> bool \<times> tref list" where
  "mutex_blocking_lock locked wait_queue curr_task =
     (if locked then (Asleep, locked, wait_queue @ [curr_task]) else (Acquired, True, wait_queue))"

text \<open>The task to resume, the flag and the queue.\<close>

definition mutex_blocking_unlock :: "bool \<Rightarrow> tref list \<Rightarrow> (tref option \<times> bool \<times> tref list) res" where
  "mutex_blocking_unlock locked wait_queue = bind_res (assert_res locked) (\<lambda>_. case wait_queue of
     waking_task # q \<Rightarrow> Ok (Some waking_task, locked, q)
   | [] \<Rightarrow> Ok (None, False, []))"

text \<open>The methods of the trait, by the kind of the mutex.\<close>

fun mutex_lock :: "UserMutex \<Rightarrow> tref \<Rightarrow> lock_round \<times> UserMutex" where
  "mutex_lock (MutexSpin locked) t = (case mutex_spin_lock locked of (r, l) \<Rightarrow> (r, MutexSpin l))"
| "mutex_lock (MutexBlocking locked q) t = (case mutex_blocking_lock locked q t of (r, l, q) \<Rightarrow> (r, MutexBlocking l q))"

fun mutex_unlock :: "UserMutex \<Rightarrow> (tref option \<times> UserMutex) res" where
  "mutex_unlock (MutexSpin locked) = Ok (None, MutexSpin (mutex_spin_unlock locked))"
| "mutex_unlock (MutexBlocking locked q) = bind_res (mutex_blocking_unlock locked q) (\<lambda>(w, l, q). Ok (w, MutexBlocking l q))"

lemmas mutex_impl_defs [simp] = mutex_spin_lock_def mutex_spin_unlock_def mutex_blocking_lock_def mutex_blocking_unlock_def

section \<open>Semaphores and condition variables\<close>

definition semaphore_new :: "u64 \<Rightarrow> Semaphore" where
  "semaphore_new res_count = \<lparr>sem_count = res_count, sem_wait_queue = []\<rparr>"

definition semaphore_up :: "Semaphore \<Rightarrow> tref option \<times> Semaphore" where
  "semaphore_up s =
     (let s = s\<lparr>sem_count := sem_count s + 1\<rparr> in
      if sem_count s \<le>s 0 then
        (case sem_wait_queue s of t # q \<Rightarrow> (Some t, s\<lparr>sem_wait_queue := q\<rparr>) | [] \<Rightarrow> (None, s))
      else (None, s))"

text \<open>Whether the caller has to block, and the semaphore.\<close>

definition semaphore_down :: "Semaphore \<Rightarrow> tref \<Rightarrow> bool \<times> Semaphore" where
  "semaphore_down s t =
     (let s = s\<lparr>sem_count := sem_count s - 1\<rparr> in
      if sem_count s <s 0 then (True, s\<lparr>sem_wait_queue := sem_wait_queue s @ [t]\<rparr>) else (False, s))"

definition condvar_new :: Condvar where
  "condvar_new = \<lparr>cv_wait_queue = []\<rparr>"

definition condvar_signal :: "Condvar \<Rightarrow> tref option \<times> Condvar" where
  "condvar_signal c = (case cv_wait_queue c of t # q \<Rightarrow> (Some t, c\<lparr>cv_wait_queue := q\<rparr>) | [] \<Rightarrow> (None, c))"

definition condvar_enqueue :: "Condvar \<Rightarrow> tref \<Rightarrow> Condvar" where
  "condvar_enqueue c t = c\<lparr>cv_wait_queue := cv_wait_queue c @ [t]\<rparr>"

section \<open>System calls\<close>

definition current_proc :: "('f kernel, nat) cmd" where
  "current_proc = bind (gets current_task) task_proc"

definition resume_opt :: "tref option \<Rightarrow> ('f kernel, unit) cmd" where
  "resume_opt w = (case w of Some t \<Rightarrow> task_resume t | None \<Rightarrow> ret ())"

text \<open>The first free place of a list of objects, or a new place at its end.\<close>

definition put_object :: "'a option list \<Rightarrow> 'a \<Rightarrow> nat \<times> 'a option list" where
  "put_object xs a = (case lowest_free xs of Some i \<Rightarrow> (i, xs[i := Some a]) | None \<Rightarrow> (length xs, xs @ [Some a]))"

definition get_object :: "'a option list \<Rightarrow> nat \<Rightarrow> 'a res" where
  "get_object xs i = bind_res (index_res xs i) unwrap"

definition sys_mutex_create :: "bool \<Rightarrow> ('f kernel, int) cmd" where
  "sys_mutex_create blocking =
     bind current_proc (\<lambda>p. bind (get_proc p) (\<lambda>P.
     let m = (if \<not> blocking then mutex_spin_new else mutex_blocking_new); (i, ms) = put_object (mutex_list P) m in
     bind (modify_proc p (\<lambda>P. P\<lparr>mutex_list := ms\<rparr>)) (\<lambda>_. ret (int i))))"

text \<open>One round of the call; it returns 0 once it holds the mutex.\<close>

definition sys_mutex_lock :: "nat \<Rightarrow> ('f kernel, lock_round) cmd" where
  "sys_mutex_lock i =
     bind (gets current_task) (\<lambda>t. bind current_proc (\<lambda>p. bind (get_proc p) (\<lambda>P.
     bind (lift (get_object (mutex_list P) i)) (\<lambda>m.
     let (r, m') = mutex_lock m t in
     bind (modify_proc p (\<lambda>P. P\<lparr>mutex_list := (mutex_list P)[i := Some m']\<rparr>)) (\<lambda>_.
     bind (case r of Acquired \<Rightarrow> ret () | Retry \<Rightarrow> yield_now | Asleep \<Rightarrow> block_and_yield) (\<lambda>_. ret r))))))"

definition unlock_object :: "nat \<Rightarrow> nat \<Rightarrow> ('f kernel, unit) cmd" where
  "unlock_object p i =
     bind (get_proc p) (\<lambda>P. bind (lift (get_object (mutex_list P) i)) (\<lambda>m. bind (lift (mutex_unlock m)) (\<lambda>(w, m').
     bind (modify_proc p (\<lambda>P. P\<lparr>mutex_list := (mutex_list P)[i := Some m']\<rparr>)) (\<lambda>_. resume_opt w))))"

definition sys_mutex_unlock :: "nat \<Rightarrow> ('f kernel, int) cmd" where
  "sys_mutex_unlock i = bind current_proc (\<lambda>p. bind (unlock_object p i) (\<lambda>_. ret 0))"

definition sys_semaphore_create :: "u64 \<Rightarrow> ('f kernel, int) cmd" where
  "sys_semaphore_create res_count =
     bind current_proc (\<lambda>p. bind (get_proc p) (\<lambda>P.
     let (i, ss) = put_object (semaphore_list P) (semaphore_new res_count) in
     bind (modify_proc p (\<lambda>P. P\<lparr>semaphore_list := ss\<rparr>)) (\<lambda>_. ret (int i))))"

definition sys_semaphore_up :: "nat \<Rightarrow> ('f kernel, int) cmd" where
  "sys_semaphore_up i =
     bind current_proc (\<lambda>p. bind (get_proc p) (\<lambda>P. bind (lift (get_object (semaphore_list P) i)) (\<lambda>s.
     let (w, s') = semaphore_up s in
     bind (modify_proc p (\<lambda>P. P\<lparr>semaphore_list := (semaphore_list P)[i := Some s']\<rparr>)) (\<lambda>_.
     bind (resume_opt w) (\<lambda>_. ret 0)))))"

definition sys_semaphore_down :: "nat \<Rightarrow> ('f kernel, int) cmd" where
  "sys_semaphore_down i =
     bind (gets current_task) (\<lambda>t. bind current_proc (\<lambda>p. bind (get_proc p) (\<lambda>P. bind (lift (get_object (semaphore_list P) i)) (\<lambda>s.
     let (blocks, s') = semaphore_down s t in
     bind (modify_proc p (\<lambda>P. P\<lparr>semaphore_list := (semaphore_list P)[i := Some s']\<rparr>)) (\<lambda>_.
     bind (if blocks then block_and_yield else ret ()) (\<lambda>_. ret 0))))))"

definition sys_condvar_create :: "('f kernel, int) cmd" where
  "sys_condvar_create =
     bind current_proc (\<lambda>p. bind (get_proc p) (\<lambda>P.
     let (i, cs) = put_object (condvar_list P) condvar_new in
     bind (modify_proc p (\<lambda>P. P\<lparr>condvar_list := cs\<rparr>)) (\<lambda>_. ret (int i))))"

definition sys_condvar_signal :: "nat \<Rightarrow> ('f kernel, int) cmd" where
  "sys_condvar_signal i =
     bind current_proc (\<lambda>p. bind (get_proc p) (\<lambda>P. bind (lift (get_object (condvar_list P) i)) (\<lambda>c.
     let (w, c') = condvar_signal c in
     bind (modify_proc p (\<lambda>P. P\<lparr>condvar_list := (condvar_list P)[i := Some c']\<rparr>)) (\<lambda>_.
     bind (resume_opt w) (\<lambda>_. ret 0)))))"

text \<open>The call up to the point where the task sleeps; when it is resumed it goes on with \<open>sys_mutex_lock\<close>.\<close>

definition sys_condvar_wait :: "nat \<Rightarrow> nat \<Rightarrow> ('f kernel, unit) cmd" where
  "sys_condvar_wait i mutex_id =
     bind (gets current_task) (\<lambda>t. bind current_proc (\<lambda>p. bind (get_proc p) (\<lambda>P.
     bind (lift (get_object (condvar_list P) i)) (\<lambda>_. bind (lift (get_object (mutex_list P) mutex_id)) (\<lambda>_.
     bind (unlock_object p mutex_id) (\<lambda>_.
     bind (get_proc p) (\<lambda>P. bind (lift (get_object (condvar_list P) i)) (\<lambda>c.
     bind (modify_proc p (\<lambda>P. P\<lparr>condvar_list := (condvar_list P)[i := Some (condvar_enqueue c t)]\<rparr>)) (\<lambda>_.
     block_and_yield)))))))))"

section \<open>The contract of a mutex\<close>

locale user_mutex =
  fixes locked :: "'m \<Rightarrow> bool"
    and sleepers :: "'m \<Rightarrow> tref list"
    and lock :: "'m \<Rightarrow> tref \<Rightarrow> lock_round \<times> 'm"
    and unlock :: "'m \<Rightarrow> (tref option \<times> 'm) res"
  assumes lock_free: "\<not> locked m \<Longrightarrow> sleepers m = [] \<Longrightarrow> fst (lock m t) = Acquired \<and> locked (snd (lock m t)) \<and> sleepers (snd (lock m t)) = []"
    and lock_held: "locked m \<Longrightarrow> locked (snd (lock m t)) \<and>
      (fst (lock m t) = Retry \<and> sleepers (snd (lock m t)) = sleepers m \<or> fst (lock m t) = Asleep \<and> sleepers (snd (lock m t)) = sleepers m @ [t])"
    and unlock_empty: "locked m \<Longrightarrow> sleepers m = [] \<Longrightarrow> \<exists>m'. unlock m = Ok (None, m') \<and> \<not> locked m' \<and> sleepers m' = []"
    and unlock_next: "locked m \<Longrightarrow> sleepers m = t # q \<Longrightarrow> \<exists>m'. unlock m = Ok (Some t, m') \<and> locked m' \<and> sleepers m' = q"

text \<open>Tasks that use one mutex: who holds it, the tasks whose call of \<open>lock\<close> got the mutex or a place in its
  queue, in the order of those calls, and the tasks that got the mutex, in the order they got it.  The code
  does not check who unlocks: here, as in a correct program, only a holder does.  A sleeping task only moves
  when it is resumed.\<close>

record 'm mutex_sys =
  the_mutex :: 'm
  holders :: "tref set"
  arrivals :: "tref list"
  served :: "tref list"

inductive mutex_reach :: "('m \<Rightarrow> tref list) \<Rightarrow> ('m \<Rightarrow> tref \<Rightarrow> lock_round \<times> 'm) \<Rightarrow> ('m \<Rightarrow> (tref option \<times> 'm) res) \<Rightarrow> 'm \<Rightarrow> 'm mutex_sys \<Rightarrow> bool"
  for sleepers lock unlock m0 where
  start: "mutex_reach sleepers lock unlock m0 \<lparr>the_mutex = m0, holders = {}, arrivals = [], served = []\<rparr>"
| lock: "mutex_reach sleepers lock unlock m0 s \<Longrightarrow> t \<notin> holders s \<Longrightarrow> t \<notin> set (sleepers (the_mutex s)) \<Longrightarrow> lock (the_mutex s) t = (r, m') \<Longrightarrow>
    mutex_reach sleepers lock unlock m0 \<lparr>the_mutex = m', holders = (if r = Acquired then insert t (holders s) else holders s),
      arrivals = (if r = Retry then arrivals s else arrivals s @ [t]), served = (if r = Acquired then served s @ [t] else served s)\<rparr>"
| unlock: "mutex_reach sleepers lock unlock m0 s \<Longrightarrow> t \<in> holders s \<Longrightarrow> unlock (the_mutex s) = Ok (w, m') \<Longrightarrow>
    mutex_reach sleepers lock unlock m0 \<lparr>the_mutex = m', holders = (holders s - {t}) \<union> set_option w,
      arrivals = arrivals s, served = served s @ (case w of Some u \<Rightarrow> [u] | None \<Rightarrow> [])\<rparr>"

context user_mutex
begin

definition mutex_inv :: "'m mutex_sys \<Rightarrow> bool" where
  "mutex_inv s \<longleftrightarrow> (if locked (the_mutex s) then \<exists>t. holders s = {t} \<and> t \<notin> set (sleepers (the_mutex s)) \<and> served s \<noteq> [] \<and> last (served s) = t
     else holders s = {} \<and> sleepers (the_mutex s) = []) \<and> distinct (sleepers (the_mutex s)) \<and>
     arrivals s = served s @ sleepers (the_mutex s)"

lemma lock_inv:
  assumes i: "mutex_inv s" and t: "t \<notin> holders s" "t \<notin> set (sleepers (the_mutex s))" and l: "lock (the_mutex s) t = (r, m')"
  shows "mutex_inv \<lparr>the_mutex = m', holders = (if r = Acquired then insert t (holders s) else holders s),
      arrivals = (if r = Retry then arrivals s else arrivals s @ [t]), served = (if r = Acquired then served s @ [t] else served s)\<rparr>"
proof -
  let ?m = "the_mutex s"
  have r: "fst (lock ?m t) = r" "snd (lock ?m t) = m'" using l by simp_all
  show ?thesis
  proof (cases "locked ?m")
    case True
    then obtain h where h: "holders s = {h}" "h \<notin> set (sleepers ?m)" "distinct (sleepers ?m)" "served s \<noteq> []" "last (served s) = h"
      "arrivals s = served s @ sleepers ?m" using i by (auto simp: mutex_inv_def)
    have m': "locked m'" and q: "r = Retry \<and> sleepers m' = sleepers ?m \<or> r = Asleep \<and> sleepers m' = sleepers ?m @ [t]"
      using lock_held [OF True, of t] r by auto
    have "h \<noteq> t" using t(1) h(1) by simp
    then show ?thesis using q m' h t(2) by (elim disjE) (simp_all add: mutex_inv_def)
  next
    case False
    then have "holders s = {}" "sleepers ?m = []" "arrivals s = served s" using i by (simp_all add: mutex_inv_def)
    then show ?thesis using lock_free [OF False, of t] r by (simp add: mutex_inv_def)
  qed
qed

lemma unlock_inv:
  assumes i: "mutex_inv s" and t: "t \<in> holders s" and u: "unlock (the_mutex s) = Ok (w, m')"
  shows "mutex_inv \<lparr>the_mutex = m', holders = (holders s - {t}) \<union> set_option w,
      arrivals = arrivals s, served = served s @ (case w of Some u \<Rightarrow> [u] | None \<Rightarrow> [])\<rparr>"
proof -
  let ?m = "the_mutex s"
  have l: "locked ?m" "holders s = {t}" "t \<notin> set (sleepers ?m)" "distinct (sleepers ?m)" "arrivals s = served s @ sleepers ?m"
    using i t by (auto simp: mutex_inv_def split: if_splits)
  show ?thesis
  proof (cases "sleepers ?m")
    case Nil
    then have "w = None" "\<not> locked m'" "sleepers m' = []" using u unlock_empty [OF l(1) Nil] by auto
    then show ?thesis using l Nil by (simp add: mutex_inv_def)
  next
    case (Cons v q)
    then have "w = Some v" "locked m'" "sleepers m' = q" using u unlock_next [OF l(1) Cons] by auto
    then show ?thesis using l Cons by (simp add: mutex_inv_def)
  qed
qed

lemma reach_inv:
  assumes "mutex_reach sleepers lock unlock m0 s" and "\<not> locked m0" and "sleepers m0 = []"
  shows "mutex_inv s"
  using assms(1)
proof (induction rule: mutex_reach.induct)
  case start
  then show ?case using assms(2,3) by (simp add: mutex_inv_def)
qed (simp_all add: lock_inv unlock_inv)

lemma exclusive: "mutex_inv s \<Longrightarrow> t \<in> holders s \<Longrightarrow> holders s = {t} \<and> last (served s) = t"
  by (auto simp: mutex_inv_def split: if_splits)

lemma in_turn: "mutex_inv s \<Longrightarrow> arrivals s = served s @ sleepers (the_mutex s)"
  by (simp add: mutex_inv_def)

lemma unlock_hands_over:
  assumes "mutex_inv s" and "t \<in> holders s"
  shows "\<exists>m'. unlock (the_mutex s) = Ok (case sleepers (the_mutex s) of [] \<Rightarrow> None | u # _ \<Rightarrow> Some u, m')"
proof -
  have l: "locked (the_mutex s)" using assms by (auto simp: mutex_inv_def split: if_splits)
  then show ?thesis using unlock_empty [OF l] unlock_next [OF l] by (cases "sleepers (the_mutex s)") auto
qed

end

fun mutex_locked :: "UserMutex \<Rightarrow> bool" where
  "mutex_locked (MutexSpin l) = l"
| "mutex_locked (MutexBlocking l q) = l"

fun mutex_sleepers :: "UserMutex \<Rightarrow> tref list" where
  "mutex_sleepers (MutexSpin l) = []"
| "mutex_sleepers (MutexBlocking l q) = q"

interpretation um: user_mutex mutex_locked mutex_sleepers mutex_lock mutex_unlock
proof unfold_locales
  fix m :: UserMutex and t :: tref and q :: "tref list"
  show "\<not> mutex_locked m \<Longrightarrow> mutex_sleepers m = [] \<Longrightarrow> fst (mutex_lock m t) = Acquired \<and> mutex_locked (snd (mutex_lock m t)) \<and> mutex_sleepers (snd (mutex_lock m t)) = []"
    by (cases m) auto
  show "mutex_locked m \<Longrightarrow> mutex_locked (snd (mutex_lock m t)) \<and>
      (fst (mutex_lock m t) = Retry \<and> mutex_sleepers (snd (mutex_lock m t)) = mutex_sleepers m \<or>
       fst (mutex_lock m t) = Asleep \<and> mutex_sleepers (snd (mutex_lock m t)) = mutex_sleepers m @ [t])"
    by (cases m) auto
  show "mutex_locked m \<Longrightarrow> mutex_sleepers m = [] \<Longrightarrow> \<exists>m'. mutex_unlock m = Ok (None, m') \<and> \<not> mutex_locked m' \<and> mutex_sleepers m' = []"
    by (cases m) (auto simp: assert_res_def)
  show "mutex_locked m \<Longrightarrow> mutex_sleepers m = t # q \<Longrightarrow> \<exists>m'. mutex_unlock m = Ok (Some t, m') \<and> mutex_locked m' \<and> mutex_sleepers m' = q"
    by (cases m) (auto simp: assert_res_def)
qed

text \<open>C12.  Tasks lock and unlock a mutex in any order, each unlocking only what it holds.  Then at most one holds it,
  the last that got it; an unlock by the holder does not stop the kernel.  Nobody overtakes in the queue of a
  blocking mutex: the tasks that got the mutex are the first of those that found it free or queued up, in that
  order, the sleeping tasks are the rest, and unlock hands over to the first of them.  (Nobody queues up on a
  spinning mutex: a task that finds it taken tries again.)\<close>

theorem mutex_exclusion:
  assumes "mutex_reach mutex_sleepers mutex_lock mutex_unlock m0 s" and "m0 \<in> {mutex_spin_new, mutex_blocking_new}"
  shows "arrivals s = served s @ mutex_sleepers (the_mutex s) \<and>
    (\<forall>t\<in>holders s. holders s = {t} \<and> last (served s) = t \<and>
      (\<exists>m'. mutex_unlock (the_mutex s) = Ok (case drop (length (served s)) (arrivals s) of [] \<Rightarrow> None | u # _ \<Rightarrow> Some u, m')))"
proof -
  have "\<not> mutex_locked m0" "mutex_sleepers m0 = []" using assms(2) by (auto simp: mutex_spin_new_def mutex_blocking_new_def)
  then have i: "um.mutex_inv s" by (rule um.reach_inv [OF assms(1)])
  have "drop (length (served s)) (arrivals s) = mutex_sleepers (the_mutex s)" using um.in_turn [OF i] by simp
  then show ?thesis using um.exclusive [OF i] um.unlock_hands_over [OF i] um.in_turn [OF i] by metis
qed

theorem mutex_exclusion_witness:
  "\<exists>m'. mutex_unlock (MutexBlocking True [TRef 3 0, TRef 4 0]) = Ok (Some (TRef 3 0), m')"
proof -
  let ?r = "mutex_reach mutex_sleepers mutex_lock mutex_unlock mutex_blocking_new"
  note lk = mutex_reach.lock [of mutex_sleepers mutex_lock mutex_unlock mutex_blocking_new]
  have "?r \<lparr>the_mutex = mutex_blocking_new, holders = {}, arrivals = [], served = []\<rparr>" by (rule mutex_reach.start)
  from lk [OF this, of "TRef 2 0" Acquired "MutexBlocking True []"]
  have "?r \<lparr>the_mutex = MutexBlocking True [], holders = {TRef 2 0}, arrivals = [TRef 2 0], served = [TRef 2 0]\<rparr>"
    by (simp add: mutex_blocking_new_def)
  from lk [OF this, of "TRef 3 0" Asleep "MutexBlocking True [TRef 3 0]"]
  have "?r \<lparr>the_mutex = MutexBlocking True [TRef 3 0], holders = {TRef 2 0}, arrivals = [TRef 2 0, TRef 3 0], served = [TRef 2 0]\<rparr>" by simp
  from lk [OF this, of "TRef 4 0" Asleep "MutexBlocking True [TRef 3 0, TRef 4 0]"]
  have "?r \<lparr>the_mutex = MutexBlocking True [TRef 3 0, TRef 4 0], holders = {TRef 2 0}, arrivals = [TRef 2 0, TRef 3 0, TRef 4 0], served = [TRef 2 0]\<rparr>" by simp
  from mutex_exclusion [OF this] show ?thesis by simp
qed

section \<open>The contract of a semaphore\<close>

datatype sem_event = Up | Down tref

text \<open>The semaphore and the tasks that have passed a \<open>down\<close>, in order: at once, or when a later \<open>up\<close> woke them.\<close>

fun sem_step :: "Semaphore \<times> tref list \<Rightarrow> sem_event \<Rightarrow> Semaphore \<times> tref list" where
  "sem_step (s, passed) Up = (case semaphore_up s of (w, s') \<Rightarrow> (s', passed @ (case w of Some t \<Rightarrow> [t] | None \<Rightarrow> [])))"
| "sem_step (s, passed) (Down t) = (case semaphore_down s t of (blocks, s') \<Rightarrow> (s', if blocks then passed else passed @ [t]))"

definition sem_run :: "Semaphore \<Rightarrow> sem_event list \<Rightarrow> Semaphore \<times> tref list" where
  "sem_run s es = foldl sem_step (s, []) es"

definition downs :: "sem_event list \<Rightarrow> tref list" where
  "downs es = concat (map (\<lambda>e. case e of Down t \<Rightarrow> [t] | Up \<Rightarrow> []) es)"

definition ups :: "sem_event list \<Rightarrow> nat" where
  "ups es = length (filter (\<lambda>e. e = Up) es)"

lemma ups_downs: "ups es + length (downs es) = length es"
  by (induction es) (auto simp: ups_def downs_def split: sem_event.splits)

lemma sint_add1: "sint (a :: u64) + 1 < 2 ^ 63 \<Longrightarrow> sint (a + 1) = sint a + 1"
  using sint_greater_eq [of a] by (simp add: sint_word_ariths signed_take_bit_int_eq_self)

lemma sint_sub1: "- (2 ^ 63) \<le> sint (a :: u64) - 1 \<Longrightarrow> sint (a - 1) = sint a - 1"
  using sint_less [of a] by (simp add: sint_word_ariths signed_take_bit_int_eq_self)

lemma sint_small:
  assumes "unat (c :: u64) < 2 ^ 63"
  shows "sint c = int (unat c)"
proof -
  have "nat (uint c) < 2 ^ 63" using assms by (simp only: unat_eq_nat_uint)
  then have "uint c < 2 ^ 63" by (subst (asm) nat_less_iff) simp_all
  moreover have "- (2 ^ 63) \<le> uint c" by (rule order_trans [OF _ uint_ge_0]) simp
  ultimately have "signed_take_bit 63 (uint c) = uint c" by (rule signed_take_bit_int_eq_self [rotated])
  then show ?thesis by (simp add: sint_uint)
qed

lemma semaphore_up_spec:
  assumes "sint (sem_count s) + 1 < 2 ^ 63"
  shows "fst (semaphore_up s) = (if sint (sem_count s) + 1 \<le> 0 then (case sem_wait_queue s of t # q \<Rightarrow> Some t | [] \<Rightarrow> None) else None)"
    and "sint (sem_count (snd (semaphore_up s))) = sint (sem_count s) + 1"
    and "sem_wait_queue (snd (semaphore_up s)) = (if sint (sem_count s) + 1 \<le> 0 then tl (sem_wait_queue s) else sem_wait_queue s)"
  using sint_add1 [OF assms] by (auto simp: semaphore_up_def Let_def word_sle_eq split: list.splits)

lemma semaphore_down_spec:
  assumes "- (2 ^ 63) \<le> sint (sem_count s) - 1"
  shows "fst (semaphore_down s t) = (sint (sem_count s) - 1 < 0)"
    and "sint (sem_count (snd (semaphore_down s t))) = sint (sem_count s) - 1"
    and "sem_wait_queue (snd (semaphore_down s t)) = (if sint (sem_count s) - 1 < 0 then sem_wait_queue s @ [t] else sem_wait_queue s)"
  using sint_sub1 [OF assms] by (auto simp: semaphore_down_def Let_def word_sless_alt)

text \<open>With \<open>n\<close> resources and \<open>up\<close> calls so far and the callers \<open>ds\<close> of \<open>down\<close>.\<close>

definition sem_inv :: "nat \<Rightarrow> tref list \<Rightarrow> Semaphore \<times> tref list \<Rightarrow> bool" where
  "sem_inv n ds s \<longleftrightarrow> sint (sem_count (fst s)) = int n - int (length ds) \<and> snd s = take n ds \<and> sem_wait_queue (fst s) = drop n ds"

lemma sem_step_up:
  assumes i: "sem_inv n ds (s, passed)" and b: "n + 1 < 2 ^ 63"
  shows "sem_inv (Suc n) ds (sem_step (s, passed) Up)"
proof -
  have I: "sint (sem_count s) = int n - int (length ds)" "passed = take n ds" "sem_wait_queue s = drop n ds" using i by (simp_all add: sem_inv_def)
  have "sint (sem_count s) + 1 < 2 ^ 63" using I(1) b by simp
  note U = semaphore_up_spec [OF this]
  have st: "sem_step (s, passed) Up = (snd (semaphore_up s), passed @ (case fst (semaphore_up s) of Some t \<Rightarrow> [t] | None \<Rightarrow> []))"
    by (simp add: case_prod_beta)
  show ?thesis
  proof (cases "n < length ds")
    case True
    then have le: "sint (sem_count s) + 1 \<le> 0" using I(1) by simp
    have q: "sem_wait_queue s = ds ! n # drop (Suc n) ds" using I(3) True by (simp add: Cons_nth_drop_Suc)
    have "fst (semaphore_up s) = Some (ds ! n)" "sem_wait_queue (snd (semaphore_up s)) = drop (Suc n) ds" using U(1,3) le q by simp_all
    then show ?thesis using U(2) I(1,2) True unfolding st by (simp add: sem_inv_def take_Suc_conv_app_nth)
  next
    case False
    then have "\<not> sint (sem_count s) + 1 \<le> 0" using I(1) by simp
    then have "fst (semaphore_up s) = None" "sem_wait_queue (snd (semaphore_up s)) = []" using U(1,3) I(3) False by simp_all
    then show ?thesis using U(2) I(1,2) False unfolding st by (simp add: sem_inv_def)
  qed
qed

lemma sem_step_down:
  assumes i: "sem_inv n ds (s, passed)" and b: "length ds + 1 < 2 ^ 63"
  shows "sem_inv n (ds @ [t]) (sem_step (s, passed) (Down t))"
proof -
  have I: "sint (sem_count s) = int n - int (length ds)" "passed = take n ds" "sem_wait_queue s = drop n ds" using i by (simp_all add: sem_inv_def)
  have "- (2 ^ 63) \<le> sint (sem_count s) - 1" using I(1) b by simp
  note D = semaphore_down_spec [OF this, of t]
  have st: "sem_step (s, passed) (Down t) = (snd (semaphore_down s t), if fst (semaphore_down s t) then passed else passed @ [t])"
    by (simp add: case_prod_beta)
  show ?thesis
  proof (cases "n \<le> length ds")
    case True
    then have lt: "sint (sem_count s) - 1 < 0" using I(1) by simp
    then show ?thesis using D I True unfolding st by (simp add: sem_inv_def)
  next
    case False
    then have "\<not> sint (sem_count s) - 1 < 0" using I(1) by simp
    then show ?thesis using D I False unfolding st by (simp add: sem_inv_def)
  qed
qed

lemma sem_run_inv: "unat c + length es < 2 ^ 63 \<Longrightarrow> sem_inv (unat c + ups es) (downs es) (sem_run (semaphore_new c) es)"
proof (induction es rule: rev_induct)
  case Nil
  then have "sint c = int (unat c)" by (intro sint_small) simp
  then show ?case by (simp add: sem_inv_def sem_run_def semaphore_new_def ups_def downs_def)
next
  case (snoc e es)
  obtain s passed where r: "sem_run (semaphore_new c) es = (s, passed)" by (cases "sem_run (semaphore_new c) es")
  have i: "sem_inv (unat c + ups es) (downs es) (s, passed)" using snoc r by simp
  have step: "sem_run (semaphore_new c) (es @ [e]) = sem_step (s, passed) e" using r by (simp add: sem_run_def)
  have len: "ups es + length (downs es) = length es" by (rule ups_downs)
  show ?case
  proof (cases e)
    case Up
    have "unat c + ups es + 1 < 2 ^ 63" using snoc.prems len by simp
    from sem_step_up [OF i this] show ?thesis unfolding step unfolding Up by (simp add: ups_def downs_def)
  next
    case (Down t)
    have "length (downs es) + 1 < 2 ^ 63" using snoc.prems len by simp
    from sem_step_down [OF i this] show ?thesis unfolding step unfolding Down by (simp add: ups_def downs_def)
  qed
qed

text \<open>C18.  A semaphore created with \<open>c\<close> lets exactly as many \<open>down\<close> calls pass as there were resources and
  \<open>up\<close> calls, in the order of the calls; the later callers wait, in order.\<close>

theorem semaphore_fifo:
  assumes "unat c + length es < 2 ^ 63"
  shows "snd (sem_run (semaphore_new c) es) = take (unat c + ups es) (downs es) \<and>
    sem_wait_queue (fst (sem_run (semaphore_new c) es)) = drop (unat c + ups es) (downs es)"
  using sem_run_inv [OF assms] by (simp add: sem_inv_def)

theorem semaphore_fifo_witness:
  "snd (sem_run (semaphore_new 1) [Down (TRef 2 0), Down (TRef 2 1), Down (TRef 2 2), Up]) = [TRef 2 0, TRef 2 1]"
proof -
  have "unat (1 :: u64) + length [Down (TRef 2 0), Down (TRef 2 1), Down (TRef 2 2), Up] < 2 ^ 63" by simp
  from conjunct1 [OF semaphore_fifo [OF this]] show ?thesis by (simp add: ups_def downs_def take_Suc_conv_app_nth)
qed

end
