(* ===== verification/ForkSpec.thy ===== *)
theory ForkSpec
  imports SchedSpec SpaceProps
begin

text \<open>
  What \<open>fork\<close> does: the child process and its task, the parent, the queue and the process map.  The clone of
  the address space is the one of SpaceProps.
\<close>

section \<open>The new process\<close>

lemma runs_with_mem: "runs (with_mem m) k Q \<longleftrightarrow> runs m (kmem k) (\<lambda>a s. Q a (k\<lparr>kmem := s\<rparr>))"
  by (simp add: with_mem_def runs_def split: res.splits prod.splits)

definition default_actions :: SignalActions where
  "default_actions = replicate (MAX_SIG + 1) \<lparr>handler = 0, act_mask = TRAP_QUIT\<rparr>"

lemma default_actions: "signal_actions_default = Ok default_actions"
  by (simp add: signal_actions_default_def default_action_mask default_actions_def)

definition child_process :: "'f Process \<Rightarrow> nat \<Rightarrow> nat \<Rightarrow> MemorySet \<Rightarrow> 'f Process" where
  "child_process S p i ms = \<lparr>proc_id = i, p_is_kernel = False, p_state = PNormal, p_exit_code = 0, vm = Some ms,
     tasks = [(0, TRef i 0)], tid_allocator = 1, parent = Some p, children = [], fd_table = fd_table S,
     signal_actions = default_actions, mutex_list = [], semaphore_list = [], condvar_list = []\<rparr>"

definition child_task :: "u64 \<Rightarrow> u64 \<Rightarrow> nat \<Rightarrow> MemorySet \<Rightarrow> TrapFrame \<Rightarrow> Task" where
  "child_task task_entry kst i ms tf = (task_new_common kst 0 False i)\<lparr>entry := User (trap_frame_new_fork tf),
     ctx := task_context_init task_context_default task_entry kst (page_table_root ms)\<rparr>"

lemma btm_insert_twice [simp]: "btm_insert p v (btm_insert p w m) = btm_insert p v m"
  by (induction p v m rule: btm_insert.induct) auto

text \<open>The state after \<open>new_fork\<close>, and after the rest of \<open>sys_fork\<close>.\<close>

definition forked :: "'f kernel \<Rightarrow> nat \<Rightarrow> 'f Process \<Rightarrow> 'f Process \<Rightarrow> Task \<Rightarrow> pmem \<Rightarrow> 'f kernel" where
  "forked k p S C T s' = (let i = PID_ALLOCATOR k in k\<lparr>PID_ALLOCATOR := i + 1, kmem := s',
     task_heap := (task_heap k)(TRef i 0 \<mapsto> T), procs := btm_insert p (S\<lparr>children := children S @ [i]\<rparr>) (btm_insert i C (procs k))\<rparr>)"

definition fork_spawned :: "'f kernel \<Rightarrow> nat \<Rightarrow> 'f kernel" where
  "fork_spawned k i = k\<lparr>PROC_MAP := btm_insert i i (PROC_MAP k), ready_queue := ready_queue k @ [TRef i 0]\<rparr>"

lemma new_fork_ok:
  assumes ok: "btm_ok (procs k)" and S: "btm_get (procs k) p = Some S" "\<not> p_is_kernel S" "vm S = Some ms0"
    and clone: "memory_set_clone ms0 (kmem k) = Ok (ms, s')"
    and i: "i = PID_ALLOCATOR k" "btm_get (procs k) i = None" "i + 1 < USIZE_LIMIT"
  shows "runs (new_fork stdin stdout task_entry kst p tf) k (\<lambda>r k'. r = i \<and>
    k' = forked k p S (child_process S p i ms) (child_task task_entry kst i ms tf) s')"
proof -
  have ne: "p \<noteq> i" using S(1) i(2) by auto
  have cl: "runs (memory_set_clone ms0) (kmem k) Q \<longleftrightarrow> Q ms s'" for Q using clone by (simp add: runs_def)
  show ?thesis
    using S ok i ne
    by (simp add: new_fork_def kernel_runs proc_id_alloc_def id_alloc_def process_new_common_def default_actions process_alloc_def unwrap_def
        runs_with_mem cl alloc_tid_def task_alloc_def task_new_common_def add_child_def btm_insert_ok forked_def child_process_def child_task_def Let_def)
qed

lemma sys_fork_ok:
  assumes inv: "sched_inv k" and S: "btm_get (procs k) (ref_pid (current_task k)) = Some S" "\<not> p_is_kernel S" "vm S = Some ms0"
    and clone: "memory_set_clone ms0 (kmem k) = Ok (ms, s')"
    and i: "i = PID_ALLOCATOR k" "btm_get (procs k) i = None" "i + 1 < USIZE_LIMIT"
  shows "sys_fork stdin stdout task_entry kst tf k = Ok (int i, fork_spawned (forked k (ref_pid (current_task k)) S
    (child_process S (ref_pid (current_task k)) i ms) (child_task task_entry kst i ms tf) s') i)"
proof -
  let ?p = "ref_pid (current_task k)"
  let ?k = "forked k ?p S (child_process S ?p i ms) (child_task task_entry kst i ms tf) s'"
  have ok: "btm_ok (procs k)" using sched_invD(7) [OF inv] by (simp add: idle_home_def)
  have ne: "?p \<noteq> i" using S(1) i(2) by auto
  have "runs (task_proc (current_task k)) k (\<lambda>p k'. p = ?p \<and> k' = k)" by (rule home_task_proc(1) [OF sched_invD(5) [OF inv]])
  then have tp: "task_proc (current_task k) k = Ok (?p, k)" by (auto simp: runs_iff)
  have nf: "new_fork stdin stdout task_entry kst ?p tf k = Ok (i, ?k)" using new_fork_ok [OF ok S clone i] by (auto simp: runs_iff)
  have C: "btm_get (procs ?k) i = Some (child_process S ?p i ms)" using ok i(1) ne by (simp add: forked_def Let_def btm_insert_ok)
  have T: "task_heap ?k (TRef i 0) = Some (child_task task_entry kst i ms tf)" using i(1) by (simp add: forked_def Let_def)
  have "runs (bind (get_proc i) (\<lambda>N. bind (spawn_proc i) (\<lambda>_. bind (proc_task i) (\<lambda>t. bind (spawn_task t) (\<lambda>_. ret (int (proc_id N))))))) ?k
      (\<lambda>r k'. r = int i \<and> k' = fork_spawned ?k i)"
    using C T by (simp add: kernel_runs spawn_proc_def proc_task_def task_count_def spawn_task_def manager_spawn_def task_state_def
        add_ready_task_def fork_spawned_def unwrap_def btm_get_def child_process_def child_task_def task_new_common_def)
  then show ?thesis unfolding sys_fork_def using tp nf by (auto simp: runs_iff bind_def gets_def)
qed

section \<open>The scheduler after a fork\<close>

text \<open>Process and task ids that the allocator has not handed out are not in use.\<close>

definition fresh_ids :: "'f kernel \<Rightarrow> bool" where
  "fresh_ids k \<longleftrightarrow> (\<forall>p\<ge>PID_ALLOCATOR k. btm_get (procs k) p = None \<and> (\<forall>t. task_heap k (TRef p t) = None))"

lemma fork_inv:
  assumes inv: "sched_inv k" and f: "fresh_ids k" and S: "btm_get (procs k) (ref_pid (current_task k)) = Some S"
    and T: "T = child_task task_entry kst (PID_ALLOCATOR k) ms tf" and C: "tasks C = [(0, TRef (PID_ALLOCATOR k) 0)]"
  shows "sched_inv (fork_spawned (forked k (ref_pid (current_task k)) S C T s') (PID_ALLOCATOR k))" (is "sched_inv ?k")
    and "fresh_ids (fork_spawned (forked k (ref_pid (current_task k)) S C T s') (PID_ALLOCATOR k))"
proof -
  let ?i = "PID_ALLOCATOR k" and ?p = "ref_pid (current_task k)"
  let ?n = "TRef ?i 0"
  have ok: "btm_ok (procs k)" using sched_invD(7) [OF inv] by (simp add: idle_home_def)
  have fr: "btm_get (procs k) ?i = None" "task_heap k ?n = None" using f by (simp_all add: fresh_ids_def)
  then have ne: "?p \<noteq> ?i" using S by auto
  have heap: "task_heap ?k = (task_heap k)(?n \<mapsto> T)" and cur: "current_task ?k = current_task k" and rq: "ready_queue ?k = ready_queue k @ [?n]"
    and idl: "idle_proc ?k = idle_proc k" and pid: "PID_ALLOCATOR ?k = Suc ?i" by (simp_all add: fork_spawned_def forked_def Let_def)
  have get: "btm_get (procs ?k) q = (if q = ?p then Some (S\<lparr>children := children S @ [?i]\<rparr>) else if q = ?i then Some C else btm_get (procs k) q)" for q
    using ok by (simp add: fork_spawned_def forked_def Let_def btm_insert_ok)
  have ok': "btm_ok (procs ?k)" using ok by (simp add: fork_spawned_def forked_def Let_def btm_insert_ok)
  have TS: "t_state T = Ready" "process T = ?i" "tid T = 0" using T by (simp_all add: child_task_def task_new_common_def)
  have st: "st ?k = (st k)(?n := Some Ready)" by (rule ext) (simp add: st_def heap TS)
  have sn: "st k ?n = None" using fr(2) by (simp add: st_def)
  have new: "at_home ?k ?n" using ne C by (simp add: at_home_def heap get TS)
  have old: "at_home k t \<Longrightarrow> at_home ?k t" for t
    using S fr by (auto simp: at_home_def heap get intro: rev_image_eqI)
  have ih: "idle_home ?k" using sched_invD(7) [OF inv] old [of idle_ref] ok' S fr(1) by (auto simp: idle_home_def idl get)
  note D = sched_invD [OF inv]
  have "?n \<notin> set (ready_queue k)" "?n \<noteq> idle_ref" "?n \<noteq> current_task k" using D(1,3) [of ?n] sn fr(2) D(5) D(7)
    by (auto simp: idle_home_def at_home_def)
  moreover have "{t. st ?k t = Some Ready} = insert ?n {t. st k t = Some Ready}" "{t. st ?k t = Some Running} = {t. st k t = Some Running}"
    unfolding st using sn by auto
  ultimately show "sched_inv ?k" using inv new old ih unfolding sched_inv_def cur rq by (simp add: insert_commute)
  show "fresh_ids ?k" using f S ne by (auto simp: fresh_ids_def pid heap get)
qed

lemma bind_eq_Ok: "bind m f k = Ok (b, k') \<longleftrightarrow> (\<exists>a k1. m k = Ok (a, k1) \<and> f a k1 = Ok (b, k'))"
  by (simp add: bind_def split: res.splits prod.splits)

lemma new_fork_success:
  assumes "runs (new_fork stdin stdout task_entry kst p tf) k Q" and "btm_get (procs k) p = Some S"
  shows "\<not> p_is_kernel S" "\<exists>ms0 ms s'. vm S = Some ms0 \<and> memory_set_clone ms0 (kmem k) = Ok (ms, s')"
proof -
  have S: "runs (bind (assert_cmd (\<not> p_is_kernel S)) f) k R \<longleftrightarrow> \<not> p_is_kernel S \<and> runs (f ()) k R" for f :: "unit \<Rightarrow> ('a kernel, 'b) cmd" and R
    by (simp add: kernel_runs)
  show "\<not> p_is_kernel S" using assms by (auto simp: new_fork_def runs_bind [of "get_proc _"] runs_get_proc S)
  show "\<exists>ms0 ms s'. vm S = Some ms0 \<and> memory_set_clone ms0 (kmem k) = Ok (ms, s')"
    using assms by (cases "vm S") (auto simp: new_fork_def kernel_runs proc_id_alloc_def id_alloc_def process_alloc_def unwrap_def
        runs_with_mem runs_iff [of "memory_set_clone _"])
qed

lemma sys_fork_success:
  fixes k :: "'a kernel"
  assumes inv: "sched_inv k" and f: "fresh_ids k" and lim: "PID_ALLOCATOR k + 1 < USIZE_LIMIT"
    and r: "sys_fork stdin stdout task_entry kst tf k = Ok (res, k')"
  shows "sched_inv k' \<and> fresh_ids k' \<and> ready_queue k' = ready_queue k @ [TRef (PID_ALLOCATOR k) 0] \<and> current_task k' = current_task k"
proof -
  let ?p = "ref_pid (current_task k)"
  obtain S where S: "btm_get (procs k) ?p = Some S" using sched_invD(5) [OF inv] by (auto simp: at_home_def)
  have "runs (task_proc (current_task k)) k (\<lambda>p k'. p = ?p \<and> k' = k)" by (rule home_task_proc(1) [OF sched_invD(5) [OF inv]])
  then have tp: "task_proc (current_task k) k = Ok (?p, k)" by (auto simp: runs_iff)
  then have "\<exists>q k1. new_fork stdin stdout task_entry kst ?p tf k = Ok (q, k1)"
    using r unfolding sys_fork_def bind_eq_Ok by (auto simp: gets_def)
  then have n: "runs (new_fork stdin stdout task_entry kst ?p tf) k (\<lambda>_ _. True)" by (auto simp: runs_iff)
  obtain ms0 ms s' where m: "vm S = Some ms0" "memory_set_clone ms0 (kmem k) = Ok (ms, s')" using new_fork_success(2) [OF n S] by blast
  have fr: "btm_get (procs k) (PID_ALLOCATOR k) = None" using f by (simp add: fresh_ids_def)
  have "k' = fork_spawned (forked k ?p S (child_process S ?p (PID_ALLOCATOR k) ms) (child_task task_entry kst (PID_ALLOCATOR k) ms tf) s') (PID_ALLOCATOR k)"
    using sys_fork_ok [OF inv S new_fork_success(1) [OF n S] m refl fr lim] r by simp
  then show ?thesis using fork_inv [OF inv f S refl, of "child_process S ?p (PID_ALLOCATOR k) ms" task_entry kst ms tf s']
    by (simp add: child_process_def) (simp add: fork_spawned_def forked_def Let_def)
qed

section \<open>A sample kernel\<close>

definition zero_cpu :: cpu where
  "zero_cpu = \<lparr>x = \<lambda>_. 0, sp = 0, tpidr_el0 = 0, ttbr0_el1 = 0, ttbr1_el1 = 0, sp_el0 = 0, elr_el1 = 0, spsr_el1 = 0, pc = 0\<rparr>"

definition sample_process :: "nat \<Rightarrow> bool \<Rightarrow> MemorySet option \<Rightarrow> unit Process" where
  "sample_process i ker v = \<lparr>proc_id = i, p_is_kernel = ker, p_state = PNormal, p_exit_code = 0, vm = v, tasks = [(0, TRef i 0)],
     tid_allocator = 1, parent = None, children = [], fd_table = [Some (), None], signal_actions = default_actions,
     mutex_list = [], semaphore_list = [], condvar_list = []\<rparr>"

text \<open>The idle process, the root process and one user process, each with one task; \<open>cur\<close> runs and \<open>q\<close> is ready.\<close>

definition sample_kernel :: "tref \<Rightarrow> tref list \<Rightarrow> unit kernel" where
  "sample_kernel cur q = \<lparr>kmem = snd sample_ms, kcpu = zero_cpu,
     task_heap = (\<lambda>t. if t \<in> {TRef 0 0, TRef 1 0, TRef 2 0}
       then Some ((task_new_common 0 0 False (ref_pid t))\<lparr>t_state := if t = cur then Running else Ready\<rparr>) else None),
     procs = [(0, sample_process 0 True None), (1, sample_process 1 True None), (2, sample_process 2 False (Some (fst sample_ms)))],
     PID_ALLOCATOR = 3, PROC_MAP = [], ROOT_PROC = Some 1, idle_proc = 0, ready_queue = q, current_task = cur, TIMERS = []\<rparr>"

lemma sample_home: "t \<in> {TRef 0 0, TRef 1 0, TRef 2 0} \<Longrightarrow> at_home (sample_kernel cur q) t"
  by (auto simp: at_home_def sample_kernel_def task_new_common_def btm_get_def sample_process_def)

lemma sample_st: "st (sample_kernel cur q) t = (if t \<in> {TRef 0 0, TRef 1 0, TRef 2 0} then Some (if t = cur then Running else Ready) else None)"
  by (simp add: st_def sample_kernel_def)

lemma sample_idle: "idle_home (sample_kernel cur q)"
  using sample_home [of "TRef 0 0" cur q] unfolding idle_home_def
  by (simp add: sample_kernel_def btm_get_def btm_ok_def sample_process_def)

lemma sample_inv:
  assumes "cur \<in> {TRef 0 0, TRef 1 0, TRef 2 0}" and "distinct q" and "set q = {TRef 1 0, TRef 2 0} - {cur}"
  shows "sched_inv (sample_kernel cur q)"
proof -
  have f: "current_task (sample_kernel cur q) = cur" "ready_queue (sample_kernel cur q) = q" by (simp_all add: sample_kernel_def)
  have "{t. st (sample_kernel cur q) t = Some Running} = {cur}"
    by (rule set_eqI) (use assms(1) in \<open>simp add: sample_st, blast\<close>)
  moreover have "{t. st (sample_kernel cur q) t = Some Ready} = {TRef 0 0, TRef 1 0, TRef 2 0} - {cur}"
    by (rule set_eqI) (simp add: sample_st)
  moreover have "{TRef 0 0, TRef 1 0, TRef 2 0} - {cur} = set q \<union> (if cur = idle_ref then {} else {idle_ref})"
    unfolding assms(3) by (simp only: insert_Diff_if singleton_iff insert_iff empty_iff tref.inject split: if_split) auto
  moreover have "insert cur (set q) \<subseteq> {TRef 0 0, TRef 1 0, TRef 2 0}" unfolding assms(3) using assms(1) by blast
  then have "\<forall>t\<in>insert cur (set q). at_home (sample_kernel cur q) t" using sample_home by blast
  moreover have "idle_ref \<notin> set q" unfolding assms(3) by simp
  ultimately show ?thesis using assms(2) sample_idle unfolding sched_inv_def f by metis
qed

lemma sample_fresh: "fresh_ids (sample_kernel cur q)"
  by (auto simp: fresh_ids_def sample_kernel_def btm_get_def)

text \<open>C5.  \<open>fork\<close> of a user process with enough free frames succeeds and returns the new process id.  The child
  has the parent's open files and an address space of its own: every address reads as in the parent's, its
  tables and pages are frames nobody had before, and from then on no write of the child shows in the parent's
  space nor one of the parent in the child's.  Its one task is last in the ready queue and will leave the
  kernel with the parent's registers but 0 in \<open>r0\<close>.  The parent keeps its space and has the child as its last
  child; every other process is as before, and the scheduler's invariant holds.\<close>

theorem fork_correct:
  assumes inv: "sched_inv k" "fresh_ids k" and lim: "PID_ALLOCATOR k + 1 < USIZE_LIMIT"
    and S: "btm_get (procs k) (ref_pid (current_task k)) = Some S" "\<not> p_is_kernel S" "vm S = Some ms0"
    and mem: "ms_rep (kmem k) ms0 r ts" "ms_framed ms0" "5 * ms_pages ms0 + 1 \<le> free_count (kmem k)"
  shows "\<exists>k' C T ms r' ts'. sys_fork stdin stdout task_entry kst tf k = Ok (int (PID_ALLOCATOR k), k') \<and> sched_inv k' \<and> fresh_ids k' \<and>
    btm_get (procs k') (PID_ALLOCATOR k) = Some C \<and> fd_table C = fd_table S \<and> parent C = Some (ref_pid (current_task k)) \<and>
    vm C = Some ms \<and> ms_rep (kmem k') ms r' ts' \<and> ms_framed ms \<and> (\<forall>v. user_view (kmem k') r' v = user_view (kmem k) r v) \<and>
    (set ts' \<union> ms_owned ms) \<inter> live_frames (kmem k) = {} \<and> isolated (kmem k') r r' \<and> isolated (kmem k') r' r \<and>
    ms_rep (kmem k') ms0 r ts \<and> (\<forall>v. user_view (kmem k') r v = user_view (kmem k) r v) \<and>
    task_heap k' (TRef (PID_ALLOCATOR k) 0) = Some T \<and> entry T = User (tf\<lparr>tf_r := (tf_r tf)[0 := 0]\<rparr>) \<and>
    c_ttbr0_el1 (ctx T) = pa_as_usize (page_table_root ms) \<and>
    ready_queue k' = ready_queue k @ [TRef (PID_ALLOCATOR k) 0] \<and>
    btm_get (procs k') (ref_pid (current_task k)) = Some (S\<lparr>children := children S @ [PID_ALLOCATOR k]\<rparr>) \<and>
    (\<forall>q. q \<noteq> PID_ALLOCATOR k \<longrightarrow> q \<noteq> ref_pid (current_task k) \<longrightarrow> btm_get (procs k') q = btm_get (procs k) q)"
proof -
  let ?p = "ref_pid (current_task k)" and ?i = "PID_ALLOCATOR k"
  from memory_set_clone_ok [OF mem] obtain ms s' r' ts' where
    c: "memory_set_clone ms0 (kmem k) = Ok (ms, s')" "ms_rep s' ms r' ts'" "cloned_view (kmem k) ms0 s' ms" "ms_framed ms" "ms_rep s' ms0 r ts"
      "(set ts' \<union> ms_owned ms) \<inter> live_frames (kmem k) = {}" "live_frames s' = live_frames (kmem k) \<union> set ts' \<union> ms_owned ms"
      "\<forall>m\<in>live_frames (kmem k). frames s' (frame_pa m) = frames (kmem k) (frame_pa m)" by (fastforce simp: runs_iff)
  note own = own_live [OF mem(1)]
  have iso: "isolated s' r r'" "isolated s' r' r" by (rule cloned_isolated [OF c(5) mem(2) c(2,4) own c(6)])+
  have kept: "user_view s' r v = user_view (kmem k) r v" for v
    by (rule view_kept(2) [OF mem(1,2) pt_repD(1) [OF ms_repD(1) [OF c(2)]]]) (use c(7,8) own in auto)
  have view: "user_view s' r' v = user_view (kmem k) r v" for v by (rule cloned_user_view [OF mem(1) c(2,3)])
  let ?C = "child_process S ?p ?i ms" and ?T = "child_task task_entry kst ?i ms tf"
  let ?k = "fork_spawned (forked k ?p S ?C ?T s') ?i"
  have fr: "btm_get (procs k) ?i = None" using inv(2) by (simp add: fresh_ids_def)
  have ok: "btm_ok (procs k)" using sched_invD(7) [OF inv(1)] by (simp add: idle_home_def)
  have ne: "?p \<noteq> ?i" using S(1) fr by auto
  have "sys_fork stdin stdout task_entry kst tf k = Ok (int ?i, ?k)" by (rule sys_fork_ok [OF inv(1) S c(1) refl fr lim])
  moreover have "sched_inv ?k" "fresh_ids ?k" by (rule fork_inv [OF inv S(1) refl]; simp add: child_process_def)+
  moreover have "btm_get (procs ?k) = (btm_get (procs k))(?i \<mapsto> ?C, ?p \<mapsto> S\<lparr>children := children S @ [?i]\<rparr>)"
    using ok by (simp add: fork_spawned_def forked_def Let_def btm_insert_ok fun_eq_iff)
  moreover have "task_heap ?k (TRef ?i 0) = Some ?T" "kmem ?k = s'" "ready_queue ?k = ready_queue k @ [TRef ?i 0]"
    by (simp_all add: fork_spawned_def forked_def Let_def)
  ultimately show ?thesis using ne c(2,4-6) view iso kept
    by (intro exI [of _ ?k] exI [of _ ?C] exI [of _ ?T] exI [of _ ms] exI [of _ r'] exI [of _ ts'])
      (simp add: child_process_def child_task_def trap_frame_new_fork_def task_context_init_def)
qed

theorem fork_correct_witness:
  "\<exists>k' C. sys_fork () () 0 0 (trap_frame_new_user 0x1000 0x2000) (sample_kernel (TRef 2 0) [TRef 1 0]) = Ok (3, k') \<and>
     btm_get (procs k') 3 = Some C \<and> fd_table C = [Some (), None] \<and> ready_queue k' = [TRef 1 0, TRef 3 0]"
proof -
  let ?k = "sample_kernel (TRef 2 0) [TRef 1 0]"
  obtain r ts where r: "ms_rep (snd sample_ms) (fst sample_ms) r ts" "ms_framed (fst sample_ms)" "ms_pages (fst sample_ms) = 1" "11 \<le> free_count (snd sample_ms)"
    by (rule sample_ms_ok)
  have i: "sched_inv ?k" by (rule sample_inv) auto
  have S: "btm_get (procs ?k) (ref_pid (current_task ?k)) = Some (sample_process 2 False (Some (fst sample_ms)))"
    "\<not> p_is_kernel (sample_process 2 False (Some (fst sample_ms)))" "vm (sample_process 2 False (Some (fst sample_ms))) = Some (fst sample_ms)"
    by (simp_all add: sample_kernel_def btm_get_def sample_process_def)
  have m: "ms_rep (kmem ?k) (fst sample_ms) r ts" "5 * ms_pages (fst sample_ms) + 1 \<le> free_count (kmem ?k)" using r by (simp_all add: sample_kernel_def)
  have l: "PID_ALLOCATOR ?k + 1 < USIZE_LIMIT" by (simp add: sample_kernel_def USIZE_LIMIT_def)
  have p: "PID_ALLOCATOR ?k = 3" "ready_queue ?k = [TRef 1 0]" by (simp_all add: sample_kernel_def)
  from fork_correct [OF i sample_fresh l S m(1) r(2) m(2), of "()" "()" 0 0 "trap_frame_new_user 0x1000 0x2000"]
  obtain k' C where "sys_fork () () 0 0 (trap_frame_new_user 0x1000 0x2000) ?k = Ok (int (PID_ALLOCATOR ?k), k')"
    "btm_get (procs k') (PID_ALLOCATOR ?k) = Some C" "fd_table C = fd_table (sample_process 2 False (Some (fst sample_ms)))"
    "ready_queue k' = ready_queue ?k @ [TRef (PID_ALLOCATOR ?k) 0]" by blast
  then show ?thesis unfolding p by (intro exI [of _ k'] exI [of _ C]) (simp add: sample_process_def)
qed

end
