(* ===== verification/ProcMem.thy ===== *)
theory ProcMem
  imports ForkSpec
begin

text \<open>
  The address spaces of the processes.  Each is well formed and made of frames of its own, and a user process
  with a task that has not exited has one.  \<open>fork\<close> and \<open>exit\<close> keep this, and because of it they cannot stop
  the kernel in the middle.
\<close>

section \<open>Address spaces side by side\<close>

definition ms_frames :: "MemorySet \<Rightarrow> nat set" where
  "ms_frames ms = frame_no ` set (intrm_tables (pt ms)) \<union> ms_owned ms"

lemma ms_frames:
  assumes "ms_rep s ms r ts"
  shows "ms_frames ms = set ts \<union> ms_owned ms"
proof -
  note P = pt_repD [OF ms_repD(1) [OF assms]]
  have "frame_no (frame_at n) = n" if "n \<in> set ts" for n using that P(3) pmem_okD(1) [OF P(1)] by auto
  then show ?thesis using P(10) by (simp add: ms_frames_def image_image)
qed

lemma ms_rep_keep:
  assumes rep: "ms_rep s ms r ts" and ok: "pmem_ok s'" and lv: "ms_frames ms \<subseteq> live_frames s'"
    and fr: "\<And>m. m \<in> ms_frames ms \<Longrightarrow> frames s' (frame_pa m) = frames s (frame_pa m)"
  shows "ms_rep s' ms r ts"
proof -
  note R = ms_repD [OF rep] and F = ms_frames [OF rep]
  have "set ts \<subseteq> live_frames s'" using lv F by blast
  note P = pt_rep_frame [OF R(1) ok this fr]
  have "area_in s' r ts a" if a: "a \<in> ms_areas ms" for a
  proof -
    have "set (area_owned a) \<subseteq> live_frames s'" using lv a by (auto simp: ms_frames_def ms_owned_def)
    moreover have i: "area_in s r ts a" by (rule R(4) [OF a])
    ultimately have "area_wf s' a" by (auto simp: area_in_def area_wf_def frames_ok_def area_owned_def split: Mapper.splits)
    then show ?thesis using i P(2) F by (simp add: area_in_def)
  qed
  then show ?thesis unfolding ms_rep_def using R P F rep by (auto simp: ms_rep_def)
qed

definition spaces_ok :: "pmem \<Rightarrow> (nat \<Rightarrow> MemorySet option) \<Rightarrow> bool" where
  "spaces_ok s V \<longleftrightarrow> (\<forall>p ms. V p = Some ms \<longrightarrow> ms_framed ms \<and> (\<exists>r ts. ms_rep s ms r ts)) \<and>
     (\<forall>p q ms ms'. p \<noteq> q \<longrightarrow> V p = Some ms \<longrightarrow> V q = Some ms' \<longrightarrow> ms_frames ms \<inter> ms_frames ms' = {})"

lemma spaces_okD:
  assumes "spaces_ok s V" and "V p = Some ms"
  shows "ms_framed ms" "\<exists>r ts. ms_rep s ms r ts" "p \<noteq> q \<Longrightarrow> V q = Some ms' \<Longrightarrow> ms_frames ms \<inter> ms_frames ms' = {}"
  using assms unfolding spaces_ok_def by blast+

lemma ms_frames_live: "ms_rep s ms r ts \<Longrightarrow> ms_frames ms \<subseteq> live_frames s"
  using ms_frames own_live by metis

lemma spaces_ok_drop:
  assumes V: "spaces_ok s V" and p: "V p = Some ms"
  shows "runs (memory_set_drop ms) s (\<lambda>_ s'. spaces_ok s' (V(p := None)))"
proof -
  obtain r ts where rep: "ms_rep s ms r ts" using spaces_okD(2) [OF V p] by blast
  show ?thesis
  proof (rule runs_mono [OF memory_set_drop_ok [OF rep]], elim conjE)
    fix s' assume ok: "pmem_ok s'" and lv: "live_frames s' = live_frames s - (set ts \<union> ms_owned ms)"
      and keep: "\<forall>m\<in>all_frames s - set ts. frames s' (frame_pa m) = frames s (frame_pa m)"
    have "\<exists>r ts. ms_rep s' ms' r ts" if q: "V q = Some ms'" "q \<noteq> p" for q ms'
    proof -
      obtain r' ts' where rep': "ms_rep s ms' r' ts'" using spaces_okD(2) [OF V q(1)] by blast
      have dj: "ms_frames ms' \<inter> ms_frames ms = {}" by (rule spaces_okD(3) [OF V q(1,2) p])
      have "ms_rep s' ms' r' ts'"
      proof (rule ms_rep_keep [OF rep' ok])
        show "ms_frames ms' \<subseteq> live_frames s'" using dj lv ms_frames [OF rep] ms_frames_live [OF rep'] by blast
        fix m assume m: "m \<in> ms_frames ms'"
        then have "m \<in> all_frames s" using ms_frames_live [OF rep'] pmem_okD(2) [OF pt_repD(1) [OF ms_repD(1) [OF rep]]] by blast
        then show "frames s' (frame_pa m) = frames s (frame_pa m)" using keep dj m ms_frames [OF rep] by blast
      qed
      then show ?thesis by blast
    qed
    then show "spaces_ok s' (V(p := None))" using V unfolding spaces_ok_def by (auto split: if_splits)
  qed
qed

lemma spaces_ok_clone:
  assumes V: "spaces_ok s V" and p: "V p = Some ms" and i: "V i = None" and free: "5 * ms_pages ms + 1 \<le> free_count s"
  shows "runs (memory_set_clone ms) s (\<lambda>ms' s'. spaces_ok s' (V(i := Some ms')))"
proof -
  obtain r ts where rep: "ms_rep s ms r ts" using spaces_okD(2) [OF V p] by blast
  show ?thesis
  proof (rule runs_mono [OF memory_set_clone_ok [OF rep spaces_okD(1) [OF V p] free]], elim exE conjE)
    fix ms' s' r' ts' assume rep': "ms_rep s' ms' r' ts'" and fr: "ms_framed ms'" and new: "(set ts' \<union> ms_owned ms') \<inter> live_frames s = {}"
      and lv: "live_frames s' = live_frames s \<union> set ts' \<union> ms_owned ms'" and keep: "\<forall>m\<in>live_frames s. frames s' (frame_pa m) = frames s (frame_pa m)"
    note ok = pt_repD(1) [OF ms_repD(1) [OF rep']]
    have old: "(\<exists>r ts. ms_rep s' ms2 r ts) \<and> ms_frames ms2 \<inter> ms_frames ms' = {}" if q: "V q = Some ms2" for q ms2
    proof -
      obtain r2 ts2 where rep2: "ms_rep s ms2 r2 ts2" using spaces_okD(2) [OF V q] by blast
      note l = ms_frames_live [OF rep2]
      have "ms_rep s' ms2 r2 ts2" by (rule ms_rep_keep [OF rep2 ok]) (use l lv keep in auto)
      then show ?thesis using l new ms_frames [OF rep'] by blast
    qed
    show "spaces_ok s' (V(i := Some ms'))" unfolding spaces_ok_def
    proof (intro conjI allI impI)
      fix q ms2 assume "(V(i := Some ms')) q = Some ms2"
      then show "ms_framed ms2" "\<exists>r ts. ms_rep s' ms2 r ts" using fr rep' old spaces_okD(1) [OF V] by (auto split: if_splits)
    next
      fix q q' ms2 ms3 assume "q \<noteq> q'" "(V(i := Some ms')) q = Some ms2" "(V(i := Some ms')) q' = Some ms3"
      then show "ms_frames ms2 \<inter> ms_frames ms3 = {}" using old [of q ms2] old [of q' ms3] spaces_okD(3) [OF V, of q ms2 q' ms3]
        by (auto split: if_splits)
    qed
  qed
qed

section \<open>The invariant of the processes\<close>

definition space_of :: "'f kernel \<Rightarrow> nat \<Rightarrow> MemorySet option" where
  "space_of k p = Option.bind (btm_get (procs k) p) vm"

definition mem_inv :: "'f kernel \<Rightarrow> bool" where
  "mem_inv k \<longleftrightarrow> spaces_ok (kmem k) (space_of k) \<and>
     (\<forall>t P. at_home k t \<longrightarrow> st k t \<noteq> Some TZombie \<longrightarrow> btm_get (procs k) (ref_pid t) = Some P \<longrightarrow> \<not> p_is_kernel P \<longrightarrow> vm P \<noteq> None)"

lemma mem_inv_keep:
  assumes "mem_inv k" and "kmem k' = kmem k" and "procs k' = procs k"
    and "\<And>t. at_home k' t \<Longrightarrow> st k' t \<noteq> Some TZombie \<Longrightarrow> at_home k t \<and> st k t \<noteq> Some TZombie"
  shows "mem_inv k'"
proof -
  have "space_of k' = space_of k" using assms(3) by (simp add: space_of_def fun_eq_iff)
  then show ?thesis using assms unfolding mem_inv_def by metis
qed

lemma handed_over_alive:
  assumes i: "sched_inv k" and h: "handed_over s k k'" and t: "st k' t \<noteq> Some TZombie"
  shows "st k t \<noteq> Some TZombie" and "s = TZombie \<Longrightarrow> current_task k \<noteq> idle_ref \<Longrightarrow> t \<noteq> current_task k"
proof -
  have q: "set (queue_after s k) \<subseteq> insert (current_task k) (set (ready_queue k))" by (auto simp: queue_after_def)
  show "st k t \<noteq> Some TZombie"
  proof (cases "t = current_task k \<or> t = next_of (queue_after s k)")
    case True
    then have "t \<in> insert idle_ref (insert (current_task k) (set (ready_queue k)))" using q
      by (cases "queue_after s k") (auto simp: next_of_def)
    then consider "st k t = Some Running" | "st k t = Some Ready" using sched_invD(1,3) [OF i, of t] by (cases "t = current_task k") auto
    then show ?thesis by cases simp_all
  next
    case False
    then show ?thesis using t h by (simp add: handed_over_def)
  qed
  assume s: "s = TZombie" "current_task k \<noteq> idle_ref"
  have "st k (current_task k) = Some Running" using sched_invD(1) [OF i, of "current_task k"] by blast
  then have "current_task k \<notin> set (ready_queue k)" using sched_invD(3) [OF i, of "current_task k"] by auto
  then have "next_of (queue_after s k) \<noteq> current_task k" using s by (cases "ready_queue k") (auto simp: queue_after_def next_of_def)
  then have "st k' (current_task k) = Some TZombie" using h s(1) by (simp add: handed_over_def)
  then show "t \<noteq> current_task k" using t by blast
qed

lemma handed_over_mem:
  assumes i: "sched_inv k" and m: "mem_inv k" and h: "same_objects k k'" "handed_over s k k'"
  shows "mem_inv k'"
  by (rule mem_inv_keep [OF m]) (use h handed_over_alive(1) [OF i h(2)] at_home_same [OF h(1)] in \<open>simp_all add: same_objects_def\<close>)

section \<open>Exit\<close>

lemma zombie_mem:
  assumes "mem_inv k" and "task_heap k t = Some T" and "process T' = process T" and "tid T' = tid T" and "t_state T' = TZombie \<or> t_state T \<noteq> TZombie"
  shows "mem_inv (k\<lparr>task_heap := (task_heap k)(t \<mapsto> T')\<rparr>)"
  by (rule mem_inv_keep [OF assms(1)]) (use assms in \<open>auto simp: at_home_def st_def split: if_splits\<close>)

lemma exit_code_mem:
  assumes m: "mem_inv k" and ok: "btm_ok (procs k)" and P: "btm_get (procs k) p = Some P"
  shows "mem_inv (k\<lparr>procs := btm_insert p (P\<lparr>p_exit_code := c\<rparr>) (procs k)\<rparr>)" (is "mem_inv ?k")
proof -
  have "space_of ?k = space_of k" using ok P by (auto simp: space_of_def)
  moreover have "at_home ?k t = at_home k t" for t using ok P by (auto simp: at_home_def)
  moreover have "st ?k = st k" by (simp add: st_def fun_eq_iff)
  ultimately show ?thesis using m ok P unfolding mem_inv_def by (auto split: if_splits)
qed

lemma process_exit_runs:
  assumes m: "mem_inv k" and ok: "btm_ok (procs k)" and P: "btm_get (procs k) p = Some P"
    and z: "\<And>t. at_home k t \<Longrightarrow> ref_pid t = p \<Longrightarrow> st k t = Some TZombie"
  shows "runs (process_exit p) k (\<lambda>_ k'. mem_inv k')"
proof -
  let ?k = "\<lambda>s. k\<lparr>kmem := s, procs := btm_insert p (P\<lparr>p_state := PZombie, vm := None\<rparr>) (procs k)\<rparr>"
  have sp: "space_of (?k s) = (space_of k)(p := None)" for s using ok by (auto simp: space_of_def)
  have h: "at_home (?k s) t = at_home k t" for s t using ok P by (auto simp: at_home_def)
  have st: "st (?k s) = st k" for s by (simp add: st_def fun_eq_iff)
  have inv: "mem_inv (?k s)" if "spaces_ok s ((space_of k)(p := None))" for s
    unfolding mem_inv_def sp h st using that m z ok by (auto simp: mem_inv_def split: if_splits)
  have V: "spaces_ok (kmem k) (space_of k)" using m by (simp add: mem_inv_def)
  show ?thesis
  proof (cases "vm P")
    case None
    then have "(space_of k)(p := None) = space_of k" using P by (auto simp: space_of_def)
    then have "mem_inv (?k (kmem k))" using V by (intro inv) simp
    then show ?thesis using P ok None by (simp add: process_exit_def kernel_runs runs_with_mem btm_insert_ok)
  next
    case (Some ms)
    then have "space_of k p = Some ms" using P by (simp add: space_of_def)
    from spaces_ok_drop [OF V this] have "runs (memory_set_drop ms) (kmem k) (\<lambda>_ s. mem_inv (?k s))" by (rule runs_mono) (rule inv)
    then show ?thesis using P ok Some by (simp add: process_exit_def kernel_runs runs_with_mem btm_insert_ok)
  qed
qed

lemma task_exit_runs:
  assumes m: "mem_inv k" and ok: "btm_ok (procs k)" and P: "btm_get (procs k) p = Some P"
  shows "runs (task_exit p c) k (\<lambda>_ k'. mem_inv k')"
proof (cases "filter (\<lambda>(_, t). case task_heap k t of Some T \<Rightarrow> t_state T \<noteq> TZombie | None \<Rightarrow> False) (tasks P) = []")
  case True
  then have z: "st k t = Some TZombie" if "at_home k t" "ref_pid t = p" for t
    using that P by (fastforce simp: at_home_def st_def filter_empty_conv split: option.splits)
  let ?k = "k\<lparr>procs := btm_insert p (P\<lparr>p_exit_code := c\<rparr>) (procs k)\<rparr>"
  have "runs (process_exit p) ?k (\<lambda>_ k'. mem_inv k')"
  proof (rule process_exit_runs [OF exit_code_mem [OF m ok P]])
    fix t assume t: "at_home ?k t" "ref_pid t = p"
    then have "at_home k t" using ok P by (auto simp: at_home_def)
    then show "st ?k t = Some TZombie" using z t(2) by (simp add: st_def)
  qed (use ok in \<open>simp_all add: btm_insert_ok\<close>)
  moreover have "runs (process_exit p) k (\<lambda>_ k'. mem_inv k')" by (rule process_exit_runs [OF m ok P z])
  ultimately show ?thesis using P True by (simp add: task_exit_def task_count_def kernel_runs)
next
  case False
  then show ?thesis using P m by (simp add: task_exit_def task_count_def kernel_runs)
qed


text \<open>A task of a reachable kernel can always exit.\<close>

lemma current_exit_mem:
  assumes i: "sched_inv k" and m: "mem_inv k" and n: "current_task k \<noteq> idle_ref"
  shows "runs (current_exit c) k (\<lambda>_ k'. mem_inv k')"
proof -
  note h = sched_invD(5) [OF i]
  obtain T where T: "task_heap k (current_task k) = Some T" using h by (rule at_homeD)
  obtain P where P: "btm_get (procs k) (ref_pid (current_task k)) = Some P" using h by (auto simp: at_home_def)
  have ok: "btm_ok (procs k)" using sched_invD(7) [OF i] by (simp add: idle_home_def)
  have "mem_inv (exiting k T c)" unfolding exiting_def by (rule zombie_mem [OF m T]) simp_all
  then have "runs (task_exit (ref_pid (current_task k)) c) (exiting k T c) (\<lambda>_ k2. mem_inv k2)"
    by (rule task_exit_runs) (use ok P in \<open>simp_all add: exiting_def\<close>)
  then obtain k2 where k2: "task_exit (ref_pid (current_task k)) c (exiting k T c) = Ok ((), k2)" "mem_inv k2" by (auto simp: runs_iff)
  have "same_tasks (exiting k T c) k2" using task_exit_tasks [of "ref_pid (current_task k)" c "exiting k T c" "\<lambda>_ s. s = k2"] k2(1) by (simp add: runs_def)
  note E = exit_hands_over [OF i n T this]
  have heap: "task_heap k2 = task_heap (exiting k T c)" using \<open>same_tasks (exiting k T c) k2\<close> by (simp add: same_tasks_def)
  have "runs (exit_current (current_task k) c) k2 (\<lambda>_ k'. mem_inv k')"
  proof (rule runs_mono [OF E], elim conjE)
    fix k' assume ho: "handed_over TZombie k k'" and so: "same_objects (k2\<lparr>task_heap := (task_heap k)(current_task k \<mapsto> T\<lparr>t_exit_code := c\<rparr>)\<rparr>) k'"
    show "mem_inv k'"
    proof (rule mem_inv_keep [OF k2(2)])
      show "kmem k' = kmem k2" "procs k' = procs k2" using so by (simp_all add: same_objects_def)
      fix t assume t: "at_home k' t" "st k' t \<noteq> Some TZombie"
      have "at_home k2 t" using t(1) T unfolding at_home_same [OF so] by (auto simp: at_home_def heap exiting_def split: if_splits)
      then show "at_home k2 t \<and> st k2 t \<noteq> Some TZombie" using handed_over_alive [OF i ho t(2)] n by (simp add: st_def heap exiting_def)
    qed
  qed
  then show ?thesis unfolding current_exit_runs [OF i T] using k2(1) by (simp add: runs_def [of "task_exit _ _"])
qed

section \<open>Fork\<close>

lemma fork_mem:
  assumes m: "mem_inv k" and f: "fresh_ids k" and ok: "btm_ok (procs k)" and S: "btm_get (procs k) p = Some S"
    and V: "spaces_ok s' ((space_of k)(PID_ALLOCATOR k := Some ms))" and C: "vm C = Some ms"
  shows "mem_inv (fork_spawned (forked k p S C T s') (PID_ALLOCATOR k))" (is "mem_inv ?k")
proof -
  let ?i = "PID_ALLOCATOR k"
  have fr: "btm_get (procs k) ?i = None" using f by (simp add: fresh_ids_def)
  then have ne: "p \<noteq> ?i" using S by auto
  have get: "btm_get (procs ?k) q = (if q = p then Some (S\<lparr>children := children S @ [?i]\<rparr>) else if q = ?i then Some C else btm_get (procs k) q)" for q
    using ok by (simp add: fork_spawned_def forked_def Let_def btm_insert_ok)
  have heap: "task_heap ?k = (task_heap k)(TRef ?i 0 \<mapsto> T)" and km: "kmem ?k = s'" by (simp_all add: fork_spawned_def forked_def Let_def)
  have "space_of ?k = (space_of k)(?i := Some ms)" using S C ne by (auto simp: space_of_def get)
  moreover have "vm P \<noteq> None" if t: "at_home ?k t" "st ?k t \<noteq> Some TZombie" "btm_get (procs ?k) (ref_pid t) = Some P" "\<not> p_is_kernel P" for t P
  proof (cases "ref_pid t = ?i")
    case False
    then have "t \<noteq> TRef ?i 0" by auto
    moreover from this have "at_home k t" using t(1) S False by (auto simp: at_home_def heap get split: if_splits)
    ultimately have "st k t \<noteq> Some TZombie \<and> at_home k t" using t(2) by (simp add: st_def heap)
    then show ?thesis using m t(3,4) False S unfolding mem_inv_def by (auto simp: get split: if_splits)
  qed (use t(3) C ne in \<open>simp add: get\<close>)
  ultimately show ?thesis using V km unfolding mem_inv_def by auto
qed

lemma sys_fork_mem:
  assumes i: "sched_inv k" "fresh_ids k" and m: "mem_inv k" and lim: "PID_ALLOCATOR k + 1 < USIZE_LIMIT"
    and S: "btm_get (procs k) (ref_pid (current_task k)) = Some S" "\<not> p_is_kernel S" "vm S = Some ms" and free: "5 * ms_pages ms + 1 \<le> free_count (kmem k)"
  shows "runs (sys_fork stdin stdout task_entry kst tf) k (\<lambda>_ k'. mem_inv k')"
proof -
  let ?i = "PID_ALLOCATOR k" and ?p = "ref_pid (current_task k)"
  have V: "spaces_ok (kmem k) (space_of k)" using m by (simp add: mem_inv_def)
  have ok: "btm_ok (procs k)" using sched_invD(7) [OF i(1)] by (simp add: idle_home_def)
  have fr: "btm_get (procs k) ?i = None" using i(2) by (simp add: fresh_ids_def)
  have sp: "space_of k ?p = Some ms" "space_of k ?i = None" using S fr by (simp_all add: space_of_def)
  obtain ms' s' where c: "memory_set_clone ms (kmem k) = Ok (ms', s')" "spaces_ok s' ((space_of k)(?i := Some ms'))"
    using spaces_ok_clone [OF V sp free] by (auto simp: runs_iff)
  have "mem_inv (fork_spawned (forked k ?p S (child_process S ?p ?i ms') (child_task task_entry kst ?i ms' tf) s') ?i)"
    by (rule fork_mem [OF m i(2) ok S(1) c(2)]) (simp add: child_process_def)
  then show ?thesis using sys_fork_ok [OF i(1) S c(1) refl fr lim] by (simp add: runs_def)
qed

end
