(* ===== verification/SchedProps.thy ===== *)
theory SchedProps
  imports ProcMem
begin

text \<open>
  Runs of the scheduler: the tasks of the system yield, block, are resumed, fork and exit in any order.  The
  idle task only yields (\<open>run\<close> in src/os/src/task/mod.rs), and the root task neither blocks nor exits.  A fork needs
  a process id and the frames for the copy; without them the source's \<open>unwrap\<close> stops the kernel.
\<close>

section \<open>Reachable states\<close>

definition can_fork :: "'f kernel \<Rightarrow> bool" where
  "can_fork k \<longleftrightarrow> PID_ALLOCATOR k + 1 < USIZE_LIMIT \<and> (case space_of k (ref_pid (current_task k)) of
     Some ms \<Rightarrow> 5 * ms_pages ms + 1 \<le> free_count (kmem k) | None \<Rightarrow> False)"

inductive sched_step :: "'f kernel \<Rightarrow> 'f kernel \<Rightarrow> bool" where
  yields: "yield_now k = Ok ((), k') \<Longrightarrow> sched_step k k'"
| blocks: "current_task k \<notin> {idle_ref, root_ref} \<Longrightarrow> block_and_yield k = Ok ((), k') \<Longrightarrow> sched_step k k'"
| exits: "current_task k \<notin> {idle_ref, root_ref} \<Longrightarrow> current_exit c k = Ok ((), k') \<Longrightarrow> sched_step k k'"
| resumes: "at_home k t \<Longrightarrow> task_resume t k = Ok ((), k') \<Longrightarrow> sched_step k k'"
| forks: "can_fork k \<Longrightarrow> sys_fork stdin stdout task_entry kst tf k = Ok (pid, k') \<Longrightarrow> sched_step k k'"

text \<open>At the start the idle task runs, the root task is ready and the address spaces of the processes are apart.\<close>

inductive sched_reach :: "'f kernel \<Rightarrow> bool" where
  start: "sched_inv k \<Longrightarrow> fresh_ids k \<Longrightarrow> mem_inv k \<Longrightarrow> current_task k = idle_ref \<Longrightarrow> root_ref \<in> set (ready_queue k) \<Longrightarrow> sched_reach k"
| step: "sched_reach k \<Longrightarrow> sched_step k k' \<Longrightarrow> sched_reach k'"

definition root_scheduled :: "'f kernel \<Rightarrow> bool" where
  "root_scheduled k \<longleftrightarrow> root_ref \<in> insert (current_task k) (set (ready_queue k))"

lemma runs_Ok: "runs m k Q \<Longrightarrow> m k = Ok (a, k') \<Longrightarrow> Q a k'"
  by (simp add: runs_def)

lemma handed_over_root:
  assumes "handed_over s k k'" and "root_ref \<in> set (queue_after s k)"
  shows "root_scheduled k'" "sched_inv k \<Longrightarrow> current_task k' \<noteq> idle_ref"
proof -
  obtain t q where q: "queue_after s k = t # q" using assms(2) by (cases "queue_after s k") auto
  then show "root_scheduled k'" using assms by (auto simp: handed_over_def root_scheduled_def next_of_def)
  have "current_task k' = t" using assms(1) q by (simp add: handed_over_def next_of_def)
  then show "sched_inv k \<Longrightarrow> current_task k' \<noteq> idle_ref" using queue_after_facts(2) [of k s] q by auto
qed

lemma root_queued:
  assumes "root_scheduled k" and "s = Ready \<or> current_task k \<noteq> root_ref"
  shows "root_ref \<in> set (queue_after s k)"
  using assms by (auto simp: root_scheduled_def queue_after_def)

lemma handed_over_inv:
  assumes i: "sched_inv k" and s: "s \<noteq> Running" "current_task k = idle_ref \<Longrightarrow> s = Ready"
    and h: "same_objects k k'" "handed_over s k k'"
  shows "sched_inv k'"
  by (rule sched_inv_handed_over [OF i s h(2)]) (use at_home_same [OF h(1)] idle_home_same [OF h(1)] sched_invD(7) [OF i] in simp_all)

lemma resume_blocking: "task_resume t k = Ok ((), k') \<Longrightarrow> st k t = Some Blocking"
  by (auto simp: task_resume_def task_state_def get_task_def bind_def ret_def assert_cmd_def fail_def st_def split: option.splits if_splits res.splits)

lemma same_objects_fresh:
  assumes "same_objects k k'" and "fresh_ids k"
  shows "fresh_ids k'"
proof -
  have "task_heap k' t = None \<longleftrightarrow> task_heap k t = None" for t
    using assms(1) unfolding same_objects_def by (metis comp_apply option.map_disc_iff)
  then show ?thesis using assms by (simp add: fresh_ids_def same_objects_def)
qed

lemma exit_fresh:
  assumes i: "sched_inv k" and f: "fresh_ids k" and e: "current_exit c k = Ok ((), k')" and n: "current_task k \<noteq> idle_ref"
  shows "fresh_ids k'"
proof -
  obtain k0 where k0: "same_objects k0 k'" "PID_ALLOCATOR k0 = PID_ALLOCATOR k" "\<forall>t. task_heap k0 t = None \<longleftrightarrow> task_heap k t = None"
    "\<forall>p. btm_get (procs k0) p = None \<longleftrightarrow> btm_get (procs k) p = None" using exit_steps [OF i n e] by blast
  then have "fresh_ids k0" using f by (simp add: fresh_ids_def)
  then show ?thesis by (rule same_objects_fresh [OF k0(1)])
qed

lemma fork_spaceD:
  assumes "sched_inv k" and "can_fork k"
  obtains S ms where "btm_get (procs k) (ref_pid (current_task k)) = Some S" and "vm S = Some ms"
    and "5 * ms_pages ms + 1 \<le> free_count (kmem k)" and "PID_ALLOCATOR k + 1 < USIZE_LIMIT"
  using assms(2) that unfolding can_fork_def space_of_def by (auto split: option.splits bind_splits)

lemma fork_user:
  assumes i: "sched_inv k" and r: "sys_fork stdin stdout task_entry kst tf k = Ok (pid, k')" and S: "btm_get (procs k) (ref_pid (current_task k)) = Some S"
  shows "\<not> p_is_kernel S"
proof -
  have "runs (task_proc (current_task k)) k (\<lambda>p k'. p = ref_pid (current_task k) \<and> k' = k)" by (rule home_task_proc(1) [OF sched_invD(5) [OF i]])
  then have "task_proc (current_task k) k = Ok (ref_pid (current_task k), k)" by (auto simp: runs_iff)
  then have "\<exists>q k1. new_fork stdin stdout task_entry kst (ref_pid (current_task k)) tf k = Ok (q, k1)"
    using r unfolding sys_fork_def bind_eq_Ok by (auto simp: gets_def)
  then have "runs (new_fork stdin stdout task_entry kst (ref_pid (current_task k)) tf) k (\<lambda>_ _. True)" by (auto simp: runs_iff)
  from new_fork_success(1) [OF this S] show ?thesis .
qed

lemma sched_step_mem:
  assumes "sched_step k k'" and i: "sched_inv k" and f: "fresh_ids k" and m: "mem_inv k"
  shows "mem_inv k'"
  using assms(1)
proof cases
  case yields
  show ?thesis using runs_Ok [OF yield_hands_over [OF i] yields] handed_over_mem [OF i m] by blast
next
  case blocks
  show ?thesis using runs_Ok [OF block_hands_over [OF i] blocks(2)] handed_over_mem [OF i m] by blast
next
  case (exits c)
  then show ?thesis using runs_Ok [OF current_exit_mem [OF i m, of c]] by simp
next
  case (resumes t)
  have b: "st k t = Some Blocking" by (rule resume_blocking [OF resumes(2)])
  note h = runs_Ok [OF resume_ok [OF i b resumes(1)] resumes(2)]
  show ?thesis by (rule mem_inv_keep [OF m]) (use h b at_home_same [of k k'] in \<open>auto simp: same_objects_def split: if_splits\<close>)
next
  case (forks stdin stdout task_entry kst tf pid)
  obtain S ms where S: "btm_get (procs k) (ref_pid (current_task k)) = Some S" "vm S = Some ms" "5 * ms_pages ms + 1 \<le> free_count (kmem k)"
    "PID_ALLOCATOR k + 1 < USIZE_LIMIT" by (rule fork_spaceD [OF i forks(1)])
  show ?thesis using runs_Ok [OF sys_fork_mem [OF i f m S(4,1) fork_user [OF i forks(2) S(1)] S(2,3)] forks(2)] .
qed

lemma sched_step_inv:
  assumes "sched_step k k'" and i: "sched_inv k" and f: "fresh_ids k" and r: "root_scheduled k"
  shows "sched_inv k' \<and> fresh_ids k' \<and> root_scheduled k'"
  using assms(1)
proof cases
  case yields
  have h: "same_objects k k'" "handed_over Ready k k'" using runs_Ok [OF yield_hands_over [OF i] yields] by blast+
  then show ?thesis using handed_over_inv [OF i _ _ h] same_objects_fresh [OF h(1) f] handed_over_root(1) [OF h(2)] root_queued [OF r] by simp
next
  case blocks
  have h: "same_objects k k'" "handed_over Blocking k k'" using runs_Ok [OF block_hands_over [OF i] blocks(2)] by blast+
  then show ?thesis using blocks(1) handed_over_inv [OF i _ _ h] same_objects_fresh [OF h(1) f] handed_over_root(1) [OF h(2)] root_queued [OF r] by simp
next
  case (exits c)
  have n: "current_task k \<noteq> idle_ref" using exits(1) by simp
  show ?thesis using exits(1) exit_steps [OF i n exits(2)] exit_fresh [OF i f exits(2) n] handed_over_root(1) root_queued [OF r] by auto
next
  case (resumes t)
  note h = runs_Ok [OF resume_ok [OF i resume_blocking [OF resumes(2)] resumes(1)] resumes(2)]
  then show ?thesis using r same_objects_fresh [OF conjunct1 [OF h] f] by (auto simp: root_scheduled_def)
next
  case (forks stdin stdout task_entry kst tf pid)
  then show ?thesis using sys_fork_success [OF i f _ forks(2)] r by (auto simp: root_scheduled_def can_fork_def)
qed

lemma sched_reach_inv: "sched_reach k \<Longrightarrow> sched_inv k \<and> fresh_ids k \<and> root_scheduled k \<and> mem_inv k"
proof (induction rule: sched_reach.induct)
  case (start k)
  then show ?case by (simp add: root_scheduled_def)
next
  case (step k k')
  then show ?case using sched_step_inv sched_step_mem by blast
qed

lemma reach_hands_over:
  assumes "sched_reach k" and "handed_over s k k'" and "s = Ready \<or> current_task k \<noteq> root_ref" and "sched_step k k'"
  shows "current_task k' \<noteq> idle_ref \<and> sched_reach k'"
  using sched_reach_inv [OF assms(1)] handed_over_root(2) [OF assms(2) root_queued [OF _ assms(3)]] sched_reach.step [OF assms(1,4)]
  by simp

lemma exit_reach:
  assumes "sched_reach k" and c: "current_task k \<notin> {idle_ref, root_ref}"
  shows "runs (current_exit c) k (\<lambda>_ k'. current_task k' \<noteq> idle_ref \<and> sched_reach k')"
proof -
  have i: "sched_inv k" "mem_inv k" using sched_reach_inv [OF assms(1)] by blast+
  have n: "current_task k \<noteq> idle_ref" using c by simp
  obtain k' where k': "current_exit c k = Ok ((), k')" using current_exit_mem [OF i n, of c] by (auto simp: runs_iff)
  have "handed_over TZombie k k'" using exit_steps [OF i(1) n k'] by blast
  from reach_hands_over [OF assms(1) this _ sched_step.exits [OF c k']] show ?thesis using c k' by (simp add: runs_def)
qed

lemma fork_reach:
  assumes r: "sched_reach k" and S: "btm_get (procs k) (ref_pid (current_task k)) = Some S" "\<not> p_is_kernel S" and c: "can_fork k"
  shows "runs (sys_fork stdin stdout task_entry kst tf) k (\<lambda>_ k'. sched_reach k')"
proof -
  have i: "sched_inv k" "fresh_ids k" "mem_inv k" using sched_reach_inv [OF r] by blast+
  obtain S' ms where S': "btm_get (procs k) (ref_pid (current_task k)) = Some S'" "vm S' = Some ms" "5 * ms_pages ms + 1 \<le> free_count (kmem k)"
    "PID_ALLOCATOR k + 1 < USIZE_LIMIT" by (rule fork_spaceD [OF i(1) c])
  have v: "vm S = Some ms" using S' S(1) by simp
  obtain pid k' where "sys_fork stdin stdout task_entry kst tf k = Ok (pid, k')"
    using sys_fork_mem [OF i S'(4) S v S'(3), of stdin stdout task_entry kst tf] by (auto simp: runs_iff)
  then show ?thesis using sched_reach.step [OF r sched_step.forks [OF c]] by (simp add: runs_def)
qed

text \<open>C3.  In every state the tasks can bring about by yielding, blocking, resuming, forking and exiting, exactly the
  current task is running, the ready queue holds every other ready task exactly once, and the address spaces
  of the processes are well formed and have no frame in common.  None of these operations can stop the kernel:
  the current task can always yield, and block or exit unless it is the idle or the root task; a blocked task
  can be resumed; a user process has an address space and can fork as long as there is a process id and the
  frames for the copy.  Whoever runs after a yield, a block or an exit, it is never the idle task again, whose
  code after its first yield is \<open>unreachable!\<close>.\<close>

theorem sched_safe:
  assumes "sched_reach k"
  shows "{t. st k t = Some Running} = {current_task k} \<and> distinct (ready_queue k) \<and>
    (\<forall>t. t \<noteq> idle_ref \<longrightarrow> (st k t = Some Ready \<longleftrightarrow> t \<in> set (ready_queue k))) \<and> spaces_ok (kmem k) (space_of k) \<and>
    runs yield_now k (\<lambda>_ k'. current_task k' \<noteq> idle_ref \<and> sched_reach k') \<and>
    (current_task k \<notin> {idle_ref, root_ref} \<longrightarrow>
      runs block_and_yield k (\<lambda>_ k'. current_task k' \<noteq> idle_ref \<and> sched_reach k') \<and>
      (\<forall>c. runs (current_exit c) k (\<lambda>_ k'. current_task k' \<noteq> idle_ref \<and> sched_reach k'))) \<and>
    (\<forall>t. at_home k t \<longrightarrow> st k t = Some Blocking \<longrightarrow>
      runs (task_resume t) k (\<lambda>_ k'. ready_queue k' = ready_queue k @ [t] \<and> sched_reach k')) \<and>
    (\<forall>S. btm_get (procs k) (ref_pid (current_task k)) = Some S \<longrightarrow> \<not> p_is_kernel S \<longrightarrow> vm S \<noteq> None \<and>
      (can_fork k \<longrightarrow> (\<forall>stdin stdout task_entry kst tf. runs (sys_fork stdin stdout task_entry kst tf) k (\<lambda>_ k'. sched_reach k'))))"
proof -
  have i: "sched_inv k" and m: "mem_inv k" using sched_reach_inv [OF assms] by blast+
  obtain k1 where k1: "yield_now k = Ok ((), k1)" "handed_over Ready k k1" using yield_hands_over [OF i] by (auto simp: runs_iff)
  have y: "runs yield_now k (\<lambda>_ k'. current_task k' \<noteq> idle_ref \<and> sched_reach k')"
    using reach_hands_over [OF assms k1(2) _ sched_step.yields [OF k1(1)]] k1(1) by (simp add: runs_def)
  obtain k2 where k2: "block_and_yield k = Ok ((), k2)" "handed_over Blocking k k2" using block_hands_over [OF i] by (auto simp: runs_iff)
  have b: "runs block_and_yield k (\<lambda>_ k'. current_task k' \<noteq> idle_ref \<and> sched_reach k')" if c: "current_task k \<notin> {idle_ref, root_ref}"
    using reach_hands_over [OF assms k2(2) _ sched_step.blocks [OF c k2(1)]] k2(1) c by (simp add: runs_def)
  have u: "runs (task_resume t) k (\<lambda>_ k'. ready_queue k' = ready_queue k @ [t] \<and> sched_reach k')" if t: "at_home k t" "st k t = Some Blocking" for t
  proof -
    obtain k' where k': "task_resume t k = Ok ((), k')" "ready_queue k' = ready_queue k @ [t]" using resume_ok [OF i t(2,1)] by (auto simp: runs_iff)
    show ?thesis using k' sched_reach.step [OF assms sched_step.resumes [OF t(1) k'(1)]] by (simp add: runs_def)
  qed
  have "st k (current_task k) = Some Running" using sched_invD(1) [OF i] by blast
  then have v: "vm S \<noteq> None" if "btm_get (procs k) (ref_pid (current_task k)) = Some S" "\<not> p_is_kernel S" for S
    using m sched_invD(5) [OF i] that by (auto simp: mem_inv_def)
  have q: "{t. st k t = Some Running} = {current_task k}" using i by (simp add: sched_inv_def)
  have q': "\<forall>t. t \<noteq> idle_ref \<longrightarrow> (st k t = Some Ready \<longleftrightarrow> t \<in> set (ready_queue k))" using sched_invD(3) [OF i] by simp
  have sp: "spaces_ok (kmem k) (space_of k)" using m by (simp add: mem_inv_def)
  show ?thesis
    by (intro conjI allI impI) (rule q sched_invD(2) [OF i] q' [rule_format] sp y b u v exit_reach [OF assms] fork_reach [OF assms]; assumption)+
qed

lemma sample_mem: "mem_inv (sample_kernel cur q)"
proof -
  obtain r ts where r: "ms_rep (snd sample_ms) (fst sample_ms) r ts" "ms_framed (fst sample_ms)" by (rule sample_ms_ok)
  have s: "space_of (sample_kernel cur q) = [2 \<mapsto> fst sample_ms]"
    by (rule ext) (simp add: space_of_def sample_kernel_def btm_get_def sample_process_def)
  have "spaces_ok (kmem (sample_kernel cur q)) (space_of (sample_kernel cur q))"
    unfolding s spaces_ok_def using r by (auto simp: sample_kernel_def split: if_splits)
  then show ?thesis unfolding mem_inv_def by (auto simp: sample_kernel_def btm_get_def sample_process_def split: if_splits)
qed

lemma sample_reach: "sched_reach (sample_kernel idle_ref [root_ref, TRef 2 0])"
proof (rule sched_reach.start)
  show "sched_inv (sample_kernel idle_ref [root_ref, TRef 2 0])" by (rule sample_inv) auto
qed (simp_all add: sample_fresh sample_mem, simp_all add: sample_kernel_def)

theorem sched_safe_witness:
  "sched_reach (sample_kernel idle_ref [root_ref, TRef 2 0]) \<and>
   runs yield_now (sample_kernel idle_ref [root_ref, TRef 2 0]) (\<lambda>_ k'. current_task k' \<noteq> idle_ref \<and> sched_reach k')"
  using sched_safe [OF sample_reach] sample_reach by blast

section \<open>Turns\<close>

fun yield_times :: "nat \<Rightarrow> ('f kernel, unit) cmd" where
  "yield_times 0 = ret ()"
| "yield_times (Suc n) = bind yield_now (\<lambda>_. yield_times n)"

text \<open>C20.  The queue is served in turn: the task at position \<open>i\<close> of the ready queue runs after \<open>i + 1\<close> yields.\<close>

theorem round_robin:
  assumes "sched_inv k" and "i < length (ready_queue k)"
  shows "runs (yield_times (Suc i)) k (\<lambda>_ k'. current_task k' = ready_queue k ! i \<and> sched_inv k')"
  using assms
proof (induction i arbitrary: k)
  case 0
  then obtain t q where q: "ready_queue k = t # q" by (cases "ready_queue k") auto
  obtain k' where k': "yield_now k = Ok ((), k')" "same_objects k k'" "handed_over Ready k k'"
    using yield_hands_over [OF 0(1)] by (auto simp: runs_iff)
  have "sched_inv k'" by (rule handed_over_inv [OF 0(1) _ _ k'(2,3)]) simp_all
  then show ?case using k' q by (simp add: runs_bind, simp add: runs_def handed_over_def queue_after_def next_of_def)
next
  case (Suc i)
  then obtain t q where q: "ready_queue k = t # q" by (cases "ready_queue k") auto
  obtain k' where k': "yield_now k = Ok ((), k')" "same_objects k k'" "handed_over Ready k k'"
    using yield_hands_over [OF Suc.prems(1)] by (auto simp: runs_iff)
  have i': "sched_inv k'" by (rule handed_over_inv [OF Suc.prems(1) _ _ k'(2,3)]) simp_all
  have "ready_queue k' = q @ (if current_task k = idle_ref then [] else [current_task k])" using k'(3) q by (simp add: handed_over_def queue_after_def)
  then have l: "i < length (ready_queue k')" "ready_queue k' ! i = ready_queue k ! Suc i" using Suc.prems(2) q by (simp_all add: nth_append)
  have "runs (yield_times (Suc i)) k' (\<lambda>_ k''. current_task k'' = ready_queue k ! Suc i \<and> sched_inv k'')"
    using Suc.IH [OF i' l(1)] l(2) by simp
  then show ?case using k'(1) unfolding yield_times.simps(2) [of "Suc i"] runs_bind [of yield_now] runs_def [of yield_now] by simp
qed

theorem round_robin_witness:
  "runs (yield_times 2) (sample_kernel idle_ref [root_ref, TRef 2 0]) (\<lambda>_ k'. current_task k' = TRef 2 0 \<and> sched_inv k')"
proof -
  let ?k = "sample_kernel idle_ref [root_ref, TRef 2 0]"
  have i: "sched_inv ?k" by (rule sample_inv) auto
  have q: "ready_queue ?k = [root_ref, TRef 2 0]" by (simp add: sample_kernel_def)
  then have "1 < length (ready_queue ?k)" by simp
  from round_robin [OF i this] show ?thesis unfolding q by (simp add: numeral_2_eq_2)
qed

end
