(* ===== verification/Timers.thy ===== *)
theory Timers
  imports SyncPrims SchedProps "HOL-Library.Multiset"
begin

text \<open>
  Sleeping tasks (src/os/src/timer.rs, \<open>sys_sleep\<close> in syscall/sync.rs).  \<open>CNTPCT_EL0\<close> and the frequency of
  the counter are arguments.  A \<open>BinaryHeap\<close> is the list of its elements; \<open>peek\<close> returns one that is greatest
  in the order of \<open>Ord for TimerCondVar\<close>, and \<open>pop\<close> removes it.
\<close>

section \<open>The order of the timers\<close>

datatype Ordering = Less | Equal | Greater

definition timer_eq :: "TimerCondVar \<Rightarrow> TimerCondVar \<Rightarrow> bool" where
  "timer_eq self other \<longleftrightarrow> expire_ms self = expire_ms other"

text \<open>\<open>isize\<close> negation and comparison.\<close>

definition timer_partial_cmp :: "TimerCondVar \<Rightarrow> TimerCondVar \<Rightarrow> Ordering option" where
  "timer_partial_cmp self other =
     (let a = - (expire_ms self); b = - (expire_ms other) in
      Some (if a <s b then Less else if a = b then Equal else Greater))"

definition timer_cmp :: "TimerCondVar \<Rightarrow> TimerCondVar \<Rightarrow> Ordering res" where
  "timer_cmp self other = unwrap (timer_partial_cmp self other)"

section \<open>Timers\<close>

definition MSEC_PER_SEC :: u64 where
  "MSEC_PER_SEC = 1000"

definition get_time_ms :: "u64 \<Rightarrow> u64 \<Rightarrow> u64" where
  "get_time_ms freq cntpct = cntpct * MSEC_PER_SEC div freq"

definition heap_greater :: "TimerCondVar \<Rightarrow> TimerCondVar \<Rightarrow> TimerCondVar" where
  "heap_greater t m = (if timer_cmp t m = Ok Greater then t else m)"

definition heap_peek :: "TimerCondVar list \<Rightarrow> TimerCondVar option" where
  "heap_peek ts = (case ts of [] \<Rightarrow> None | t # ts \<Rightarrow> Some (fold heap_greater ts t))"

definition add_timer :: "u64 \<Rightarrow> tref \<Rightarrow> ('f kernel, unit) cmd" where
  "add_timer expire task = modifies (\<lambda>k. k\<lparr>TIMERS := TIMERS k @ [\<lparr>expire_ms = expire, timer_task = task\<rparr>]\<rparr>)"

definition remove_timer :: "tref \<Rightarrow> ('f kernel, unit) cmd" where
  "remove_timer task = modifies (\<lambda>k. k\<lparr>TIMERS := filter (\<lambda>t. task \<noteq> timer_task t) (TIMERS k)\<rparr>)"

lemma fold_greater_in: "fold heap_greater ts t \<in> set (t # ts)"
proof (induction ts arbitrary: t)
  case (Cons u ts)
  have "heap_greater u t \<in> {u, t}" by (simp add: heap_greater_def)
  then show ?case using Cons [of "heap_greater u t"] by auto
qed simp

lemma heap_peek_in: "heap_peek ts = Some t \<Longrightarrow> t \<in> set ts"
  using fold_greater_in by (auto simp: heap_peek_def split: list.splits)

lemma heap_pop_length: "heap_peek ts = Some t \<Longrightarrow> length (remove1 t ts) < length ts"
  using heap_peek_in [of ts t] length_pos_if_in_set [of t ts] by (simp add: length_remove1)

function check_loop :: "u64 \<Rightarrow> TimerCondVar list \<Rightarrow> ('f kernel, TimerCondVar list) cmd" where
  "check_loop current_ms ts = (case heap_peek ts of
     Some timer \<Rightarrow>
       if expire_ms timer \<le> current_ms then bind (task_resume (timer_task timer)) (\<lambda>_. check_loop current_ms (remove1 timer ts))
       else ret ts
   | None \<Rightarrow> ret ts)"
  by pat_completeness auto
termination
  by (relation "measure (\<lambda>(_, ts). length ts)") (auto simp: heap_pop_length)

declare check_loop.simps [simp del]

definition check_timer :: "u64 \<Rightarrow> ('f kernel, unit) cmd" where
  "check_timer current_ms = bind (gets TIMERS) (\<lambda>ts. bind (check_loop current_ms ts) (\<lambda>ts. modifies (\<lambda>k. k\<lparr>TIMERS := ts\<rparr>)))"

text \<open>The call up to the point where the task sleeps; it returns 0 when it is resumed.\<close>

definition sys_sleep :: "u64 \<Rightarrow> u64 \<Rightarrow> ('f kernel, unit) cmd" where
  "sys_sleep now_ms ms =
     (let expire = now_ms + ms in
      bind (gets current_task) (\<lambda>task. bind (add_timer expire task) (\<lambda>_. block_and_yield)))"

section \<open>The order in which tasks wake\<close>

abbreviation early :: "TimerCondVar \<Rightarrow> bool" where
  "early t \<equiv> unat (expire_ms t) < 2 ^ 63"

lemma sint_neg_small:
  assumes "unat (a :: u64) < 2 ^ 63"
  shows "sint (- a) = - int (unat a)"
proof -
  have "signed_take_bit 63 (- int (unat a)) = - int (unat a)"
  proof (rule signed_take_bit_int_eq_self)
    have "int (unat a) \<le> 2 ^ 63" using assms by (simp only: of_nat_le_numeral_power_cancel_iff less_imp_le)
    then show "- (2 ^ 63) \<le> - int (unat a)" by linarith
    show "- int (unat a) < 2 ^ 63" by (rule le_less_trans [of _ 0]) simp_all
  qed
  then show ?thesis by (simp only: sint_word_ariths sint_small [OF assms] len_num0 len_num1 len_bit0 len_bit1 mult_1_right) simp
qed

text \<open>The number by which the timers are ordered.\<close>

abbreviation timer_key :: "TimerCondVar \<Rightarrow> int" where
  "timer_key t \<equiv> sint (- expire_ms t)"

lemma timer_cmp_key: "timer_cmp t u = Ok Greater \<longleftrightarrow> timer_key u < timer_key t"
  by (auto simp: timer_cmp_def timer_partial_cmp_def Let_def word_sless_alt unwrap_def) (metis linorder_less_linear signed_word_eqI minus_equation_iff)

lemma fold_greater_max: "\<forall>u\<in>set (t # ts). timer_key u \<le> timer_key (fold heap_greater ts t)"
proof (induction ts arbitrary: t)
  case (Cons v ts)
  have "timer_key v \<le> timer_key (heap_greater v t)" "timer_key t \<le> timer_key (heap_greater v t)"
    using timer_cmp_key [of v t] by (auto simp: heap_greater_def)
  then show ?case using Cons.IH [of "heap_greater v t"] by (auto intro: order_trans)
qed simp

lemma heap_peek_max: "heap_peek ts = Some t \<Longrightarrow> u \<in> set ts \<Longrightarrow> timer_key u \<le> timer_key t"
  using fold_greater_max by (cases ts) (auto simp: heap_peek_def)

lemma heap_peek_least:
  assumes "heap_peek ts = Some t" and e: "\<forall>u\<in>set ts. early u" and u: "u \<in> set ts"
  shows "expire_ms t \<le> expire_ms u"
  using heap_peek_max [OF assms(1) u] sint_neg_small [of "expire_ms u"] sint_neg_small [of "expire_ms t"] e u heap_peek_in [OF assms(1)]
  by (simp add: word_le_def)

lemma late_key:
  assumes "2 ^ 63 < unat (a :: u64)"
  shows "0 < sint (- a)"
proof -
  have u: "uint a = int (unat a)" by simp
  have a: "2 ^ 63 < uint a" using assms unfolding u by (simp only: of_nat_less_iff of_nat_power of_nat_numeral flip: of_nat_less_iff [where 'a = int])
  have "uint (- a) = (- uint a) mod 2 ^ 64" by (simp add: uint_word_ariths)
  also have "\<dots> = (2 ^ 64 - uint a) mod 2 ^ 64" by (simp add: mod_simps)
  also have "\<dots> = 2 ^ 64 - uint a" using a uint_lt2p [of a] by (intro mod_pos_pos_trivial) simp_all
  finally have n: "uint (- a) = 2 ^ 64 - uint a" .
  then have "nat (uint (- a)) < 2 ^ 63" using a uint_lt2p [of a] by (subst nat_less_iff) simp_all
  then have "unat (- a) < 2 ^ 63" by (simp only: unat_eq_nat_uint)
  then have "sint (- a) = int (unat (- a))" by (rule sint_small)
  also have "\<dots> = uint (- a)" by simp
  finally show ?thesis using n uint_lt2p [of a] by simp
qed

definition sleeping :: "'f kernel \<Rightarrow> TimerCondVar list \<Rightarrow> bool" where
  "sleeping k ts \<longleftrightarrow> distinct (map timer_task ts) \<and>
     (\<forall>t\<in>set ts. st k (timer_task t) = Some Blocking \<and> at_home k (timer_task t) \<and> early t)"

definition woken :: "u64 \<Rightarrow> TimerCondVar list \<Rightarrow> TimerCondVar list \<Rightarrow> TimerCondVar list \<Rightarrow> bool" where
  "woken now ts due rest \<longleftrightarrow> mset ts = mset due + mset rest \<and> sorted (map expire_ms due) \<and>
     (\<forall>t\<in>set due. expire_ms t \<le> now) \<and> (\<forall>t\<in>set rest. now < expire_ms t)"

lemma sleeping_remove:
  assumes s: "sleeping k ts" and t: "t \<in> set ts" and o: "same_objects k k'" and st: "st k' = (st k)(timer_task t := Some Ready)"
  shows "sleeping k' (remove1 t ts)"
proof -
  have "mset (map timer_task ts) = mset (timer_task t # map timer_task (remove1 t ts))"
    using t by (metis image_mset_add_mset insert_DiffM mset.simps(2) mset_map mset_remove1 set_mset_mset)
  then have d: "distinct (timer_task t # map timer_task (remove1 t ts))"
    using s unfolding sleeping_def by (metis mset_eq_imp_distinct_iff)
  have "st k' (timer_task u) = Some Blocking \<and> at_home k' (timer_task u) \<and> early u" if u: "u \<in> set (remove1 t ts)" for u
  proof -
    have "u \<in> set ts" using u set_remove1_subset by fastforce
    moreover have "timer_task u \<noteq> timer_task t" using d u by (metis distinct.simps(2) imageI list.set_map)
    ultimately show ?thesis using s unfolding sleeping_def st at_home_same [OF o] by simp
  qed
  then show ?thesis using d unfolding sleeping_def by simp
qed

lemma woken_Cons:
  assumes w: "woken now (remove1 t ts) due rest" and t: "heap_peek ts = Some t" "expire_ms t \<le> now" and e: "\<forall>u\<in>set ts. early u"
  shows "woken now ts (t # due) rest"
proof -
  have "mset ts = mset (t # due) + mset rest" using w heap_peek_in [OF t(1)] unfolding woken_def
    by (metis add_mset_remove_trivial_eq mset.simps(2) mset_remove1 set_mset_mset union_mset_add_mset_left insert_DiffM)
  moreover have "set due \<subseteq> set ts" using w unfolding woken_def
    by (metis mset_subset_eq_add_left set_mset_mono set_mset_mset set_remove1_subset order_trans)
  then have "\<forall>u\<in>set due. expire_ms t \<le> expire_ms u" using heap_peek_least [OF t(1) e] by blast
  ultimately show ?thesis using w t(2) by (simp add: woken_def)
qed

lemma check_loop_ok:
  assumes "sched_inv k" and "sleeping k ts"
  shows "runs (check_loop now ts) k (\<lambda>rest k'. same_objects k k' \<and> sched_inv k' \<and> current_task k' = current_task k \<and>
    (\<exists>due. woken now ts due rest \<and> ready_queue k' = ready_queue k @ map timer_task due))"
  using assms
proof (induction "length ts" arbitrary: ts k rule: less_induct)
  case less
  note i = less.prems(1) and s = less.prems(2)
  show ?case
  proof (cases "heap_peek ts")
    case None
    then have "ts = []" by (cases ts) (simp_all add: heap_peek_def)
    then show ?thesis using i by (subst check_loop.simps) (simp add: heap_peek_def woken_def same_objects_refl)
  next
    case (Some t)
    note t = heap_peek_in [OF Some]
    have e: "\<forall>u\<in>set ts. early u" using s by (simp add: sleeping_def)
    show ?thesis
    proof (cases "expire_ms t \<le> now")
      case True
      have b: "st k (timer_task t) = Some Blocking" "at_home k (timer_task t)" using s t by (simp_all add: sleeping_def)
      note IH = less.hyps [OF heap_pop_length [OF Some]]
      have "runs (bind (task_resume (timer_task t)) (\<lambda>_. check_loop now (remove1 t ts))) k (\<lambda>rest k'. same_objects k k' \<and> sched_inv k' \<and>
        current_task k' = current_task k \<and> (\<exists>due. woken now ts due rest \<and> ready_queue k' = ready_queue k @ map timer_task due))"
        unfolding runs_bind
      proof (rule runs_mono [OF resume_ok [OF i b]], elim conjE)
        fix k1 assume k1: "same_objects k k1" "sched_inv k1" "current_task k1 = current_task k"
          "ready_queue k1 = ready_queue k @ [timer_task t]" "st k1 = (st k)(timer_task t := Some Ready)"
        show "runs (check_loop now (remove1 t ts)) k1 (\<lambda>rest k'. same_objects k k' \<and> sched_inv k' \<and>
          current_task k' = current_task k \<and> (\<exists>due. woken now ts due rest \<and> ready_queue k' = ready_queue k @ map timer_task due))"
        proof (rule runs_mono [OF IH [OF k1(2) sleeping_remove [OF s t k1(1,5)]]], elim conjE exE, intro conjI)
          fix rest k' due assume r: "same_objects k1 k'" "current_task k' = current_task k1" "woken now (remove1 t ts) due rest"
            "ready_queue k' = ready_queue k1 @ map timer_task due"
          show "same_objects k k'" by (rule same_objects_trans [OF k1(1) r(1)])
          show "current_task k' = current_task k" using r(2) k1(3) by simp
          show "\<exists>due. woken now ts due rest \<and> ready_queue k' = ready_queue k @ map timer_task due"
            by (intro exI [of _ "t # due"] conjI woken_Cons [OF r(3) Some True e]) (simp add: r(4) k1(4))
        qed
      qed
      then show ?thesis by (subst check_loop.simps) (simp add: Some True)
    next
      case False
      then have "\<forall>u\<in>set ts. now < expire_ms u" using heap_peek_least [OF Some e] by (metis not_le order.strict_trans1)
      then have "woken now ts [] ts" by (simp add: woken_def)
      then show ?thesis using i False
        by (subst check_loop.simps) (auto simp: Some same_objects_refl intro: exI [of _ "[]"])
    qed
  qed
qed

lemma sleep_ok:
  assumes i: "sched_inv k" and n: "current_task k \<noteq> idle_ref"
  shows "runs (sys_sleep now ms) k (\<lambda>_ k'. sched_inv k' \<and> st k' (current_task k) = Some Blocking \<and> at_home k' (current_task k) \<and>
    TIMERS k' = TIMERS k @ [\<lparr>expire_ms = now + ms, timer_task = current_task k\<rparr>])"
proof -
  let ?k = "k\<lparr>TIMERS := TIMERS k @ [\<lparr>expire_ms = now + ms, timer_task = current_task k\<rparr>]\<rparr>"
  have i': "sched_inv ?k" using i by (simp add: sched_inv_def st_def at_home_def idle_home_def)
  have h: "at_home ?k (current_task k)" using i' by (simp add: sched_inv_def)
  have "runs block_and_yield ?k (\<lambda>_ k'. sched_inv k' \<and> st k' (current_task k) = Some Blocking \<and> at_home k' (current_task k) \<and>
    TIMERS k' = TIMERS k @ [\<lparr>expire_ms = now + ms, timer_task = current_task k\<rparr>])"
  proof (rule runs_mono [OF block_hands_over [OF i']], elim conjE, intro conjI)
    fix k' assume k': "same_objects ?k k'" "handed_over Blocking ?k k'"
    show "sched_inv k'" by (rule handed_over_inv [OF i' _ _ k']) (use n in simp_all)
    show "at_home k' (current_task k)" using h at_home_same [OF k'(1)] by simp
    show "TIMERS k' = TIMERS k @ [\<lparr>expire_ms = now + ms, timer_task = current_task k\<rparr>]" using k'(1) by (simp add: same_objects_def)
    have "current_task k \<noteq> next_of (queue_after Blocking ?k)" using current_not_queued [OF i] n
      by (auto simp: next_of_def queue_after_def split: list.splits)
    then show "st k' (current_task k) = Some Blocking" using k'(2) by (simp add: handed_over_def)
  qed
  then show ?thesis by (simp add: sys_sleep_def Let_def add_timer_def kernel_runs)
qed

section \<open>Properties\<close>

text \<open>C31.  When the tick checks the timers, exactly the tasks whose time has come are made ready, in the order of
  their times, and the others stay asleep.  The times have to be below \<open>2 ^ 63\<close>: they are compared as negated
  signed numbers.\<close>

theorem check_timer_correct:
  assumes "sched_inv k" and "sleeping k (TIMERS k)"
  shows "runs (check_timer now) k (\<lambda>_ k'. sched_inv k' \<and> current_task k' = current_task k \<and>
    (\<exists>due. mset (TIMERS k) = mset due + mset (TIMERS k') \<and> sorted (map expire_ms due) \<and>
      ready_queue k' = ready_queue k @ map timer_task due \<and>
      (\<forall>t\<in>set due. expire_ms t \<le> now) \<and> (\<forall>t\<in>set (TIMERS k'). now < expire_ms t)))"
proof -
  have inv: "sched_inv (k'\<lparr>TIMERS := rest\<rparr>) = sched_inv k'" for k' :: "'a kernel" and rest
    by (simp add: sched_inv_def st_def at_home_def idle_home_def)
  show ?thesis unfolding check_timer_def
    by (simp add: kernel_runs, rule runs_mono [OF check_loop_ok [OF assms]]) (auto simp: inv woken_def)
qed

theorem check_timer_correct_witness:
  "\<exists>k. sys_sleep 1000 5000 (sample_kernel (TRef 2 0) [TRef 1 0]) = Ok ((), k) \<and> runs (check_timer 6000) k (\<lambda>_ k'. sched_inv k' \<and> TIMERS k' = [])"
proof -
  let ?s = "sample_kernel (TRef 2 0) [TRef 1 0]"
  have i: "sched_inv ?s" by (rule sample_inv) auto
  have c: "current_task ?s = TRef 2 0" "TIMERS ?s = []" by (simp_all add: sample_kernel_def)
  obtain k where k: "sys_sleep 1000 5000 ?s = Ok ((), k)" "sched_inv k" "st k (TRef 2 0) = Some Blocking" "at_home k (TRef 2 0)"
    "TIMERS k = [\<lparr>expire_ms = 6000, timer_task = TRef 2 0\<rparr>]"
    using sleep_ok [OF i, of 1000 5000] c by (auto simp: runs_iff)
  have "sleeping k (TIMERS k)" using k by (simp add: sleeping_def)
  from check_timer_correct [OF k(2) this, of 6000]
  have "runs (check_timer 6000) k (\<lambda>_ k'. sched_inv k' \<and> TIMERS k' = [])"
  proof (rule runs_mono, elim conjE exE, intro conjI)
    fix k' due assume m: "mset (TIMERS k) = mset due + mset (TIMERS k')" and late: "\<forall>t\<in>set (TIMERS k'). 6000 < expire_ms t"
    have "set (TIMERS k') \<subseteq> {\<lparr>expire_ms = 6000, timer_task = TRef 2 0\<rparr>}" using k(5) arg_cong [OF m, of set_mset] by auto
    then have "t \<notin> set (TIMERS k')" for t using late by fastforce
    then show "TIMERS k' = []" by (cases "TIMERS k'") auto
  qed
  then show ?thesis using k(1) by blast
qed

text \<open>A program that sleeps for so long that its time lies beyond \<open>2 ^ 63\<close> stands in front of every other
  timer: the tick wakes nobody any more, however late it is for the others.\<close>

theorem long_sleep_blocks_timers:
  assumes "t \<in> set (TIMERS k)" and "2 ^ 63 < unat (expire_ms t)" and "unat now < 2 ^ 63"
  shows "check_timer now k = Ok ((), k)"
proof -
  define m where "m = the (heap_peek (TIMERS k))"
  have ne: "TIMERS k \<noteq> []" using assms(1) by auto
  then obtain a as where as: "TIMERS k = a # as" by (cases "TIMERS k") auto
  have p: "heap_peek (TIMERS k) = Some m" by (simp add: m_def as heap_peek_def)
  have "0 < timer_key m" using late_key [OF assms(2)] heap_peek_max [OF p assms(1)] by linarith
  then have "\<not> early m" using sint_neg_small [of "expire_ms m"] by linarith
  then have "\<not> expire_ms m \<le> now" using assms(3) by (simp add: word_le_nat_alt)
  then have "check_loop now (TIMERS k) k = Ok (TIMERS k, k)" by (subst check_loop.simps) (simp add: p ret_def)
  then show ?thesis by (simp add: check_timer_def bind_def gets_def modifies_def)
qed

theorem long_sleep_blocks_timers_witness:
  "\<exists>k :: unit kernel. TIMERS k = [\<lparr>expire_ms = 2000, timer_task = TRef 2 0\<rparr>, \<lparr>expire_ms = 2 ^ 63 + 1, timer_task = TRef 3 0\<rparr>] \<and>
     check_timer 3000 k = Ok ((), k)"
proof -
  let ?t = "\<lparr>expire_ms = 2 ^ 63 + 1, timer_task = TRef 3 0\<rparr>"
  let ?k = "(sample_kernel (TRef 1 0) [])\<lparr>TIMERS := [\<lparr>expire_ms = 2000, timer_task = TRef 2 0\<rparr>, ?t]\<rparr>"
  have "?t \<in> set (TIMERS ?k)" "2 ^ 63 < unat (expire_ms ?t)" "unat (3000 :: u64) < 2 ^ 63" by simp_all
  from long_sleep_blocks_timers [OF this] show ?thesis by (intro exI [of _ ?k]) simp
qed

end
