(* ===== verification/Gic.thy ===== *)
theory Gic
  imports Address
begin

text \<open>
  The interrupt controller (src/os/src/arch/aarch64/gicv2.rs) and the interrupt of the timer.  The registers
  of the distributor and of the processor interface are a record.  A write to a set-enable or clear-enable
  register sets or clears the bits that are 1 in the value, as the architecture defines it, and a write to a
  clear-pending register clears pending bits.  Reading \<open>IAR\<close> acknowledges an interrupt: what it returns is an
  argument.
\<close>

unbundle bit_operations_syntax

section \<open>Registers\<close>

record gic_regs =
  TYPER :: u32
  GICD_CTLR :: u32
  enabled :: "u32 list"
  pending :: "u32 list"
  ITARGETSR :: "u32 list"
  ICFGR :: "u32 list"
  GICC_CTLR :: u32
  PMR :: u32
  EOIR :: "u32 list"
  CNTP_TVAL :: u64

definition ISENABLER_set :: "nat \<Rightarrow> u32 \<Rightarrow> (gic_regs, unit) cmd" where
  "ISENABLER_set reg v = (\<lambda>g. bind_res (index_res (enabled g) reg) (\<lambda>w. Ok ((), g\<lparr>enabled := (enabled g)[reg := w OR v]\<rparr>)))"

definition ICENABLER_set :: "nat \<Rightarrow> u32 \<Rightarrow> (gic_regs, unit) cmd" where
  "ICENABLER_set reg v = (\<lambda>g. bind_res (index_res (enabled g) reg) (\<lambda>w. Ok ((), g\<lparr>enabled := (enabled g)[reg := w AND NOT v]\<rparr>)))"

definition ICPENDR_set :: "nat \<Rightarrow> u32 \<Rightarrow> (gic_regs, unit) cmd" where
  "ICPENDR_set reg v = (\<lambda>g. bind_res (index_res (pending g) reg) (\<lambda>w. Ok ((), g\<lparr>pending := (pending g)[reg := w AND NOT v]\<rparr>)))"

definition ITARGETSR_set :: "nat \<Rightarrow> u32 \<Rightarrow> (gic_regs, unit) cmd" where
  "ITARGETSR_set reg v = (\<lambda>g. bind_res (update_res (ITARGETSR g) reg v) (\<lambda>ws. Ok ((), g\<lparr>ITARGETSR := ws\<rparr>)))"

section \<open>The driver\<close>

datatype TriggerMode = Edge | Level
datatype Polarity = ActiveHigh | ActiveLow

definition SPI_BASE :: nat where
  "SPI_BASE = 32"

text \<open>A \<open>Gic\<close> is its number of interrupts; the addresses of its registers are constants.\<close>

definition gic_new :: "gic_regs \<Rightarrow> nat" where
  "gic_new g = (unat (TYPER g AND 0b11111) + 1) * 32"

definition cpu_num :: "gic_regs \<Rightarrow> nat" where
  "cpu_num g = unat (drop_bit 5 (TYPER g) AND 0b111) + 1"

definition configure_interrupt :: "nat \<Rightarrow> nat \<Rightarrow> TriggerMode \<Rightarrow> Polarity \<Rightarrow> (gic_regs, unit) cmd" where
  "configure_interrupt max_irqs vector tm pol =
     bind (assert_cmd (vector < max_irqs)) (\<lambda>_. bind (assert_cmd (vector \<ge> SPI_BASE)) (\<lambda>_. bind (assert_cmd (pol = ActiveHigh)) (\<lambda>_.
     let reg_ndx = vector div 16; bit_shift = (vector mod 16) * 2 + 1 in
     (\<lambda>g. bind_res (index_res (ICFGR g) reg_ndx) (\<lambda>reg_val.
       let reg_val = (case tm of Edge \<Rightarrow> reg_val OR push_bit bit_shift 1 | Level \<Rightarrow> reg_val AND NOT (push_bit bit_shift 1)) in
       Ok ((), g\<lparr>ICFGR := (ICFGR g)[reg_ndx := reg_val]\<rparr>))))))"

definition set_enable :: "nat \<Rightarrow> nat \<Rightarrow> bool \<Rightarrow> (gic_regs, unit) cmd" where
  "set_enable max_irqs vector enable =
     bind (assert_cmd (vector < max_irqs)) (\<lambda>_.
     let reg = vector div 32; mask = push_bit (vector mod 32) 1 in
     if enable then ISENABLER_set reg mask else ICENABLER_set reg mask)"

definition pending_irq :: "u32 \<Rightarrow> nat option" where
  "pending_irq iar = (if iar \<ge> 0x3fe then None else Some (unat iar))"

definition eoi :: "nat \<Rightarrow> (gic_regs, unit) cmd" where
  "eoi vector = (\<lambda>g. Ok ((), g\<lparr>EOIR := EOIR g @ [of_nat vector]\<rparr>))"

text \<open>\<open>(a..b).step_by(s)\<close>.\<close>

definition step_by :: "nat \<Rightarrow> nat \<Rightarrow> nat \<Rightarrow> nat list" where
  "step_by a b s = map (\<lambda>i. a + i * s) [0..<(b - a + s - 1) div s]"

definition gic_init :: "nat \<Rightarrow> (gic_regs, unit) cmd" where
  "gic_init max_irqs =
     bind (for_each (step_by 0 max_irqs 32) (\<lambda>i. bind (ICENABLER_set (i div 32) (- 1)) (\<lambda>_. ICPENDR_set (i div 32) (- 1)))) (\<lambda>_.
     bind (\<lambda>g. if cpu_num g > 1 then for_each (step_by SPI_BASE max_irqs 4) (\<lambda>i. ITARGETSR_set (i div 4) 0x01010101) g else Ok ((), g)) (\<lambda>_.
     bind (for_each [SPI_BASE..<max_irqs] (\<lambda>i. configure_interrupt max_irqs i Edge ActiveHigh)) (\<lambda>_.
     (\<lambda>g. Ok ((), g\<lparr>GICD_CTLR := 1, GICC_CTLR := 1, PMR := 0xff\<rparr>)))))"

definition irq_set_mask :: "nat \<Rightarrow> nat \<Rightarrow> bool \<Rightarrow> (gic_regs, unit) cmd" where
  "irq_set_mask max_irqs vector masked = set_enable max_irqs vector (\<not> masked)"

datatype IrqHandlerResult = Reschedule | NoReschedule

definition TICKS_PER_SEC :: u64 where
  "TICKS_PER_SEC = 100"

definition set_next_trigger :: "u64 \<Rightarrow> (gic_regs, unit) cmd" where
  "set_next_trigger freq = (\<lambda>g. Ok ((), g\<lparr>CNTP_TVAL := freq div TICKS_PER_SEC\<rparr>))"

definition handle_irq :: "u64 \<Rightarrow> u32 \<Rightarrow> (gic_regs, IrqHandlerResult) cmd" where
  "handle_irq freq iar = (case pending_irq iar of
     Some vector \<Rightarrow>
       bind (if vector = 30 then bind (set_next_trigger freq) (\<lambda>_. ret Reschedule) else ret NoReschedule) (\<lambda>res.
       bind (eoi vector) (\<lambda>_. ret res))
   | None \<Rightarrow> ret NoReschedule)"

text \<open>\<open>init\<close>: the number of interrupts that the global \<open>GIC\<close> then holds.\<close>

definition gicv2_init :: "(gic_regs, nat) cmd" where
  "gicv2_init = (\<lambda>g. let gic = gic_new g in bind (gic_init gic) (\<lambda>_. ret gic) g)"

section \<open>What the driver sets up\<close>

definition regs_ok :: "gic_regs \<Rightarrow> bool" where
  "regs_ok g \<longleftrightarrow> length (enabled g) = 0x20 \<and> length (pending g) = 0x20 \<and> length (ITARGETSR g) = 0x100 \<and> length (ICFGR g) = 0x40"

definition irq_enabled :: "gic_regs \<Rightarrow> nat \<Rightarrow> bool" where
  "irq_enabled g v \<longleftrightarrow> bit (enabled g ! (v div 32)) (v mod 32)"

definition edge_triggered :: "gic_regs \<Rightarrow> nat \<Rightarrow> bool" where
  "edge_triggered g v \<longleftrightarrow> bit (ICFGR g ! (v div 16)) (v mod 16 * 2 + 1)"

lemma runs_for_each_inv:
  assumes "I 0 s" and "\<And>i s. i < length xs \<Longrightarrow> I i s \<Longrightarrow> runs (body (xs ! i)) s (\<lambda>_. I (Suc i))"
  shows "runs (for_each xs body) s (\<lambda>_. I (length xs))"
  using assms
proof (induction xs arbitrary: I s)
  case (Cons x xs)
  have "runs (body x) s (\<lambda>_. I (Suc 0))" using Cons.prems(2) [of 0 s] Cons.prems(1) by simp
  then have "runs (body x) s (\<lambda>_ s'. runs (for_each xs body) s' (\<lambda>_. I (length (x # xs))))"
  proof (rule runs_mono)
    fix a s' assume "I (Suc 0) s'"
    then show "runs (for_each xs body) s' (\<lambda>_. I (length (x # xs)))"
      using Cons.IH [of "\<lambda>i. I (Suc i)" s'] Cons.prems(2) [of "Suc i" for i] by simp
  qed
  then show ?case by (simp add: runs_bind)
qed simp

lemma gic_new_le: "gic_new g \<le> 1024" "32 \<le> gic_new g" "gic_new g mod 32 = 0"
proof -
  have "TYPER g AND 0b11111 \<le> 0b11111" by (rule word_and_le1)
  then have "unat (TYPER g AND 0b11111) \<le> 31" by (simp add: word_le_nat_alt)
  then show "gic_new g \<le> 1024" "32 \<le> gic_new g" "gic_new g mod 32 = 0" by (simp_all add: gic_new_def)
qed

lemma masks_all:
  assumes ok: "regs_ok g" and n: "n \<le> 1024" "n mod 32 = 0"
  shows "runs (for_each (step_by 0 n 32) (\<lambda>i. bind (ICENABLER_set (i div 32) (- 1)) (\<lambda>_. ICPENDR_set (i div 32) (- 1)))) g
    (\<lambda>_ g'. regs_ok g' \<and> (\<forall>j < n div 32. enabled g' ! j = 0))"
proof -
  have len: "length (step_by 0 n 32) = n div 32" using n(2) by (auto simp: step_by_def)
  have "runs (for_each (step_by 0 n 32) (\<lambda>i. bind (ICENABLER_set (i div 32) (- 1)) (\<lambda>_. ICPENDR_set (i div 32) (- 1)))) g
    (\<lambda>_ g'. regs_ok g' \<and> (\<forall>j < length (step_by 0 n 32). enabled g' ! j = 0))"
  proof (rule runs_for_each_inv [where I = "\<lambda>i g'. regs_ok g' \<and> (\<forall>j < i. enabled g' ! j = 0)"])
    fix i g' assume i: "i < length (step_by 0 n 32)" and I: "regs_ok g' \<and> (\<forall>j < i. enabled g' ! j = 0)"
    then have "i < 32" "step_by 0 n 32 ! i div 32 = i" using n len by (simp_all add: step_by_def)
    then show "runs (bind (ICENABLER_set (step_by 0 n 32 ! i div 32) (- 1)) (\<lambda>_. ICPENDR_set (step_by 0 n 32 ! i div 32) (- 1))) g'
      (\<lambda>_ g'. regs_ok g' \<and> (\<forall>j < Suc i. enabled g' ! j = 0))"
      using I by (simp add: runs_bind) (simp add: runs_def ICENABLER_set_def ICPENDR_set_def index_res_def regs_ok_def nth_list_update less_Suc_eq)
  qed (use ok in simp)
  then show ?thesis unfolding len .
qed

lemma targets_all:
  assumes ok: "regs_ok g" and n: "n \<le> 1024" "32 \<le> n"
  shows "runs (for_each (step_by SPI_BASE n 4) (\<lambda>i. ITARGETSR_set (i div 4) 0x01010101)) g
    (\<lambda>_ g'. regs_ok g' \<and> enabled g' = enabled g)"
proof (rule runs_for_each_inv [where I = "\<lambda>i g'. regs_ok g' \<and> enabled g' = enabled g"])
  fix i g' assume i: "i < length (step_by SPI_BASE n 4)" and I: "regs_ok g' \<and> enabled g' = enabled g"
  have "i < (n - 29) div 4" using i n by (simp add: step_by_def SPI_BASE_def)
  also have "\<dots> \<le> 995 div 4" using n by (intro div_le_mono) simp
  finally have "(32 + i * 4) div 4 < 256" by simp
  moreover have "step_by SPI_BASE n 4 ! i = 32 + i * 4" using i n by (simp add: step_by_def SPI_BASE_def)
  ultimately show "runs (ITARGETSR_set (step_by SPI_BASE n 4 ! i div 4) 0x01010101) g' (\<lambda>_ g'. regs_ok g' \<and> enabled g' = enabled g)"
    using I by (auto simp: runs_def ITARGETSR_set_def update_res_def regs_ok_def)
qed (use ok in simp)

lemma bit_set_bit32: "n < 32 \<Longrightarrow> bit (w OR push_bit n 1 :: u32) j \<longleftrightarrow> bit w j \<or> j = n"
  by (auto simp: bit_simps)

lemma edges_all:
  assumes ok: "regs_ok g" and n: "n \<le> 1024" "32 \<le> n"
  shows "runs (for_each [SPI_BASE..<n] (\<lambda>i. configure_interrupt n i Edge ActiveHigh)) g
    (\<lambda>_ g'. regs_ok g' \<and> enabled g' = enabled g \<and> (\<forall>v. 32 \<le> v \<longrightarrow> v < n \<longrightarrow> edge_triggered g' v))"
proof -
  have "runs (for_each [SPI_BASE..<n] (\<lambda>i. configure_interrupt n i Edge ActiveHigh)) g
    (\<lambda>_ g'. regs_ok g' \<and> enabled g' = enabled g \<and> (\<forall>v. 32 \<le> v \<longrightarrow> v < 32 + length [SPI_BASE..<n] \<longrightarrow> edge_triggered g' v))"
  proof (rule runs_for_each_inv [where I = "\<lambda>i g'. regs_ok g' \<and> enabled g' = enabled g \<and> (\<forall>v. 32 \<le> v \<longrightarrow> v < 32 + i \<longrightarrow> edge_triggered g' v)"])
    fix i g' assume i: "i < length [SPI_BASE..<n]" and I: "regs_ok g' \<and> enabled g' = enabled g \<and> (\<forall>v. 32 \<le> v \<longrightarrow> v < 32 + i \<longrightarrow> edge_triggered g' v)"
    have v: "[SPI_BASE..<n] ! i = 32 + i" "32 + i < n" "(32 + i) div 16 < 64" using i n by (simp_all add: SPI_BASE_def)
    have b: "(32 + i) mod 16 * 2 + 1 < 32" using mod_less_divisor [of 16 "32 + i"] by linarith
    let ?g = "g'\<lparr>ICFGR := (ICFGR g')[(32 + i) div 16 := ICFGR g' ! ((32 + i) div 16) OR push_bit ((32 + i) mod 16 * 2 + 1) 1]\<rparr>"
    have len: "length (ICFGR g') = 64" using I by (simp add: regs_ok_def)
    have eq: "v div 16 = (32 + i) div 16 \<Longrightarrow> v mod 16 * 2 + 1 = (32 + i) mod 16 * 2 + 1 \<longleftrightarrow> v = 32 + i" for v
      by (metis add_right_cancel div_mult_mod_eq mult_right_cancel zero_neq_numeral)
    have "edge_triggered ?g v \<longleftrightarrow> edge_triggered g' v \<or> v = 32 + i" for v
    proof (cases "v div 16 = (32 + i) div 16")
      case True
      then show ?thesis using eq [OF True] v(3) len bit_set_bit32 [OF b, of "ICFGR g' ! ((32 + i) div 16)" "v mod 16 * 2 + 1"]
        unfolding edge_triggered_def by simp
    next
      case False
      then show ?thesis by (auto simp: edge_triggered_def)
    qed
    then show "runs (configure_interrupt n ([SPI_BASE..<n] ! i) Edge ActiveHigh) g'
      (\<lambda>_ g'. regs_ok g' \<and> enabled g' = enabled g \<and> (\<forall>v. 32 \<le> v \<longrightarrow> v < 32 + Suc i \<longrightarrow> edge_triggered g' v))"
      using I v len by (auto simp: runs_def configure_interrupt_def bind_def assert_cmd_def ret_def SPI_BASE_def Let_def index_res_def regs_ok_def less_Suc_eq)
  qed (use ok in simp)
  then show ?thesis using n by (simp add: SPI_BASE_def)
qed

lemma gicv2_init_ok:
  assumes "regs_ok g"
  shows "runs gicv2_init g (\<lambda>n g'. n = gic_new g \<and> regs_ok g' \<and> (\<forall>j < n div 32. enabled g' ! j = 0) \<and>
    (\<forall>v. 32 \<le> v \<longrightarrow> v < n \<longrightarrow> edge_triggered g' v) \<and> GICD_CTLR g' = 1 \<and> GICC_CTLR g' = 1 \<and> PMR g' = 0xff)"
proof -
  define n where "n = gic_new g"
  have n: "n \<le> 1024" "32 \<le> n" "n mod 32 = 0" unfolding n_def by (rule gic_new_le)+
  let ?E = "\<lambda>g'. regs_ok g' \<and> (\<forall>j < n div 32. enabled g' ! j = 0)"
  let ?V = "\<lambda>g'. \<forall>v. 32 \<le> v \<longrightarrow> v < n \<longrightarrow> edge_triggered g' v"
  have T: "runs (\<lambda>g. if cpu_num g > 1 then for_each (step_by SPI_BASE n 4) (\<lambda>i. ITARGETSR_set (i div 4) 0x01010101) g else Ok ((), g)) g' (\<lambda>_. ?E)"
    if "?E g'" for g'
    using targets_all [of g' n] n that by (simp add: runs_def split: res.splits prod.splits)
  have C: "runs (for_each [SPI_BASE..<n] (\<lambda>i. configure_interrupt n i Edge ActiveHigh)) g' (\<lambda>_ g'. ?E g' \<and> ?V g')" if "?E g'" for g'
    by (rule runs_mono [OF edges_all [of g' n]]) (use that n in auto)
  have "runs (gic_init n) g (\<lambda>_ g'. ?E g' \<and> ?V g' \<and> GICD_CTLR g' = 1 \<and> GICC_CTLR g' = 1 \<and> PMR g' = 0xff)"
    unfolding gic_init_def runs_bind
    by (rule runs_mono [OF masks_all [OF assms n(1,3)]], rule runs_mono [OF T], assumption, rule runs_mono [OF C], assumption)
      (simp add: runs_def regs_ok_def edge_triggered_def)
  then have "runs (bind (gic_init n) (\<lambda>_. ret n)) g (\<lambda>n' g'. n' = n \<and> ?E g' \<and> ?V g' \<and> GICD_CTLR g' = 1 \<and> GICC_CTLR g' = 1 \<and> PMR g' = 0xff)"
    by (simp add: runs_bind)
  then show ?thesis by (auto simp: gicv2_init_def Let_def runs_def n_def split: res.splits)
qed

text \<open>Whatever the size of the interrupt controller, its initialisation stays within the register arrays, makes
  every shared interrupt edge triggered and masks every interrupt; unmasking one interrupt then enables that
  one and no other.\<close>

theorem gic_unmask_one:
  assumes "regs_ok g" and "v < gic_new g"
  shows "runs (bind gicv2_init (\<lambda>n. irq_set_mask n v False)) g
    (\<lambda>_ g'. (\<forall>u < gic_new g. irq_enabled g' u \<longleftrightarrow> u = v) \<and> (\<forall>u. 32 \<le> u \<longrightarrow> u < gic_new g \<longrightarrow> edge_triggered g' u))"
  unfolding runs_bind
proof (rule runs_mono [OF gicv2_init_ok [OF assms(1)]], elim conjE)
  fix n g1 assume n: "n = gic_new g" and g1: "regs_ok g1" "\<forall>j < n div 32. enabled g1 ! j = 0"
    "\<forall>v. 32 \<le> v \<longrightarrow> v < n \<longrightarrow> edge_triggered g1 v"
  let ?g = "g1\<lparr>enabled := (enabled g1)[v div 32 := push_bit (v mod 32) 1]\<rparr>"
  have lt: "u div 32 < n div 32" if "u < n" for u using that gic_new_le(3) [of g] n by (metis div_le_mono div_mult_mod_eq le_less_trans less_le_not_le mult.commute add_0_right not_le less_mult_imp_div_less mult_div_mod_eq)
  have len: "length (enabled g1) = 32" "v div 32 < 32" using g1(1) assms(2) gic_new_le(1) [of g] by (simp_all add: regs_ok_def)
  have "irq_enabled ?g u \<longleftrightarrow> u = v" if u: "u < gic_new g" for u
  proof (cases "u div 32 = v div 32")
    case True
    have "bit (0 OR push_bit (v mod 32) 1 :: u32) (u mod 32) \<longleftrightarrow> u mod 32 = v mod 32" using bit_set_bit32 [of "v mod 32" 0 "u mod 32"] by simp
    also have "\<dots> \<longleftrightarrow> u = v" using True by (metis div_mult_mod_eq)
    finally show ?thesis using True len by (simp add: irq_enabled_def)
  next
    case False
    then show ?thesis using lt [of u] u g1(2) n by (auto simp: irq_enabled_def)
  qed
  moreover have "edge_triggered ?g u = edge_triggered g1 u" for u by (simp add: edge_triggered_def)
  moreover have "irq_set_mask n v False g1 = Ok ((), ?g)" using assms(2) n len g1(2) lt [of v]
    by (simp add: irq_set_mask_def set_enable_def bind_def assert_cmd_def ret_def ISENABLER_set_def index_res_def Let_def)
  ultimately show "runs (irq_set_mask n v False) g1
    (\<lambda>_ g'. (\<forall>u < gic_new g. irq_enabled g' u \<longleftrightarrow> u = v) \<and> (\<forall>u. 32 \<le> u \<longrightarrow> u < gic_new g \<longrightarrow> edge_triggered g' u))"
    using g1(3) n by (simp add: runs_def)
qed

definition sample_gic :: gic_regs where
  "sample_gic = \<lparr>TYPER = 8, GICD_CTLR = 0, enabled = replicate 0x20 0xffffffff, pending = replicate 0x20 0, ITARGETSR = replicate 0x100 0,
     ICFGR = replicate 0x40 0, GICC_CTLR = 0, PMR = 0, EOIR = [], CNTP_TVAL = 0\<rparr>"

theorem gic_unmask_one_witness:
  "runs (bind gicv2_init (\<lambda>n. irq_set_mask n 30 False)) sample_gic (\<lambda>_ g'. \<forall>u < 288. irq_enabled g' u \<longleftrightarrow> u = 30)"
proof -
  have ok: "regs_ok sample_gic" by (simp add: regs_ok_def sample_gic_def)
  have n: "gic_new sample_gic = 288" by (simp add: gic_new_def sample_gic_def)
  then have "30 < gic_new sample_gic" by simp
  from gic_unmask_one [OF ok this] show ?thesis unfolding n by (rule runs_mono) blast
qed

end
