(* ===== verification/SigCalls.thy ===== *)
theory SigCalls
  imports SyncPrims UAccess ForkSpec
begin

text \<open>
  The system calls that send signals and set their actions (src/os/src/syscall/signal.rs): \<open>sys_kill\<close> on the
  kernel, \<open>sys_sigaction\<close> on the kernel and the memory of the program that calls it.
\<close>

section \<open>Kill\<close>

text \<open>The loop over the tasks of the process, with the number of tasks that have got the signal so far.\<close>

fun kill_tasks :: "u32 \<Rightarrow> tref list \<Rightarrow> nat \<Rightarrow> ('f kernel, nat) cmd" where
  "kill_tasks flag [] n = ret n"
| "kill_tasks flag (t # ts) n = bind (get_task t) (\<lambda>T.
     if t_state T \<noteq> TZombie then
       (if \<not> sig_contains (signals (t_signal T)) flag
        then bind (modify_task t (\<lambda>T. T\<lparr>t_signal := set_singal (t_signal T) flag\<rparr>)) (\<lambda>_. kill_tasks flag ts (n + 1))
        else kill_tasks flag ts n)
     else kill_tasks flag ts n)"

definition sys_kill :: "nat \<Rightarrow> i32 \<Rightarrow> ('f kernel, int) cmd" where
  "sys_kill pid signum =
     bind (pid2proc pid) (\<lambda>q. case q of
       None \<Rightarrow> ret (-1)
     | Some p \<Rightarrow> (case sig_from_bits (SIG (unat signum)) of
         None \<Rightarrow> ret (-1)
       | Some flag \<Rightarrow> bind (get_proc p) (\<lambda>P. bind (kill_tasks flag (map snd (tasks P)) 0) (\<lambda>n.
           ret (if n > 0 then 0 else -1)))))"

section \<open>Sigaction\<close>

text \<open>The kernel and the memory of the current program.\<close>

definition on_kernel :: "('f kernel, 'a) cmd \<Rightarrow> ('f kernel \<times> umem, 'a) cmd" where
  "on_kernel m = (\<lambda>(k, u). case m k of Ok (a, k') \<Rightarrow> Ok (a, (k', u)) | Panic e \<Rightarrow> Panic e)"

definition on_user :: "(umem, 'a) cmd \<Rightarrow> ('f kernel \<times> umem, 'a) cmd" where
  "on_user m = (\<lambda>(k, u). case m u of Ok (a, u') \<Rightarrow> Ok (a, (k, u')) | Panic e \<Rightarrow> Panic e)"

text \<open>A \<open>SignalAction\<close> in memory: 8 bytes of handler, 4 of mask and 4 of padding, whose values the language does
  not fix; the size is 16 and the alignment 8.\<close>

definition action_bytes :: "bytes \<Rightarrow> SignalAction \<Rightarrow> bytes" where
  "action_bytes pad a = u64_bytes (handler a) @ u32_bytes (act_mask a) @ pad"

definition action_of :: "bytes \<Rightarrow> SignalAction" where
  "action_of bs = \<lparr>handler = le_word (take 8 bs), act_mask = le_word (take 4 (drop 8 bs))\<rparr>"

definition action_read :: "UserPtr \<Rightarrow> (umem, SignalAction) cmd" where
  "action_read p = bind (ptr_read 16 8 p) (\<lambda>bs. ret (action_of bs))"

definition action_write :: "bytes \<Rightarrow> UserPtr \<Rightarrow> SignalAction \<Rightarrow> (umem, unit) cmd" where
  "action_write pad p a = ptr_write 16 8 p (action_bytes pad a)"

definition sys_sigaction :: "bytes \<Rightarrow> i32 \<Rightarrow> UserPtr \<Rightarrow> UserPtr \<Rightarrow> ('f kernel \<times> umem, int) cmd" where
  "sys_sigaction pad signum action old_action =
     (if unat (scast signum :: u64) > MAX_SIG then ret (-1)
      else case sig_from_bits (SIG (unat signum)) of
        None \<Rightarrow> ret (-1)
      | Some signal \<Rightarrow>
        if ptr_is_null action \<or> ptr_is_null old_action \<or> signal = SIGKILL \<or> signal = SIGSTOP then ret (-1)
        else bind (on_kernel current_proc) (\<lambda>p. bind (on_kernel (get_proc p)) (\<lambda>P.
          bind (lift (index_res (signal_actions P) (unat (scast signum :: u64)))) (\<lambda>old_kernel_action.
          bind (if act_mask old_kernel_action \<noteq> TRAP_QUIT then on_user (action_write pad old_action old_kernel_action)
                else bind (on_user (action_read old_action)) (\<lambda>a.
                  on_user (action_write pad old_action (a\<lparr>handler := handler old_kernel_action\<rparr>)))) (\<lambda>_.
          bind (on_user (action_read action)) (\<lambda>a.
          bind (lift (update_res (signal_actions P) (unat (scast signum :: u64)) a)) (\<lambda>table.
          bind (on_kernel (modify_proc p (\<lambda>P. P\<lparr>signal_actions := table\<rparr>))) (\<lambda>_. ret 0))))))))"

section \<open>Facts\<close>

lemma sig_from_bits_all: "sig_from_bits b = Some b"
proof -
  have "SIG_all = - 1" by (simp add: SIG_all_def SIG_def upt_rec)
  then show ?thesis by (simp add: sig_from_bits_def)
qed

text \<open>The task with a signal that is not pending yet, unless it has exited.\<close>

definition hit :: "u32 \<Rightarrow> Task \<Rightarrow> bool" where
  "hit flag T \<longleftrightarrow> t_state T \<noteq> TZombie \<and> \<not> sig_contains (signals (t_signal T)) flag"

definition signalled :: "u32 \<Rightarrow> Task \<Rightarrow> Task" where
  "signalled flag T = (if t_state T = TZombie then T else T\<lparr>t_signal := set_singal (t_signal T) flag\<rparr>)"

lemma signalled_pending: "\<not> hit flag T \<Longrightarrow> signalled flag T = T"
proof -
  assume "\<not> hit flag T"
  moreover have "set_singal i flag = i" if "sig_contains (signals i) flag" for i
  proof -
    have "signals i OR flag = signals i OR (signals i AND flag)" using that by (simp add: sig_contains_def)
    also have "\<dots> = signals i" by (rule bit_eqI) (auto simp: bit_simps)
    finally show ?thesis by (simp add: set_singal_def)
  qed
  ultimately show ?thesis by (cases T) (auto simp: hit_def signalled_def)
qed

lemma kill_tasks_ok:
  assumes "distinct ts" and "\<forall>t\<in>set ts. task_heap k t \<noteq> None"
  shows "kill_tasks flag ts n k = Ok (n + length (filter (\<lambda>t. hit flag (the (task_heap k t))) ts),
    k\<lparr>task_heap := \<lambda>t. if t \<in> set ts then map_option (signalled flag) (task_heap k t) else task_heap k t\<rparr>)"
  using assms
proof (induction ts arbitrary: n k)
  case Nil
  then show ?case by (simp add: ret_def)
next
  case (Cons t ts)
  obtain T where T: "task_heap k t = Some T" using Cons.prems(2) by auto
  let ?k = "k\<lparr>task_heap := (task_heap k)(t \<mapsto> signalled flag T)\<rparr>"
  have st: "kill_tasks flag (t # ts) n k = kill_tasks flag ts (n + (if hit flag T then 1 else 0)) ?k"
  proof (cases "hit flag T")
    case True
    then show ?thesis using T by (simp add: hit_def signalled_def bind_def get_task_def modify_task_def modifies_def)
  next
    case False
    then have "?k = k" using T signalled_pending by (simp add: fun_upd_idem)
    then show ?thesis using T False by (auto simp: hit_def bind_def get_task_def)
  qed
  have nt: "t \<notin> set ts" using Cons.prems(1) by simp
  then have f: "filter (\<lambda>u. hit flag (the (task_heap ?k u))) ts = filter (\<lambda>u. hit flag (the (task_heap k u))) ts"
    by (intro filter_cong) auto
  have "(\<lambda>u. if u \<in> set ts then map_option (signalled flag) (task_heap ?k u) else task_heap ?k u) =
    (\<lambda>u. if u \<in> set (t # ts) then map_option (signalled flag) (task_heap k u) else task_heap k u)" using nt T by (auto simp: fun_eq_iff)
  moreover have "distinct ts" "\<forall>u\<in>set ts. task_heap ?k u \<noteq> None" using Cons.prems by simp_all
  from Cons.IH [OF this] have "kill_tasks flag ts m ?k = Ok (m + length (filter (\<lambda>u. hit flag (the (task_heap ?k u))) ts),
      ?k\<lparr>task_heap := \<lambda>u. if u \<in> set ts then map_option (signalled flag) (task_heap ?k u) else task_heap ?k u\<rparr>)" for m .
  ultimately show ?case unfolding st f using T by simp
qed



section \<open>Actions in user memory\<close>

definition action_slot :: "u64 \<Rightarrow> bool" where
  "action_slot q \<longleftrightarrow> q \<noteq> 0 \<and> q mod 8 = 0 \<and> unat q + 16 \<le> 2 ^ 48"

lemma action_of_bytes [simp]: "action_of (action_bytes pad a) = a"
  by (simp add: action_of_def action_bytes_def)

lemma slot_ok:
  assumes "action_slot q"
  shows "ptr_check 8 (UserPtr q)" "uaccess_ok q 16"
  using assms by (simp_all add: action_slot_def ptr_check_def uaccess_ok_iff)

lemma action_read_ok:
  assumes "action_slot q" and "readable_at u q 16"
  shows "action_read (UserPtr q) u = Ok (action_of (bytes_at u q 16), u)"
  using slot_ok [OF assms(1)] load_bytes_ok [OF assms(2)]
  by (simp add: action_read_def ptr_read_def copy_from_user_def assert_cmd_def bind_def ret_def)

lemma action_write_ok:
  assumes "action_slot q" and "writable_at u q 16" and "length pad = 4"
  obtains u' where "action_write pad (UserPtr q) a u = Ok ((), u')" "bytes_at u' q 16 = action_bytes pad a"
    "\<And>x. \<not> (unat q \<le> unat x \<and> unat x < unat q + 16) \<Longrightarrow> u' x = u x"
proof -
  have l: "length (action_bytes pad a) = 16" using assms(3) by (simp add: action_bytes_def)
  have "unat q + 16 < 2 ^ 64" using assms(1) by (simp add: action_slot_def)
  note r = in_range_unat [OF this]
  from store_bytes_ok [of u q "action_bytes pad a"] assms(2) l obtain u' where
    u': "store_bytes q (action_bytes pad a) u = Ok ((), u')" "bytes_at u' q 16 = action_bytes pad a"
      "\<forall>x. x \<notin> (\<lambda>i. q + of_nat i) ` {..<16} \<longrightarrow> u' x = u x" by auto
  show thesis
  proof (rule that [OF _ u'(2)])
    show "action_write pad (UserPtr q) a u = Ok ((), u')"
      using slot_ok [OF assms(1)] u'(1) l by (simp add: action_write_def ptr_write_def copy_to_user_def assert_cmd_def bind_def ret_def)
  qed (use u'(3) r in blast)
qed

lemma writable_readable: "writable_at u q n \<Longrightarrow> readable_at u q n"
  unfolding writable_at_def readable_at_def by fastforce

text \<open>What the call leaves in the place of the old action: all of it, or the handler alone when the mask is the
  default one.\<close>

lemma old_action_written:
  fixes k :: "'f kernel"
  assumes "action_slot q" and "writable_at u q 16" and "length pad = 4"
  obtains u' where "(if act_mask old \<noteq> TRAP_QUIT then on_user (action_write pad (UserPtr q) old)
      else bind (on_user (action_read (UserPtr q))) (\<lambda>a. on_user (action_write pad (UserPtr q) (a\<lparr>handler := handler old\<rparr>)))) (k, u) = Ok ((), (k, u'))"
    "action_of (bytes_at u' q 16) = \<lparr>handler = handler old, act_mask = if act_mask old \<noteq> TRAP_QUIT then act_mask old else act_mask (action_of (bytes_at u q 16))\<rparr>"
    "\<And>x. \<not> (unat q \<le> unat x \<and> unat x < unat q + 16) \<Longrightarrow> u' x = u x"
proof -
  let ?a = "if act_mask old \<noteq> TRAP_QUIT then old else (action_of (bytes_at u q 16))\<lparr>handler := handler old\<rparr>"
  obtain u' where u': "action_write pad (UserPtr q) ?a u = Ok ((), u')" "bytes_at u' q 16 = action_bytes pad ?a"
    "\<And>x. \<not> (unat q \<le> unat x \<and> unat x < unat q + 16) \<Longrightarrow> u' x = u x" by (rule action_write_ok [OF assms, where a = ?a]) blast
  show thesis
  proof (rule that [OF _ _ u'(3)])
    show "(if act_mask old \<noteq> TRAP_QUIT then on_user (action_write pad (UserPtr q) old)
        else bind (on_user (action_read (UserPtr q))) (\<lambda>a. on_user (action_write pad (UserPtr q) (a\<lparr>handler := handler old\<rparr>)))) (k, u) = Ok ((), (k, u'))"
      using u'(1) action_read_ok [OF assms(1) writable_readable [OF assms(2)]] by (auto simp: on_user_def bind_def split: if_splits)
    show "action_of (bytes_at u' q 16) = \<lparr>handler = handler old, act_mask = if act_mask old \<noteq> TRAP_QUIT then act_mask old else act_mask (action_of (bytes_at u q 16))\<rparr>"
      unfolding u'(2) action_of_bytes by (cases old; cases "action_of (bytes_at u q 16)") simp
  qed
qed

lemma signum_of_nat:
  assumes "n \<le> MAX_SIG"
  shows "unat (of_nat n :: i32) = n" "unat (scast (of_nat n :: i32) :: u64) = n"
proof -
  show u: "unat (of_nat n :: i32) = n" using assms by (simp add: unat_of_nat)
  have "sint (of_nat n :: i32) = int n" using assms by (simp add: sint_uint uint_nat u signed_take_bit_int_eq_self)
  then show "unat (scast (of_nat n :: i32) :: u64) = n"
    using assms by (simp add: scast_eq unat_of_nat)
qed

lemma SIG_inj: "m < 32 \<Longrightarrow> n < 32 \<Longrightarrow> SIG m = SIG n \<longleftrightarrow> m = n"
  by (metis SIG_bit mod_less)

text \<open>C30.  \<open>sigaction\<close> installs the action it finds in the caller's memory as the action of its process for the signal,
  and no other, and stores the handler it replaces, and the mask unless that is the default one, in the place for
  the old action.  It changes no other byte of the caller's memory.  With a signal number that does not exist,
  a null pointer, \<open>SIGKILL\<close> or \<open>SIGSTOP\<close> it fails and changes nothing.\<close>

theorem sigaction_correct:
  assumes inv: "sched_inv k" and P: "btm_get (procs k) (ref_pid (current_task k)) = Some P" "length (signal_actions P) = MAX_SIG + 1"
    and n: "n \<le> MAX_SIG" "n \<noteq> 9" "n \<noteq> 19"
    and a: "action_slot a" "readable_at u a 16" and q: "action_slot q" "writable_at u q 16"
    and apart: "unat a + 16 \<le> unat q \<or> unat q + 16 \<le> unat a" and pad: "length pad = 4"
  shows "(\<exists>u'. sys_sigaction pad (of_nat n) (UserPtr a) (UserPtr q) (k, u) =
        Ok (0, (k\<lparr>procs := btm_insert (ref_pid (current_task k)) (P\<lparr>signal_actions := (signal_actions P)[n := action_of (bytes_at u a 16)]\<rparr>) (procs k)\<rparr>, u')) \<and>
      handler (action_of (bytes_at u' q 16)) = handler (signal_actions P ! n) \<and>
      act_mask (action_of (bytes_at u' q 16)) = (if act_mask (signal_actions P ! n) \<noteq> TRAP_QUIT
        then act_mask (signal_actions P ! n) else act_mask (action_of (bytes_at u q 16))) \<and>
      (\<forall>x. \<not> (unat q \<le> unat x \<and> unat x < unat q + 16) \<longrightarrow> u' x = u x)) \<and>
    (\<forall>signum action old. MAX_SIG < unat (scast signum :: u64) \<or> signum = 9 \<or> signum = 19 \<or> ptr action = 0 \<or> ptr old = 0 \<longrightarrow>
      sys_sigaction pad signum action old (k, u) = Ok (-1, (k, u)))"
proof (intro conjI allI impI)
  let ?p = "ref_pid (current_task k)" and ?old = "signal_actions P ! n"
  obtain u' where u': "(if act_mask ?old \<noteq> TRAP_QUIT then on_user (action_write pad (UserPtr q) ?old)
      else bind (on_user (action_read (UserPtr q))) (\<lambda>a. on_user (action_write pad (UserPtr q) (a\<lparr>handler := handler ?old\<rparr>)))) (k, u) = Ok ((), (k, u'))"
    "action_of (bytes_at u' q 16) = \<lparr>handler = handler ?old, act_mask = if act_mask ?old \<noteq> TRAP_QUIT then act_mask ?old else act_mask (action_of (bytes_at u q 16))\<rparr>"
    "\<And>x. \<not> (unat q \<le> unat x \<and> unat x < unat q + 16) \<Longrightarrow> u' x = u x"
    by (rule old_action_written [OF q pad, where old = ?old and k = k]) blast
  have same: "u' (a + of_nat i) = u (a + of_nat i)" if "i < 16" for i
  proof (rule u'(3))
    have "unat (a + of_nat i) = unat a + i" using a(1) that by (simp add: action_slot_def unat_word_ariths unat_of_nat)
    then show "\<not> (unat q \<le> unat (a + of_nat i) \<and> unat (a + of_nat i) < unat q + 16)" using apart that by auto
  qed
  have "readable_at u' a 16" "bytes_at u' a 16 = bytes_at u a 16" using a(2) same by (simp_all add: readable_at_def bytes_at_def)
  then have rd: "action_read (UserPtr a) u' = Ok (action_of (bytes_at u a 16), u')" using action_read_ok [OF a(1)] by simp
  have "runs (task_proc (current_task k)) k (\<lambda>p k'. p = ?p \<and> k' = k)" by (rule home_task_proc(1) [OF sched_invD(5) [OF inv]])
  then have cp: "current_proc k = Ok (?p, k)" by (auto simp: runs_iff current_proc_def bind_def gets_def)
  have gp: "get_proc ?p k = Ok (P, k)" using P(1) by (simp add: get_proc_def)
  have "SIG n \<noteq> SIGKILL" "SIG n \<noteq> SIGSTOP" using n by (simp_all add: SIG_inj)
  moreover have "\<not> ptr_is_null (UserPtr a)" "\<not> ptr_is_null (UserPtr q)" using a(1) q(1) by (simp_all add: ptr_is_null_def action_slot_def)
  moreover have "n < length (signal_actions P)" using n(1) P(2) by simp
  ultimately have "sys_sigaction pad (of_nat n) (UserPtr a) (UserPtr q) (k, u) =
      Ok (0, (k\<lparr>procs := btm_insert ?p (P\<lparr>signal_actions := (signal_actions P)[n := action_of (bytes_at u a 16)]\<rparr>) (procs k)\<rparr>, u'))"
    using n(1) u'(1) unfolding sys_sigaction_def signum_of_nat [OF n(1)] sig_from_bits_all
    by (simp add: bind_def on_kernel_def on_user_def cp gp rd lift_def index_res_def update_res_def modify_proc_def modifies_def ret_def split: if_splits)
  then show "\<exists>u'. sys_sigaction pad (of_nat n) (UserPtr a) (UserPtr q) (k, u) =
        Ok (0, (k\<lparr>procs := btm_insert ?p (P\<lparr>signal_actions := (signal_actions P)[n := action_of (bytes_at u a 16)]\<rparr>) (procs k)\<rparr>, u')) \<and>
      handler (action_of (bytes_at u' q 16)) = handler ?old \<and>
      act_mask (action_of (bytes_at u' q 16)) = (if act_mask ?old \<noteq> TRAP_QUIT then act_mask ?old else act_mask (action_of (bytes_at u q 16))) \<and>
      (\<forall>x. \<not> (unat q \<le> unat x \<and> unat x < unat q + 16) \<longrightarrow> u' x = u x)" using u'(2,3) by (intro exI [of _ u']) simp
next
  fix signum :: i32 and action old
  assume "MAX_SIG < unat (scast signum :: u64) \<or> signum = 9 \<or> signum = 19 \<or> ptr action = 0 \<or> ptr old = 0"
  then show "sys_sigaction pad signum action old (k, u) = Ok (-1, (k, u))"
    by (auto simp: sys_sigaction_def sig_from_bits_all ptr_is_null_def ret_def)
qed

theorem sigaction_correct_witness:
  "\<exists>k' u'. sys_sigaction [0, 0, 0, 0] 10 (UserPtr 0x1000) (UserPtr 0x2000) (sample_kernel (TRef 2 0) [TRef 1 0], \<lambda>_. Some (0, True)) = Ok (0, (k', u')) \<and>
     action_of (bytes_at u' 0x2000 16) = \<lparr>handler = 0, act_mask = 0\<rparr>"
proof -
  let ?k = "sample_kernel (TRef 2 0) [TRef 1 0]" and ?P = "sample_process 2 False (Some (fst sample_ms))" and ?u = "\<lambda>_. Some (0, True)"
  have i: "sched_inv ?k" by (rule sample_inv) auto
  have P: "btm_get (procs ?k) (ref_pid (current_task ?k)) = Some ?P" "length (signal_actions ?P) = MAX_SIG + 1"
    by (simp_all add: sample_kernel_def btm_get_def sample_process_def default_actions_def)
  have s: "action_slot 0x1000" "action_slot 0x2000" by (simp_all add: action_slot_def)
  have r: "readable_at ?u 0x1000 16" "writable_at ?u 0x2000 16" by (simp_all add: readable_at_def writable_at_def)
  have old: "signal_actions ?P ! 10 = \<lparr>handler = 0, act_mask = TRAP_QUIT\<rparr>" by (simp add: sample_process_def default_actions_def)
  have z: "act_mask (action_of (bytes_at ?u 0x2000 16)) = 0"
    by (simp add: action_of_def bytes_at_def map_replicate_const upt_rec)
  obtain u' where u': "sys_sigaction [0, 0, 0, 0] (of_nat 10) (UserPtr 0x1000) (UserPtr 0x2000) (?k, ?u) =
      Ok (0, (?k\<lparr>procs := btm_insert (ref_pid (current_task ?k)) (?P\<lparr>signal_actions := (signal_actions ?P)[10 := action_of (bytes_at ?u 0x1000 16)]\<rparr>) (procs ?k)\<rparr>, u'))"
    "handler (action_of (bytes_at u' 0x2000 16)) = handler (signal_actions ?P ! 10)"
    "act_mask (action_of (bytes_at u' 0x2000 16)) = (if act_mask (signal_actions ?P ! 10) \<noteq> TRAP_QUIT
        then act_mask (signal_actions ?P ! 10) else act_mask (action_of (bytes_at ?u 0x2000 16)))"
    using conjunct1 [OF sigaction_correct [OF i P _ _ _ s(1) r(1) s(2) r(2), of 10 "[0, 0, 0, 0]"]] by auto
  have "action_of (bytes_at u' 0x2000 16) = \<lparr>handler = 0, act_mask = 0\<rparr>" using u'(2,3) by (cases "action_of (bytes_at u' 0x2000 16)") (simp add: old z)
  then show ?thesis using u'(1) by auto
qed

end
