(* ===== verification/Spec2Isabelle.thy ===== *)
theory Spec2Isabelle
  imports Prelude Bytes Allocator OsFiles SpaceProps Signals Spin Pipes UAccess Timers Gic SigCalls
begin

text \<open>
  Verification of rCore-Tutorial-v3-arm64: a Unix-like kernel in Rust (src/os) with its
  file system (src/easy-fs).
\<close>

end
